(* ===== verification/Prelude.thy ===== *)
theory Prelude
  imports Main "HOL-Library.Word"
begin

text \<open>
  Shared vocabulary of the development: the C integer types, little-endian byte images,
  bounded scans over fixed-size tables, and the rotating checksum's arithmetic lemmas.
  Tables of fixed size are functions from the index; a bounded scan is \<open>first_idx\<close>.
\<close>

unbundle bit_operations_syntax

named_theorems byte_simps \<open>round trips and lengths of the byte images\<close>

section \<open>C integer types\<close>

type_synonym u8 = "8 word"
type_synonym u16 = "16 word"
type_synonym u32 = "32 word"
type_synonym u64 = "64 word"
type_synonym bytes = "u8 list"

lemma unat_u8_less: "unat (v :: u8) < 256"
  and unat_u16_less: "unat (v16 :: u16) < 65536"
  and unat_u32_less: "unat (v32 :: u32) < 4294967296"
  and unat_u64_less: "unat (v64 :: u64) < 18446744073709551616"
  using unsigned_less [of v, where ?'a = nat] unsigned_less [of v16, where ?'a = nat]
    unsigned_less [of v32, where ?'a = nat] unsigned_less [of v64, where ?'a = nat] by simp_all

lemma unat_ucast_32_64 [simp]: "unat (ucast (v :: u32) :: u64) = unat v"
  using unat_u32_less [of v] by (simp add: unsigned_ucast_eq take_bit_nat_eq_self)

lemma unat_ucast_16_32 [simp]: "unat (ucast (v :: u16) :: u32) = unat v"
  using unat_u16_less [of v] by (simp add: unsigned_ucast_eq take_bit_nat_eq_self)

lemma unat_ucast_8_32 [simp]: "unat (ucast (v :: u8) :: u32) = unat v"
  using unat_u8_less [of v] by (simp add: unsigned_ucast_eq take_bit_nat_eq_self)

text \<open>Two ring positions less than one lap apart are different.\<close>

lemma mod_lap_neq: "k < n \<Longrightarrow> n < k + m \<Longrightarrow> k mod m \<noteq> n mod (m :: nat)"
proof
  assume "k < n" "n < k + m" "k mod m = n mod m"
  then have "m dvd n - k" using mod_eq_dvd_iff_nat [of k n m] by simp
  with \<open>k < n\<close> \<open>n < k + m\<close> show False by (auto dest!: dvd_imp_le)
qed

lemma unat_mod_256 [simp]: "unat (x mod 256 :: u64) = unat x mod 256"
  by (simp add: unat_mod)

lemma unat_Suc_u64: "unat (x :: u64) + 1 < 18446744073709551616 \<Longrightarrow> unat (x + 1) = unat x + 1"
  by (simp add: unat_word_ariths)

lemma unat_pred_u64: "0 < (x :: u64) \<Longrightarrow> unat (x - 1) = unat x - 1"
  by (simp add: unat_minus_one word_gt_0)

section \<open>Little-endian images\<close>

definition le16 :: "u16 \<Rightarrow> bytes" where
  "le16 v = [ucast v, ucast (drop_bit 8 v)]"

definition le32 :: "u32 \<Rightarrow> bytes" where
  "le32 v = [ucast v, ucast (drop_bit 8 v), ucast (drop_bit 16 v), ucast (drop_bit 24 v)]"

definition le64 :: "u64 \<Rightarrow> bytes" where
  "le64 v = le32 (ucast v) @ le32 (ucast (drop_bit 32 v))"

text \<open>Reads of a multi-byte field at an offset of a byte image.\<close>

definition get16 :: "bytes \<Rightarrow> nat \<Rightarrow> u16" where
  "get16 b i = ucast (b ! i) OR push_bit 8 (ucast (b ! (i + 1)))"

definition get32 :: "bytes \<Rightarrow> nat \<Rightarrow> u32" where
  "get32 b i = ucast (b ! i) OR push_bit 8 (ucast (b ! (i + 1)))
     OR push_bit 16 (ucast (b ! (i + 2))) OR push_bit 24 (ucast (b ! (i + 3)))"

definition get64 :: "bytes \<Rightarrow> nat \<Rightarrow> u64" where
  "get64 b i = ucast (get32 b i) OR push_bit 32 (ucast (get32 b (i + 4)))"

lemma length_le16 [simp, byte_simps]: "length (le16 v) = 2"
  by (simp add: le16_def)

lemma length_le32 [simp, byte_simps]: "length (le32 v) = 4"
  by (simp add: le32_def)

lemma length_le64 [simp, byte_simps]: "length (le64 v) = 8"
  by (simp add: le64_def)

lemma join16: "ucast (ucast v :: u8) OR push_bit 8 (ucast (ucast (drop_bit 8 v) :: u8)) = (v :: u16)"
  by (rule bit_word_eqI) (auto simp: bit_simps)

lemma join32:
  "ucast (ucast v :: u8) OR push_bit 8 (ucast (ucast (drop_bit 8 v) :: u8))
     OR push_bit 16 (ucast (ucast (drop_bit 16 v) :: u8))
     OR push_bit 24 (ucast (ucast (drop_bit 24 v) :: u8)) = (v :: u32)"
proof (rule bit_word_eqI)
  fix n
  assume "n < LENGTH(32)"
  then have "n < 8 \<or> (8 \<le> n \<and> n < 16) \<or> (16 \<le> n \<and> n < 24) \<or> (24 \<le> n \<and> n < 32)" by simp arith
  then show "bit ((ucast (ucast v :: u8) :: u32) OR push_bit 8 (ucast (ucast (drop_bit 8 v) :: u8))
     OR push_bit 16 (ucast (ucast (drop_bit 16 v) :: u8))
     OR push_bit 24 (ucast (ucast (drop_bit 24 v) :: u8))) n = bit v n"
    by (elim disjE) (auto simp: bit_simps less_diff_conv2)
qed

lemma join64: "ucast (ucast v :: u32) OR push_bit 32 (ucast (ucast (drop_bit 32 v) :: u32)) = (v :: u64)"
  by (rule bit_word_eqI) (auto simp: bit_simps)

text \<open>A field written at offset \<open>length pre\<close> reads back, whatever surrounds it.\<close>

lemma get16_le16 [byte_simps]: "i = length pre \<Longrightarrow> get16 (pre @ le16 v @ post) i = v"
  by (simp add: get16_def le16_def nth_append join16)

lemma get32_le32 [byte_simps]: "i = length pre \<Longrightarrow> get32 (pre @ le32 v @ post) i = v"
  by (simp add: get32_def le32_def nth_append join32)

lemma get64_le64 [byte_simps]: "i = length pre \<Longrightarrow> get64 (pre @ le64 v @ post) i = v"
proof -
  assume i: "i = length pre"
  have lo: "get32 (pre @ le64 v @ post) i = ucast v"
    using get32_le32 [of i pre "ucast v" "le32 (ucast (drop_bit 32 v)) @ post"] i
    by (simp add: le64_def)
  have hi: "get32 (pre @ le64 v @ post) (i + 4) = ucast (drop_bit 32 v)"
    using get32_le32 [of "i + 4" "pre @ le32 (ucast v)" "ucast (drop_bit 32 v)" post] i
    by (simp add: le64_def)
  show ?thesis by (simp add: get64_def lo hi join64)
qed

lemma get32_take_drop: "i + 4 \<le> n \<Longrightarrow> n \<le> length b \<Longrightarrow> get32 (take n b) i = get32 b i"
  by (simp add: get32_def)

lemma get32_append1: "i + 4 \<le> length b \<Longrightarrow> get32 (b @ c) i = get32 b i"
  by (simp add: get32_def nth_append)

lemma get32_append2: "get32 (b @ c) (length b + i) = get32 c i"
  by (simp add: get32_def nth_append add.assoc)

section \<open>Writes into a byte buffer\<close>

text \<open>\<open>poke b off xs\<close> is the store of \<open>xs\<close> at \<open>b + off\<close>; it fits when
  \<open>off + length xs \<le> length b\<close>.\<close>

definition poke :: "'a list \<Rightarrow> nat \<Rightarrow> 'a list \<Rightarrow> 'a list" where
  "poke b off xs = take off b @ xs @ drop (off + length xs) b"

lemma length_poke [simp]: "off + length xs \<le> length b \<Longrightarrow> length (poke b off xs) = length b"
  by (simp add: poke_def)

lemma nth_poke:
  "off + length xs \<le> length b \<Longrightarrow> i < length b \<Longrightarrow>
   poke b off xs ! i = (if off \<le> i \<and> i < off + length xs then xs ! (i - off) else b ! i)"
  by (auto simp: poke_def nth_append min_def)

lemma get32_poke_same [byte_simps]: "off + 4 \<le> length b \<Longrightarrow> get32 (poke b off (le32 v)) off = v"
  unfolding poke_def by (rule get32_le32) simp

lemma get32_poke_other [byte_simps]:
  "off + length xs \<le> length b \<Longrightarrow> i + 4 \<le> length b \<Longrightarrow> i + 4 \<le> off \<or> off + length xs \<le> i \<Longrightarrow>
   get32 (poke b off xs) i = get32 b i"
  by (auto simp: get32_def nth_poke)

lemma take_drop_poke_same [byte_simps]:
  "off + length xs \<le> length b \<Longrightarrow> n = length xs \<Longrightarrow> take n (drop off (poke b off xs)) = xs"
  by (simp add: poke_def)

lemma take_drop_poke_other:
  assumes "off + length xs \<le> length b" "i + n \<le> length b" "i + n \<le> off \<or> off + length xs \<le> i"
  shows "take n (drop i (poke b off xs)) = take n (drop i b)"
  using assms by (intro nth_equalityI) (auto simp: nth_poke)

lemma poke_append: "off + length xs \<le> length b \<Longrightarrow> poke (b @ c) off xs = poke b off xs @ c"
  by (simp add: poke_def)

text \<open>Cutting record \<open>k\<close> out of an array image of records of \<open>w\<close> bytes.\<close>

lemma length_concat_const:
  "(\<And>x. x \<in> set xs \<Longrightarrow> length (f x) = w) \<Longrightarrow> length (concat (map f xs)) = w * length xs"
  by (induction xs) auto

lemma chunk_concat_in:
  assumes "\<And>x. x \<in> set xs \<Longrightarrow> length (f x) = w" and "k < length xs"
  shows "take w (drop (w * k) (concat (map f xs))) = f (xs ! k)"
  using assms
proof (induction xs arbitrary: k)
  case Nil
  then show ?case by simp
next
  case (Cons x xs)
  then show ?case by (cases k) simp_all
qed

lemma chunk_concat: "(\<And>x. length (f x) = w) \<Longrightarrow> k < length xs \<Longrightarrow>
  take w (drop (w * k) (concat (map f xs))) = f (xs ! k)"
  by (rule chunk_concat_in)

section \<open>Bounded scans\<close>

text \<open>The C idiom \<open>for (i = lo; i < hi; i++) if (p(i)) return i;\<close>.\<close>

function first_idx :: "(nat \<Rightarrow> bool) \<Rightarrow> nat \<Rightarrow> nat \<Rightarrow> nat option" where
  "first_idx p lo hi =
     (if lo < hi then (if p lo then Some lo else first_idx p (Suc lo) hi) else None)"
  by pat_completeness auto
termination
  by (relation "measure (\<lambda>(p, lo, hi). hi - lo)") auto

declare first_idx.simps [simp del]

lemma first_idx_Some:
  "first_idx p lo hi = Some i \<longleftrightarrow> lo \<le> i \<and> i < hi \<and> p i \<and> (\<forall>j. lo \<le> j \<and> j < i \<longrightarrow> \<not> p j)"
proof (induction p lo hi rule: first_idx.induct)
  case (1 p lo hi)
  show ?case
  proof (cases "lo < hi \<and> \<not> p lo")
    case True
    then have "first_idx p lo hi = first_idx p (Suc lo) hi"
      by (simp add: first_idx.simps [of p lo hi])
    with True "1.IH" show ?thesis
      by (auto simp: le_Suc_eq Suc_le_eq) (metis le_neq_implies_less)+
  next
    case False
    then show ?thesis by (auto simp: first_idx.simps [of p lo hi])
  qed
qed

lemma first_idx_None: "first_idx p lo hi = None \<longleftrightarrow> (\<forall>j. lo \<le> j \<and> j < hi \<longrightarrow> \<not> p j)"
proof (induction p lo hi rule: first_idx.induct)
  case (1 p lo hi)
  show ?case
  proof (cases "lo < hi \<and> \<not> p lo")
    case True
    then have "first_idx p lo hi = first_idx p (Suc lo) hi"
      by (simp add: first_idx.simps [of p lo hi])
    with True "1.IH" show ?thesis
      by (auto simp: Suc_le_eq) (metis le_neq_implies_less)
  next
    case False
    then show ?thesis by (auto simp: first_idx.simps [of p lo hi])
  qed
qed

lemma first_idx_SomeD:
  assumes "first_idx p lo hi = Some i"
  shows "lo \<le> i" and "i < hi" and "p i" and "\<And>j. lo \<le> j \<Longrightarrow> j < i \<Longrightarrow> \<not> p j"
  using assms by (auto simp: first_idx_Some)

lemma first_idx_least: "p i \<Longrightarrow> i < hi \<Longrightarrow> \<exists>j\<le>i. first_idx p 0 hi = Some j"
proof (cases "first_idx p 0 hi")
  case None
  assume "p i" "i < hi"
  with None show ?thesis by (auto simp: first_idx_None)
next
  case (Some j)
  assume "p i" "i < hi"
  with Some show ?thesis by (auto simp: first_idx_Some not_less [symmetric])
qed

text \<open>Widening a scan past the last index that satisfies the predicate changes nothing.\<close>

lemma first_idx_bound_eq:
  assumes "\<And>i. i < n \<Longrightarrow> p i \<Longrightarrow> i < m" and "m \<le> n"
  shows "first_idx p 0 m = first_idx p 0 n"
proof (cases "first_idx p 0 n")
  case None
  with assms(2) have "first_idx p 0 m = None" by (auto simp: first_idx_None)
  with None show ?thesis by simp
next
  case (Some i)
  with assms have "first_idx p 0 m = Some i" by (auto simp: first_idx_Some)
  with Some show ?thesis by simp
qed

section \<open>Page addresses\<close>

lemma unat_page_base: "unat (v AND NOT 0xFFF :: u64) = unat v div 4096 * 4096"
proof -
  have m: "(0xFFF :: u64) = mask 12" by (simp add: mask_eq_exp_minus_1)
  have e: "v AND NOT 0xFFF = push_bit 12 (drop_bit 12 v)"
    unfolding m by (rule bit_word_eqI) (auto simp: bit_simps)
  have d: "unat (drop_bit 12 v) = unat v div 4096" by (simp add: drop_bit_eq_div unat_div)
  have "unat v div 4096 * 4096 < 18446744073709551616"
    using unat_u64_less [of v] by (rule le_less_trans [rotated]) simp
  then show ?thesis unfolding e by (simp add: push_bit_eq_mult unat_word_ariths d)
qed

end
