(* ===== verification/Textfmt.thy ===== *)
theory Textfmt
  imports Prelude
begin

text \<open>
  The freestanding text formatters that \<open>kernel/src/audit.c\<close> and \<open>kernel/src/manifest.c\<close>
  share (each has its own static copy of the same code). The output buffer is the list of
  characters already written, so the C offset \<open>o\<close> is its length; a write happens only while
  \<open>o < max - 1\<close>. Every caller passes \<open>max \<ge> 1\<close>, so the guard is written \<open>o + 1 < max\<close>.
\<close>

fun put_str :: "string \<Rightarrow> nat \<Rightarrow> string \<Rightarrow> string" where
  "put_str b mx [] = b"
| "put_str b mx (c # s) = (if length b + 1 < mx then put_str (b @ [c]) mx s else b)"

text \<open>The digit loop of \<open>put_u64\<close>: at most 20 digits, least significant first, in \<open>t\<close>.\<close>

function dec_loop :: "u64 \<Rightarrow> string \<Rightarrow> string" where
  "dec_loop v t = (if v > 0 \<and> length t < 20
     then dec_loop (v div 10) (t @ [char_of (48 + unat (v mod 10))]) else t)"
  by pat_completeness auto
termination
  by (relation "measure (\<lambda>(v, t). 20 - length t)") auto

declare dec_loop.simps [simp del]

definition put_u64 :: "string \<Rightarrow> nat \<Rightarrow> u64 \<Rightarrow> string" where
  "put_u64 b mx v = put_str b mx (rev (if v = 0 then ''0'' else dec_loop v []))"

function hex_loop :: "u32 \<Rightarrow> string \<Rightarrow> string" where
  "hex_loop v t = (if v > 0 \<and> length t < 8
     then let d = unat (v AND 15)
          in hex_loop (drop_bit 4 v)
               (t @ [if d < 10 then char_of (48 + d) else char_of (97 + d - 10)])
     else t)"
  by pat_completeness auto
termination
  by (relation "measure (\<lambda>(v, t). 8 - length t)") auto

declare hex_loop.simps [simp del]

definition put_hex8 :: "string \<Rightarrow> nat \<Rightarrow> u32 \<Rightarrow> string" where
  "put_hex8 b mx v = put_str (put_str b mx ''0x'') mx (rev (if v = 0 then ''0'' else hex_loop v []))"

definition type_name :: "u32 \<Rightarrow> string" where
  "type_name t = (if t < 7
     then [''MEM'', ''IPC'', ''DEV'', ''QRNG'', ''PROC'', ''SVC'', ''FIELD''] ! unat t else ''?'')"

text \<open>The line-atomic commit of \<open>audit_put_line\<close> and \<open>put_line\<close>: the whole line or nothing
  (\<open>None\<close> is the C value \<open>(size_t)-1\<close>).\<close>

definition put_line :: "string \<Rightarrow> nat \<Rightarrow> string \<Rightarrow> string option" where
  "put_line buf budget line = (if length buf + length line \<ge> budget then None else Some (buf @ line))"

section \<open>Bounds and clipping\<close>

lemma put_str_take: "put_str b mx s = b @ take (mx - 1 - length b) s"
proof (induction s arbitrary: b)
  case Nil
  then show ?case by simp
next
  case (Cons c s)
  show ?case
  proof (cases "length b + 1 < mx")
    case True
    then have "mx - Suc (length b) = Suc (mx - 1 - length (b @ [c]))" by simp
    with True Cons show ?thesis by simp
  next
    case False
    then show ?thesis by simp
  qed
qed

lemma put_str_fits: "length b + length s < mx \<Longrightarrow> put_str b mx s = b @ s"
  by (simp add: put_str_take)

lemma put_str_bound: "length b < mx \<Longrightarrow> length (put_str b mx s) < mx"
  by (simp add: put_str_take)

text \<open>Appending to a clipped text clips the appended text: the form in which chains of
  \<open>put_str\<close> calls compose.\<close>

lemma put_str_clip: "put_str (take (mx - 1) x) mx s = take (mx - 1) (x @ s)"
  by (auto simp: put_str_take min_def)

lemma put_str_clip_Nil: "put_str [] mx s = take (mx - 1) s"
  by (simp add: put_str_take)

lemma length_dec_loop_le: "length t \<le> 20 \<Longrightarrow> length (dec_loop v t) \<le> 20"
  by (induction v t rule: dec_loop.induct) (subst dec_loop.simps, auto)

lemma length_hex_loop_le: "length t \<le> 8 \<Longrightarrow> length (hex_loop v t) \<le> 8"
  by (induction v t rule: hex_loop.induct) (subst hex_loop.simps, auto simp: Let_def)

text \<open>A value below \<open>10 ^ k\<close> prints at most \<open>k\<close> digits.\<close>

lemma length_dec_loop_small: "unat v < 10 ^ k \<Longrightarrow> length (dec_loop v t) \<le> length t + k"
proof (induction k arbitrary: v t)
  case 0
  then have "v = 0" by (simp add: unat_eq_zero)
  then show ?case by (simp add: dec_loop.simps)
next
  case (Suc k)
  have "unat (v div 10) < 10 ^ k"
    using Suc.prems by (simp add: unat_div less_mult_imp_div_less mult.commute)
  from Suc.IH [OF this] show ?case
    by (subst dec_loop.simps) (force intro: le_trans)
qed

text \<open>The characters of a number: what \<open>put_u64\<close> and \<open>put_hex8\<close> append when they fit.\<close>

definition dec_chars :: "u64 \<Rightarrow> string" where
  "dec_chars v = rev (if v = 0 then ''0'' else dec_loop v [])"

definition hex_chars :: "u32 \<Rightarrow> string" where
  "hex_chars v = ''0x'' @ rev (if v = 0 then ''0'' else hex_loop v [])"

lemma put_u64_dec: "put_u64 b mx v = put_str b mx (dec_chars v)"
  by (simp add: put_u64_def dec_chars_def)

lemma put_u64_clip: "put_u64 (take (mx - 1) x) mx v = take (mx - 1) (x @ dec_chars v)"
  by (simp only: put_u64_dec put_str_clip)

lemma put_hex8_clip: "put_hex8 (take (mx - 1) x) mx v = take (mx - 1) (x @ hex_chars v)"
  by (simp only: put_hex8_def hex_chars_def put_str_clip append_assoc)

lemmas put_clip = put_str_clip_Nil put_str_clip put_u64_clip put_hex8_clip

lemma length_dec_chars: "length (dec_chars v) \<le> 20"
  using length_dec_loop_le [of "[]" v] by (simp add: dec_chars_def)

lemma length_dec_chars_u32: "length (dec_chars (ucast (v :: u32))) \<le> 10"
proof -
  have "unat (ucast v :: u64) < 10 ^ 10"
    using unat_u32_less [of v] by simp
  then show ?thesis
    using length_dec_loop_small [of "ucast v" 10 "[]"] by (simp add: dec_chars_def)
qed

lemma length_hex_chars: "length (hex_chars v) \<le> 10"
  using length_hex_loop_le [of "[]" v] by (simp add: hex_chars_def)

lemma length_type_name: "length (type_name t) \<le> 5"
proof (cases "t < 7")
  case True
  then have "unat t < 7" by (simp add: word_less_nat_alt)
  then have "unat t \<in> {0, 1, 2, 3, 4, 5, 6}" by auto
  with True show ?thesis by (auto simp: type_name_def)
next
  case False
  then show ?thesis by (simp add: type_name_def)
qed

section \<open>Line-atomic output\<close>

text \<open>Committing a list of lines until one no longer fits: what the dump loops of the audit ledger
  and of the manifest table amount to. The flag is \<open>truncated\<close>.\<close>

fun emit_lines :: "nat \<Rightarrow> string \<Rightarrow> string list \<Rightarrow> string \<times> bool" where
  "emit_lines budget buf [] = (buf, False)"
| "emit_lines budget buf (l # ls) =
     (case put_line buf budget l of None \<Rightarrow> (buf, True) | Some buf' \<Rightarrow> emit_lines budget buf' ls)"

lemma emit_lines_append:
  "emit_lines budget buf (ls @ ms) = (case emit_lines budget buf ls of
     (buf', True) \<Rightarrow> (buf', True) | (buf', False) \<Rightarrow> emit_lines budget buf' ms)"
  by (induction ls arbitrary: buf) (auto split: option.split)

lemma emit_lines_prefix:
  "length buf \<le> budget \<Longrightarrow>
   \<exists>m\<le>length ls. length (fst (emit_lines budget buf ls)) \<le> budget
     \<and> fst (emit_lines budget buf ls) = buf @ concat (take m ls)
     \<and> snd (emit_lines budget buf ls) = (m < length ls)"
proof (induction ls arbitrary: buf)
  case Nil
  then show ?case by simp
next
  case (Cons l ls)
  show ?case
  proof (cases "put_line buf budget l")
    case None
    with Cons.prems show ?thesis by (intro exI [of _ 0]) simp
  next
    case (Some buf')
    then have b: "buf' = buf @ l" "length buf' \<le> budget"
      by (auto simp: put_line_def split: if_splits)
    from Cons.IH [OF b(2)] obtain m where "m \<le> length ls"
      "length (fst (emit_lines budget buf' ls)) \<le> budget"
      "fst (emit_lines budget buf' ls) = buf' @ concat (take m ls)"
      "snd (emit_lines budget buf' ls) = (m < length ls)" by blast
    then show ?thesis using b(1) Some by (intro exI [of _ "Suc m"]) simp
  qed
qed

text \<open>With the tail's room reserved, the finished text is whole lines, the notice exactly when lines
  were dropped, and the NUL inside the buffer.\<close>

lemma emit_lines_dump:
  assumes "length tail + 1 \<le> mx"
    and "r = emit_lines (mx - length tail - 1) [] ls"
    and "t = (if snd r then put_str (fst r) mx tail else fst r)"
  shows "\<exists>m\<le>length ls. length t < mx
    \<and> t = concat (take m ls) @ (if m < length ls then tail else [])"
proof -
  obtain m where m: "m \<le> length ls" "length (fst r) \<le> mx - length tail - 1"
    "fst r = concat (take m ls)" "snd r = (m < length ls)"
    using emit_lines_prefix [of "[]" "mx - length tail - 1" ls]
    unfolding assms(2) [symmetric] append_Nil list.size(3) by (meson le0)
  have t: "t = fst r @ (if snd r then tail else [])"
    using m(2) assms(1) by (simp add: assms(3) put_str_fits)
  then have "length t < mx" using m(2) assms(1) by auto
  with m t show ?thesis by (intro exI [of _ m]) simp
qed

lemma format_dump:
  assumes "f = (if mx < length tail + 1 then None
      else let budget = mx - length tail - 1;
               (out, truncated) = emit_lines budget [] ls;
               out' = (if truncated then put_str out mx tail else out)
           in Some (out', if length out' < mx then length out' else mx - 1))"
    and "f = Some (t, z)"
  shows "z = length t \<and> z < mx \<and> (\<exists>m\<le>length ls. t = concat (take m ls) @ (if m < length ls then tail else []))"
proof -
  define r where "r = emit_lines (mx - length tail - 1) [] ls"
  define u where "u = (if snd r then put_str (fst r) mx tail else fst r)"
  have eq: "f = (if mx < length tail + 1 then None else Some (u, if length u < mx then length u else mx - 1))"
    unfolding assms(1) Let_def case_prod_beta r_def [symmetric] u_def [symmetric] ..
  have nb: "length tail + 1 \<le> mx" using eq assms(2) by (simp split: if_splits)
  with eq assms(2) have tu: "t = u" and z: "z = (if length t < mx then length t else mx - 1)"
    by simp_all
  from emit_lines_dump [OF nb r_def u_def] obtain m where m: "m \<le> length ls" "length t < mx"
    "t = concat (take m ls) @ (if m < length ls then tail else [])"
    unfolding tu by blast
  then have "z = length t \<and> z < mx" using z by simp
  with m show ?thesis by blast
qed

section \<open>The digits denote the number\<close>

fun dec_value :: "nat \<Rightarrow> string \<Rightarrow> nat" where
  "dec_value acc [] = acc"
| "dec_value acc (c # cs) = dec_value (acc * 10 + (of_char c - 48)) cs"

lemma dec_value_append: "dec_value a (s @ [c]) = dec_value a s * 10 + (of_char c - 48)"
  by (induction s arbitrary: a) auto

lemma dec_value_acc: "dec_value a s = a * 10 ^ length s + dec_value 0 s"
proof (induction s arbitrary: a)
  case Nil
  then show ?case by simp
next
  case (Cons c s)
  show ?case
    using Cons.IH [of "a * 10 + (of_char c - 48)"] Cons.IH [of "of_char c - 48"]
    by (simp add: algebra_simps)
qed

text \<open>\<open>dec_loop\<close> appends more significant digits to the reversed text \<open>t\<close>.\<close>

lemma dec_loop_value:
  "unat v < 10 ^ (20 - length t) \<Longrightarrow>
   dec_value 0 (rev (dec_loop v t)) = unat v * 10 ^ length t + dec_value 0 (rev t)"
proof (induction v t rule: dec_loop.induct)
  case (1 v t)
  show ?case
  proof (cases "v > 0 \<and> length t < 20")
    case False
    with "1.prems" have "unat v = 0" by (auto simp: word_gt_0)
    with False show ?thesis by (subst dec_loop.simps) auto
  next
    case True
    let ?c = "char_of (48 + unat (v mod 10)) :: char"
    have dv: "unat (v div 10) = unat v div 10" and md: "unat (v mod 10) = unat v mod 10"
      by (simp_all add: unat_div unat_mod)
    have d: "unat (v mod 10) < 10" by (simp add: md)
    then have c: "of_char ?c - 48 = unat (v mod 10)" by simp
    from True have "length t < 20" by simp
    then have k: "20 - length t = Suc (20 - length (t @ [?c]))" by simp
    have "unat (v div 10) < 10 ^ (20 - length (t @ [?c]))"
      using "1.prems" unfolding k by (simp add: unat_div less_mult_imp_div_less mult.commute)
    note IH = "1.IH" [OF True this]
    have "dec_value 0 (rev (dec_loop v t)) = dec_value 0 (rev (dec_loop (v div 10) (t @ [?c])))"
      using True by (subst dec_loop.simps) simp
    also have "\<dots> = unat (v div 10) * 10 ^ Suc (length t) + dec_value (unat (v mod 10)) (rev t)"
      using IH c by simp
    also have "dec_value (unat (v mod 10)) (rev t) = unat (v mod 10) * 10 ^ length t + dec_value 0 (rev t)"
      by (subst dec_value_acc) simp
    also have "unat (v div 10) * 10 ^ Suc (length t) + (unat (v mod 10) * 10 ^ length t + dec_value 0 (rev t))
        = (unat v div 10 * 10 + unat v mod 10) * 10 ^ length t + dec_value 0 (rev t)"
      unfolding dv md power_Suc by algebra
    finally show ?thesis by simp
  qed
qed

lemma dec_value_dec_chars: "dec_value 0 (dec_chars v) = unat v"
proof -
  have "unat v < 10 ^ 20" using unat_u64_less [of v] by simp
  then show ?thesis
    using dec_loop_value [of v "[]"] by (simp add: dec_chars_def)
qed

end
