(* ===== verification/Audit_Log.thy ===== *)
theory Audit_Log
  imports Textfmt
begin

text \<open>
  The capability authority ledger (\<open>kernel/src/audit.c\<close>, \<open>kernel/include/kernel/audit.h\<close>):
  a ring of 256 entries with coalescing of back-to-back identical records, its text rendering
  and its durable image. The clients of the ledger (capabilities, manifests, the egress grant)
  rely on the interface \<open>event_ledger\<close>, interpreted here on the ring.
\<close>

section \<open>Data\<close>

record audit_entry_t =
  ae_seq :: u64
  ae_tick :: u64
  ae_pid :: u32
  ae_kind :: u16
  ae_verdict :: u16
  ae_rtype :: u32
  ae_rid :: u32
  ae_perms :: u32
  ae_count :: u32

text \<open>The static state of audit.c: \<open>ring\<close>, \<open>total\<close>, \<open>coalesce_floor\<close>.\<close>

record audit_state =
  ring :: "nat \<Rightarrow> audit_entry_t"
  total :: u64
  coalesce_floor :: u64

definition audit_zero_entry :: audit_entry_t where
  "audit_zero_entry = \<lparr>ae_seq = 0, ae_tick = 0, ae_pid = 0, ae_kind = 0, ae_verdict = 0,
     ae_rtype = 0, ae_rid = 0, ae_perms = 0, ae_count = 0\<rparr>"

text \<open>The \<open>.bss\<close> image at boot.\<close>

definition audit_boot :: audit_state where
  "audit_boot = \<lparr>ring = (\<lambda>_. audit_zero_entry), total = 0, coalesce_floor = 0\<rparr>"

abbreviation (input) AUDIT_LOG_ENTRIES :: nat where "AUDIT_LOG_ENTRIES \<equiv> 256"

abbreviation (input) AUDIT_GRANT :: u16 where "AUDIT_GRANT \<equiv> 1"
abbreviation (input) AUDIT_DENY :: u16 where "AUDIT_DENY \<equiv> 2"
abbreviation (input) AUDIT_SPAWN :: u16 where "AUDIT_SPAWN \<equiv> 3"
abbreviation (input) AUDIT_MDENY :: u16 where "AUDIT_MDENY \<equiv> 4"
abbreviation (input) AUDIT_QUOTA :: u16 where "AUDIT_QUOTA \<equiv> 5"
abbreviation (input) AUDIT_CPUKILL :: u16 where "AUDIT_CPUKILL \<equiv> 6"
abbreviation (input) AUDIT_REVOKE :: u16 where "AUDIT_REVOKE \<equiv> 7"
abbreviation (input) AUDIT_REAP :: u16 where "AUDIT_REAP \<equiv> 8"
abbreviation (input) AUDIT_QSUBMIT :: u16 where "AUDIT_QSUBMIT \<equiv> 9"
abbreviation (input) AUDIT_UNLINK :: u16 where "AUDIT_UNLINK \<equiv> 10"
abbreviation (input) AUDIT_EGRESS :: u16 where "AUDIT_EGRESS \<equiv> 11"
abbreviation (input) AUDIT_V_OK :: u16 where "AUDIT_V_OK \<equiv> 1"
abbreviation (input) AUDIT_V_EPERM :: u16 where "AUDIT_V_EPERM \<equiv> 2"
abbreviation (input) AUDIT_RESOURCE_ANY :: u32 where "AUDIT_RESOURCE_ANY \<equiv> 0xFFFFFFFF"
abbreviation (input) CAP_RESOURCE_PROCESS_T :: u32 where "CAP_RESOURCE_PROCESS_T \<equiv> 4"

section \<open>Recording\<close>

text \<open>\<open>now\<close> is the value of \<open>timer_get_ticks()\<close> at the call; the append runs with
  interrupts off, so it is one step.\<close>

definition audit_record ::
    "u64 \<Rightarrow> u16 \<Rightarrow> u32 \<Rightarrow> u16 \<Rightarrow> u32 \<Rightarrow> u32 \<Rightarrow> u32 \<Rightarrow> audit_state \<Rightarrow> audit_state" where
  "audit_record now kind pid verdict rtype rid perms st =
     (let li = unat ((total st - 1) mod 256); last = ring st li in
      if total st > coalesce_floor st
         \<and> ae_kind last = kind \<and> ae_pid last = pid \<and> ae_verdict last = verdict
         \<and> ae_rtype last = rtype \<and> ae_rid last = rid \<and> ae_perms last = perms
      then st\<lparr>ring := (ring st)(li := last\<lparr>ae_count := ae_count last + 1, ae_tick := now\<rparr>)\<rparr>
      else let i = unat (total st mod 256) in
        st\<lparr>ring := (ring st)(i :=
              \<lparr>ae_seq = total st, ae_tick = now, ae_pid = pid, ae_kind = kind, ae_verdict = verdict,
               ae_rtype = rtype, ae_rid = rid, ae_perms = perms, ae_count = 1\<rparr>),
           total := total st + 1\<rparr>)"

definition audit_grant :: "u64 \<Rightarrow> u32 \<Rightarrow> u32 \<Rightarrow> u32 \<Rightarrow> u32 \<Rightarrow> audit_state \<Rightarrow> audit_state" where
  "audit_grant now pid rtype rid perms = audit_record now AUDIT_GRANT pid AUDIT_V_OK rtype rid perms"

definition audit_deny :: "u64 \<Rightarrow> u32 \<Rightarrow> u32 \<Rightarrow> u32 \<Rightarrow> u32 \<Rightarrow> audit_state \<Rightarrow> audit_state" where
  "audit_deny now pid rtype rid perms = audit_record now AUDIT_DENY pid AUDIT_V_EPERM rtype rid perms"

definition audit_spawn :: "u64 \<Rightarrow> u32 \<Rightarrow> u32 \<Rightarrow> audit_state \<Rightarrow> audit_state" where
  "audit_spawn now parent child =
     audit_record now AUDIT_SPAWN parent AUDIT_V_OK CAP_RESOURCE_PROCESS_T child 4"

definition audit_revoke :: "u64 \<Rightarrow> u32 \<Rightarrow> u32 \<Rightarrow> u32 \<Rightarrow> u32 \<Rightarrow> audit_state \<Rightarrow> audit_state" where
  "audit_revoke now pid rtype rid perms = audit_record now AUDIT_REVOKE pid AUDIT_V_OK rtype rid perms"

definition audit_reap :: "u64 \<Rightarrow> u32 \<Rightarrow> u32 \<Rightarrow> u32 \<Rightarrow> u32 \<Rightarrow> audit_state \<Rightarrow> audit_state" where
  "audit_reap now pid rtype rid perms = audit_record now AUDIT_REAP pid AUDIT_V_OK rtype rid perms"

definition audit_unlink :: "u64 \<Rightarrow> u32 \<Rightarrow> u32 \<Rightarrow> u32 \<Rightarrow> u32 \<Rightarrow> audit_state \<Rightarrow> audit_state" where
  "audit_unlink now pid rtype rid perms = audit_record now AUDIT_UNLINK pid AUDIT_V_OK rtype rid perms"

definition audit_ring_has_kind :: "u16 \<Rightarrow> audit_state \<Rightarrow> bool" where
  "audit_ring_has_kind kind st = (first_idx (\<lambda>i. ae_kind (ring st i) = kind) 0 AUDIT_LOG_ENTRIES \<noteq> None)"

section \<open>Text rendering\<close>

definition kind_name :: "u16 \<Rightarrow> string" where
  "kind_name k =
     (if k = AUDIT_GRANT then ''GRANT'' else if k = AUDIT_DENY then ''DENY''
      else if k = AUDIT_SPAWN then ''SPAWN'' else if k = AUDIT_MDENY then ''MDENY''
      else if k = AUDIT_QUOTA then ''QUOTA'' else if k = AUDIT_CPUKILL then ''CPUKILL''
      else if k = AUDIT_REVOKE then ''REVOKE'' else if k = AUDIT_REAP then ''REAP''
      else if k = AUDIT_QSUBMIT then ''QSUBMIT'' else if k = AUDIT_UNLINK then ''UNLINK''
      else if k = AUDIT_EGRESS then ''EGRESS'' else if k = 0 then ''EMPTY'' else ''?'')"

abbreviation (input) crlf :: string where "crlf \<equiv> [CHR 0x0D, CHR 0x0A]"

definition format_entry :: "string \<Rightarrow> nat \<Rightarrow> audit_entry_t \<Rightarrow> string" where
  "format_entry b mx e =
     (let o1 = put_str b mx ''AUDIT: seq='';
          o2 = put_u64 o1 mx (ae_seq e);
          o3 = put_str o2 mx '' tick='';
          o4 = put_u64 o3 mx (ae_tick e);
          o5 = put_str o4 mx '' pid='';
          o6 = put_u64 o5 mx (ucast (ae_pid e));
          o7 = put_str o6 mx '' kind='';
          o8 = put_str o7 mx (kind_name (ae_kind e));
          o9 = put_str o8 mx '' res='';
          o10 = put_str o9 mx (type_name (ae_rtype e));
          o11 = put_str o10 mx '':'';
          o12 = (if ae_rid e = AUDIT_RESOURCE_ANY then put_str o11 mx ''*''
                 else put_u64 o11 mx (ucast (ae_rid e)));
          o13 = put_str o12 mx '' perms='';
          o14 = put_hex8 o13 mx (ae_perms e);
          o15 = put_str o14 mx '' verdict='';
          o16 = put_str o15 mx (if ae_verdict e = AUDIT_V_EPERM then ''EPERM'' else ''OK'');
          o17 = put_str o16 mx '' count='';
          o18 = put_u64 o17 mx (ucast (ae_count e))
      in put_str o18 mx crlf)"

text \<open>The loop of \<open>audit_format\<close> over the live entries; the flag is \<open>truncated\<close>.\<close>

fun audit_format_loop :: "nat \<Rightarrow> string \<Rightarrow> audit_entry_t list \<Rightarrow> string \<times> bool" where
  "audit_format_loop budget buf [] = (buf, False)"
| "audit_format_loop budget buf (e # es) =
     (case put_line buf budget (format_entry [] 200 e) of
        None \<Rightarrow> (buf, True)
      | Some buf' \<Rightarrow> audit_format_loop budget buf' es)"

definition audit_tail :: string where
  "audit_tail = ''AUDIT: truncated=1'' @ crlf"

text \<open>The live entries, oldest first, as the index arithmetic of \<open>audit_format\<close> walks them.\<close>

definition audit_live :: "audit_state \<Rightarrow> audit_entry_t list" where
  "audit_live st =
     (let live = (if total st < 256 then total st else 256);
          start = (if total st \<le> 256 then 0 else total st mod 256)
      in map (\<lambda>i. ring st (unat ((start + of_nat i) mod 256))) [0..<unat live])"

text \<open>\<open>None\<close>: the early \<open>return 0\<close>. \<open>Some (text, z)\<close>: the text written and the index of the
  terminating NUL.\<close>

definition audit_format :: "nat \<Rightarrow> audit_state \<Rightarrow> (string \<times> nat) option" where
  "audit_format mx st =
     (if mx < length audit_tail + 1 then None
      else let budget = mx - length audit_tail - 1;
               (out, truncated) = audit_format_loop budget [] (audit_live st);
               out' = (if truncated then put_str out mx audit_tail else out)
           in Some (out', if length out' < mx then length out' else mx - 1))"

definition audit_format_stats :: "nat \<Rightarrow> audit_state \<Rightarrow> (string \<times> nat) option" where
  "audit_format_stats mx st =
     (if mx = 0 then None
      else let t = total st;
               dropped = (if t > 256 then t - 256 else 0);
               o1 = put_str [] mx ''AUDIT: total='';
               o2 = put_u64 o1 mx t;
               o3 = put_str o2 mx '' dropped='';
               o4 = put_u64 o3 mx dropped;
               o5 = put_str o4 mx '' capacity='';
               o6 = put_u64 o5 mx 256;
               o7 = put_str o6 mx crlf
           in Some (o7, if length o7 < mx then length o7 else mx - 1))"

section \<open>Durable image\<close>

abbreviation (input) AUDIT_BLOB_MAGIC :: u32 where "AUDIT_BLOB_MAGIC \<equiv> 0x31445541"
abbreviation (input) AUDIT_BLOB_VERSION :: u32 where "AUDIT_BLOB_VERSION \<equiv> 1"
abbreviation (input) AUDIT_BLOB_HDR :: nat where "AUDIT_BLOB_HDR \<equiv> 32"
abbreviation (input) AUDIT_ENTRY_SIZE :: nat where "AUDIT_ENTRY_SIZE \<equiv> 40"
abbreviation (input) AUDIT_BLOB_BYTES :: nat where "AUDIT_BLOB_BYTES \<equiv> 10272"
abbreviation (input) AUDIT_BLOB_SECTORS :: nat where "AUDIT_BLOB_SECTORS \<equiv> 21"
abbreviation (input) AUDIT_BLOB_BUFSZ :: nat where "AUDIT_BLOB_BUFSZ \<equiv> 10752"

text \<open>The x86-64 memory image of one \<open>audit_entry_t\<close> (40 bytes, no padding: the source
  asserts the size), and its reading.\<close>

definition audit_entry_image :: "audit_entry_t \<Rightarrow> bytes" where
  "audit_entry_image e = le64 (ae_seq e) @ le64 (ae_tick e) @ le32 (ae_pid e) @ le16 (ae_kind e)
     @ le16 (ae_verdict e) @ le32 (ae_rtype e) @ le32 (ae_rid e) @ le32 (ae_perms e) @ le32 (ae_count e)"

definition audit_entry_of :: "bytes \<Rightarrow> audit_entry_t" where
  "audit_entry_of b = \<lparr>ae_seq = get64 b 0, ae_tick = get64 b 8, ae_pid = get32 b 16,
     ae_kind = get16 b 20, ae_verdict = get16 b 22, ae_rtype = get32 b 24, ae_rid = get32 b 28,
     ae_perms = get32 b 32, ae_count = get32 b 36\<rparr>"

definition audit_ring_image :: "audit_state \<Rightarrow> bytes" where
  "audit_ring_image st = concat (map (\<lambda>i. audit_entry_image (ring st i)) [0..<AUDIT_LOG_ENTRIES])"

text \<open>The result is the new content of \<open>buf\<close> and the returned length (0: refused).\<close>

definition audit_serialize :: "bytes option \<Rightarrow> nat \<Rightarrow> audit_state \<Rightarrow> bytes option \<times> nat" where
  "audit_serialize buf buf_len st =
     (case buf of None \<Rightarrow> (None, 0)
      | Some b \<Rightarrow>
        if buf_len < AUDIT_BLOB_BUFSZ then (Some b, 0)
        else let b0 = poke b 0 (replicate AUDIT_BLOB_BUFSZ 0);
                 b1 = poke b0 0 (le32 AUDIT_BLOB_MAGIC);
                 b2 = poke b1 4 (le32 AUDIT_BLOB_VERSION);
                 b3 = poke b2 8 (le32 (of_nat AUDIT_LOG_ENTRIES));
                 b4 = poke b3 12 (le32 (of_nat AUDIT_ENTRY_SIZE));
                 b5 = poke b4 16 (le32 (ucast (total st AND 0xFFFFFFFF)));
                 b6 = poke b5 20 (le32 (ucast (drop_bit 32 (total st))));
                 b7 = poke b6 AUDIT_BLOB_HDR (audit_ring_image st)
             in (Some b7, AUDIT_BLOB_BYTES))"

definition audit_load :: "bytes option \<Rightarrow> nat \<Rightarrow> audit_state \<Rightarrow> int \<times> audit_state" where
  "audit_load buf len st =
     (case buf of None \<Rightarrow> (-1, st)
      | Some b \<Rightarrow>
        if len < AUDIT_BLOB_BYTES then (-1, st)
        else if get32 b 0 \<noteq> AUDIT_BLOB_MAGIC \<or> get32 b 4 \<noteq> AUDIT_BLOB_VERSION
             \<or> get32 b 8 \<noteq> of_nat AUDIT_LOG_ENTRIES \<or> get32 b 12 \<noteq> of_nat AUDIT_ENTRY_SIZE then (-1, st)
        else let restored = ucast (get32 b 16) OR push_bit 32 (ucast (get32 b 20)) in
          if restored > push_bit 48 1 then (-1, st)
          else (0, \<lparr>ring = (\<lambda>i. if i < AUDIT_LOG_ENTRIES
                       then (audit_entry_of (take AUDIT_ENTRY_SIZE
                              (drop (AUDIT_BLOB_HDR + AUDIT_ENTRY_SIZE * i) b)))\<lparr>ae_tick := 0\<rparr>
                       else ring st i),
                   total = restored, coalesce_floor = restored\<rparr>))"

section \<open>The ring invariant\<close>

text \<open>Every live position holds the entry whose sequence number is its position in the
  history, and the restore boundary never runs ahead of the history.\<close>

definition ledger_inv :: "audit_state \<Rightarrow> bool" where
  "ledger_inv st \<longleftrightarrow> coalesce_floor st \<le> total st \<and>
     (\<forall>k. k < unat (total st) \<and> unat (total st) \<le> k + AUDIT_LOG_ENTRIES \<longrightarrow>
        ae_seq (ring st (k mod AUDIT_LOG_ENTRIES)) = of_nat k)"

text \<open>The guard of the coalescing branch, and the two branches as equations.\<close>

definition coalesces :: "u16 \<Rightarrow> u32 \<Rightarrow> u16 \<Rightarrow> u32 \<Rightarrow> u32 \<Rightarrow> u32 \<Rightarrow> audit_state \<Rightarrow> bool" where
  "coalesces kind pid verdict rtype rid perms st =
     (let last = ring st (unat ((total st - 1) mod 256)) in total st > coalesce_floor st
        \<and> ae_kind last = kind \<and> ae_pid last = pid \<and> ae_verdict last = verdict
        \<and> ae_rtype last = rtype \<and> ae_rid last = rid \<and> ae_perms last = perms)"

lemma audit_record_coalesce:
  "coalesces kind pid verdict rtype rid perms st \<Longrightarrow>
   audit_record now kind pid verdict rtype rid perms st =
     (let li = unat ((total st - 1) mod 256) in
        st\<lparr>ring := (ring st)(li := (ring st li)\<lparr>ae_count := ae_count (ring st li) + 1, ae_tick := now\<rparr>)\<rparr>)"
  by (simp add: audit_record_def coalesces_def Let_def)

lemma audit_record_append:
  "\<not> coalesces kind pid verdict rtype rid perms st \<Longrightarrow>
   audit_record now kind pid verdict rtype rid perms st =
     st\<lparr>ring := (ring st)(unat (total st mod 256) :=
              \<lparr>ae_seq = total st, ae_tick = now, ae_pid = pid, ae_kind = kind, ae_verdict = verdict,
               ae_rtype = rtype, ae_rid = rid, ae_perms = perms, ae_count = 1\<rparr>),
           total := total st + 1\<rparr>"
  unfolding audit_record_def coalesces_def Let_def by (simp only: if_not_P simp_thms if_False)

lemma ledger_inv_boot: "ledger_inv audit_boot"
  by (simp add: ledger_inv_def audit_boot_def)

lemma audit_record_floor [simp]:
  "coalesce_floor (audit_record now kind pid verdict rtype rid perms st) = coalesce_floor st"
  by (simp add: audit_record_def Let_def)

lemma audit_record_inv:
  assumes inv: "ledger_inv st" and room: "unat (total st) + 1 < 18446744073709551616"
  shows "ledger_inv (audit_record now kind pid verdict rtype rid perms st)"
proof (cases "coalesces kind pid verdict rtype rid perms st")
  case True
  with inv show ?thesis by (auto simp: audit_record_coalesce Let_def ledger_inv_def)
next
  case False
  let ?t = "unat (total st)"
  have t: "unat (total st + 1) = ?t + 1" using room by (rule unat_Suc_u64)
  have fl: "coalesce_floor st \<le> total st + 1"
    using inv t by (simp add: ledger_inv_def word_le_nat_alt)
  have key: "(if k mod 256 = ?t mod 256 then total st else ae_seq (ring st (k mod 256))) = of_nat k"
    if k: "k < ?t + 1" "?t + 1 \<le> k + 256" for k
  proof (cases "k = ?t")
    case True
    then show ?thesis by simp
  next
    case False
    with k have "k mod 256 \<noteq> ?t mod 256" by (intro mod_lap_neq) auto
    with k False inv show ?thesis by (simp add: ledger_inv_def)
  qed
  show ?thesis
    unfolding ledger_inv_def audit_record_append [OF False]
  proof (intro conjI allI impI, goal_cases)
    case 1
    show ?case using fl by simp
  next
    case (2 k)
    then show ?case using key [of k] t by (simp split: if_splits)
  qed
qed

section \<open>The ledger as an interface\<close>

text \<open>What a client may rely on. \<open>newest\<close> is the newest event of this boot, \<open>slots\<close> the
  number of positions ever consumed, \<open>event_at k\<close> the event at position \<open>k\<close> while it is
  in the window.\<close>

locale event_ledger =
  fixes rec :: "'t \<Rightarrow> 'ev \<Rightarrow> 'l \<Rightarrow> 'l"
    and newest :: "'l \<Rightarrow> 'ev option"
    and slots :: "'l \<Rightarrow> nat"
    and event_at :: "'l \<Rightarrow> nat \<Rightarrow> 'ev"
    and inv :: "'l \<Rightarrow> bool"
    and window :: nat
    and limit :: nat
  assumes rec_inv: "inv l \<Longrightarrow> slots l + 1 < limit \<Longrightarrow> inv (rec t e l)"
    and rec_newest: "inv l \<Longrightarrow> slots l + 1 < limit \<Longrightarrow> newest (rec t e l) = Some e"
    and rec_repeat: "inv l \<Longrightarrow> newest l = Some e \<Longrightarrow> slots (rec t e l) = slots l"
    and rec_fresh: "inv l \<Longrightarrow> slots l + 1 < limit \<Longrightarrow> newest l \<noteq> Some e \<Longrightarrow> slots (rec t e l) = slots l + 1"
    and rec_keeps: "inv l \<Longrightarrow> slots l + 1 < limit \<Longrightarrow> k < slots l \<Longrightarrow> slots (rec t e l) \<le> k + window
        \<Longrightarrow> event_at (rec t e l) k = event_at l k"
begin

lemma rec_slots_le: "inv l \<Longrightarrow> slots l + 1 < limit \<Longrightarrow> slots (rec t e l) \<le> slots l + 1"
  by (cases "newest l = Some e") (simp_all add: rec_repeat rec_fresh)

lemma rec_slots_ge: "inv l \<Longrightarrow> slots l + 1 < limit \<Longrightarrow> slots l \<le> slots (rec t e l)"
  by (cases "newest l = Some e") (simp_all add: rec_repeat rec_fresh)

text \<open>After a first occurrence, repeating an event any number of times consumes nothing and
  hides nothing.\<close>

lemma repeat_stable:
  "inv l \<Longrightarrow> slots l + 1 < limit \<Longrightarrow> newest l = Some e \<Longrightarrow>
   inv (fold (\<lambda>t. rec t e) ts l) \<and> slots (fold (\<lambda>t. rec t e) ts l) = slots l
   \<and> newest (fold (\<lambda>t. rec t e) ts l) = Some e
   \<and> (\<forall>k. k < slots l \<and> slots l \<le> k + window \<longrightarrow>
        event_at (fold (\<lambda>t. rec t e) ts l) k = event_at l k)"
proof (induction ts arbitrary: l)
  case Nil
  then show ?case by simp
next
  case (Cons t ts)
  have s: "slots (rec t e l) = slots l" using Cons.prems by (simp add: rec_repeat)
  have "inv (rec t e l)" "newest (rec t e l) = Some e"
    using Cons.prems by (simp_all add: rec_inv rec_newest)
  with Cons.IH [of "rec t e l"] Cons.prems s show ?case by (auto simp: rec_keeps)
qed

lemma flood:
  assumes "inv l" and "slots l + 2 < limit"
  shows "slots (fold (\<lambda>t. rec t e) ts l) \<le> slots l + 1"
    and "k < slots l \<Longrightarrow> slots l + 1 \<le> k + window \<Longrightarrow>
         event_at (fold (\<lambda>t. rec t e) ts l) k = event_at l k"
proof -
  have lim: "slots l + 1 < limit" using assms(2) by simp
  have *: "slots (fold (\<lambda>t. rec t e) ts l) \<le> slots l + 1 \<and>
    (\<forall>k. k < slots l \<and> slots l + 1 \<le> k + window \<longrightarrow>
       event_at (fold (\<lambda>t. rec t e) ts l) k = event_at l k)"
  proof (cases ts)
    case Nil
    then show ?thesis by simp
  next
    case (Cons t ts')
    let ?l = "rec t e l"
    have i: "inv ?l" and n: "newest ?l = Some e" and le: "slots ?l \<le> slots l + 1"
      and ge: "slots l \<le> slots ?l"
      using rec_inv rec_newest rec_slots_le rec_slots_ge lim assms(1) by auto
    have "slots ?l + 1 < limit" using le assms(2) by simp
    from repeat_stable [OF i this n, of ts'] le ge lim assms(1) rec_keeps show ?thesis
      by (auto simp: Cons)
  qed
  show "slots (fold (\<lambda>t. rec t e) ts l) \<le> slots l + 1" using * by simp
  show "k < slots l \<Longrightarrow> slots l + 1 \<le> k + window \<Longrightarrow>
         event_at (fold (\<lambda>t. rec t e) ts l) k = event_at l k" using * by simp
qed

end

text \<open>The ring provides it: an event is the six fields a record compares.\<close>

type_synonym audit_event = "u16 \<times> u32 \<times> u16 \<times> u32 \<times> u32 \<times> u32"

definition record_event :: "u64 \<Rightarrow> audit_event \<Rightarrow> audit_state \<Rightarrow> audit_state" where
  "record_event now e st = (case e of (kind, pid, verdict, rtype, rid, perms) \<Rightarrow>
     audit_record now kind pid verdict rtype rid perms st)"

lemma record_event_eq: "record_event now (kind, pid, verdict, rtype, rid, perms)
    = audit_record now kind pid verdict rtype rid perms"
  by (simp add: record_event_def fun_eq_iff)

definition entry_event :: "audit_entry_t \<Rightarrow> audit_event" where
  "entry_event e = (ae_kind e, ae_pid e, ae_verdict e, ae_rtype e, ae_rid e, ae_perms e)"

definition event_at :: "audit_state \<Rightarrow> nat \<Rightarrow> audit_event" where
  "event_at st k = entry_event (ring st (k mod AUDIT_LOG_ENTRIES))"

definition newest_event :: "audit_state \<Rightarrow> audit_event option" where
  "newest_event st = (if total st > coalesce_floor st
     then Some (event_at st (unat (total st) - 1)) else None)"

definition ledger_slots :: "audit_state \<Rightarrow> nat" where
  "ledger_slots st = unat (total st)"

abbreviation (input) LEDGER_LIMIT :: nat where "LEDGER_LIMIT \<equiv> 18446744073709551616"

lemma coalesces_newest:
  "coalesces kind pid verdict rtype rid perms st \<longleftrightarrow>
   newest_event st = Some (kind, pid, verdict, rtype, rid, perms)"
proof (cases "total st > coalesce_floor st")
  case True
  then have "0 < total st" by (auto simp: word_gt_0)
  with True show ?thesis
    by (simp add: coalesces_def newest_event_def event_at_def entry_event_def Let_def unat_pred_u64)
next
  case False
  then show ?thesis by (auto simp: coalesces_def newest_event_def Let_def)
qed

lemma record_event_coalesce:
  assumes "newest_event st = Some e"
  shows "total (record_event now e st) = total st"
    and "event_at (record_event now e st) k = event_at st k"
    and "newest_event (record_event now e st) = Some e"
proof -
  obtain kind pid verdict rtype rid perms where e: "e = (kind, pid, verdict, rtype, rid, perms)"
    by (cases e) auto
  have c: "coalesces kind pid verdict rtype rid perms st"
    using assms by (simp add: e coalesces_newest)
  show "total (record_event now e st) = total st"
    by (simp add: e record_event_def audit_record_coalesce [OF c] Let_def)
  show at: "event_at (record_event now e st) k = event_at st k" for k
    by (simp add: e record_event_def audit_record_coalesce [OF c] Let_def event_at_def entry_event_def)
  show "newest_event (record_event now e st) = Some e"
    using assms at by (auto simp: newest_event_def e record_event_def audit_record_coalesce [OF c] Let_def
        split: if_splits)
qed

lemma record_event_append:
  assumes "newest_event st \<noteq> Some e" and "unat (total st) + 1 < LEDGER_LIMIT"
    and "coalesce_floor st \<le> total st"
  shows "total (record_event now e st) = total st + 1"
    and "k < unat (total st) \<Longrightarrow> unat (total st) + 1 \<le> k + AUDIT_LOG_ENTRIES \<Longrightarrow>
         event_at (record_event now e st) k = event_at st k"
    and "newest_event (record_event now e st) = Some e"
proof -
  obtain kind pid verdict rtype rid perms where e: "e = (kind, pid, verdict, rtype, rid, perms)"
    by (cases e) auto
  have c: "\<not> coalesces kind pid verdict rtype rid perms st"
    using assms by (simp add: e coalesces_newest)
  have t: "unat (total st + 1) = unat (total st) + 1" using assms(2) by (rule unat_Suc_u64)
  have lt: "coalesce_floor st < total st + 1"
    using assms(3) t by (simp add: word_less_nat_alt word_le_nat_alt)
  show "total (record_event now e st) = total st + 1"
    by (simp add: e record_event_def audit_record_append [OF c])
  show "event_at (record_event now e st) k = event_at st k"
    if "k < unat (total st)" "unat (total st) + 1 \<le> k + AUDIT_LOG_ENTRIES"
  proof -
    have "k mod AUDIT_LOG_ENTRIES \<noteq> unat (total st) mod AUDIT_LOG_ENTRIES"
      using that by (intro mod_lap_neq) auto
    then show ?thesis
      by (simp add: e record_event_def audit_record_append [OF c] event_at_def)
  qed
  show "newest_event (record_event now e st) = Some e"
    using lt t by (simp add: newest_event_def e record_event_def audit_record_append [OF c]
        event_at_def entry_event_def)
qed

lemma record_event_inv:
  "ledger_inv st \<Longrightarrow> ledger_slots st + 1 < LEDGER_LIMIT \<Longrightarrow> ledger_inv (record_event now e st)"
  by (cases e) (simp add: record_event_def audit_record_inv ledger_slots_def)

interpretation ledger: event_ledger record_event newest_event ledger_slots event_at ledger_inv
  AUDIT_LOG_ENTRIES LEDGER_LIMIT
proof
  fix st :: audit_state and now e
  assume inv: "ledger_inv st" and room: "ledger_slots st + 1 < LEDGER_LIMIT"
  have fl: "coalesce_floor st \<le> total st" using inv by (simp add: ledger_inv_def)
  note app = record_event_append [OF _ room [unfolded ledger_slots_def] fl]
  show "ledger_inv (record_event now e st)" using inv room by (rule record_event_inv)
  show "newest_event (record_event now e st) = Some e"
    by (cases "newest_event st = Some e") (simp_all add: record_event_coalesce app)
  show "newest_event st \<noteq> Some e \<Longrightarrow> ledger_slots (record_event now e st) = ledger_slots st + 1"
    using room by (simp add: app ledger_slots_def unat_Suc_u64)
  fix k
  assume "k < ledger_slots st" and "ledger_slots (record_event now e st) \<le> k + AUDIT_LOG_ENTRIES"
  then show "event_at (record_event now e st) k = event_at st k"
    using room by (cases "newest_event st = Some e")
      (simp_all add: record_event_coalesce app ledger_slots_def unat_Suc_u64)
next
  fix st :: audit_state and now e
  assume "newest_event st = Some e"
  then show "ledger_slots (record_event now e st) = ledger_slots st"
    by (simp add: record_event_coalesce ledger_slots_def)
qed

section \<open>The rendering: one whole line per entry\<close>

text \<open>The text of an entry without any buffer bound.\<close>

definition entry_line :: "audit_entry_t \<Rightarrow> string" where
  "entry_line e = ''AUDIT: seq='' @ dec_chars (ae_seq e) @ '' tick='' @ dec_chars (ae_tick e)
     @ '' pid='' @ dec_chars (ucast (ae_pid e)) @ '' kind='' @ kind_name (ae_kind e)
     @ '' res='' @ type_name (ae_rtype e) @ '':''
     @ (if ae_rid e = 0xFFFFFFFF then ''*'' else dec_chars (ucast (ae_rid e)))
     @ '' perms='' @ hex_chars (ae_perms e)
     @ '' verdict='' @ (if ae_verdict e = 2 then ''EPERM'' else ''OK'')
     @ '' count='' @ dec_chars (ucast (ae_count e)) @ crlf"

lemma length_kind_name: "length (kind_name k) \<le> 7"
  by (simp add: kind_name_def)

lemma format_entry_clip: "format_entry [] mx e = take (mx - 1) (entry_line e)"
  unfolding format_entry_def Let_def entry_line_def
  by (simp only: put_clip append_assoc if_distrib [of "\<lambda>s. take (mx - 1) (_ @ s)"] if_distrib [of "\<lambda>s. s @ _"]
      cong: if_cong split: if_split) simp

lemma length_entry_line: "length (entry_line e) \<le> 156"
proof -
  have "length (if ae_rid e = 0xFFFFFFFF then ''*'' else dec_chars (ucast (ae_rid e))) \<le> 10"
    using length_dec_chars_u32 [of "ae_rid e"] by simp
  moreover have "length (if ae_verdict e = 2 then ''EPERM'' else ''OK'') \<le> 5" by simp
  ultimately show ?thesis
    unfolding entry_line_def length_append
    using length_dec_chars [of "ae_seq e"] length_dec_chars [of "ae_tick e"]
      length_dec_chars_u32 [of "ae_pid e"] length_dec_chars_u32 [of "ae_count e"]
      length_kind_name [of "ae_kind e"] length_type_name [of "ae_rtype e"]
      length_hex_chars [of "ae_perms e"] by simp
qed

lemma format_entry_line: "format_entry [] 200 e = entry_line e"
  using length_entry_line [of e] by (simp add: format_entry_clip)

lemma audit_format_loop_emit:
  "audit_format_loop budget buf es = emit_lines budget buf (map entry_line es)"
  by (induction es arbitrary: buf) (simp_all only: audit_format_loop.simps emit_lines.simps
      list.map format_entry_line)

text \<open>The index arithmetic walks exactly the last 256 positions of the history, in order.\<close>

lemma audit_live_window:
  "audit_live st = map (\<lambda>k. ring st (k mod AUDIT_LOG_ENTRIES))
     [unat (total st) - min (unat (total st)) AUDIT_LOG_ENTRIES ..< unat (total st)]"
proof (cases "total st < 256")
  case True
  then have u: "unat (total st) < 256" by (simp add: word_less_nat_alt)
  have "unat ((of_nat i :: u64) mod 256) = i mod 256" if "i < 256" for i
    using that by (simp add: unat_of_nat)
  with True u show ?thesis by (auto simp: audit_live_def Let_def min_def)
next
  case False
  then have u: "256 \<le> unat (total st)" by (simp add: word_less_nat_alt)
  define start where "start = (if total st \<le> 256 then 0 else total st mod 256)"
  have st: "unat start = unat (total st) mod 256"
  proof (cases "total st \<le> 256")
    case True
    with u have "unat (total st) = 256" by (simp add: word_le_nat_alt)
    then have "unat (total st) mod 256 = 0" by simp
    with True show ?thesis unfolding start_def by simp
  next
    case False
    then show ?thesis by (simp add: start_def)
  qed
  have "unat ((start + of_nat i) mod 256) = (unat (total st) - 256 + i) mod 256" if "i < 256" for i
  proof -
    have "unat (start + of_nat i) = unat start + i"
      using that st by (simp add: unat_word_ariths unat_of_nat)
    then have "unat ((start + of_nat i) mod 256) = (unat (total st) mod 256 + i) mod 256"
      using st by simp
    also have "\<dots> = (unat (total st) - 256 + i) mod 256"
      using u by (metis le_mod_geq mod_add_left_eq)
    finally show ?thesis .
  qed
  then have "audit_live st = map (\<lambda>i. ring st ((unat (total st) - 256 + i) mod 256)) [0..<256]"
    using False by (simp add: audit_live_def start_def Let_def del: upt_eq_Cons_conv)
  also have "\<dots> = map (\<lambda>k. ring st (k mod 256)) [unat (total st) - 256 ..< unat (total st)]"
    using u by (intro nth_equalityI) auto
  finally show ?thesis using u by (simp add: min_def)
qed

lemma length_audit_live: "length (audit_live st) = min (unat (total st)) AUDIT_LOG_ENTRIES"
  by (simp add: audit_live_window)

section \<open>The durable image reads back\<close>

lemma length_audit_entry_image [simp]: "length (audit_entry_image e) = AUDIT_ENTRY_SIZE"
  by (simp add: audit_entry_image_def)

lemma length_audit_ring_image [simp]: "length (audit_ring_image st) = 10240"
  using length_concat_const [of "[0..<256]" "\<lambda>i. audit_entry_image (ring st i)" 40]
  by (simp add: audit_ring_image_def)

lemma audit_entry_of_image: "audit_entry_of (audit_entry_image e) = e"
proof -
  let ?seq = "le64 (ae_seq e)" and ?tick = "le64 (ae_tick e)" and ?pid = "le32 (ae_pid e)"
    and ?kind = "le16 (ae_kind e)" and ?ver = "le16 (ae_verdict e)" and ?rt = "le32 (ae_rtype e)"
    and ?rid = "le32 (ae_rid e)" and ?pm = "le32 (ae_perms e)" and ?ct = "le32 (ae_count e)"
  have "get64 (audit_entry_image e) 0 = ae_seq e"
    using get64_le64 [of 0 "[]" "ae_seq e" "?tick @ ?pid @ ?kind @ ?ver @ ?rt @ ?rid @ ?pm @ ?ct"]
    by (simp add: audit_entry_image_def)
  moreover have "get64 (audit_entry_image e) 8 = ae_tick e"
    using get64_le64 [of 8 ?seq "ae_tick e" "?pid @ ?kind @ ?ver @ ?rt @ ?rid @ ?pm @ ?ct"]
    by (simp add: audit_entry_image_def)
  moreover have "get32 (audit_entry_image e) 16 = ae_pid e"
    using get32_le32 [of 16 "?seq @ ?tick" "ae_pid e" "?kind @ ?ver @ ?rt @ ?rid @ ?pm @ ?ct"]
    by (simp add: audit_entry_image_def)
  moreover have "get16 (audit_entry_image e) 20 = ae_kind e"
    using get16_le16 [of 20 "?seq @ ?tick @ ?pid" "ae_kind e" "?ver @ ?rt @ ?rid @ ?pm @ ?ct"]
    by (simp add: audit_entry_image_def)
  moreover have "get16 (audit_entry_image e) 22 = ae_verdict e"
    using get16_le16 [of 22 "?seq @ ?tick @ ?pid @ ?kind" "ae_verdict e" "?rt @ ?rid @ ?pm @ ?ct"]
    by (simp add: audit_entry_image_def)
  moreover have "get32 (audit_entry_image e) 24 = ae_rtype e"
    using get32_le32 [of 24 "?seq @ ?tick @ ?pid @ ?kind @ ?ver" "ae_rtype e" "?rid @ ?pm @ ?ct"]
    by (simp add: audit_entry_image_def)
  moreover have "get32 (audit_entry_image e) 28 = ae_rid e"
    using get32_le32 [of 28 "?seq @ ?tick @ ?pid @ ?kind @ ?ver @ ?rt" "ae_rid e" "?pm @ ?ct"]
    by (simp add: audit_entry_image_def)
  moreover have "get32 (audit_entry_image e) 32 = ae_perms e"
    using get32_le32 [of 32 "?seq @ ?tick @ ?pid @ ?kind @ ?ver @ ?rt @ ?rid" "ae_perms e" ?ct]
    by (simp add: audit_entry_image_def)
  moreover have "get32 (audit_entry_image e) 36 = ae_count e"
    using get32_le32 [of 36 "?seq @ ?tick @ ?pid @ ?kind @ ?ver @ ?rt @ ?rid @ ?pm" "ae_count e" "[]"]
    by (simp add: audit_entry_image_def)
  ultimately show ?thesis by (simp add: audit_entry_of_def)
qed

lemma ucast_and_low32: "(ucast (x AND 0xFFFFFFFF :: u64) :: u32) = ucast x"
proof -
  have "(0xFFFFFFFF :: u64) = mask 32" by (simp add: mask_eq_exp_minus_1)
  then have "x AND 0xFFFFFFFF = take_bit 32 x" by (simp only: take_bit_eq_mask)
  then show ?thesis by (intro bit_word_eqI) (auto simp: bit_simps)
qed

text \<open>A buffer that holds the durable image of a ledger: the header fields, the ring image,
  zeroes up to the sector boundary.\<close>

definition audit_image :: "bytes \<Rightarrow> audit_state \<Rightarrow> bool" where
  "audit_image b st \<longleftrightarrow>
     get32 b 0 = AUDIT_BLOB_MAGIC \<and> get32 b 4 = AUDIT_BLOB_VERSION \<and> get32 b 8 = 256 \<and> get32 b 12 = 40
     \<and> get32 b 16 = ucast (total st) \<and> get32 b 20 = ucast (drop_bit 32 (total st))
     \<and> (\<forall>k<AUDIT_LOG_ENTRIES. take 40 (drop (32 + 40 * k) b) = audit_entry_image (ring st k))
     \<and> (\<forall>i. AUDIT_BLOB_BYTES \<le> i \<and> i < AUDIT_BLOB_BUFSZ \<longrightarrow> b ! i = 0)"

lemma audit_serialize_image:
  assumes len: "AUDIT_BLOB_BUFSZ \<le> length b" and n: "AUDIT_BLOB_BUFSZ \<le> n"
  shows "\<exists>b'. audit_serialize (Some b) n st = (Some b', AUDIT_BLOB_BYTES) \<and> length b' = length b
    \<and> audit_image b' st \<and> (\<forall>i. AUDIT_BLOB_BUFSZ \<le> i \<and> i < length b \<longrightarrow> b' ! i = b ! i)"
proof -
  define h where "h = poke (poke (poke (poke (poke (poke (poke b 0 (replicate 10752 0)) 0
      (le32 0x31445541)) 4 (le32 1)) 8 (le32 256)) 12 (le32 40)) 16 (le32 (ucast (total st AND 0xFFFFFFFF))))
      20 (le32 (ucast (drop_bit 32 (total st))))"
  define b' where "b' = poke h 32 (audit_ring_image st)"
  have lh: "length h = length b" using len by (simp add: h_def)
  have lb: "length b' = length b" using len lh by (simp add: b'_def)
  have hi: "get32 b' i = get32 h i" if "i + 4 \<le> 32" for i
    using that len lh by (simp add: b'_def get32_poke_other)
  have nth: "b' ! i = (if i < 10752 then 0 else b ! i)" if "10272 \<le> i" "i < length b" for i
    using that len lh by (simp add: b'_def nth_poke) (simp add: h_def nth_poke)
  have chunk: "take 40 (drop (32 + 40 * k) b') = audit_entry_image (ring st k)" if "k < 256" for k
  proof -
    have "take 40 (drop (32 + 40 * k) b') = take 40 (drop (40 * k) (audit_ring_image st))"
      using that len lh by (simp add: b'_def poke_def)
    also have "\<dots> = audit_entry_image (ring st k)"
      using that chunk_concat [of "\<lambda>i. audit_entry_image (ring st i)" 40 k "[0..<256]"]
      by (simp add: audit_ring_image_def)
    finally show ?thesis .
  qed
  have "audit_image b' st"
    unfolding audit_image_def using len nth chunk
    by (simp add: hi h_def get32_poke_same get32_poke_other ucast_and_low32)
  moreover have "audit_serialize (Some b) n st = (Some b', AUDIT_BLOB_BYTES)"
    using n by (simp add: audit_serialize_def Let_def b'_def h_def)
  ultimately show ?thesis using lb nth by auto
qed

lemma audit_load_image:
  assumes "audit_image b st" and "unat (total st) \<le> 281474976710656" and "AUDIT_BLOB_BYTES \<le> len"
  shows "audit_load (Some b) len st0 =
    (0, \<lparr>ring = (\<lambda>i. if i < AUDIT_LOG_ENTRIES then (ring st i)\<lparr>ae_tick := 0\<rparr> else ring st0 i),
         total = total st, coalesce_floor = total st\<rparr>)"
proof -
  have "\<not> total st > push_bit 48 1" using assms(2) by (simp add: word_less_nat_alt)
  with assms(1,3) show ?thesis
    by (simp add: audit_load_def audit_image_def join64 Let_def audit_entry_of_image fun_eq_iff)
qed

section \<open>Properties\<close>

text \<open>A denial flood cannot evict evidence: however often one record is repeated back to back,
  the ring consumes at most one position and every other event still in the window stays.\<close>

theorem audit_flood_keeps_evidence:
  assumes "ledger_inv st" and "ledger_slots st + 2 < LEDGER_LIMIT"
  shows "ledger_slots (fold (\<lambda>now. audit_record now kind pid verdict rtype rid perms) ticks st)
           \<le> ledger_slots st + 1
    \<and> (\<forall>k. k < ledger_slots st \<and> ledger_slots st + 1 \<le> k + AUDIT_LOG_ENTRIES \<longrightarrow>
         event_at (fold (\<lambda>now. audit_record now kind pid verdict rtype rid perms) ticks st) k = event_at st k)"
  using ledger.flood [OF assms, where e = "(kind, pid, verdict, rtype, rid, perms)" and ts = ticks]
  by (simp add: record_event_eq)

theorem audit_flood_keeps_evidence_witness:
  "ledger_slots (fold (\<lambda>now. audit_record now AUDIT_DENY 7 AUDIT_V_EPERM 2 1 2) [1, 2, 3, 4]
     (audit_record 0 AUDIT_GRANT 7 AUDIT_V_OK 0 42 1 audit_boot)) \<le> 2"
proof -
  let ?s = "audit_record 0 AUDIT_GRANT 7 AUDIT_V_OK 0 42 1 audit_boot"
  have "ledger_inv ?s" by (rule audit_record_inv [OF ledger_inv_boot]) (simp add: audit_boot_def)
  moreover have t: "ledger_slots ?s = 1"
    by (simp add: ledger_slots_def audit_record_def audit_boot_def)
  ultimately show ?thesis
    using audit_flood_keeps_evidence [of ?s AUDIT_DENY 7 AUDIT_V_EPERM 2 1 2 "[1, 2, 3, 4]"] by simp
qed

text \<open>The history is append-only and totally ordered: the entries \<open>audit_format\<close> walks are the
  last \<open>min total 256\<close> records, oldest first, with consecutive sequence numbers ending at \<open>total - 1\<close>.\<close>

theorem audit_live_consecutive:
  assumes "ledger_inv st"
  shows "map ae_seq (audit_live st) =
    map of_nat [unat (total st) - min (unat (total st)) AUDIT_LOG_ENTRIES ..< unat (total st)]"
  using assms by (auto simp: audit_live_window ledger_inv_def min_def)

theorem audit_live_consecutive_witness:
  "map ae_seq (audit_live (audit_record 5 AUDIT_DENY 7 AUDIT_V_EPERM 2 1 2
     (audit_record 0 AUDIT_GRANT 7 AUDIT_V_OK 0 42 1 audit_boot))) = [0, 1]"
proof -
  let ?s = "audit_record 0 AUDIT_GRANT 7 AUDIT_V_OK 0 42 1 audit_boot"
  let ?t = "audit_record 5 AUDIT_DENY 7 AUDIT_V_EPERM 2 1 2 ?s"
  have s: "ledger_inv ?s" by (rule audit_record_inv [OF ledger_inv_boot]) (simp add: audit_boot_def)
  have "total ?s = 1" by (simp add: audit_record_def audit_boot_def)
  then have "ledger_inv ?t" by (intro audit_record_inv [OF s]) simp
  moreover have "total ?t = 2" by (simp add: audit_record_def audit_boot_def Let_def)
  ultimately show ?thesis using audit_live_consecutive [of ?t] by (simp add: upt_rec)
qed

text \<open>The rendering is line-atomic and in bounds: the text is a run of whole entry lines,
  oldest first, followed by the truncation notice exactly when entries were dropped; the NUL lands
  right behind it, inside the buffer.\<close>

theorem audit_format_line_atomic:
  assumes "audit_format mx st = Some (t, z)"
  shows "z = length t \<and> z < mx
    \<and> (\<exists>m\<le>length (audit_live st). t = concat (map entry_line (take m (audit_live st)))
          @ (if m < length (audit_live st) then audit_tail else []))"
  using format_dump [OF audit_format_def [unfolded audit_format_loop_emit] assms]
  unfolding length_map take_map .

theorem audit_format_line_atomic_witness:
  "\<exists>t. audit_format 100 audit_boot = Some (t, 0) \<and> t = []"
proof -
  have "audit_format 100 audit_boot = Some ([], 0)"
    by (simp add: audit_format_def audit_tail_def audit_live_def audit_boot_def)
  with audit_format_line_atomic [OF this] show ?thesis by simp
qed

text \<open>Durable round trip: loading what \<open>audit_serialize\<close> wrote restores every ring entry
  (its boot-relative tick zeroed) and the record count, seals the coalescing boundary at it, and no
  byte of the sector padding carries anything but zero.\<close>

theorem audit_serialize_load:
  assumes "AUDIT_BLOB_BUFSZ \<le> length b" and "AUDIT_BLOB_BUFSZ \<le> n"
    and "unat (total st) \<le> 281474976710656"
  shows "\<exists>b'. audit_serialize (Some b) n st = (Some b', AUDIT_BLOB_BYTES)
    \<and> (\<forall>i. AUDIT_BLOB_BYTES \<le> i \<and> i < AUDIT_BLOB_BUFSZ \<longrightarrow> b' ! i = 0)
    \<and> (\<forall>len\<ge>AUDIT_BLOB_BYTES. audit_load (Some b') len st0 =
         (0, \<lparr>ring = (\<lambda>i. if i < AUDIT_LOG_ENTRIES then (ring st i)\<lparr>ae_tick := 0\<rparr> else ring st0 i),
              total = total st, coalesce_floor = total st\<rparr>))"
proof -
  obtain b' where b': "audit_serialize (Some b) n st = (Some b', AUDIT_BLOB_BYTES)" and img: "audit_image b' st"
    using audit_serialize_image [OF assms(1,2), of st] by blast
  moreover have "\<forall>i. AUDIT_BLOB_BYTES \<le> i \<and> i < AUDIT_BLOB_BUFSZ \<longrightarrow> b' ! i = 0"
    using img by (simp add: audit_image_def)
  ultimately show ?thesis using audit_load_image [OF img assms(3)] by blast
qed

theorem audit_serialize_load_witness:
  "\<exists>b'. audit_serialize (Some (replicate 10752 0xAA)) 10752
      (audit_record 9 AUDIT_GRANT 7 AUDIT_V_OK 0 42 1 audit_boot) = (Some b', AUDIT_BLOB_BYTES)
    \<and> total (snd (audit_load (Some b') 10272 audit_boot)) = 1"
proof -
  let ?s = "audit_record 9 AUDIT_GRANT 7 AUDIT_V_OK 0 42 1 audit_boot"
  have t: "total ?s = 1" by (simp add: audit_record_def audit_boot_def)
  then have "unat (total ?s) \<le> 281474976710656" by simp
  then show ?thesis
    using audit_serialize_load [of "replicate 10752 0xAA" 10752 ?s audit_boot] t by auto
qed

text \<open>The restore boundary is sealed: after a successful load the first record of the new boot
  takes a fresh sequence number even when it equals the last durable record, and every other durable
  entry of the window keeps its content.\<close>

theorem audit_restore_seals:
  assumes "audit_load buf len st0 = (0, st)"
  shows "total (audit_record now kind pid verdict rtype rid perms st) = total st + 1
    \<and> (\<forall>i. i \<noteq> unat (total st mod 256) \<longrightarrow>
         ring (audit_record now kind pid verdict rtype rid perms st) i = ring st i)"
proof -
  have "coalesce_floor st = total st"
    using assms by (auto simp: audit_load_def Let_def split: option.splits if_splits)
  then have "\<not> coalesces kind pid verdict rtype rid perms st"
    by (simp add: coalesces_def Let_def)
  from audit_record_append [OF this] show ?thesis by simp
qed

theorem audit_restore_seals_witness:
  "\<exists>st b'. audit_load (Some b') 10272 audit_boot = (0, st)
     \<and> total (audit_record 3 AUDIT_GRANT 7 AUDIT_V_OK 0 42 1 st) = 2"
proof -
  let ?s = "audit_record 9 AUDIT_GRANT 7 AUDIT_V_OK 0 42 1 audit_boot"
  have t: "total ?s = 1" by (simp add: audit_record_def audit_boot_def)
  obtain b' where "audit_image b' ?s"
    using audit_serialize_image [of "replicate 10752 0" 10752 ?s] by auto
  then have "audit_load (Some b') 10272 audit_boot = (0, snd (audit_load (Some b') 10272 audit_boot))
      \<and> total (snd (audit_load (Some b') 10272 audit_boot)) = 1"
    using t by (simp add: audit_load_image)
  then obtain st where st: "audit_load (Some b') 10272 audit_boot = (0, st)" "total st = 1"
    by (cases "audit_load (Some b') 10272 audit_boot") auto
  then show ?thesis using audit_restore_seals [OF st(1), of 3 AUDIT_GRANT 7 AUDIT_V_OK 0 42 1] by auto
qed

text \<open>A rendered line can be longer than the 96 bytes \<open>AUDIT_LINE_MAX\<close> documents as the
  per-entry maximum, while 156 bytes always suffice and the 200-byte scratch line never clips.\<close>

theorem audit_line_bounds:
  "length (format_entry [] 200 e) \<le> 156 \<and> format_entry [] 200 e = entry_line e
   \<and> length (format_entry [] 200 \<lparr>ae_seq = 1500, ae_tick = 360000, ae_pid = 12, ae_kind = AUDIT_EGRESS,
        ae_verdict = AUDIT_V_EPERM, ae_rtype = 2, ae_rid = 0xC0A80164, ae_perms = 0x1101BB, ae_count = 1\<rparr>) = 104"
proof -
  have "length (format_entry [] 200 \<lparr>ae_seq = 1500, ae_tick = 360000, ae_pid = 12, ae_kind = AUDIT_EGRESS,
        ae_verdict = AUDIT_V_EPERM, ae_rtype = 2, ae_rid = 0xC0A80164, ae_perms = 0x1101BB, ae_count = 1\<rparr>) = 104"
    by (simp add: format_entry_line entry_line_def kind_name_def type_name_def dec_chars_def
        hex_chars_def dec_loop.simps hex_loop.simps Let_def)
  then show ?thesis by (simp add: format_entry_line length_entry_line)
qed

end
