(* ===== verification/Capability.thy ===== *)
theory Capability
  imports Audit_Log
begin

text \<open>
  The capability table (\<open>kernel/src/capability.c\<close>, \<open>kernel/include/kernel/capability.h\<close>):
  1024 generation-tagged slots, creation and attenuating derivation, cascading revocation, the
  gated lookups bounded by a high-water mark, and the two death sweeps. This theory holds the
  data, the operations and their functional behaviour; the tree invariant and the revocation
  proofs are in \<open>Capability_Tree\<close>.

  Slot indices, loop counters and \<open>cap_hwm\<close> never exceed 1024 and are \<open>nat\<close>. An operation
  that returns a \<open>cap_result_t\<close> and an out-parameter returns \<open>Inl\<close> of the error or \<open>Inr\<close>
  of the output (\<open>CAP_SUCCESS\<close>). \<open>now\<close> is \<open>timer_get_ticks()\<close> at the call.
\<close>

section \<open>Data\<close>

abbreviation MAX_CAPABILITIES :: nat where "MAX_CAPABILITIES \<equiv> 1024"
abbreviation (input) CAP_ID_INVALID :: u32 where "CAP_ID_INVALID \<equiv> 0"

abbreviation (input) CAP_READ :: u32 where "CAP_READ \<equiv> 0x01"
abbreviation (input) CAP_WRITE :: u32 where "CAP_WRITE \<equiv> 0x02"
abbreviation (input) CAP_EXECUTE :: u32 where "CAP_EXECUTE \<equiv> 0x04"
abbreviation (input) CAP_GRANT :: u32 where "CAP_GRANT \<equiv> 0x08"
abbreviation (input) CAP_REVOKE :: u32 where "CAP_REVOKE \<equiv> 0x10"

abbreviation (input) CAP_RESOURCE_MEMORY :: u32 where "CAP_RESOURCE_MEMORY \<equiv> 0"
abbreviation (input) CAP_RESOURCE_IPC :: u32 where "CAP_RESOURCE_IPC \<equiv> 1"
abbreviation (input) CAP_RESOURCE_DEVICE :: u32 where "CAP_RESOURCE_DEVICE \<equiv> 2"
abbreviation (input) CAP_RESOURCE_PROCESS :: u32 where "CAP_RESOURCE_PROCESS \<equiv> 4"
abbreviation (input) CAP_RESOURCE_FIELD :: u32 where "CAP_RESOURCE_FIELD \<equiv> 6"
abbreviation (input) CAP_RESOURCE_TYPE_COUNT :: u32 where "CAP_RESOURCE_TYPE_COUNT \<equiv> 7"

datatype cap_error = CAP_ERROR_INVALID_ID | CAP_ERROR_DENIED | CAP_ERROR_EXPIRED
  | CAP_ERROR_REVOKED | CAP_ERROR_NO_SPACE | CAP_ERROR_INVALID_ARG | CAP_ERROR_NOT_OWNER
  | CAP_ERROR_ESCALATION | CAP_ERROR_NOT_REVOCABLE

record capability_t =
  cap_id :: u32
  owner_id :: u32
  resource_type :: u32
  resource_id :: u32
  permissions :: u32
  expiration :: u64
  is_revocable :: bool
  is_inherited :: bool
  is_spawn_channel :: bool
  parent_cap :: u32

record cap_slot_t =
  cap :: capability_t
  generation :: u16
  in_use :: bool

record cap_stats_t =
  st_created :: u64
  st_derived :: u64
  st_revoked :: u64
  checks_passed :: u64
  checks_denied :: u64
  st_active :: u32

text \<open>The statics of capability.c, and the ledger its operations write.\<close>

record cap_state =
  cap_table :: "nat \<Rightarrow> cap_slot_t"
  cap_hwm :: nat
  stats :: cap_stats_t
  cap_initialized :: bool
  ledger :: audit_state

definition cap_zero :: capability_t where
  "cap_zero = \<lparr>cap_id = 0, owner_id = 0, resource_type = 0, resource_id = 0, permissions = 0,
     expiration = 0, is_revocable = False, is_inherited = False, is_spawn_channel = False, parent_cap = 0\<rparr>"

definition slot_zero :: cap_slot_t where
  "slot_zero = \<lparr>cap = cap_zero, generation = 0, in_use = False\<rparr>"

definition stats_zero :: cap_stats_t where
  "stats_zero = \<lparr>st_created = 0, st_derived = 0, st_revoked = 0, checks_passed = 0,
     checks_denied = 0, st_active = 0\<rparr>"

text \<open>The \<open>.bss\<close> image before \<open>cap_init\<close>.\<close>

definition cap_boot :: cap_state where
  "cap_boot = \<lparr>cap_table = (\<lambda>_. slot_zero), cap_hwm = 0, stats = stats_zero,
     cap_initialized = False, ledger = audit_boot\<rparr>"

section \<open>Internal helpers\<close>

definition make_cap_id :: "nat \<Rightarrow> u16 \<Rightarrow> u32" where
  "make_cap_id index gen = push_bit 16 (ucast gen) OR (of_nat index + 1)"

definition resolve :: "cap_state \<Rightarrow> u32 \<Rightarrow> nat option" where
  "resolve s cid =
     (if cid = CAP_ID_INVALID then None
      else let index = unat ((cid AND 0xFFFF) - 1); gen = (ucast (drop_bit 16 cid) :: u16) in
        if index \<ge> MAX_CAPABILITIES then None
        else if \<not> in_use (cap_table s index) \<or> generation (cap_table s index) \<noteq> gen then None
        else Some index)"

text \<open>\<open>alloc_slot\<close>: first fit; the new id is stored in the slot and the mark is raised.\<close>

definition alloc_slot :: "cap_state \<Rightarrow> (nat \<times> u32 \<times> cap_state) option" where
  "alloc_slot s =
     (case first_idx (\<lambda>i. \<not> in_use (cap_table s i)) 0 MAX_CAPABILITIES of
        None \<Rightarrow> None
      | Some i \<Rightarrow>
          let sl = cap_table s i; cid = make_cap_id i (generation sl) in
          Some (i, cid,
            s\<lparr>cap_table := (cap_table s)(i := sl\<lparr>in_use := True, cap := (cap sl)\<lparr>cap_id := cid\<rparr>\<rparr>),
              cap_hwm := (if i + 1 > cap_hwm s then i + 1 else cap_hwm s)\<rparr>))"

definition free_slot :: "nat \<Rightarrow> cap_state \<Rightarrow> cap_state" where
  "free_slot i s =
     s\<lparr>cap_table := (cap_table s)(i := (cap_table s i)\<lparr>in_use := False,
                                        generation := generation (cap_table s i) + 1\<rparr>),
       stats := (stats s)\<lparr>st_active := st_active (stats s) - 1\<rparr>\<rparr>"

definition is_expired :: "u64 \<Rightarrow> capability_t \<Rightarrow> bool" where
  "is_expired now c \<longleftrightarrow> expiration c \<noteq> 0 \<and> now \<ge> expiration c"

section \<open>Creation and derivation\<close>

definition cap_init :: "cap_state \<Rightarrow> cap_state" where
  "cap_init s = s\<lparr>cap_table := (\<lambda>i. if i < MAX_CAPABILITIES then slot_zero else cap_table s i),
     stats := stats_zero, cap_initialized := True\<rparr>"

definition cap_create ::
    "u64 \<Rightarrow> u32 \<Rightarrow> u32 \<Rightarrow> u32 \<Rightarrow> u32 \<Rightarrow> u64 \<Rightarrow> cap_state \<Rightarrow> (cap_error + u32) \<times> cap_state" where
  "cap_create now owner rtype rid perms exp s =
     (if \<not> cap_initialized s \<or> rtype \<ge> CAP_RESOURCE_TYPE_COUNT then (Inl CAP_ERROR_INVALID_ARG, s)
      else case alloc_slot s of None \<Rightarrow> (Inl CAP_ERROR_NO_SPACE, s)
      | Some (i, cid, s1) \<Rightarrow>
          let sl = cap_table s1 i;
              c = (cap sl)\<lparr>owner_id := owner, resource_type := rtype, resource_id := rid,
                    permissions := perms, expiration := exp, is_revocable := True,
                    is_inherited := False, is_spawn_channel := False, parent_cap := CAP_ID_INVALID\<rparr>
          in (Inr cid,
              s1\<lparr>cap_table := (cap_table s1)(i := sl\<lparr>cap := c\<rparr>),
                 stats := (stats s1)\<lparr>st_created := st_created (stats s1) + 1,
                                     st_active := st_active (stats s1) + 1\<rparr>,
                 ledger := audit_grant now owner rtype rid perms (ledger s1)\<rparr>))"

text \<open>A child never outlives its parent.\<close>

definition clamp_expiration :: "u64 \<Rightarrow> u64 \<Rightarrow> u64" where
  "clamp_expiration pexp exp = (if pexp \<noteq> 0 \<and> (exp = 0 \<or> exp > pexp) then pexp else exp)"

definition cap_derive ::
    "u64 \<Rightarrow> u32 \<Rightarrow> u32 \<Rightarrow> u32 \<Rightarrow> u32 \<Rightarrow> u64 \<Rightarrow> cap_state \<Rightarrow> (cap_error + u32) \<times> cap_state" where
  "cap_derive now pcap requester new_owner perms exp s =
     (case resolve s pcap of None \<Rightarrow> (Inl CAP_ERROR_INVALID_ID, s)
      | Some p \<Rightarrow>
        let par = cap (cap_table s p) in
        if owner_id par \<noteq> requester then (Inl CAP_ERROR_NOT_OWNER, s)
        else if is_expired now par then (Inl CAP_ERROR_EXPIRED, s)
        else if permissions par AND CAP_GRANT = 0 then (Inl CAP_ERROR_DENIED, s)
        else if perms AND NOT (permissions par) \<noteq> 0 then (Inl CAP_ERROR_ESCALATION, s)
        else let exp' = clamp_expiration (expiration par) exp in
          case alloc_slot s of None \<Rightarrow> (Inl CAP_ERROR_NO_SPACE, s)
          | Some (i, cid, s1) \<Rightarrow>
              let sl = cap_table s1 i;
                  par1 = cap (cap_table s1 p);
                  c = (cap sl)\<lparr>owner_id := new_owner, resource_type := resource_type par1,
                        resource_id := resource_id par1, permissions := perms, expiration := exp',
                        is_revocable := True, is_inherited := True, is_spawn_channel := False,
                        parent_cap := pcap\<rparr>
              in (Inr cid,
                  s1\<lparr>cap_table := (cap_table s1)(i := sl\<lparr>cap := c\<rparr>),
                     stats := (stats s1)\<lparr>st_derived := st_derived (stats s1) + 1,
                                         st_active := st_active (stats s1) + 1\<rparr>,
                     ledger := audit_grant now new_owner (resource_type c) (resource_id c) perms
                                 (ledger s1)\<rparr>))"

section \<open>Revocation\<close>

text \<open>Capture the record fields, free the slot, count it, write the record (\<open>au\<close> is the
  ledger call of the site).\<close>

definition release_slot ::
    "(u32 \<Rightarrow> u32 \<Rightarrow> u32 \<Rightarrow> u32 \<Rightarrow> audit_state \<Rightarrow> audit_state) \<Rightarrow> nat \<Rightarrow> cap_state \<Rightarrow> cap_state" where
  "release_slot au i s =
     (let c = cap (cap_table s i); s1 = free_slot i s in
      s1\<lparr>stats := (stats s1)\<lparr>st_revoked := st_revoked (stats s1) + 1\<rparr>,
         ledger := au (owner_id c) (resource_type c) (resource_id c) (permissions c) (ledger s1)\<rparr>)"

text \<open>A C \<open>for\<close> loop whose body may fail to return.\<close>

fun foldM :: "('a \<Rightarrow> 's \<Rightarrow> 's option) \<Rightarrow> 'a list \<Rightarrow> 's \<Rightarrow> 's option" where
  "foldM f [] s = Some s"
| "foldM f (x # xs) s = (case f x s of None \<Rightarrow> None | Some s' \<Rightarrow> foldM f xs s')"

text \<open>\<open>revoke_children_of\<close>: the first argument bounds the recursion depth; \<open>None\<close> is a
  recursion that has not come back within it.\<close>

fun revoke_children_of :: "nat \<Rightarrow> u64 \<Rightarrow> u16 \<Rightarrow> u32 \<Rightarrow> cap_state \<Rightarrow> cap_state option" where
  "revoke_children_of 0 now kind parent s = None"
| "revoke_children_of (Suc n) now kind parent s =
     foldM (\<lambda>i s. if in_use (cap_table s i) \<and> parent_cap (cap (cap_table s i)) = parent
        then (case revoke_children_of n now kind (cap_id (cap (cap_table s i))) s of
                None \<Rightarrow> None
              | Some s' \<Rightarrow> Some (release_slot (\<lambda>pid. audit_record now kind pid AUDIT_V_OK) i s'))
        else Some s) [0..<MAX_CAPABILITIES] s"

text \<open>The depth the model runs with: one more than the number of slots.\<close>

abbreviation CAP_DEPTH :: nat where "CAP_DEPTH \<equiv> 1025"

text \<open>The ancestor walk of \<open>cap_revoke\<close> (same use of fuel).\<close>

fun ancestor_authorizes :: "nat \<Rightarrow> u32 \<Rightarrow> u32 \<Rightarrow> cap_state \<Rightarrow> bool option" where
  "ancestor_authorizes 0 requester aid s = None"
| "ancestor_authorizes (Suc n) requester aid s =
     (if aid = CAP_ID_INVALID then Some False
      else case resolve s aid of None \<Rightarrow> Some False
      | Some a \<Rightarrow>
          if owner_id (cap (cap_table s a)) = requester
             \<and> permissions (cap (cap_table s a)) AND CAP_REVOKE \<noteq> 0 then Some True
          else ancestor_authorizes n requester (parent_cap (cap (cap_table s a))) s)"

definition cap_revoke :: "u64 \<Rightarrow> u32 \<Rightarrow> u32 \<Rightarrow> cap_state \<Rightarrow> ((cap_error + unit) \<times> cap_state) option" where
  "cap_revoke now cid requester s =
     (case resolve s cid of None \<Rightarrow> Some (Inl CAP_ERROR_INVALID_ID, s)
      | Some i \<Rightarrow>
        let c = cap (cap_table s i) in
        if \<not> is_revocable c then Some (Inl CAP_ERROR_NOT_REVOCABLE, s)
        else case (if owner_id c \<noteq> requester
                   then ancestor_authorizes CAP_DEPTH requester (parent_cap c) s else Some True) of
            None \<Rightarrow> None
          | Some False \<Rightarrow> Some (Inl CAP_ERROR_NOT_OWNER, s)
          | Some True \<Rightarrow>
              (case revoke_children_of CAP_DEPTH now AUDIT_REVOKE cid s of None \<Rightarrow> None
               | Some s' \<Rightarrow> Some (Inr (), release_slot (audit_revoke now) i s')))"

definition cap_revoke_all_for_process :: "u64 \<Rightarrow> u32 \<Rightarrow> cap_state \<Rightarrow> cap_state option" where
  "cap_revoke_all_for_process now pid s =
     foldM (\<lambda>i s. if in_use (cap_table s i) \<and> owner_id (cap (cap_table s i)) = pid
        then (case revoke_children_of CAP_DEPTH now AUDIT_REAP (cap_id (cap (cap_table s i))) s of
                None \<Rightarrow> None
              | Some s' \<Rightarrow> Some (release_slot (\<lambda>_. audit_reap now pid) i s'))
        else Some s) [0..<MAX_CAPABILITIES] s"

definition cap_revoke_ipc_targets :: "u64 \<Rightarrow> u32 \<Rightarrow> cap_state \<Rightarrow> cap_state option" where
  "cap_revoke_ipc_targets now dead s =
     foldM (\<lambda>i s. if in_use (cap_table s i) \<and> resource_type (cap (cap_table s i)) = CAP_RESOURCE_IPC
          \<and> resource_id (cap (cap_table s i)) = dead
        then (case revoke_children_of CAP_DEPTH now AUDIT_UNLINK (cap_id (cap (cap_table s i))) s of
                None \<Rightarrow> None
              | Some s' \<Rightarrow> Some (release_slot (audit_unlink now) i s'))
        else Some s) [0..<MAX_CAPABILITIES] s"

section \<open>Checks and lookups\<close>

definition bump_denied :: "cap_state \<Rightarrow> cap_state" where
  "bump_denied s = s\<lparr>stats := (stats s)\<lparr>checks_denied := checks_denied (stats s) + 1\<rparr>\<rparr>"

definition bump_passed :: "cap_state \<Rightarrow> cap_state" where
  "bump_passed s = s\<lparr>stats := (stats s)\<lparr>checks_passed := checks_passed (stats s) + 1\<rparr>\<rparr>"

definition cap_check ::
    "u64 \<Rightarrow> u32 \<Rightarrow> u32 \<Rightarrow> u32 \<Rightarrow> u32 \<Rightarrow> u32 \<Rightarrow> cap_state \<Rightarrow> (cap_error + unit) \<times> cap_state" where
  "cap_check now cid pid rtype rid req s =
     (case resolve s cid of None \<Rightarrow> (Inl CAP_ERROR_INVALID_ID, bump_denied s)
      | Some i \<Rightarrow>
        let c = cap (cap_table s i) in
        if owner_id c \<noteq> pid \<or> resource_type c \<noteq> rtype \<or> resource_id c \<noteq> rid
        then (Inl CAP_ERROR_DENIED, bump_denied s)
        else if is_expired now c then (Inl CAP_ERROR_EXPIRED, bump_denied s)
        else if permissions c AND req \<noteq> req then (Inl CAP_ERROR_DENIED, bump_denied s)
        else (Inr (), bump_passed s))"

definition cap_get :: "u32 \<Rightarrow> cap_state \<Rightarrow> cap_error + capability_t" where
  "cap_get cid s = (case resolve s cid of None \<Rightarrow> Inl CAP_ERROR_INVALID_ID
     | Some i \<Rightarrow> Inr (cap (cap_table s i)))"

definition cap_find :: "u64 \<Rightarrow> u32 \<Rightarrow> u32 \<Rightarrow> u32 \<Rightarrow> cap_state \<Rightarrow> cap_error + u32" where
  "cap_find now pid rtype req s =
     (case first_idx (\<lambda>i. in_use (cap_table s i)
           \<and> owner_id (cap (cap_table s i)) = pid \<and> resource_type (cap (cap_table s i)) = rtype
           \<and> permissions (cap (cap_table s i)) AND req = req
           \<and> \<not> is_expired now (cap (cap_table s i))) 0 (cap_hwm s) of
        None \<Rightarrow> Inl CAP_ERROR_DENIED
      | Some i \<Rightarrow> Inr (resource_id (cap (cap_table s i))))"

text \<open>The match of the targeted lookups.\<close>

definition cap_matches :: "u64 \<Rightarrow> u32 \<Rightarrow> u32 \<Rightarrow> u32 \<Rightarrow> u32 \<Rightarrow> cap_state \<Rightarrow> nat \<Rightarrow> bool" where
  "cap_matches now pid rtype req rid s i \<longleftrightarrow>
     (let c = cap (cap_table s i) in in_use (cap_table s i)
        \<and> owner_id c = pid \<and> resource_type c = rtype \<and> resource_id c = rid
        \<and> permissions c AND req = req \<and> \<not> is_expired now c)"

definition cap_find_resource :: "u64 \<Rightarrow> u32 \<Rightarrow> u32 \<Rightarrow> u32 \<Rightarrow> u32 \<Rightarrow> cap_state \<Rightarrow> cap_error + unit" where
  "cap_find_resource now pid rtype req rid s =
     (case first_idx (cap_matches now pid rtype req rid s) 0 (cap_hwm s) of
        None \<Rightarrow> Inl CAP_ERROR_DENIED | Some i \<Rightarrow> Inr ())"

definition cap_find_id :: "u64 \<Rightarrow> u32 \<Rightarrow> u32 \<Rightarrow> u32 \<Rightarrow> u32 \<Rightarrow> cap_state \<Rightarrow> cap_error + u32" where
  "cap_find_id now pid rtype req rid s =
     (case first_idx (cap_matches now pid rtype req rid s) 0 (cap_hwm s) of
        None \<Rightarrow> Inl CAP_ERROR_DENIED | Some i \<Rightarrow> Inr (cap_id (cap (cap_table s i))))"

definition cap_mark_spawn_channel :: "u32 \<Rightarrow> cap_state \<Rightarrow> (cap_error + unit) \<times> cap_state" where
  "cap_mark_spawn_channel cid s =
     (case resolve s cid of None \<Rightarrow> (Inl CAP_ERROR_INVALID_ID, s)
      | Some i \<Rightarrow> (Inr (), s\<lparr>cap_table := (cap_table s)(i :=
          (cap_table s i)\<lparr>cap := (cap (cap_table s i))\<lparr>is_spawn_channel := True\<rparr>\<rparr>)\<rparr>))"

definition cap_get_stats :: "cap_state \<Rightarrow> cap_stats_t" where
  "cap_get_stats s = stats s"

section \<open>Handles\<close>

lemma make_cap_id_low: "i < MAX_CAPABILITIES \<Longrightarrow> make_cap_id i g AND 0xFFFF = of_nat i + 1"
proof -
  assume i: "i < MAX_CAPABILITIES"
  have m: "(0xFFFF :: u32) = mask 16" by (simp add: mask_eq_exp_minus_1)
  have "take_bit 16 (of_nat (Suc i) :: u32) = of_nat (Suc i)"
    using i by (simp only: take_bit_of_nat) (simp add: take_bit_nat_eq_self)
  then show ?thesis
    by (simp only: make_cap_id_def m take_bit_eq_mask [symmetric] take_bit_or)
      (simp add: take_bit_push_bit add.commute)
qed

lemma make_cap_id_high: "i < MAX_CAPABILITIES \<Longrightarrow> (ucast (drop_bit 16 (make_cap_id i g)) :: u16) = g"
proof -
  assume i: "i < MAX_CAPABILITIES"
  have "unat (of_nat (Suc i) :: u32) = Suc i" using i by (simp add: unat_of_nat del: of_nat_Suc)
  then have "unat (drop_bit 16 (of_nat (Suc i) :: u32)) = 0"
    using i by (simp only: unsigned_drop_bit_eq) (simp add: drop_bit_eq_div take_bit_nat_eq_self del: of_nat_Suc)
  then have d: "drop_bit 16 (of_nat i + 1 :: u32) = 0" by (simp add: unat_eq_zero add.commute)
  have "(ucast (drop_bit 16 (push_bit 16 (ucast g) :: u32)) :: u16) = g"
    by (rule bit_word_eqI) (auto simp: bit_simps)
  then show ?thesis by (simp add: make_cap_id_def drop_bit_or d)
qed

lemma make_cap_id_index: "i < MAX_CAPABILITIES \<Longrightarrow> unat ((make_cap_id i g AND 0xFFFF) - 1) = i"
  by (simp add: make_cap_id_low unat_of_nat)

lemma make_cap_id_nonzero: "i < MAX_CAPABILITIES \<Longrightarrow> make_cap_id i g \<noteq> 0"
proof
  assume i: "i < MAX_CAPABILITIES" and "make_cap_id i g = 0"
  then have "unat ((0 AND 0xFFFF) - 1 :: u32) = i" using make_cap_id_index [OF i, of g] by simp
  moreover have "unat (- 1 :: u32) = 4294967295"
    by (simp add: unsigned_minus_1_eq_mask mask_eq_exp_minus_1)
  ultimately show False using i by simp
qed

lemma make_cap_id_inject:
  "i < MAX_CAPABILITIES \<Longrightarrow> j < MAX_CAPABILITIES \<Longrightarrow>
   make_cap_id i g = make_cap_id j h \<longleftrightarrow> i = j \<and> g = h"
  by (metis make_cap_id_index make_cap_id_high)

lemma split_cap_id: "make_cap_id (unat ((cid AND 0xFFFF) - 1)) (ucast (drop_bit 16 cid)) = cid"
proof -
  have m: "(0xFFFF :: u32) = mask 16" by (simp add: mask_eq_exp_minus_1)
  have "(push_bit 16 (ucast (ucast (drop_bit 16 cid) :: u16)) :: u32) OR (cid AND 0xFFFF) = cid"
    unfolding m by (rule bit_word_eqI) (auto simp: bit_simps bit_mask_iff)
  then show ?thesis by (simp add: make_cap_id_def)
qed

text \<open>A handle resolves exactly when it is the current id of a live slot.\<close>

lemma resolve_iff:
  "resolve s cid = Some i \<longleftrightarrow>
   i < MAX_CAPABILITIES \<and> in_use (cap_table s i) \<and> cid = make_cap_id i (generation (cap_table s i))"
proof
  assume "resolve s cid = Some i"
  then show "i < MAX_CAPABILITIES \<and> in_use (cap_table s i) \<and> cid = make_cap_id i (generation (cap_table s i))"
    using split_cap_id [of cid] by (auto simp: resolve_def Let_def split: if_splits)
next
  assume "i < MAX_CAPABILITIES \<and> in_use (cap_table s i) \<and> cid = make_cap_id i (generation (cap_table s i))"
  then show "resolve s cid = Some i"
    by (simp add: resolve_def Let_def make_cap_id_index make_cap_id_high make_cap_id_nonzero)
qed

lemma resolve_None:
  "resolve s cid = None \<longleftrightarrow>
   (\<forall>i<MAX_CAPABILITIES. in_use (cap_table s i) \<longrightarrow> cid \<noteq> make_cap_id i (generation (cap_table s i)))"
  by (metis not_None_eq resolve_iff)

end
