(* ===== verification/Capability_Tree.thy ===== *)
theory Capability_Tree
  imports Capability
begin

text \<open>
  The derivation tree of the capability table and cascading revocation: the tree invariant, the
  exact set of slots each revocation frees, termination of the recursions within the model's
  depth, and preservation of the invariant by every operation of \<open>capability.c\<close>.
\<close>

section \<open>The tree\<close>

abbreviation capof :: "cap_state \<Rightarrow> nat \<Rightarrow> capability_t" where
  "capof s i \<equiv> cap (cap_table s i)"

definition live_set :: "cap_state \<Rightarrow> nat set" where
  "live_set s = {i. i < MAX_CAPABILITIES \<and> in_use (cap_table s i)}"

definition child_of :: "cap_state \<Rightarrow> u32 \<Rightarrow> nat \<Rightarrow> bool" where
  "child_of s parent i \<longleftrightarrow> i \<in> live_set s \<and> parent_cap (capof s i) = parent"

text \<open>Everything derived, directly or transitively, from the handle \<open>parent\<close>.\<close>

inductive desc :: "cap_state \<Rightarrow> u32 \<Rightarrow> nat \<Rightarrow> bool" for s where
  base: "child_of s parent i \<Longrightarrow> desc s parent i"
| step: "desc s parent j \<Longrightarrow> child_of s (cap_id (capof s j)) i \<Longrightarrow> desc s parent i"

definition ids_ok :: "cap_state \<Rightarrow> bool" where
  "ids_ok s \<longleftrightarrow> (\<forall>i\<in>live_set s. cap_id (capof s i) = make_cap_id i (generation (cap_table s i)))"

text \<open>Live slots carry their own handle; a derived capability's parent is live and strictly nearer
  the root (\<open>r\<close> is any ranking that shows there is no cycle).\<close>

definition tree_ok :: "cap_state \<Rightarrow> (nat \<Rightarrow> nat) \<Rightarrow> bool" where
  "tree_ok s r \<longleftrightarrow> ids_ok s \<and>
     (\<forall>i\<in>live_set s. parent_cap (capof s i) \<noteq> CAP_ID_INVALID \<longrightarrow>
        (\<exists>j. resolve s (parent_cap (capof s i)) = Some j \<and> r j < r i))"

lemma finite_live_set [simp]: "finite (live_set s)"
  by (simp add: live_set_def)

lemma live_set_bound: "i \<in> live_set s \<Longrightarrow> i < MAX_CAPABILITIES"
  by (simp add: live_set_def)

lemma card_live_set: "card (live_set s) \<le> MAX_CAPABILITIES"
proof -
  have "card (live_set s) \<le> card {..<MAX_CAPABILITIES}"
    by (intro card_mono) (auto simp: live_set_def)
  then show ?thesis by simp
qed

lemma resolve_live: "resolve s cid = Some i \<Longrightarrow> i \<in> live_set s"
  by (simp add: resolve_iff live_set_def)

lemma resolve_own_id: "ids_ok s \<Longrightarrow> i \<in> live_set s \<Longrightarrow> resolve s (cap_id (capof s i)) = Some i"
  by (simp add: resolve_iff ids_ok_def live_set_def)

lemma own_id_nonzero: "ids_ok s \<Longrightarrow> i \<in> live_set s \<Longrightarrow> cap_id (capof s i) \<noteq> 0"
  by (simp add: ids_ok_def live_set_def make_cap_id_nonzero)

lemma desc_live: "desc s parent i \<Longrightarrow> i \<in> live_set s"
  by (induction rule: desc.induct) (simp_all add: child_of_def)

lemma desc_trans:
  "desc s (cap_id (capof s j)) i \<Longrightarrow> desc s parent j \<Longrightarrow> desc s parent i"
proof (induction "cap_id (capof s j)" i rule: desc.induct)
  case (base i)
  then show ?case by (blast intro: desc.step)
next
  case (step k i)
  then show ?case by (blast intro: desc.step)
qed

lemma desc_via_child:
  "desc s parent x \<longleftrightarrow> (\<exists>j. child_of s parent j \<and> (x = j \<or> desc s (cap_id (capof s j)) x))"
proof
  show "desc s parent x \<Longrightarrow> \<exists>j. child_of s parent j \<and> (x = j \<or> desc s (cap_id (capof s j)) x)"
    by (induction rule: desc.induct) (blast intro: desc.intros)+
  show "\<exists>j. child_of s parent j \<and> (x = j \<or> desc s (cap_id (capof s j)) x) \<Longrightarrow> desc s parent x"
    by (blast intro: desc.base desc_trans)
qed

lemma child_rank:
  "tree_ok s r \<Longrightarrow> j \<in> live_set s \<Longrightarrow> child_of s (cap_id (capof s j)) i \<Longrightarrow> r j < r i"
  by (auto simp: tree_ok_def child_of_def resolve_own_id own_id_nonzero)

lemma desc_rank:
  assumes "tree_ok s r" and "j \<in> live_set s" and "desc s (cap_id (capof s j)) i"
  shows "r j < r i"
  using assms(3)
proof (induction "cap_id (capof s j)" i rule: desc.induct)
  case (base i)
  then show ?case using assms by (blast dest: child_rank)
next
  case (step k i)
  then show ?case using assms(1) child_rank [of s r k i] desc_live by fastforce
qed

section \<open>Freeing a set of slots\<close>

definition freed :: "cap_slot_t \<Rightarrow> cap_slot_t" where
  "freed sl = sl\<lparr>in_use := False, generation := generation sl + 1\<rparr>"

text \<open>\<open>t\<close> is \<open>s\<close> with exactly the live slots of \<open>F\<close> freed, and counted.\<close>

definition shrinks :: "cap_state \<Rightarrow> cap_state \<Rightarrow> nat set \<Rightarrow> bool" where
  "shrinks s t F \<longleftrightarrow> F \<subseteq> live_set s
     \<and> cap_table t = (\<lambda>i. if i \<in> F then freed (cap_table s i) else cap_table s i)
     \<and> cap_hwm t = cap_hwm s \<and> cap_initialized t = cap_initialized s
     \<and> stats t = (stats s)\<lparr>st_active := st_active (stats s) - of_nat (card F),
                           st_revoked := st_revoked (stats s) + of_nat (card F)\<rparr>"

lemma shrinks_refl: "shrinks s s {}"
  by (simp add: shrinks_def)

lemma shrinks_live: "shrinks s t F \<Longrightarrow> live_set t = live_set s - F"
  by (auto simp: shrinks_def live_set_def freed_def)

lemma shrinks_capof: "shrinks s t F \<Longrightarrow> capof t i = capof s i"
  by (simp add: shrinks_def freed_def)

lemma shrinks_trans:
  assumes "shrinks s t F" and "shrinks t u G"
  shows "shrinks s u (F \<union> G)"
proof -
  have G: "G \<subseteq> live_set s - F" using assms by (metis shrinks_def shrinks_live)
  then have "card (F \<union> G) = card F + card G"
    using assms(1) by (intro card_Un_disjoint) (auto simp: shrinks_def intro: finite_subset)
  with assms G show ?thesis by (auto simp: shrinks_def fun_eq_iff)
qed

lemma release_shrinks: "i \<in> live_set s \<Longrightarrow> shrinks s (release_slot au i s) {i}"
  by (auto simp: shrinks_def release_slot_def free_slot_def freed_def Let_def)

lemma shrinks_child: "shrinks s t F \<Longrightarrow> child_of t p i \<longleftrightarrow> child_of s p i \<and> i \<notin> F"
  by (auto simp: child_of_def shrinks_live shrinks_capof)

lemma shrinks_resolve:
  "shrinks s t F \<Longrightarrow> ids_ok s \<Longrightarrow> resolve s cid = Some j \<Longrightarrow> j \<notin> F \<Longrightarrow> resolve t cid = Some j"
  by (simp add: resolve_iff shrinks_def)

text \<open>A set that contains the children of its members.\<close>

definition down_closed :: "cap_state \<Rightarrow> nat set \<Rightarrow> bool" where
  "down_closed s F \<longleftrightarrow> (\<forall>j\<in>F. \<forall>i. child_of s (cap_id (capof s j)) i \<longrightarrow> i \<in> F)"

lemma shrinks_ids: "shrinks s t F \<Longrightarrow> ids_ok s \<Longrightarrow> ids_ok t"
  by (auto simp: ids_ok_def shrinks_live shrinks_capof) (auto simp: shrinks_def)

lemma shrinks_tree:
  assumes sh: "shrinks s t F" and dc: "down_closed s F" and tr: "tree_ok s r"
  shows "tree_ok t r"
proof -
  have ids: "ids_ok s" using tr by (simp add: tree_ok_def)
  have "\<exists>j. resolve t (parent_cap (capof t i)) = Some j \<and> r j < r i"
    if i: "i \<in> live_set t" and p: "parent_cap (capof t i) \<noteq> 0" for i
  proof -
    have il: "i \<in> live_set s" and iF: "i \<notin> F" and cp: "capof t i = capof s i"
      using i sh by (simp_all add: shrinks_live shrinks_capof)
    obtain j where j: "resolve s (parent_cap (capof s i)) = Some j" "r j < r i"
      using tr il p cp unfolding tree_ok_def by fastforce
    have jl: "j \<in> live_set s" using j(1) by (rule resolve_live)
    have "parent_cap (capof s i) = cap_id (capof s j)"
      using j(1) jl ids by (simp add: resolve_iff ids_ok_def)
    then have "child_of s (cap_id (capof s j)) i" using il by (simp add: child_of_def)
    then have "j \<notin> F" using dc iF by (auto simp: down_closed_def)
    with sh ids j cp show ?thesis by (auto dest: shrinks_resolve)
  qed
  with sh ids show ?thesis by (simp add: tree_ok_def shrinks_ids)
qed

lemma shrinks_desc_sub: "desc t p x \<Longrightarrow> shrinks s t F \<Longrightarrow> desc s p x"
  by (induction rule: desc.induct) (auto simp: shrinks_child shrinks_capof intro: desc.intros)

lemma shrinks_desc_sup:
  assumes "shrinks s t F" and "down_closed s F" and "desc s p x"
  shows "x \<in> F \<or> desc t p x"
  using assms(3)
proof (induction rule: desc.induct)
  case (base p i)
  then show ?case using assms(1) by (auto simp: shrinks_child intro: desc.base)
next
  case (step p j i)
  then show ?case
    using assms(1,2) by (fastforce simp: down_closed_def shrinks_child shrinks_capof intro: desc.step)
qed

lemma down_closed_subtree: "down_closed s ({j} \<union> {x. desc s (cap_id (capof s j)) x})"
  by (auto simp: down_closed_def intro: desc.intros)

lemma down_closed_Union: "(\<And>j. j \<in> J \<Longrightarrow> down_closed s (D j)) \<Longrightarrow> down_closed s (\<Union>j\<in>J. D j)"
  by (fastforce simp: down_closed_def)

section \<open>Sweeps\<close>

text \<open>The loop body the three revocation loops share: a selected live slot loses its subtree,
  then itself.\<close>

definition sweep_body ::
    "nat \<Rightarrow> u64 \<Rightarrow> u16 \<Rightarrow> (u32 \<Rightarrow> u32 \<Rightarrow> u32 \<Rightarrow> u32 \<Rightarrow> audit_state \<Rightarrow> audit_state)
     \<Rightarrow> (capability_t \<Rightarrow> bool) \<Rightarrow> nat \<Rightarrow> cap_state \<Rightarrow> cap_state option" where
  "sweep_body n now kind au sel i s =
     (if in_use (cap_table s i) \<and> sel (capof s i)
      then (case revoke_children_of n now kind (cap_id (capof s i)) s of
              None \<Rightarrow> None | Some s' \<Rightarrow> Some (release_slot au i s'))
      else Some s)"

lemma foldM_append: "foldM f (xs @ ys) s = (case foldM f xs s of None \<Rightarrow> None | Some t \<Rightarrow> foldM f ys t)"
  by (induction xs arbitrary: s) (auto split: option.split)

lemma foldM_upt_Suc:
  "foldM f [0..<Suc k] s = (case foldM f [0..<k] s of None \<Rightarrow> None | Some t \<Rightarrow> f k t)"
  by (simp add: foldM_append split: option.split)

lemma revoke_children_sweep:
  "revoke_children_of (Suc n) now kind parent s =
   foldM (sweep_body n now kind (\<lambda>pid. audit_record now kind pid AUDIT_V_OK) (\<lambda>c. parent_cap c = parent))
     [0..<MAX_CAPABILITIES] s"
  unfolding revoke_children_of.simps sweep_body_def by simp

text \<open>What a sweep frees: the selected live slots below \<open>k\<close> and their subtrees.\<close>

definition swept :: "cap_state \<Rightarrow> (capability_t \<Rightarrow> bool) \<Rightarrow> nat \<Rightarrow> nat set" where
  "swept s sel k = (\<Union>j\<in>{j \<in> live_set s. j < k \<and> sel (capof s j)}. {j} \<union> {x. desc s (cap_id (capof s j)) x})"

lemma swept_down_closed: "down_closed s (swept s sel k)"
  unfolding swept_def by (rule down_closed_Union) (rule down_closed_subtree)

lemma swept_live: "swept s sel k \<subseteq> live_set s"
  by (auto simp: swept_def dest: desc_live)

lemma swept_Suc:
  "swept s sel (Suc k) = swept s sel k \<union>
     (if k \<in> live_set s \<and> sel (capof s k) then {k} \<union> {x. desc s (cap_id (capof s k)) x} else {})"
  by (auto simp: swept_def less_Suc_eq)

lemma swept_absorb:
  "k \<in> swept s sel m \<Longrightarrow> {k} \<union> {x. desc s (cap_id (capof s k)) x} \<subseteq> swept s sel m"
proof -
  assume k: "k \<in> swept s sel m"
  have "x \<in> swept s sel m" if "desc s (cap_id (capof s k)) x" for x
    using that k swept_down_closed [of s sel m]
    by (induction "cap_id (capof s k)" x rule: desc.induct) (auto simp: down_closed_def)
  with k show ?thesis by auto
qed

text \<open>The sweep lemma. \<open>inner\<close> is what the recursion delivers for a selected slot.\<close>

lemma sweep_spec:
  assumes tr: "tree_ok s r"
    and inner: "\<And>t F k. shrinks s t F \<Longrightarrow> tree_ok t r \<Longrightarrow> k \<in> live_set t \<Longrightarrow> sel (capof s k) \<Longrightarrow>
      \<exists>u. revoke_children_of n now kind (cap_id (capof t k)) t = Some u
          \<and> shrinks t u {x. desc t (cap_id (capof t k)) x}"
    and k: "k \<le> MAX_CAPABILITIES"
  shows "\<exists>t. foldM (sweep_body n now kind au sel) [0..<k] s = Some t \<and> shrinks s t (swept s sel k)"
  using k
proof (induction k)
  case 0
  then show ?case by (simp add: swept_def shrinks_refl)
next
  case (Suc k)
  then obtain t where t: "foldM (sweep_body n now kind au sel) [0..<k] s = Some t"
    and sh: "shrinks s t (swept s sel k)" by auto
  note dc = swept_down_closed [of s sel k]
  have trt: "tree_ok t r" using sh dc tr by (rule shrinks_tree)
  have kb: "k < MAX_CAPABILITIES" using Suc.prems by simp
  show ?case
  proof (cases "k \<in> live_set t \<and> sel (capof s k)")
    case True
    then have kl: "k \<in> live_set t" and sk: "sel (capof s k)" by auto
    let ?id = "cap_id (capof s k)"
    have cid: "cap_id (capof t k) = ?id" using sh by (simp add: shrinks_capof)
    obtain u where u: "revoke_children_of n now kind ?id t = Some u" and su: "shrinks t u {x. desc t ?id x}"
      using inner [OF sh trt kl sk] cid by auto
    have "k \<notin> {x. desc t ?id x}" using desc_rank [OF trt kl] cid by fastforce
    then have "k \<in> live_set u" using kl su by (simp add: shrinks_live)
    from shrinks_trans [OF shrinks_trans [OF sh su] release_shrinks [OF this]]
    have "shrinks s (release_slot au k u) ((swept s sel k \<union> {x. desc t ?id x}) \<union> {k})" .
    moreover have "swept s sel k \<union> {x. desc t ?id x} \<union> {k} = swept s sel (Suc k)"
      using sh kl sk shrinks_desc_sub [OF _ sh] shrinks_desc_sup [OF sh dc, of ?id]
      by (auto simp: swept_Suc shrinks_live)
    moreover have "sweep_body n now kind au sel k t = Some (release_slot au k u)"
      using kl sk u cid sh by (simp add: sweep_body_def live_set_def shrinks_capof)
    ultimately show ?thesis using t by (simp add: foldM_upt_Suc del: upt_Suc)
  next
    case False
    then have "sweep_body n now kind au sel k t = Some t"
      using sh kb by (auto simp: sweep_body_def live_set_def shrinks_capof)
    moreover have "swept s sel (Suc k) = swept s sel k"
      using False swept_absorb [of k s sel k] sh by (auto simp: swept_Suc shrinks_live)
    ultimately show ?thesis using t sh by (simp add: foldM_upt_Suc del: upt_Suc)
  qed
qed

text \<open>The recursion frees exactly the proper descendants of the handle, and comes back within a
  depth above the number of live slots ranked at or below the handle's children.\<close>

lemma revoke_children_spec:
  "tree_ok s r \<Longrightarrow> (\<forall>i. child_of s parent i \<longrightarrow> lvl \<le> r i) \<Longrightarrow>
   card {k \<in> live_set s. lvl \<le> r k} < n \<Longrightarrow>
   \<exists>t. revoke_children_of n now kind parent s = Some t \<and> shrinks s t {x. desc s parent x}"
proof (induction n arbitrary: s parent lvl)
  case 0
  then show ?case by simp
next
  case (Suc n)
  let ?sel = "\<lambda>c. parent_cap c = parent"
  have inner: "\<exists>u. revoke_children_of n now kind (cap_id (capof t k)) t = Some u
      \<and> shrinks t u {x. desc t (cap_id (capof t k)) x}"
    if sh: "shrinks s t F" and tr: "tree_ok t r" and kl: "k \<in> live_set t" and sk: "?sel (capof s k)"
    for t F k
  proof (rule Suc.IH [OF tr])
    show "\<forall>i. child_of t (cap_id (capof t k)) i \<longrightarrow> Suc (r k) \<le> r i"
      using child_rank [OF tr kl] by (simp add: Suc_le_eq)
    have ks: "k \<in> live_set s" using kl sh by (simp add: shrinks_live)
    then have "lvl \<le> r k" using Suc.prems(2) sk by (simp add: child_of_def)
    then have "{i \<in> live_set t. Suc (r k) \<le> r i} \<subset> {i \<in> live_set s. lvl \<le> r i}"
      using sh ks by (auto simp: shrinks_live intro!: psubsetI) (metis (mono_tags, lifting) Suc_n_not_le_n mem_Collect_eq)
    from psubset_card_mono [OF _ this] Suc.prems(3)
    show "card {i \<in> live_set t. Suc (r k) \<le> r i} < n" by simp
  qed
  have "swept s ?sel MAX_CAPABILITIES = {x. desc s parent x}"
    by (auto simp: swept_def desc_via_child [of s parent] child_of_def dest: live_set_bound)
  moreover have "\<exists>t. foldM (sweep_body n now kind (\<lambda>pid. audit_record now kind pid AUDIT_V_OK) ?sel)
      [0..<MAX_CAPABILITIES] s = Some t \<and> shrinks s t (swept s ?sel MAX_CAPABILITIES)"
    by (rule sweep_spec [OF Suc.prems(1) _ order_refl]) (rule inner)
  ultimately show ?case by (simp only: revoke_children_sweep)
qed

lemma revoke_children_depth:
  assumes "tree_ok s r"
  shows "\<exists>t. revoke_children_of CAP_DEPTH now kind parent s = Some t \<and> shrinks s t {x. desc s parent x}"
proof (rule revoke_children_spec [OF assms, of _ 0])
  show "card {k \<in> live_set s. 0 \<le> r k} < CAP_DEPTH" using card_live_set [of s] by simp
qed simp

section \<open>The invariant\<close>

text \<open>A derived capability stays within the authority of the one it comes from.\<close>

definition narrow :: "capability_t \<Rightarrow> capability_t \<Rightarrow> bool" where
  "narrow c p \<longleftrightarrow> permissions c AND NOT (permissions p) = 0
     \<and> resource_type c = resource_type p \<and> resource_id c = resource_id p
     \<and> permissions p AND CAP_GRANT \<noteq> 0
     \<and> (expiration p \<noteq> 0 \<longrightarrow> expiration c \<noteq> 0 \<and> expiration c \<le> expiration p)"

definition narrow_ok :: "cap_state \<Rightarrow> bool" where
  "narrow_ok s \<longleftrightarrow> (\<forall>i\<in>live_set s. is_revocable (capof s i)
     \<and> (\<forall>j. resolve s (parent_cap (capof s i)) = Some j \<longrightarrow> narrow (capof s i) (capof s j)))"

definition hwm_ok :: "cap_state \<Rightarrow> bool" where
  "hwm_ok s \<longleftrightarrow> (\<forall>i\<in>live_set s. i < cap_hwm s) \<and> cap_hwm s \<le> MAX_CAPABILITIES"

definition count_ok :: "cap_state \<Rightarrow> bool" where
  "count_ok s \<longleftrightarrow> st_active (stats s) = of_nat (card (live_set s))
     \<and> st_created (stats s) + st_derived (stats s) = st_revoked (stats s) + of_nat (card (live_set s))"

definition cap_inv :: "cap_state \<Rightarrow> bool" where
  "cap_inv s \<longleftrightarrow> (\<exists>r. tree_ok s r) \<and> narrow_ok s \<and> hwm_ok s \<and> count_ok s"

lemma shrinks_inv:
  assumes sh: "shrinks s t F" and dc: "down_closed s F" and inv: "cap_inv s"
  shows "cap_inv t"
proof -
  obtain r where tr: "tree_ok s r" using inv by (auto simp: cap_inv_def)
  have ids: "ids_ok s" using tr by (simp add: tree_ok_def)
  have bk: "resolve s h = Some j" if "resolve t h = Some j" for h j
    using that sh by (auto simp: resolve_iff shrinks_def freed_def split: if_splits)
  have "narrow_ok t"
    using inv sh by (auto simp: cap_inv_def narrow_ok_def shrinks_live shrinks_capof dest: bk)
  moreover have "hwm_ok t"
    using inv sh shrinks_live [OF sh] by (auto simp: cap_inv_def hwm_ok_def) (auto simp: shrinks_def)
  moreover have "count_ok t"
  proof -
    have F: "F \<subseteq> live_set s" using sh by (simp add: shrinks_def)
    then have c: "card (live_set s) = card (live_set t) + card F"
      using shrinks_live [OF sh] card_mono [OF finite_live_set F]
      by (simp add: card_Diff_subset finite_subset [OF F])
    have "count_ok s" using inv by (simp add: cap_inv_def)
    then show ?thesis using sh by (simp add: count_ok_def shrinks_def c algebra_simps)
  qed
  ultimately show ?thesis using shrinks_tree [OF sh dc tr] by (auto simp: cap_inv_def)
qed

text \<open>\<open>s'\<close> is \<open>s\<close> with the capability \<open>c\<close> installed in the free slot \<open>i\<close>.\<close>

definition grows :: "cap_state \<Rightarrow> cap_state \<Rightarrow> nat \<Rightarrow> capability_t \<Rightarrow> bool" where
  "grows s s' i c \<longleftrightarrow> i < MAX_CAPABILITIES \<and> i \<notin> live_set s
     \<and> (\<forall>j<i. in_use (cap_table s j))
     \<and> cap_table s' = (cap_table s)(i := \<lparr>cap = c, generation = generation (cap_table s i), in_use = True\<rparr>)
     \<and> cap_id c = make_cap_id i (generation (cap_table s i)) \<and> is_revocable c
     \<and> cap_hwm s' = max (cap_hwm s) (Suc i) \<and> cap_initialized s' = cap_initialized s
     \<and> st_active (stats s') = st_active (stats s) + 1 \<and> st_revoked (stats s') = st_revoked (stats s)
     \<and> st_created (stats s') + st_derived (stats s') = st_created (stats s) + st_derived (stats s) + 1"

lemma grows_live: "grows s s' i c \<Longrightarrow> live_set s' = insert i (live_set s)"
  by (auto simp: grows_def live_set_def)

lemma grows_capof: "grows s s' i c \<Longrightarrow> capof s' j = (if j = i then c else capof s j)"
  by (simp add: grows_def)

lemma grows_gen: "grows s s' i c \<Longrightarrow> generation (cap_table s' j) = generation (cap_table s j)"
  by (simp add: grows_def)

lemma grows_resolve:
  "grows s s' i c \<Longrightarrow> resolve s' cid = (if cid = cap_id c then Some i else resolve s cid)"
proof -
  assume g: "grows s s' i c"
  then have i: "i < MAX_CAPABILITIES" "i \<notin> live_set s"
    and id: "cap_id c = make_cap_id i (generation (cap_table s i))" by (simp_all add: grows_def)
  have "resolve s' (cap_id c) = Some i" using g i id by (simp add: resolve_iff grows_def)
  moreover have "resolve s' cid = Some j \<longleftrightarrow> resolve s cid = Some j" if "cid \<noteq> cap_id c" for j
    using g that i id by (auto simp: resolve_iff grows_def live_set_def)
  ultimately show ?thesis by (metis not_None_eq)
qed

lemma grows_old_parent:
  assumes "grows s s' i c" and "tree_ok s r" and "j \<in> live_set s"
  shows "parent_cap (capof s j) \<noteq> cap_id c"
proof
  assume eq: "parent_cap (capof s j) = cap_id c"
  have "cap_id c \<noteq> 0" using assms(1) by (auto simp: grows_def make_cap_id_nonzero)
  then obtain k where "resolve s (cap_id c) = Some k"
    using assms(2,3) eq by (fastforce simp: tree_ok_def)
  with assms(1) show False
    by (auto simp: grows_def resolve_iff live_set_def make_cap_id_inject)
qed

lemma grows_inv:
  assumes g: "grows s s' i c" and inv: "cap_inv s"
    and par: "parent_cap c = 0 \<or> (\<exists>j. resolve s (parent_cap c) = Some j \<and> narrow c (capof s j))"
  shows "cap_inv s'"
proof -
  obtain r where tr: "tree_ok s r" using inv by (auto simp: cap_inv_def)
  have il: "i \<notin> live_set s" and idn: "cap_id c = make_cap_id i (generation (cap_table s i))"
    and i: "i < MAX_CAPABILITIES" using g by (simp_all add: grows_def)
  have pne: "parent_cap c \<noteq> cap_id c"
    using par i idn il by (auto simp: make_cap_id_nonzero resolve_iff live_set_def make_cap_id_inject)
  note old = grows_old_parent [OF g tr]
  define r' where "r' = (case resolve s (parent_cap c) of None \<Rightarrow> r(i := 0) | Some j \<Rightarrow> r(i := Suc (r j)))"
  have r'old: "j \<in> live_set s \<Longrightarrow> r' j = r j" for j using il by (auto simp: r'_def split: option.split)
  have "ids_ok s'"
    using tr g idn by (auto simp: tree_ok_def ids_ok_def grows_live) (auto simp: grows_def)
  moreover have "\<exists>j. resolve s' (parent_cap (capof s' k)) = Some j \<and> r' j < r' k"
    if k: "k \<in> live_set s'" and p: "parent_cap (capof s' k) \<noteq> 0" for k
  proof (cases "k = i")
    case True
    then obtain j where j: "resolve s (parent_cap c) = Some j"
      using p par g by (auto simp: grows_capof)
    then show ?thesis
      using True g pne resolve_live [OF j] il by (auto simp: grows_capof grows_resolve r'_def)
  next
    case False
    then have ks: "k \<in> live_set s" using k g by (simp add: grows_live)
    obtain j where "resolve s (parent_cap (capof s k)) = Some j" "r j < r k"
      using tr ks p False g unfolding tree_ok_def by (fastforce simp: grows_capof)
    then show ?thesis
      using False g ks old [OF ks] r'old resolve_live by (auto simp: grows_capof grows_resolve)
  qed
  ultimately have "tree_ok s' r'" by (simp add: tree_ok_def)
  moreover have "narrow_ok s'"
    unfolding narrow_ok_def
  proof (intro ballI conjI allI impI)
    fix k
    assume k: "k \<in> live_set s'"
    show "is_revocable (capof s' k)"
      using k inv g il by (auto simp: grows_live grows_capof cap_inv_def narrow_ok_def) (simp add: grows_def)
    fix j
    assume "resolve s' (parent_cap (capof s' k)) = Some j"
    then show "narrow (capof s' k) (capof s' j)"
      using k inv g pne par old il
      by (cases "k = i") (auto simp: grows_live grows_capof grows_resolve cap_inv_def narrow_ok_def
          resolve_def [of s 0] dest: resolve_live split: if_splits)
  qed
  moreover have "hwm_ok s'"
    using inv g by (auto simp: cap_inv_def hwm_ok_def grows_live) (auto simp: grows_def)
  moreover have "count_ok s'"
    using inv g il by (simp add: cap_inv_def count_ok_def grows_live) (simp add: grows_def algebra_simps)
  ultimately show ?thesis by (auto simp: cap_inv_def)
qed

end
