(* ===== verification/Capability_Props.thy ===== *)
theory Capability_Props
  imports Capability_Tree
begin

text \<open>
  What the capability operations of \<open>capability.c\<close> guarantee: every reachable table satisfies
  the tree invariant, authority is never amplified along a derivation, revocation frees exactly the
  subtree of its handle and terminates, the death sweeps leave nothing behind, and the bounded
  lookups find what a full scan would find.
\<close>

section \<open>Allocation\<close>

lemma alloc_slot_Some:
  assumes "alloc_slot s = Some (i, cid, s1)"
  shows "i < MAX_CAPABILITIES" and "i \<notin> live_set s" and "\<forall>j<i. in_use (cap_table s j)"
    and "cid = make_cap_id i (generation (cap_table s i))"
    and "cap_table s1 = (cap_table s)(i := (cap_table s i)\<lparr>in_use := True,
           cap := (capof s i)\<lparr>cap_id := cid\<rparr>\<rparr>)"
    and "cap_hwm s1 = max (cap_hwm s) (Suc i)" and "stats s1 = stats s"
    and "cap_initialized s1 = cap_initialized s" and "ledger s1 = ledger s"
proof -
  from assms have f: "first_idx (\<lambda>i. \<not> in_use (cap_table s i)) 0 MAX_CAPABILITIES = Some i"
    by (simp add: alloc_slot_def Let_def split: option.splits)
  have "alloc_slot s = (let cid = make_cap_id i (generation (cap_table s i)) in
      Some (i, cid, s\<lparr>cap_table := (cap_table s)(i := (cap_table s i)\<lparr>in_use := True,
           cap := (capof s i)\<lparr>cap_id := cid\<rparr>\<rparr>),
         cap_hwm := (if i + 1 > cap_hwm s then i + 1 else cap_hwm s)\<rparr>))"
    unfolding alloc_slot_def f by (simp only: option.case Let_def)
  with assms have c: "cid = make_cap_id i (generation (cap_table s i))"
    and s1: "s1 = s\<lparr>cap_table := (cap_table s)(i := (cap_table s i)\<lparr>in_use := True,
           cap := (capof s i)\<lparr>cap_id := cid\<rparr>\<rparr>),
         cap_hwm := (if i + 1 > cap_hwm s then i + 1 else cap_hwm s)\<rparr>"
    unfolding Let_def by (metis option.inject prod.inject)+
  note d = first_idx_SomeD [OF f]
  show "i < MAX_CAPABILITIES" "i \<notin> live_set s" "\<forall>j<i. in_use (cap_table s j)"
    using d by (simp_all add: live_set_def)
  show "cid = make_cap_id i (generation (cap_table s i))" by (rule c)
  show "cap_table s1 = (cap_table s)(i := (cap_table s i)\<lparr>in_use := True,
           cap := (capof s i)\<lparr>cap_id := cid\<rparr>\<rparr>)"
    "cap_hwm s1 = max (cap_hwm s) (Suc i)" "stats s1 = stats s"
    "cap_initialized s1 = cap_initialized s" "ledger s1 = ledger s"
    by (simp_all add: s1)
qed

lemma alloc_slot_None: "alloc_slot s = None \<longleftrightarrow> live_set s = {..<MAX_CAPABILITIES}"
proof -
  have "alloc_slot s = None \<longleftrightarrow> first_idx (\<lambda>i. \<not> in_use (cap_table s i)) 0 MAX_CAPABILITIES = None"
    by (simp add: alloc_slot_def Let_def split: option.split)
  also have "\<dots> \<longleftrightarrow> live_set s = {..<MAX_CAPABILITIES}"
    by (auto simp: first_idx_None live_set_def)
  finally show ?thesis .
qed

text \<open>The capability \<open>cap_create\<close> and \<open>cap_derive\<close> install.\<close>

definition minted :: "u32 \<Rightarrow> u32 \<Rightarrow> u32 \<Rightarrow> u32 \<Rightarrow> u32 \<Rightarrow> u64 \<Rightarrow> bool \<Rightarrow> u32 \<Rightarrow> capability_t" where
  "minted cid owner rtype rid perms exp inherited par =
     \<lparr>cap_id = cid, owner_id = owner, resource_type = rtype, resource_id = rid, permissions = perms,
      expiration = exp, is_revocable = True, is_inherited = inherited, is_spawn_channel = False,
      parent_cap = par\<rparr>"

lemma cap_create_Inr:
  assumes "cap_create now owner rtype rid perms exp s = (Inr cid, s')"
  shows "\<exists>i. grows s s' i (minted cid owner rtype rid perms exp False 0)
    \<and> ledger s' = audit_grant now owner rtype rid perms (ledger s)"
proof -
  obtain i s1 where al: "alloc_slot s = Some (i, cid, s1)"
    using assms by (auto simp: cap_create_def Let_def split: option.splits if_splits)
  note a = alloc_slot_Some [OF al]
  show ?thesis
    using assms a
    by (intro exI [of _ i]) (auto simp: cap_create_def al grows_def minted_def Let_def fun_eq_iff
        split: if_splits)
qed

lemma cap_create_Inl: "cap_create now owner rtype rid perms exp s = (Inl e, s') \<Longrightarrow> s' = s"
  by (auto simp: cap_create_def Let_def split: if_splits option.splits)

lemma cap_derive_Inr:
  assumes "cap_derive now pcap requester owner perms exp s = (Inr cid, s')"
  shows "\<exists>i p. resolve s pcap = Some p \<and> owner_id (capof s p) = requester
    \<and> \<not> is_expired now (capof s p)
    \<and> grows s s' i (minted cid owner (resource_type (capof s p)) (resource_id (capof s p)) perms
        (clamp_expiration (expiration (capof s p)) exp) True pcap)
    \<and> narrow (minted cid owner (resource_type (capof s p)) (resource_id (capof s p)) perms
        (clamp_expiration (expiration (capof s p)) exp) True pcap) (capof s p)
    \<and> ledger s' = audit_grant now owner (resource_type (capof s p)) (resource_id (capof s p)) perms (ledger s)"
proof -
  obtain p where p: "resolve s pcap = Some p" "owner_id (capof s p) = requester"
      "\<not> is_expired now (capof s p)" "permissions (capof s p) AND CAP_GRANT \<noteq> 0"
      "perms AND NOT (permissions (capof s p)) = 0"
    using assms by (auto simp: cap_derive_def Let_def split: option.splits if_splits)
  then obtain i s1 where al: "alloc_slot s = Some (i, cid, s1)"
    using assms by (auto simp: cap_derive_def Let_def split: option.splits if_splits)
  note a = alloc_slot_Some [OF al]
  have pi: "p \<noteq> i" using p(1) a(2) resolve_live by auto
  let ?c = "minted cid owner (resource_type (capof s p)) (resource_id (capof s p)) perms
        (clamp_expiration (expiration (capof s p)) exp) True pcap"
  have "grows s s' i ?c \<and> ledger s' =
      audit_grant now owner (resource_type (capof s p)) (resource_id (capof s p)) perms (ledger s)"
    using assms p a pi
    by (auto simp: cap_derive_def al grows_def minted_def Let_def fun_eq_iff)
  moreover have "narrow ?c (capof s p)"
    using p by (auto simp: narrow_def minted_def clamp_expiration_def)
  ultimately show ?thesis using p by blast
qed

lemma cap_derive_Inl: "cap_derive now pcap requester owner perms exp s = (Inl e, s') \<Longrightarrow> s' = s"
  by (auto simp: cap_derive_def Let_def split: if_splits option.splits)

section \<open>Steps and reachable tables\<close>

text \<open>One call of the capability API by the kernel.\<close>

inductive cap_step :: "cap_state \<Rightarrow> cap_state \<Rightarrow> bool" where
  create: "cap_create now owner rtype rid perms exp s = (res, s') \<Longrightarrow> cap_step s s'"
| derive: "cap_derive now pcap requester owner perms exp s = (res, s') \<Longrightarrow> cap_step s s'"
| revoke: "cap_revoke now cid requester s = Some (rres, s') \<Longrightarrow> cap_step s s'"
| reap: "cap_revoke_all_for_process now pid s = Some s' \<Longrightarrow> cap_step s s'"
| unlink: "cap_revoke_ipc_targets now dead s = Some s' \<Longrightarrow> cap_step s s'"
| check: "cap_check now cid pid rtype rid req s = (cres, s') \<Longrightarrow> cap_step s s'"
| mark: "cap_mark_spawn_channel cid s = (mres, s') \<Longrightarrow> cap_step s s'"

inductive cap_reachable :: "cap_state \<Rightarrow> bool" where
  init: "cap_reachable (cap_init cap_boot)"
| step: "cap_reachable s \<Longrightarrow> cap_step s s' \<Longrightarrow> cap_reachable s'"

lemma cap_inv_init: "cap_inv (cap_init cap_boot)"
proof -
  have "live_set (cap_init cap_boot) = {}"
    by (simp add: live_set_def cap_init_def slot_zero_def)
  then show ?thesis
    by (simp add: cap_inv_def tree_ok_def ids_ok_def narrow_ok_def hwm_ok_def count_ok_def
        cap_init_def cap_boot_def stats_zero_def)
qed

lemma cap_create_inv:
  "cap_inv s \<Longrightarrow> cap_create now owner rtype rid perms exp s = (res, s') \<Longrightarrow> cap_inv s'"
proof (cases res)
  case (Inr cid)
  assume inv: "cap_inv s" and "cap_create now owner rtype rid perms exp s = (res, s')"
  then obtain i c where "grows s s' i c" "parent_cap c = 0"
    using cap_create_Inr Inr by (fastforce simp: minted_def)
  with inv show ?thesis by (blast intro: grows_inv)
qed (auto dest: cap_create_Inl)

lemma cap_derive_inv:
  assumes "cap_inv s" and "cap_derive now pcap requester owner perms exp s = (res, s')"
  shows "cap_inv s'"
proof (cases res)
  case (Inl e)
  with assms show ?thesis by (auto dest: cap_derive_Inl)
next
  case (Inr cid)
  from cap_derive_Inr [OF assms(2) [unfolded Inr]] obtain i p c where
    "resolve s pcap = Some p" "grows s s' i c" "narrow c (capof s p)" "parent_cap c = pcap"
    by (auto simp: minted_def)
  with assms(1) show ?thesis by (blast intro: grows_inv)
qed

section \<open>The revocation loops\<close>

lemma sweep_total:
  assumes "tree_ok s r"
  shows "\<exists>t. foldM (sweep_body CAP_DEPTH now kind au sel) [0..<MAX_CAPABILITIES] s = Some t
    \<and> shrinks s t (swept s sel MAX_CAPABILITIES)"
  by (rule sweep_spec [OF assms _ order_refl]) (rule revoke_children_depth)

lemma reap_sweep:
  "cap_revoke_all_for_process now pid s =
   foldM (sweep_body CAP_DEPTH now AUDIT_REAP (\<lambda>_. audit_reap now pid) (\<lambda>c. owner_id c = pid))
     [0..<MAX_CAPABILITIES] s"
  unfolding cap_revoke_all_for_process_def sweep_body_def by simp

lemma unlink_sweep:
  "cap_revoke_ipc_targets now dead s =
   foldM (sweep_body CAP_DEPTH now AUDIT_UNLINK (audit_unlink now)
     (\<lambda>c. resource_type c = CAP_RESOURCE_IPC \<and> resource_id c = dead)) [0..<MAX_CAPABILITIES] s"
  unfolding cap_revoke_ipc_targets_def sweep_body_def by simp

lemma reap_spec:
  assumes "cap_inv s"
  shows "\<exists>t. cap_revoke_all_for_process now pid s = Some t
    \<and> shrinks s t (swept s (\<lambda>c. owner_id c = pid) MAX_CAPABILITIES)"
  using assms sweep_total unfolding cap_inv_def reap_sweep by blast

lemma unlink_spec:
  assumes "cap_inv s"
  shows "\<exists>t. cap_revoke_ipc_targets now dead s = Some t
    \<and> shrinks s t (swept s (\<lambda>c. resource_type c = CAP_RESOURCE_IPC \<and> resource_id c = dead) MAX_CAPABILITIES)"
  using assms sweep_total unfolding cap_inv_def unlink_sweep by blast

text \<open>The ancestor walk climbs strictly towards the root, so it comes back too.\<close>

lemma ancestor_total:
  assumes tr: "tree_ok s r" and aid: "aid = 0 \<or> (\<forall>j. resolve s aid = Some j \<longrightarrow> r j < lvl)"
    and n: "card {k \<in> live_set s. r k < lvl} < n"
  shows "\<exists>b. ancestor_authorizes n requester aid s = Some b"
  using aid n
proof (induction n arbitrary: aid lvl)
  case 0
  then show ?case by simp
next
  case (Suc n)
  show ?case
  proof (cases "aid = 0 \<or> resolve s aid = None")
    case True
    then show ?thesis by auto
  next
    case False
    then obtain a where a: "resolve s aid = Some a" by auto
    let ?p = "parent_cap (capof s a)"
    have al: "a \<in> live_set s" using a by (rule resolve_live)
    have ra: "r a < lvl" using Suc.prems(1) False a by auto
    have p: "?p = 0 \<or> (\<forall>j. resolve s ?p = Some j \<longrightarrow> r j < r a)"
      using tr al by (fastforce simp: tree_ok_def)
    have "{k \<in> live_set s. r k < r a} \<subset> {k \<in> live_set s. r k < lvl}"
      using ra al by (auto intro!: psubsetI)
    from psubset_card_mono [OF _ this] Suc.prems(2)
    have "card {k \<in> live_set s. r k < r a} < n" by simp
    from Suc.IH [OF p this] False a show ?thesis by auto
  qed
qed

lemma ancestor_depth:
  assumes "tree_ok s r"
  shows "\<exists>b. ancestor_authorizes CAP_DEPTH requester aid s = Some b"
proof (cases "resolve s aid")
  case None
  have "CAP_DEPTH = Suc MAX_CAPABILITIES" by simp
  with None have "ancestor_authorizes CAP_DEPTH requester aid s = Some False"
    by (simp only: ancestor_authorizes.simps) simp
  then show ?thesis by (rule exI)
next
  case (Some a)
  have "card {k \<in> live_set s. r k < Suc (r a)} \<le> card (live_set s)"
    by (intro card_mono) auto
  then have "card {k \<in> live_set s. r k < Suc (r a)} < CAP_DEPTH" using card_live_set [of s] by simp
  then show ?thesis by (rule ancestor_total [OF assms, rotated]) (simp add: Some)
qed

text \<open>The three outcomes of \<open>cap_revoke\<close> on a resolvable handle, and what success frees.\<close>

lemma cap_revoke_Inr:
  assumes inv: "cap_inv s" and rv: "cap_revoke now cid requester s = Some (Inr (), s')"
  shows "\<exists>i. resolve s cid = Some i \<and> shrinks s s' ({i} \<union> {x. desc s cid x})
    \<and> (owner_id (capof s i) = requester
       \<or> ancestor_authorizes CAP_DEPTH requester (parent_cap (capof s i)) s = Some True)"
proof -
  obtain r where tr: "tree_ok s r" using inv by (auto simp: cap_inv_def)
  obtain i t where i: "resolve s cid = Some i" and t: "revoke_children_of CAP_DEPTH now AUDIT_REVOKE cid s = Some t"
    and s': "s' = release_slot (audit_revoke now) i t"
    and au: "owner_id (capof s i) = requester
       \<or> ancestor_authorizes CAP_DEPTH requester (parent_cap (capof s i)) s = Some True"
    using rv by (auto simp: cap_revoke_def Let_def split: option.splits if_splits bool.splits)
  have il: "i \<in> live_set s" using i by (rule resolve_live)
  have cid: "cid = cap_id (capof s i)"
    using i il tr by (simp add: resolve_iff tree_ok_def ids_ok_def)
  have sh: "shrinks s t {x. desc s cid x}"
    using revoke_children_depth [OF tr, of now AUDIT_REVOKE cid] t by auto
  have "i \<notin> {x. desc s cid x}" using desc_rank [OF tr il] cid by fastforce
  then have "i \<in> live_set t" using sh il by (simp add: shrinks_live)
  from shrinks_trans [OF sh release_shrinks [OF this]] have "shrinks s s' ({x. desc s cid x} \<union> {i})"
    by (simp add: s')
  with i au show ?thesis by (auto simp: Un_commute)
qed

lemma cap_revoke_inv:
  assumes "cap_inv s" and "cap_revoke now cid requester s = Some (res, s')"
  shows "cap_inv s'"
proof (cases res)
  case (Inl e)
  with assms show ?thesis
    by (auto simp: cap_revoke_def Let_def split: option.splits if_splits bool.splits)
next
  case (Inr u)
  with assms obtain i where i: "resolve s cid = Some i" and sh: "shrinks s s' ({i} \<union> {x. desc s cid x})"
    using cap_revoke_Inr by (metis (full_types) unit.exhaust)
  have "cid = cap_id (capof s i)"
    using i assms(1) resolve_live [OF i] by (auto simp: resolve_iff cap_inv_def tree_ok_def ids_ok_def)
  then show ?thesis using shrinks_inv [OF sh] down_closed_subtree assms(1) by auto
qed

lemma reap_inv: "cap_inv s \<Longrightarrow> cap_revoke_all_for_process now pid s = Some s' \<Longrightarrow> cap_inv s'"
  using reap_spec [of s now pid] shrinks_inv [OF _ swept_down_closed] by auto

lemma unlink_inv: "cap_inv s \<Longrightarrow> cap_revoke_ipc_targets now dead s = Some s' \<Longrightarrow> cap_inv s'"
  using unlink_spec [of s now dead] shrinks_inv [OF _ swept_down_closed] by auto

section \<open>Operations that leave the tree alone\<close>

text \<open>Same slots up to the spawn-channel tag, same mark, same structural counters.\<close>

definition same_tree :: "cap_state \<Rightarrow> cap_state \<Rightarrow> bool" where
  "same_tree s t \<longleftrightarrow> cap_hwm t = cap_hwm s \<and> st_active (stats t) = st_active (stats s)
     \<and> st_created (stats t) = st_created (stats s) \<and> st_derived (stats t) = st_derived (stats s)
     \<and> st_revoked (stats t) = st_revoked (stats s)
     \<and> (\<forall>i. \<exists>b. cap_table t i = (cap_table s i)\<lparr>cap := (capof s i)\<lparr>is_spawn_channel := b\<rparr>\<rparr>)"

lemma same_tree_slot:
  assumes "same_tree s t"
  shows "in_use (cap_table t i) = in_use (cap_table s i)"
    and "generation (cap_table t i) = generation (cap_table s i)"
    and "cap_id (capof t i) = cap_id (capof s i)" and "parent_cap (capof t i) = parent_cap (capof s i)"
    and "is_revocable (capof t i) = is_revocable (capof s i)"
    and "narrow (capof t i) (capof t j) = narrow (capof s i) (capof s j)"
proof -
  obtain b where b: "cap_table t i = (cap_table s i)\<lparr>cap := (capof s i)\<lparr>is_spawn_channel := b\<rparr>\<rparr>"
    using assms by (auto simp: same_tree_def)
  obtain c where c: "cap_table t j = (cap_table s j)\<lparr>cap := (capof s j)\<lparr>is_spawn_channel := c\<rparr>\<rparr>"
    using assms by (auto simp: same_tree_def)
  show "in_use (cap_table t i) = in_use (cap_table s i)"
    "generation (cap_table t i) = generation (cap_table s i)"
    "cap_id (capof t i) = cap_id (capof s i)" "parent_cap (capof t i) = parent_cap (capof s i)"
    "is_revocable (capof t i) = is_revocable (capof s i)"
    "narrow (capof t i) (capof t j) = narrow (capof s i) (capof s j)"
    by (simp_all add: b c narrow_def)
qed

lemma same_tree_inv: "same_tree s t \<Longrightarrow> cap_inv s \<Longrightarrow> cap_inv t"
proof -
  assume st: "same_tree s t" and inv: "cap_inv s"
  have l: "live_set t = live_set s" by (simp add: live_set_def same_tree_slot [OF st])
  have r: "resolve t cid = resolve s cid" for cid
    by (simp add: resolve_def Let_def same_tree_slot [OF st])
  have "tree_ok t rk = tree_ok s rk" for rk
    by (simp add: tree_ok_def ids_ok_def l r same_tree_slot [OF st])
  moreover have "narrow_ok t = narrow_ok s" by (simp add: narrow_ok_def l r same_tree_slot [OF st])
  moreover have "hwm_ok t = hwm_ok s" "count_ok t = count_ok s"
    using st by (simp_all add: hwm_ok_def count_ok_def l same_tree_def)
  ultimately show ?thesis using inv by (simp add: cap_inv_def)
qed

lemma same_tree_check: "cap_check now cid pid rtype rid req s = (res, s') \<Longrightarrow> same_tree s s'"
proof -
  have tag: "\<exists>b. sl = sl\<lparr>cap := (cap sl)\<lparr>is_spawn_channel := b\<rparr>\<rparr>" for sl :: cap_slot_t
    by (rule exI [of _ "is_spawn_channel (cap sl)"]) simp
  assume "cap_check now cid pid rtype rid req s = (res, s')"
  then have "s' = bump_denied s \<or> s' = bump_passed s"
    by (auto simp: cap_check_def Let_def split: option.splits if_splits)
  then show ?thesis using tag by (auto simp: same_tree_def bump_denied_def bump_passed_def)
qed

lemma same_tree_mark: "cap_mark_spawn_channel cid s = (res, s') \<Longrightarrow> same_tree s s'"
proof -
  have tag: "\<exists>b. sl = sl\<lparr>cap := (cap sl)\<lparr>is_spawn_channel := b\<rparr>\<rparr>" for sl :: cap_slot_t
    by (rule exI [of _ "is_spawn_channel (cap sl)"]) simp
  assume "cap_mark_spawn_channel cid s = (res, s')"
  then show ?thesis using tag
    by (auto simp: cap_mark_spawn_channel_def same_tree_def split: option.splits)
qed

lemma cap_step_inv: "cap_step s s' \<Longrightarrow> cap_inv s \<Longrightarrow> cap_inv s'"
  by (induction rule: cap_step.induct)
    (blast intro: cap_create_inv cap_derive_inv cap_revoke_inv reap_inv unlink_inv
      same_tree_inv same_tree_check same_tree_mark)+

lemma cap_reachable_inv: "cap_reachable s \<Longrightarrow> cap_inv s"
  by (induction rule: cap_reachable.induct) (simp_all add: cap_inv_init cap_step_inv)

end
