(* ===== verification/Capability_Claims.thy ===== *)
theory Capability_Claims
  imports Capability_Props
begin

text \<open>
  The capability table's promises to the rest of the kernel, each with a run of the real
  operations on a small table as its witness: a root capability of process 1 on the port of
  process 2, and a derivation of it held by process 3.
\<close>

section \<open>The example table\<close>

definition demo_root :: cap_state where
  "demo_root = snd (cap_create 10 1 CAP_RESOURCE_IPC 2 0x1F 0 (cap_init cap_boot))"

definition demo_tree :: cap_state where
  "demo_tree = snd (cap_derive 20 1 1 3 0x02 500 demo_root)"

definition demo_root_slot :: cap_slot_t where
  "demo_root_slot = \<lparr>cap = minted 1 1 CAP_RESOURCE_IPC 2 0x1F 0 False 0, generation = 0, in_use = True\<rparr>"

definition demo_child_slot :: cap_slot_t where
  "demo_child_slot = \<lparr>cap = minted 2 3 CAP_RESOURCE_IPC 2 0x02 500 True 1, generation = 0, in_use = True\<rparr>"

lemma alloc_slot_first:
  assumes "i < MAX_CAPABILITIES" and "\<not> in_use (cap_table s i)" and "\<forall>j<i. in_use (cap_table s j)"
  shows "alloc_slot s = Some (i, make_cap_id i (generation (cap_table s i)),
    s\<lparr>cap_table := (cap_table s)(i := (cap_table s i)\<lparr>in_use := True,
        cap := (capof s i)\<lparr>cap_id := make_cap_id i (generation (cap_table s i))\<rparr>\<rparr>),
      cap_hwm := (if i + 1 > cap_hwm s then i + 1 else cap_hwm s)\<rparr>)"
proof -
  have "first_idx (\<lambda>i. \<not> in_use (cap_table s i)) 0 MAX_CAPABILITIES = Some i"
    using assms by (simp add: first_idx_Some)
  then show ?thesis by (simp add: alloc_slot_def Let_def)
qed

lemma make_cap_id_0: "make_cap_id i 0 = of_nat i + 1"
  by (simp add: make_cap_id_def)

lemma init_slot: "cap_table (cap_init cap_boot) i = slot_zero"
  by (simp add: cap_init_def cap_boot_def)

lemma demo_root_create: "cap_create 10 1 CAP_RESOURCE_IPC 2 0x1F 0 (cap_init cap_boot) = (Inr 1, demo_root)"
proof -
  obtain s1 where "alloc_slot (cap_init cap_boot) = Some (0, 1, s1)"
    using alloc_slot_first [of 0 "cap_init cap_boot"] by (simp add: init_slot slot_zero_def make_cap_id_0)
  moreover have "cap_initialized (cap_init cap_boot)" by (simp add: cap_init_def)
  ultimately have "fst (cap_create 10 1 CAP_RESOURCE_IPC 2 0x1F 0 (cap_init cap_boot)) = Inr 1"
    by (simp add: cap_create_def Let_def word_le_nat_alt)
  then show ?thesis unfolding demo_root_def by (metis prod.collapse)
qed

lemma grows_slot: "grows s s' i c \<Longrightarrow>
  cap_table s' j = (if j = i then \<lparr>cap = c, generation = generation (cap_table s i), in_use = True\<rparr> else cap_table s j)"
  by (simp add: grows_def)

lemma grows_index:
  "grows s s' i c \<Longrightarrow> \<not> in_use (cap_table s k) \<Longrightarrow> (\<forall>j<k. in_use (cap_table s j)) \<Longrightarrow> i = k"
  by (rule ccontr) (auto simp: grows_def live_set_def neq_iff)

lemma demo_root_slots: "cap_table demo_root i = (if i = 0 then demo_root_slot else slot_zero)"
proof -
  obtain k where g: "grows (cap_init cap_boot) demo_root k (minted 1 1 CAP_RESOURCE_IPC 2 0x1F 0 False 0)"
    using cap_create_Inr [OF demo_root_create] by blast
  have "k = 0" using grows_index [OF g, of 0] by (simp add: init_slot slot_zero_def)
  with grows_slot [OF g, of i] show ?thesis
    by (simp add: init_slot demo_root_slot_def) (simp add: slot_zero_def)
qed

lemma demo_root_live: "live_set demo_root = {0}"
  by (auto simp: live_set_def demo_root_slots demo_root_slot_def slot_zero_def)

lemma demo_root_resolve: "resolve demo_root 1 = Some 0"
  by (simp add: resolve_iff demo_root_slots demo_root_slot_def make_cap_id_0)

lemma demo_tree_derive: "cap_derive 20 1 1 3 0x02 500 demo_root = (Inr 2, demo_tree)"
proof -
  obtain s1 where "alloc_slot demo_root = Some (1, 2, s1)"
    using alloc_slot_first [of 1 demo_root]
    by (simp add: demo_root_slots slot_zero_def demo_root_slot_def make_cap_id_0)
  then have "fst (cap_derive 20 1 1 3 0x02 500 demo_root) = Inr 2"
    by (simp add: cap_derive_def Let_def demo_root_resolve demo_root_slots
        demo_root_slot_def minted_def is_expired_def)
  then show ?thesis unfolding demo_tree_def by (metis prod.collapse)
qed

lemma demo_tree_slots:
  "cap_table demo_tree i = (if i = 0 then demo_root_slot else if i = 1 then demo_child_slot else slot_zero)"
proof -
  obtain k p where p: "resolve demo_root 1 = Some p"
    and g: "grows demo_root demo_tree k (minted 2 3 (resource_type (capof demo_root p)) (resource_id (capof demo_root p))
        0x02 (clamp_expiration (expiration (capof demo_root p)) 500) True 1)"
    using cap_derive_Inr [OF demo_tree_derive] by blast
  have p0: "p = 0" using p demo_root_resolve by simp
  have "k = 1" using grows_index [OF g, of 1]
    by (simp add: demo_root_slots slot_zero_def demo_root_slot_def)
  with grows_slot [OF g, of i] p0 show ?thesis
    by (simp add: demo_root_slots demo_child_slot_def demo_root_slot_def minted_def clamp_expiration_def)
      (simp add: slot_zero_def)
qed

lemma demo_tree_reachable: "cap_reachable demo_tree"
  by (rule cap_reachable.step [OF cap_reachable.step [OF cap_reachable.init
        cap_step.create [OF demo_root_create]] cap_step.derive [OF demo_tree_derive]])

lemma demo_tree_live: "live_set demo_tree = {0, 1}"
  by (auto simp: live_set_def demo_tree_slots demo_root_slot_def demo_child_slot_def slot_zero_def)

lemma demo_tree_resolve: "resolve demo_tree 1 = Some 0" "resolve demo_tree 2 = Some 1"
  by (simp_all add: resolve_iff demo_tree_slots demo_root_slot_def demo_child_slot_def make_cap_id_0)

lemma demo_tree_desc: "desc demo_tree 1 1"
  by (rule desc.base) (simp add: child_of_def demo_tree_live demo_tree_slots demo_child_slot_def minted_def)

lemma demo_tree_caps:
  "capof demo_tree 0 = minted 1 1 CAP_RESOURCE_IPC 2 0x1F 0 False 0"
  "capof demo_tree 1 = minted 2 3 CAP_RESOURCE_IPC 2 0x02 500 True 1"
  by (simp_all add: demo_tree_slots demo_root_slot_def demo_child_slot_def)

section \<open>The table invariant\<close>

text \<open>C1. Whatever sequence of capability calls the kernel makes after \<open>cap_init\<close>, every live
  slot carries its own current handle, every derived capability's parent is live and the
  derivation links have no cycle, no capability exceeds its parent, every live slot is below the
  lookup bound, and the statistics count the live slots.\<close>

theorem cap_table_invariant:
  assumes "cap_reachable s"
  shows "cap_inv s"
  using assms by (rule cap_reachable_inv)

theorem cap_table_invariant_witness: "cap_inv demo_tree \<and> live_set demo_tree = {0, 1}"
  using cap_table_invariant [OF demo_tree_reachable] demo_tree_live by simp

section \<open>No amplification\<close>

lemma narrow_trans: "narrow a b \<Longrightarrow> narrow b c \<Longrightarrow> narrow a c"
proof -
  assume ab: "narrow a b" and bc: "narrow b c"
  have "permissions a AND NOT (permissions c) = 0"
  proof (rule bit_word_eqI)
    fix n
    assume "n < LENGTH(32)"
    have "\<not> bit (permissions a AND NOT (permissions b)) n" "\<not> bit (permissions b AND NOT (permissions c)) n"
      using ab bc by (simp_all add: narrow_def)
    then show "bit (permissions a AND NOT (permissions c)) n = bit (0 :: u32) n"
      using \<open>n < LENGTH(32)\<close> by (auto simp: bit_simps)
  qed
  then show ?thesis using ab bc by (auto simp: narrow_def)
qed

lemma desc_narrow:
  assumes "cap_inv s" and "j \<in> live_set s" and "desc s (cap_id (capof s j)) i"
  shows "narrow (capof s i) (capof s j)"
  using assms(3)
proof (induction "cap_id (capof s j)" i rule: desc.induct)
  case (base i)
  then show ?case using assms resolve_own_id [of s j]
    by (auto simp: child_of_def cap_inv_def tree_ok_def narrow_ok_def)
next
  case (step k i)
  have "narrow (capof s i) (capof s k)"
    using step assms(1) desc_live [of s _ k] resolve_own_id [of s k]
    by (auto simp: child_of_def cap_inv_def tree_ok_def narrow_ok_def)
  then show ?case using step by (blast intro: narrow_trans)
qed

text \<open>C5. Authority is never amplified: in every reachable table, a capability derived through any
  number of steps from another has a subset of its permission bits, names the same resource, and
  if the ancestor expires it expires no later.\<close>

theorem cap_no_amplification:
  assumes "cap_reachable s" and "j \<in> live_set s" and "desc s (cap_id (capof s j)) i"
  shows "permissions (capof s i) AND NOT (permissions (capof s j)) = 0
    \<and> resource_type (capof s i) = resource_type (capof s j)
    \<and> resource_id (capof s i) = resource_id (capof s j)
    \<and> (is_expired now (capof s j) \<longrightarrow> is_expired now (capof s i))"
  using desc_narrow [OF cap_reachable_inv [OF assms(1)] assms(2,3)]
  by (auto simp: narrow_def is_expired_def)

theorem cap_no_amplification_witness:
  "desc demo_tree 1 1 \<and> permissions (capof demo_tree 1) AND NOT (permissions (capof demo_tree 0)) = 0
   \<and> resource_id (capof demo_tree 1) = resource_id (capof demo_tree 0)"
proof -
  have "desc demo_tree (cap_id (capof demo_tree 0)) 1"
    using demo_tree_desc by (simp add: demo_tree_caps minted_def)
  from cap_no_amplification [OF demo_tree_reachable _ this, of 0]
  show ?thesis using demo_tree_desc by (simp add: demo_tree_live)
qed

section \<open>Who may revoke\<close>

text \<open>The owner, or the owner of a live ancestor that carries \<open>CAP_REVOKE\<close>.\<close>

definition may_revoke :: "cap_state \<Rightarrow> u32 \<Rightarrow> nat \<Rightarrow> bool" where
  "may_revoke s requester i \<longleftrightarrow> owner_id (capof s i) = requester \<or>
     (\<exists>a\<in>live_set s. desc s (cap_id (capof s a)) i \<and> owner_id (capof s a) = requester
        \<and> permissions (capof s a) AND CAP_REVOKE \<noteq> 0)"

lemma desc_up:
  assumes "ids_ok s" and "i \<in> live_set s"
  shows "desc s p i \<longleftrightarrow> parent_cap (capof s i) = p
    \<or> (\<exists>j. resolve s (parent_cap (capof s i)) = Some j \<and> desc s p j)"
proof
  assume "desc s p i"
  then show "parent_cap (capof s i) = p \<or> (\<exists>j. resolve s (parent_cap (capof s i)) = Some j \<and> desc s p j)"
  proof cases
    case base
    then show ?thesis by (simp add: child_of_def)
  next
    case (step j)
    then show ?thesis using resolve_own_id [OF assms(1) desc_live, of p j] by (auto simp: child_of_def)
  qed
next
  assume "parent_cap (capof s i) = p \<or> (\<exists>j. resolve s (parent_cap (capof s i)) = Some j \<and> desc s p j)"
  then show "desc s p i"
  proof
    assume "parent_cap (capof s i) = p"
    then show ?thesis using assms by (auto intro: desc.base simp: child_of_def)
  next
    assume "\<exists>j. resolve s (parent_cap (capof s i)) = Some j \<and> desc s p j"
    then obtain j where j: "resolve s (parent_cap (capof s i)) = Some j" "desc s p j" by blast
    then have "parent_cap (capof s i) = cap_id (capof s j)"
      using assms(1) resolve_live [OF j(1)] by (simp add: resolve_iff ids_ok_def)
    then show ?thesis using j(2) assms(2) by (auto intro: desc.step simp: child_of_def)
  qed
qed

lemma ancestor_authorizes_iff:
  assumes ids: "ids_ok s"
  shows "i \<in> live_set s \<Longrightarrow> ancestor_authorizes n requester (parent_cap (capof s i)) s = Some b \<Longrightarrow>
    b \<longleftrightarrow> (\<exists>a\<in>live_set s. desc s (cap_id (capof s a)) i \<and> owner_id (capof s a) = requester
        \<and> permissions (capof s a) AND CAP_REVOKE \<noteq> 0)"
proof (induction n arbitrary: i)
  case 0
  then show ?case by simp
next
  case (Suc n)
  let ?p = "parent_cap (capof s i)"
  let ?ok = "\<lambda>a. owner_id (capof s a) = requester \<and> permissions (capof s a) AND CAP_REVOKE \<noteq> 0"
  show ?case
  proof (cases "resolve s ?p")
    case None
    then have "\<not> desc s (cap_id (capof s a)) i" if "a \<in> live_set s" for a
      using desc_up [OF ids Suc.prems(1)] resolve_own_id [OF ids that] by auto
    moreover have "\<not> b" using Suc.prems(2) None by (simp split: if_splits)
    ultimately show ?thesis by blast
  next
    case (Some j)
    have p0: "?p \<noteq> 0" using Some by (auto simp: resolve_def)
    have jl: "j \<in> live_set s" using Some by (rule resolve_live)
    have pid: "?p = cap_id (capof s j)" using Some jl ids by (simp add: resolve_iff ids_ok_def)
    have up: "desc s (cap_id (capof s a)) i \<longleftrightarrow> a = j \<or> desc s (cap_id (capof s a)) j"
      if "a \<in> live_set s" for a
    proof -
      have "?p = cap_id (capof s a) \<longleftrightarrow> a = j"
        using Some resolve_own_id [OF ids that] pid by (metis option.inject)
      then show ?thesis unfolding desc_up [OF ids Suc.prems(1)] Some by auto
    qed
    show ?thesis
    proof (cases "?ok j")
      case True
      then have "b" using Suc.prems(2) Some p0 by simp
      with True up jl show ?thesis by blast
    next
      case False
      then have "ancestor_authorizes n requester (parent_cap (capof s j)) s = Some b"
        using Suc.prems(2) Some p0 by (auto split: if_splits)
      from Suc.IH [OF jl this] False up show ?thesis by blast
    qed
  qed
qed

lemma shrinks_resolve_eq:
  "shrinks s t F \<Longrightarrow> resolve t h = (case resolve s h of None \<Rightarrow> None | Some j \<Rightarrow> if j \<in> F then None else Some j)"
proof -
  assume sh: "shrinks s t F"
  have "resolve t h = Some j \<longleftrightarrow> resolve s h = Some j \<and> j \<notin> F" for j
    using sh by (auto simp: resolve_iff shrinks_def freed_def split: if_splits)
  note eq = this
  show ?thesis
  proof (cases "resolve s h")
    case None
    then have "resolve t h = None" using eq by (metis not_None_eq option.distinct(1))
    with None show ?thesis by simp
  next
    case (Some j)
    then have "resolve t h = Some k \<longleftrightarrow> k = j \<and> j \<notin> F" for k using eq by auto
    then have "resolve t h = (if j \<in> F then None else Some j)" by (cases "resolve t h") auto
    with Some show ?thesis by simp
  qed
qed

lemma cap_revoke_total:
  assumes inv: "cap_inv s"
  shows "\<exists>res t. cap_revoke now cid requester s = Some (res, t) \<and>
    (case resolve s cid of None \<Rightarrow> res = Inl CAP_ERROR_INVALID_ID \<and> t = s
     | Some i \<Rightarrow> if may_revoke s requester i then res = Inr ()
                 else res = Inl CAP_ERROR_NOT_OWNER \<and> t = s)"
proof (cases "resolve s cid")
  case None
  then show ?thesis by (simp add: cap_revoke_def)
next
  case (Some i)
  obtain r where tr: "tree_ok s r" using inv by (auto simp: cap_inv_def)
  have ids: "ids_ok s" using tr by (simp add: tree_ok_def)
  have il: "i \<in> live_set s" using Some by (rule resolve_live)
  have rv: "is_revocable (capof s i)" using inv il by (simp add: cap_inv_def narrow_ok_def)
  obtain b where b: "ancestor_authorizes CAP_DEPTH requester (parent_cap (capof s i)) s = Some b"
    using ancestor_depth [OF tr] by blast
  have mr: "may_revoke s requester i \<longleftrightarrow> owner_id (capof s i) = requester \<or> b"
    using ancestor_authorizes_iff [OF ids il b] by (simp add: may_revoke_def)
  obtain t where "revoke_children_of CAP_DEPTH now AUDIT_REVOKE cid s = Some t"
    using revoke_children_depth [OF tr] by blast
  with Some rv b mr show ?thesis by (cases b) (auto simp: cap_revoke_def Let_def)
qed

text \<open>C8. \<open>cap_revoke\<close> always comes back on a reachable table (the model's recursion depth of
  1025 is never reached), with exactly three outcomes: a handle that does not resolve is
  refused, a requester that neither owns the capability nor owns a live ancestor with
  \<open>CAP_REVOKE\<close> is refused with the table unchanged, and anyone else succeeds.\<close>

theorem cap_revoke_outcomes:
  assumes "cap_reachable s"
  shows "\<exists>res t. cap_revoke now cid requester s = Some (res, t) \<and>
    (case resolve s cid of None \<Rightarrow> res = Inl CAP_ERROR_INVALID_ID \<and> t = s
     | Some i \<Rightarrow> if may_revoke s requester i then res = Inr ()
                 else res = Inl CAP_ERROR_NOT_OWNER \<and> t = s)"
  by (rule cap_revoke_total [OF cap_reachable_inv [OF assms]])

lemma demo_tree_parent: "may_revoke demo_tree 1 1"
  unfolding may_revoke_def
proof (rule disjI2, rule bexI [of _ 0])
  show "desc demo_tree (cap_id (capof demo_tree 0)) 1 \<and> owner_id (capof demo_tree 0) = 1 \<and>
    permissions (capof demo_tree 0) AND CAP_REVOKE \<noteq> 0"
    using demo_tree_desc by (simp add: demo_tree_caps minted_def)
qed (simp add: demo_tree_live)

lemma demo_root_no_desc: "i \<in> {0, 1} \<Longrightarrow> a \<in> {0, 1} \<Longrightarrow> desc demo_tree (cap_id (capof demo_tree a)) i \<Longrightarrow> a = 0 \<and> i = 1"
proof -
  assume i: "i \<in> {0, 1}" and a: "a \<in> {0, 1}" and d: "desc demo_tree (cap_id (capof demo_tree a)) i"
  obtain r where tr: "tree_ok demo_tree r"
    using cap_reachable_inv [OF demo_tree_reachable] by (auto simp: cap_inv_def)
  have "r a < r i" by (rule desc_rank [OF tr _ d]) (use a demo_tree_live in auto)
  moreover have "r 0 < r 1"
    by (rule desc_rank [OF tr]) (use demo_tree_desc in \<open>auto simp: demo_tree_live demo_tree_caps minted_def\<close>)
  ultimately show ?thesis using i a by auto
qed

theorem cap_revoke_outcomes_witness:
  "(\<exists>t. cap_revoke 30 2 1 demo_tree = Some (Inr (), t))
   \<and> cap_revoke 30 1 3 demo_tree = Some (Inl CAP_ERROR_NOT_OWNER, demo_tree)"
proof
  show "\<exists>t. cap_revoke 30 2 1 demo_tree = Some (Inr (), t)"
    using cap_revoke_outcomes [OF demo_tree_reachable, of 30 2 1] demo_tree_parent
    by (simp add: demo_tree_resolve)
  have "\<not> may_revoke demo_tree 3 0"
    using demo_root_no_desc [of 0] by (auto simp: may_revoke_def demo_tree_live demo_tree_caps minted_def)
  then show "cap_revoke 30 1 3 demo_tree = Some (Inl CAP_ERROR_NOT_OWNER, demo_tree)"
    using cap_revoke_outcomes [OF demo_tree_reachable, of 30 1 3] by (simp add: demo_tree_resolve)
qed

section \<open>What a revocation takes away\<close>

text \<open>C7. A successful \<open>cap_revoke\<close> frees exactly the named slot and everything derived from it,
  at any depth: every handle into that subtree stops resolving, every other handle keeps
  resolving to the same slot, and the slots outside the subtree are untouched.\<close>

theorem cap_revoke_cascade:
  assumes "cap_reachable s" and "cap_revoke now cid requester s = Some (Inr (), t)"
  shows "\<exists>i. resolve s cid = Some i
    \<and> live_set t = live_set s - ({i} \<union> {x. desc s cid x})
    \<and> (\<forall>h. resolve t h = (case resolve s h of None \<Rightarrow> None
             | Some j \<Rightarrow> if j = i \<or> desc s cid j then None else Some j))
    \<and> (\<forall>j. j \<noteq> i \<and> \<not> desc s cid j \<longrightarrow> cap_table t j = cap_table s j)"
proof -
  obtain i where i: "resolve s cid = Some i" and sh: "shrinks s t ({i} \<union> {x. desc s cid x})"
    using cap_revoke_Inr [OF cap_reachable_inv [OF assms(1)] assms(2)] by blast
  have "\<forall>j. j \<noteq> i \<and> \<not> desc s cid j \<longrightarrow> cap_table t j = cap_table s j"
    using sh by (simp add: shrinks_def)
  moreover have "resolve t h = (case resolve s h of None \<Rightarrow> None
      | Some j \<Rightarrow> if j = i \<or> desc s cid j then None else Some j)" for h
    using shrinks_resolve_eq [OF sh, of h] by (simp split: option.split)
  ultimately show ?thesis using i shrinks_live [OF sh] by simp
qed

text \<open>The run the witnesses use: process 1 revokes its root.\<close>

lemma demo_revoke: "\<exists>t. cap_revoke 30 1 1 demo_tree = Some (Inr (), t)"
  using cap_revoke_total [OF cap_reachable_inv [OF demo_tree_reachable], of 30 1 1]
  by (simp add: demo_tree_resolve may_revoke_def demo_tree_caps minted_def)

theorem cap_revoke_cascade_witness:
  "\<exists>t. cap_revoke 30 1 1 demo_tree = Some (Inr (), t) \<and> live_set t = {} \<and> resolve t 2 = None"
proof -
  obtain t where t: "cap_revoke 30 1 1 demo_tree = Some (Inr (), t)" using demo_revoke by blast
  from cap_revoke_cascade [OF demo_tree_reachable t]
  have "live_set t = {} \<and> resolve t 2 = None"
    using demo_tree_desc by (auto simp: demo_tree_resolve demo_tree_live)
  with t show ?thesis by blast
qed

section \<open>Process death\<close>

lemma swept_iff:
  "i \<in> swept s sel MAX_CAPABILITIES \<longleftrightarrow> (\<exists>j\<in>live_set s. sel (capof s j) \<and> (i = j \<or> desc s (cap_id (capof s j)) i))"
  by (auto simp: swept_def dest: live_set_bound)

lemma shrinks_swept:
  assumes "shrinks s t (swept s sel MAX_CAPABILITIES)"
  shows "i \<in> live_set t \<longleftrightarrow> i \<in> live_set s \<and> \<not> sel (capof s i)
      \<and> \<not> (\<exists>j\<in>live_set s. sel (capof s j) \<and> desc s (cap_id (capof s j)) i)"
    and "i \<in> live_set t \<Longrightarrow> cap_table t i = cap_table s i"
  using assms shrinks_live [OF assms] by (auto simp: swept_iff shrinks_def)

text \<open>Process death leaves no authority behind: \<open>cap_revoke_all_for_process\<close> always comes
  back, and the capabilities that survive are exactly those the dead process neither owned nor
  had, at any depth, a derivation path to; they are untouched.\<close>

theorem cap_reap_complete:
  assumes "cap_reachable s"
  shows "\<exists>t. cap_revoke_all_for_process now pid s = Some t
    \<and> (\<forall>i. i \<in> live_set t \<longleftrightarrow> i \<in> live_set s \<and> owner_id (capof s i) \<noteq> pid
          \<and> \<not> (\<exists>j\<in>live_set s. owner_id (capof s j) = pid \<and> desc s (cap_id (capof s j)) i))
    \<and> (\<forall>i\<in>live_set t. cap_table t i = cap_table s i)"
proof -
  obtain t where t: "cap_revoke_all_for_process now pid s = Some t"
    and sh: "shrinks s t (swept s (\<lambda>c. owner_id c = pid) MAX_CAPABILITIES)"
    using reap_spec [OF cap_reachable_inv [OF assms]] by blast
  show ?thesis
  proof (intro exI [of _ t] conjI allI ballI)
    show "cap_revoke_all_for_process now pid s = Some t" by (rule t)
  next
    fix i
    show "i \<in> live_set t \<longleftrightarrow> i \<in> live_set s \<and> owner_id (capof s i) \<noteq> pid
          \<and> \<not> (\<exists>j\<in>live_set s. owner_id (capof s j) = pid \<and> desc s (cap_id (capof s j)) i)"
      by (rule shrinks_swept(1) [OF sh])
  next
    fix i
    assume "i \<in> live_set t"
    then show "cap_table t i = cap_table s i" by (rule shrinks_swept(2) [OF sh])
  qed
qed

theorem cap_reap_complete_witness:
  "\<exists>t. cap_revoke_all_for_process 40 3 demo_tree = Some t \<and> live_set t = {0}"
proof -
  obtain t where t: "cap_revoke_all_for_process 40 3 demo_tree = Some t"
    and l: "\<forall>i. i \<in> live_set t \<longleftrightarrow> i \<in> live_set demo_tree \<and> owner_id (capof demo_tree i) \<noteq> 3
      \<and> \<not> (\<exists>j\<in>live_set demo_tree. owner_id (capof demo_tree j) = 3 \<and> desc demo_tree (cap_id (capof demo_tree j)) i)"
    using cap_reap_complete [OF demo_tree_reachable, of 40 3] by blast
  have o: "owner_id (capof demo_tree 0) = 1" "owner_id (capof demo_tree 1) = 3"
    unfolding demo_tree_caps by (simp_all add: minted_def)
  have "\<not> desc demo_tree (cap_id (capof demo_tree 1)) 0" using demo_root_no_desc [of 0 1] by auto
  then have "i \<in> live_set t \<longleftrightarrow> i = 0" for i
    using l [rule_format, of i] o unfolding demo_tree_live by auto
  with t show ?thesis by blast
qed

text \<open>The other half of process death: after \<open>cap_revoke_ipc_targets\<close> no live capability
  names the dead process's port, so whichever process takes the recycled pid inherits no sender;
  capabilities on other resources that were not derived from one of those survive unchanged.\<close>

theorem cap_unlink_complete:
  assumes "cap_reachable s"
  shows "\<exists>t. cap_revoke_ipc_targets now dead s = Some t
    \<and> (\<forall>i\<in>live_set t. \<not> (resource_type (capof t i) = CAP_RESOURCE_IPC \<and> resource_id (capof t i) = dead))
    \<and> (\<forall>i\<in>live_set s. resource_type (capof s i) \<noteq> CAP_RESOURCE_IPC \<or> resource_id (capof s i) \<noteq> dead
         \<longrightarrow> cap_table t i = cap_table s i)"
proof -
  let ?sel = "\<lambda>c. resource_type c = CAP_RESOURCE_IPC \<and> resource_id c = dead"
  have inv: "cap_inv s" using assms by (rule cap_reachable_inv)
  obtain t where t: "cap_revoke_ipc_targets now dead s = Some t"
    and sh: "shrinks s t (swept s ?sel MAX_CAPABILITIES)"
    using unlink_spec [OF inv] by blast
  have "cap_table t i = cap_table s i" if i: "i \<in> live_set s" "\<not> ?sel (capof s i)" for i
  proof -
    have "\<not> desc s (cap_id (capof s j)) i" if "j \<in> live_set s" "?sel (capof s j)" for j
      using desc_narrow [OF inv that(1)] that(2) i by (auto simp: narrow_def)
    then have "i \<in> live_set t" using shrinks_swept(1) [OF sh, of i] i by blast
    then show ?thesis by (rule shrinks_swept(2) [OF sh])
  qed
  moreover have "\<not> ?sel (capof t i)" if "i \<in> live_set t" for i
    using shrinks_swept [OF sh, of i] that by auto
  ultimately show ?thesis using t by blast
qed

theorem cap_unlink_complete_witness:
  "\<exists>t. cap_revoke_ipc_targets 40 2 demo_tree = Some t
     \<and> (\<forall>i\<in>live_set t. \<not> (resource_type (capof t i) = CAP_RESOURCE_IPC \<and> resource_id (capof t i) = 2))"
  using cap_unlink_complete [OF demo_tree_reachable, of 40 2] by blast

end
