(* ===== verification/Capability_Lookup.thy ===== *)
theory Capability_Lookup
  imports Capability_Claims
begin

text \<open>
  The enforcement surface of the capability table: what \<open>cap_check\<close> and the bounded lookups
  accept, when a derivation is allowed and what it leaves in the ledger, and how long a stale
  handle stays dead.
\<close>

section \<open>Checks\<close>

text \<open>The authority the enforcement points ask for: a live, unexpired capability of the process on
  exactly this resource with every requested bit.\<close>

definition holds :: "u64 \<Rightarrow> u32 \<Rightarrow> u32 \<Rightarrow> u32 \<Rightarrow> u32 \<Rightarrow> cap_state \<Rightarrow> nat \<Rightarrow> bool" where
  "holds now pid rtype req rid s i \<longleftrightarrow> i \<in> live_set s \<and> owner_id (capof s i) = pid
     \<and> resource_type (capof s i) = rtype \<and> resource_id (capof s i) = rid
     \<and> permissions (capof s i) AND req = req \<and> \<not> is_expired now (capof s i)"

lemma holds_matches: "holds now pid rtype req rid s i \<longleftrightarrow> i < MAX_CAPABILITIES \<and> cap_matches now pid rtype req rid s i"
  by (auto simp: holds_def cap_matches_def live_set_def Let_def)

text \<open>\<open>cap_check\<close> passes exactly when the handle is the current handle of a slot that grants
  the requested access, and whatever it answers it changes nothing but its own two counters,
  of which it raises exactly one.\<close>

theorem cap_check_exact:
  "cap_check now cid pid rtype rid req s = (res, t) \<Longrightarrow>
   (res = Inr () \<longleftrightarrow> (\<exists>i. resolve s cid = Some i \<and> holds now pid rtype req rid s i))
   \<and> t = s\<lparr>stats := (stats s)
        \<lparr>checks_passed := checks_passed (stats s) + (if res = Inr () then 1 else 0),
         checks_denied := checks_denied (stats s) + (if res = Inr () then 0 else 1)\<rparr>\<rparr>"
  by (auto simp: cap_check_def holds_def bump_denied_def bump_passed_def Let_def resolve_live
      split: option.splits if_splits)

theorem cap_check_exact_witness:
  "fst (cap_check 100 2 3 CAP_RESOURCE_IPC 2 CAP_WRITE demo_tree) = Inr ()
   \<and> fst (cap_check 500 2 3 CAP_RESOURCE_IPC 2 CAP_WRITE demo_tree) \<noteq> Inr ()"
proof -
  have h: "holds now 3 CAP_RESOURCE_IPC CAP_WRITE 2 demo_tree 1 \<longleftrightarrow> now < 500" for now
    unfolding holds_def demo_tree_live demo_tree_caps
    by (auto simp: minted_def is_expired_def not_le)
  have "fst (cap_check now 2 3 CAP_RESOURCE_IPC 2 CAP_WRITE demo_tree) = Inr () \<longleftrightarrow> now < 500" for now
    using cap_check_exact [OF surjective_pairing, of now 2 3 CAP_RESOURCE_IPC 2 CAP_WRITE demo_tree] h [of now]
    by (auto simp: demo_tree_resolve)
  then show ?thesis by simp
qed

section \<open>Lookups\<close>

lemma find_scan:
  assumes "cap_inv s"
  shows "first_idx (cap_matches now pid rtype req rid s) 0 (cap_hwm s) =
         first_idx (cap_matches now pid rtype req rid s) 0 MAX_CAPABILITIES"
proof (rule first_idx_bound_eq)
  show "i < cap_hwm s" if "i < MAX_CAPABILITIES" "cap_matches now pid rtype req rid s i" for i
    using that assms by (auto simp: cap_inv_def hwm_ok_def live_set_def cap_matches_def Let_def)
  show "cap_hwm s \<le> MAX_CAPABILITIES" using assms by (simp add: cap_inv_def hwm_ok_def)
qed

lemma find_id_holds:
  assumes "cap_inv s"
  shows "(\<exists>h. cap_find_id now pid rtype req rid s = Inr h) \<longleftrightarrow> (\<exists>i. holds now pid rtype req rid s i)"
  by (auto simp: cap_find_id_def find_scan [OF assms] holds_matches first_idx_None first_idx_Some
      split: option.split)

text \<open>The scans stop at \<open>cap_hwm\<close>, and lose nothing by it: on a reachable table
  \<open>cap_find_resource\<close> and \<open>cap_find_id\<close> succeed exactly when some slot of the whole table grants
  the access, and the handle \<open>cap_find_id\<close> returns passes \<open>cap_check\<close> for the same request.\<close>

theorem cap_find_complete:
  assumes "cap_reachable s"
  shows "(cap_find_resource now pid rtype req rid s = Inr () \<longleftrightarrow> (\<exists>i. holds now pid rtype req rid s i))
    \<and> ((\<exists>h. cap_find_id now pid rtype req rid s = Inr h) \<longleftrightarrow> (\<exists>i. holds now pid rtype req rid s i))
    \<and> (cap_find_id now pid rtype req rid s = Inr h \<longrightarrow>
         fst (cap_check now h pid rtype rid req s) = Inr ())"
proof -
  have inv: "cap_inv s" using assms by (rule cap_reachable_inv)
  have "fst (cap_check now h pid rtype rid req s) = Inr ()"
    if f: "cap_find_id now pid rtype req rid s = Inr h"
  proof -
    obtain i where i: "holds now pid rtype req rid s i" and h: "h = cap_id (capof s i)"
      using f by (auto simp: cap_find_id_def find_scan [OF inv] holds_matches first_idx_Some
          split: option.splits)
    have "resolve s h = Some i"
      using inv i h resolve_own_id [of s i] by (auto simp: cap_inv_def tree_ok_def holds_def)
    with i show ?thesis by (simp add: cap_check_def holds_def Let_def)
  qed
  moreover have "cap_find_resource now pid rtype req rid s = Inr () \<longleftrightarrow>
      (\<exists>h. cap_find_id now pid rtype req rid s = Inr h)"
    by (auto simp: cap_find_resource_def cap_find_id_def split: option.splits)
  ultimately show ?thesis using find_id_holds [OF inv] by blast
qed

theorem cap_find_complete_witness:
  "cap_find_resource 100 3 CAP_RESOURCE_IPC CAP_WRITE 2 demo_tree = Inr ()
   \<and> cap_find_resource 100 3 CAP_RESOURCE_IPC CAP_READ 2 demo_tree = Inl CAP_ERROR_DENIED"
proof -
  have "holds 100 3 CAP_RESOURCE_IPC CAP_WRITE 2 demo_tree 1"
    unfolding holds_def demo_tree_live demo_tree_caps by (simp add: minted_def is_expired_def)
  moreover have "\<not> holds 100 3 CAP_RESOURCE_IPC CAP_READ 2 demo_tree i" for i
    unfolding holds_def demo_tree_live using demo_tree_caps
    by (cases "i = 0"; cases "i = 1") (simp_all add: minted_def)
  ultimately have a: "cap_find_resource 100 3 CAP_RESOURCE_IPC CAP_WRITE 2 demo_tree = Inr ()"
    and b: "cap_find_resource 100 3 CAP_RESOURCE_IPC CAP_READ 2 demo_tree \<noteq> Inr ()"
    using cap_find_complete [OF demo_tree_reachable, of 100 3 CAP_RESOURCE_IPC] by blast+
  have "cap_find_resource 100 3 CAP_RESOURCE_IPC CAP_READ 2 demo_tree \<in> {Inl CAP_ERROR_DENIED, Inr ()}"
    by (simp add: cap_find_resource_def split: option.split)
  with a b show ?thesis by simp
qed

section \<open>Derivation\<close>

text \<open>\<open>cap_derive\<close> succeeds exactly when the parent handle resolves, the requester owns it, it
  is neither expired nor lacks \<open>CAP_GRANT\<close>, the child asks for no bit the parent lacks, and a
  slot is free; every refusal leaves the table and the ledger as they were.\<close>

theorem cap_derive_exact:
  "((\<exists>cid t. cap_derive now pcap requester owner perms exp s = (Inr cid, t)) \<longleftrightarrow>
     (\<exists>p. resolve s pcap = Some p \<and> owner_id (capof s p) = requester
        \<and> \<not> is_expired now (capof s p) \<and> permissions (capof s p) AND CAP_GRANT \<noteq> 0
        \<and> perms AND NOT (permissions (capof s p)) = 0)
     \<and> live_set s \<noteq> {..<MAX_CAPABILITIES})
   \<and> (\<exists>r t. cap_derive now pcap requester owner perms exp s = (r, t) \<and> (r = Inr (projr r) \<or> t = s))"
proof -
  have "(\<exists>cid t. cap_derive now pcap requester owner perms exp s = (Inr cid, t)) \<longleftrightarrow>
     (\<exists>p. resolve s pcap = Some p \<and> owner_id (capof s p) = requester
        \<and> \<not> is_expired now (capof s p) \<and> permissions (capof s p) AND CAP_GRANT \<noteq> 0
        \<and> perms AND NOT (permissions (capof s p)) = 0) \<and> alloc_slot s \<noteq> None"
    by (auto simp: cap_derive_def Let_def split: option.splits)
  moreover have "\<exists>r t. cap_derive now pcap requester owner perms exp s = (r, t) \<and> (r = Inr (projr r) \<or> t = s)"
  proof -
    obtain r t where rt: "cap_derive now pcap requester owner perms exp s = (r, t)" by (meson surj_pair)
    then show ?thesis by (cases r) (auto dest: cap_derive_Inl)
  qed
  ultimately show ?thesis using alloc_slot_None [of s] by simp
qed

text \<open>Every capability that comes into being is on the record: after a successful
  \<open>cap_create\<close> or \<open>cap_derive\<close> the newest ledger event is the grant to its owner, with the
  resource and the permissions actually installed in the slot the returned handle resolves to.\<close>

theorem cap_grant_recorded:
  assumes "ledger_inv (ledger s)" and "ledger_slots (ledger s) + 1 < LEDGER_LIMIT"
    and "cap_create now owner rtype rid perms exp s = (Inr cid, t)
      \<or> cap_derive now pcap requester owner perms exp s = (Inr cid, t)"
  shows "\<exists>i. resolve t cid = Some i \<and> owner_id (capof t i) = owner \<and> permissions (capof t i) = perms
    \<and> newest_event (ledger t) = Some (AUDIT_GRANT, owner, AUDIT_V_OK,
        resource_type (capof t i), resource_id (capof t i), perms)"
proof -
  obtain i c where g: "grows s t i c" and c: "cap_id c = cid" "owner_id c = owner" "permissions c = perms"
    and l: "ledger t = audit_grant now owner (resource_type c) (resource_id c) perms (ledger s)"
    using assms(3)
  proof
    assume "cap_create now owner rtype rid perms exp s = (Inr cid, t)"
    from cap_create_Inr [OF this] that show ?thesis by (fastforce simp: minted_def)
  next
    assume "cap_derive now pcap requester owner perms exp s = (Inr cid, t)"
    from cap_derive_Inr [OF this] that show ?thesis by (fastforce simp: minted_def)
  qed
  have "audit_grant now owner (resource_type c) (resource_id c) perms (ledger s) =
      record_event now (AUDIT_GRANT, owner, AUDIT_V_OK, resource_type c, resource_id c, perms) (ledger s)"
    by (simp add: audit_grant_def record_event_eq)
  then have "newest_event (ledger t) = Some (AUDIT_GRANT, owner, AUDIT_V_OK, resource_type c, resource_id c, perms)"
    using l ledger.rec_newest [OF assms(1,2)] by simp
  with g c show ?thesis by (intro exI [of _ i]) (simp add: grows_capof grows_resolve)
qed

theorem cap_grant_recorded_witness:
  "newest_event (ledger demo_root) = Some (AUDIT_GRANT, 1, AUDIT_V_OK, CAP_RESOURCE_IPC, 2, 0x1F)"
proof -
  have l: "ledger (cap_init cap_boot) = audit_boot" by (simp add: cap_init_def cap_boot_def)
  have "ledger_slots audit_boot = 0" by (simp add: ledger_slots_def audit_boot_def)
  with cap_grant_recorded [OF _ _ disjI1 [OF demo_root_create]] l ledger_inv_boot
  show ?thesis by (auto simp: demo_root_resolve demo_root_slots demo_root_slot_def minted_def)
qed

section \<open>Stale handles\<close>

lemma free_slot_iter:
  "generation (cap_table ((free_slot i ^^ n) s) i) = generation (cap_table s i) + of_nat n"
  by (induction n) (simp_all add: free_slot_def algebra_simps)

text \<open>A handle survives its slot only by generation wrap-around. If the slot a handle named has
  been freed \<open>n\<close> times and is live again, the old handle resolves to it exactly when \<open>n\<close> is a
  multiple of 65536: it stays dead through the first 65535 reuses and aliases the new tenant on
  the 65536th.\<close>

theorem stale_handle_aliases:
  assumes "resolve s h = Some i" and "in_use (cap_table t i)"
    and "generation (cap_table t i) = generation (cap_table ((free_slot i ^^ n) s) i)"
  shows "resolve t h = Some i \<longleftrightarrow> 65536 dvd n"
proof -
  have i: "i < MAX_CAPABILITIES" "h = make_cap_id i (generation (cap_table s i))"
    using assms(1) by (simp_all add: resolve_iff)
  then have "resolve t h = Some i \<longleftrightarrow> generation (cap_table s i) = generation (cap_table s i) + of_nat n"
    using assms(2,3) by (auto simp: resolve_iff make_cap_id_inject free_slot_iter)
  also have "\<dots> \<longleftrightarrow> of_nat n = (0 :: u16)" by simp
  also have "\<dots> \<longleftrightarrow> 65536 dvd n" by (simp add: word_of_nat_eq_0_iff)
  finally show ?thesis .
qed

theorem stale_handle_aliases_witness:
  "resolve (demo_root\<lparr>cap_table := (cap_table demo_root)(0 := demo_root_slot\<lparr>generation := 1\<rparr>)\<rparr>) 1 \<noteq> Some 0
   \<and> resolve (demo_root\<lparr>cap_table := (cap_table demo_root)(0 :=
        demo_root_slot\<lparr>generation := generation (cap_table ((free_slot 0 ^^ 65536) demo_root) 0)\<rparr>)\<rparr>) 1 = Some 0"
proof
  show "resolve (demo_root\<lparr>cap_table := (cap_table demo_root)(0 := demo_root_slot\<lparr>generation := 1\<rparr>)\<rparr>) 1 \<noteq> Some 0"
    using stale_handle_aliases [OF demo_root_resolve, of _ 1]
    by (simp add: demo_root_slot_def demo_root_slots free_slot_def)
  show "resolve (demo_root\<lparr>cap_table := (cap_table demo_root)(0 :=
      demo_root_slot\<lparr>generation := generation (cap_table ((free_slot 0 ^^ 65536) demo_root) 0)\<rparr>)\<rparr>) 1 = Some 0"
    using stale_handle_aliases [OF demo_root_resolve, of _ 65536] by (simp add: demo_root_slot_def)
qed

end
