(* ===== verification/Manifest.thy ===== *)
theory Manifest
  imports Capability_Lookup
begin

text \<open>
  Intent manifests (\<open>kernel/src/manifest.c\<close>, \<open>kernel/include/kernel/manifest.h\<close>): a per-pid
  record of declared intent, checked after the capability layer, with the spawn, QPU-submission
  and CPU quotas and the line-atomic text dump. \<open>manifest_table\<close> is a function from slot
  numbers; an operation that records a refusal takes and returns the ledger. The mutators run with
  interrupts off, so each is one step.
\<close>

section \<open>Data\<close>

abbreviation (input) MANIFEST_MAX_ENTRIES :: u8 where "MANIFEST_MAX_ENTRIES \<equiv> 8"
abbreviation (input) MANIFEST_LINE_MAX :: nat where "MANIFEST_LINE_MAX \<equiv> 128"
abbreviation (input) MAX_PROCESSES :: u32 where "MAX_PROCESSES \<equiv> 256"
abbreviation (input) SPAWN_RESOURCE_ID :: u32 where "SPAWN_RESOURCE_ID \<equiv> 0"
abbreviation (input) DEVICE_ID_QPU :: u32 where "DEVICE_ID_QPU \<equiv> 0x5150"

record manifest_entry_t =
  me_resource_type :: u32
  me_resource_id :: u32
  me_permissions :: u32

record manifest_t =
  bound :: bool
  entry_count :: u8
  spawn_channel :: bool
  spawn_max :: u32
  spawn_used :: u32
  cpu_limit :: u64
  cpu_ticks :: u64
  qsub_max :: u32
  qsub_used :: u32
  entries :: "nat \<Rightarrow> manifest_entry_t"

type_synonym manifest_table = "nat \<Rightarrow> manifest_t"

definition manifest_zero :: manifest_t where
  "manifest_zero = \<lparr>bound = False, entry_count = 0, spawn_channel = False, spawn_max = 0, spawn_used = 0,
     cpu_limit = 0, cpu_ticks = 0, qsub_max = 0, qsub_used = 0,
     entries = (\<lambda>_. \<lparr>me_resource_type = 0, me_resource_id = 0, me_permissions = 0\<rparr>)\<rparr>"

section \<open>Operations\<close>

definition manifest_bind :: "u32 \<Rightarrow> manifest_t option \<Rightarrow> manifest_table \<Rightarrow> manifest_table" where
  "manifest_bind pid m mt =
     (case m of None \<Rightarrow> mt
      | Some m \<Rightarrow> if pid \<ge> MAX_PROCESSES then mt
        else mt(unat pid := m\<lparr>bound := True,
               entry_count := (if entry_count m > MANIFEST_MAX_ENTRIES then MANIFEST_MAX_ENTRIES
                               else entry_count m)\<rparr>))"

definition manifest_clear :: "u32 \<Rightarrow> manifest_table \<Rightarrow> manifest_table" where
  "manifest_clear pid mt = (if pid \<ge> MAX_PROCESSES then mt else mt(unat pid := manifest_zero))"

text \<open>The row scan that \<open>manifest_grant\<close> and \<open>manifest_check\<close> share.\<close>

definition manifest_row :: "manifest_t \<Rightarrow> u32 \<Rightarrow> u32 \<Rightarrow> nat option" where
  "manifest_row m rtype rid =
     first_idx (\<lambda>i. me_resource_type (entries m i) = rtype \<and> me_resource_id (entries m i) = rid)
       0 (unat (entry_count m))"

definition manifest_grant :: "u32 \<Rightarrow> u32 \<Rightarrow> u32 \<Rightarrow> u32 \<Rightarrow> manifest_table \<Rightarrow> bool \<times> manifest_table" where
  "manifest_grant pid rtype rid perms mt =
     (if pid \<ge> MAX_PROCESSES then (False, mt)
      else let m = mt (unat pid) in
        if \<not> bound m then (False, mt)
        else if manifest_row m rtype rid \<noteq> None then (True, mt)
        else if entry_count m < MANIFEST_MAX_ENTRIES
        then (True, mt(unat pid := m\<lparr>
               entries := (entries m)(unat (entry_count m) :=
                 \<lparr>me_resource_type = rtype, me_resource_id = rid, me_permissions = perms\<rparr>),
               entry_count := entry_count m + 1\<rparr>))
        else (False, mt))"

definition manifest_has_room :: "u32 \<Rightarrow> manifest_table \<Rightarrow> bool" where
  "manifest_has_room pid mt \<longleftrightarrow> \<not> pid \<ge> MAX_PROCESSES
     \<and> bound (mt (unat pid)) \<and> entry_count (mt (unat pid)) < MANIFEST_MAX_ENTRIES"

definition manifest_over_budget :: "u32 \<Rightarrow> manifest_table \<Rightarrow> bool" where
  "manifest_over_budget pid mt \<longleftrightarrow> \<not> pid \<ge> MAX_PROCESSES
     \<and> bound (mt (unat pid)) \<and> cpu_limit (mt (unat pid)) \<noteq> 0
     \<and> cpu_ticks (mt (unat pid)) \<ge> cpu_limit (mt (unat pid))"

definition manifest_check ::
    "u64 \<Rightarrow> u32 \<Rightarrow> u32 \<Rightarrow> u32 \<Rightarrow> u32 \<Rightarrow> manifest_table \<Rightarrow> audit_state \<Rightarrow> bool \<times> audit_state" where
  "manifest_check now pid rtype rid perms mt l =
     (if pid \<ge> MAX_PROCESSES then (True, l)
      else let m = mt (unat pid) in
        if \<not> bound m then (True, l)
        else if manifest_row m rtype rid \<noteq> None then (True, l)
        else (False, audit_record now AUDIT_MDENY pid AUDIT_V_EPERM rtype rid perms l))"

definition manifest_spawn_precheck :: "u64 \<Rightarrow> u32 \<Rightarrow> manifest_table \<Rightarrow> audit_state \<Rightarrow> bool \<times> audit_state" where
  "manifest_spawn_precheck now pid mt l =
     (if pid \<ge> MAX_PROCESSES then (True, l)
      else let m = mt (unat pid); ok = (\<not> bound m \<or> spawn_max m = 0 \<or> spawn_used m < spawn_max m) in
        (ok, if ok then l
             else audit_record now AUDIT_QUOTA pid AUDIT_V_EPERM CAP_RESOURCE_PROCESS SPAWN_RESOURCE_ID
                    CAP_EXECUTE l))"

definition manifest_spawn_charge :: "u32 \<Rightarrow> manifest_table \<Rightarrow> manifest_table" where
  "manifest_spawn_charge pid mt =
     (if pid \<ge> MAX_PROCESSES then mt
      else if bound (mt (unat pid))
      then mt(unat pid := (mt (unat pid))\<lparr>spawn_used := spawn_used (mt (unat pid)) + 1\<rparr>)
      else mt)"

definition manifest_spawn_channel :: "u32 \<Rightarrow> manifest_table \<Rightarrow> bool" where
  "manifest_spawn_channel pid mt \<longleftrightarrow> \<not> pid \<ge> MAX_PROCESSES
     \<and> bound (mt (unat pid)) \<and> spawn_channel (mt (unat pid))"

definition manifest_qsub_precheck :: "u64 \<Rightarrow> u32 \<Rightarrow> manifest_table \<Rightarrow> audit_state \<Rightarrow> bool \<times> audit_state" where
  "manifest_qsub_precheck now pid mt l =
     (if pid \<ge> MAX_PROCESSES then (True, l)
      else let m = mt (unat pid); ok = (\<not> bound m \<or> qsub_max m = 0 \<or> qsub_used m < qsub_max m) in
        (ok, if ok then l
             else audit_record now AUDIT_QUOTA pid AUDIT_V_EPERM CAP_RESOURCE_DEVICE DEVICE_ID_QPU
                    CAP_WRITE l))"

definition manifest_qsub_charge :: "u32 \<Rightarrow> manifest_table \<Rightarrow> manifest_table" where
  "manifest_qsub_charge pid mt =
     (if pid \<ge> MAX_PROCESSES then mt
      else if bound (mt (unat pid))
      then mt(unat pid := (mt (unat pid))\<lparr>qsub_used := qsub_used (mt (unat pid)) + 1\<rparr>)
      else mt)"

definition manifest_tick :: "u32 \<Rightarrow> manifest_table \<Rightarrow> manifest_table" where
  "manifest_tick pid mt =
     (if pid < MAX_PROCESSES
      then mt(unat pid := (mt (unat pid))\<lparr>cpu_ticks := cpu_ticks (mt (unat pid)) + 1\<rparr>) else mt)"

section \<open>Text dump\<close>

definition put_quota :: "string \<Rightarrow> nat \<Rightarrow> u32 \<Rightarrow> string" where
  "put_quota b mx v = (if v = 0 then put_str b mx ''*'' else put_u64 b mx (ucast v))"

definition manifest_header :: "nat \<Rightarrow> nat \<Rightarrow> manifest_t \<Rightarrow> string" where
  "manifest_header mx pid m =
     (let l1 = put_str [] mx ''MANIFEST: pid='';
          l2 = put_u64 l1 mx (of_nat pid);
          l3 = put_str l2 mx '' bound=1 spawn='';
          l4 = put_u64 l3 mx (ucast (spawn_used m));
          l5 = put_str l4 mx ''/'';
          l6 = put_quota l5 mx (spawn_max m);
          l7 = put_str l6 mx '' cpu_ticks='';
          l8 = put_u64 l7 mx (cpu_ticks m);
          l9 = put_str l8 mx '' qsub='';
          l10 = put_u64 l9 mx (ucast (qsub_used m));
          l11 = put_str l10 mx ''/'';
          l12 = put_quota l11 mx (qsub_max m)
      in put_str l12 mx crlf)"

definition manifest_row_line :: "nat \<Rightarrow> nat \<Rightarrow> manifest_entry_t \<Rightarrow> string" where
  "manifest_row_line mx pid e =
     (let l1 = put_str [] mx ''MANIFEST: pid='';
          l2 = put_u64 l1 mx (of_nat pid);
          l3 = put_str l2 mx '' allow res='';
          l4 = put_str l3 mx (type_name (me_resource_type e));
          l5 = put_str l4 mx '':'';
          l6 = put_u64 l5 mx (ucast (me_resource_id e));
          l7 = put_str l6 mx '' perms='';
          l8 = put_hex8 l7 mx (me_permissions e)
      in put_str l8 mx crlf)"

text \<open>The two loops of \<open>manifest_format\<close>; the flag is \<open>truncated\<close>.\<close>

fun manifest_rows :: "nat \<Rightarrow> nat \<Rightarrow> string \<Rightarrow> manifest_entry_t list \<Rightarrow> string \<times> bool" where
  "manifest_rows budget pid buf [] = (buf, False)"
| "manifest_rows budget pid buf (e # es) =
     (case put_line buf budget (manifest_row_line MANIFEST_LINE_MAX pid e) of
        None \<Rightarrow> (buf, True)
      | Some buf' \<Rightarrow> manifest_rows budget pid buf' es)"

definition manifest_entries :: "manifest_t \<Rightarrow> manifest_entry_t list" where
  "manifest_entries m = map (entries m) [0..<unat (entry_count m)]"

fun manifest_pids :: "nat \<Rightarrow> manifest_table \<Rightarrow> string \<Rightarrow> nat list \<Rightarrow> string \<times> bool" where
  "manifest_pids budget mt buf [] = (buf, False)"
| "manifest_pids budget mt buf (pid # pids) =
     (let m = mt pid in
      if \<not> bound m then manifest_pids budget mt buf pids
      else let line = manifest_header MANIFEST_LINE_MAX pid m in
        if length line \<ge> MANIFEST_LINE_MAX - 1 \<or> last line \<noteq> CHR 0x0A then (buf, True)
        else case put_line buf budget line of None \<Rightarrow> (buf, True)
          | Some buf' \<Rightarrow>
              (case manifest_rows budget pid buf' (manifest_entries m) of
                 (buf'', True) \<Rightarrow> (buf'', True)
               | (buf'', False) \<Rightarrow> manifest_pids budget mt buf'' pids))"

definition manifest_tail :: string where
  "manifest_tail = ''MANIFEST: truncated=1'' @ crlf"

text \<open>\<open>None\<close>: the early \<open>return 0\<close>. \<open>Some (text, z)\<close>: the text and the index of its NUL.\<close>

definition manifest_format :: "nat \<Rightarrow> manifest_table \<Rightarrow> (string \<times> nat) option" where
  "manifest_format mx mt =
     (if mx < length manifest_tail + 1 then None
      else let budget = mx - length manifest_tail - 1;
               (out, truncated) = manifest_pids budget mt [] [0..<256];
               out' = (if truncated then put_str out mx manifest_tail else out)
           in Some (out', if length out' < mx then length out' else mx - 1))"

section \<open>Well-formed tables\<close>

definition manifest_inv :: "manifest_table \<Rightarrow> bool" where
  "manifest_inv mt \<longleftrightarrow> (\<forall>i. entry_count (mt i) \<le> MANIFEST_MAX_ENTRIES \<and> (i \<ge> 256 \<longrightarrow> mt i = manifest_zero))"

lemma pid_slot: "\<not> pid \<ge> MAX_PROCESSES \<longleftrightarrow> unat pid < 256"
  by (simp add: word_le_nat_alt not_le)

lemma pid_small: "unat pid < 256 \<Longrightarrow> \<not> pid \<ge> MAX_PROCESSES"
  by (simp add: pid_slot)

lemma entry_count_room: "(c :: u8) < MANIFEST_MAX_ENTRIES \<Longrightarrow> c + 1 \<le> MANIFEST_MAX_ENTRIES \<and> unat (c + 1) = Suc (unat c) \<and> unat c < 8"
  by (auto simp: word_less_nat_alt word_le_nat_alt unat_word_ariths)

lemma manifest_zero_sel [simp]:
  "bound manifest_zero = False" "entry_count manifest_zero = 0" "spawn_max manifest_zero = 0"
  "qsub_max manifest_zero = 0" "cpu_limit manifest_zero = 0" "spawn_channel manifest_zero = False"
  by (simp_all add: manifest_zero_def)

lemma manifest_bind_inv: "manifest_inv mt \<Longrightarrow> manifest_inv (manifest_bind pid m mt)"
  by (auto simp: manifest_inv_def manifest_bind_def pid_slot not_less split: option.split)

lemma manifest_clear_inv: "manifest_inv mt \<Longrightarrow> manifest_inv (manifest_clear pid mt)"
  by (auto simp: manifest_inv_def manifest_clear_def)

lemma manifest_grant_inv: "manifest_inv mt \<Longrightarrow> manifest_inv (snd (manifest_grant pid rtype rid perms mt))"
  using entry_count_room [of "entry_count (mt (unat pid))"]
  by (auto simp: manifest_inv_def manifest_grant_def Let_def pid_slot)

lemma manifest_charge_inv:
  "manifest_inv mt \<Longrightarrow> manifest_inv (manifest_spawn_charge pid mt)"
  "manifest_inv mt \<Longrightarrow> manifest_inv (manifest_qsub_charge pid mt)"
  "manifest_inv mt \<Longrightarrow> manifest_inv (manifest_tick pid mt)"
  by (auto simp: manifest_inv_def manifest_spawn_charge_def manifest_qsub_charge_def manifest_tick_def
      word_le_nat_alt word_less_nat_alt)

text \<open>Declared intent: the resources a bound manifest's rows name.\<close>

definition intends :: "manifest_t \<Rightarrow> u32 \<Rightarrow> u32 \<Rightarrow> bool" where
  "intends m rtype rid \<longleftrightarrow> (\<exists>i<unat (entry_count m).
     me_resource_type (entries m i) = rtype \<and> me_resource_id (entries m i) = rid)"

lemma manifest_row_intends: "manifest_row m rtype rid = None \<longleftrightarrow> \<not> intends m rtype rid"
  by (auto simp: manifest_row_def intends_def first_idx_None)

section \<open>Intent checks\<close>

text \<open>The intent check: a process passes exactly when its slot is unbound or one of its rows
  names the resource; a pass leaves the ledger alone, and a refusal is the newest ledger event,
  naming the process, the resource and the permissions it wanted.\<close>

theorem manifest_check_exact:
  assumes "pid < MAX_PROCESSES" and "ledger_inv l" and "ledger_slots l + 1 < LEDGER_LIMIT"
    and "manifest_check now pid rtype rid perms mt l = (ok, l')"
  shows "(ok \<longleftrightarrow> \<not> bound (mt (unat pid)) \<or> intends (mt (unat pid)) rtype rid)
    \<and> (if ok then l' = l
       else newest_event l' = Some (AUDIT_MDENY, pid, AUDIT_V_EPERM, rtype, rid, perms))"
  using assms ledger.rec_newest [OF assms(2,3), of now "(AUDIT_MDENY, pid, AUDIT_V_EPERM, rtype, rid, perms)"]
  by (auto simp: manifest_check_def Let_def manifest_row_intends record_event_eq not_le [symmetric]
      split: if_splits)

definition demo_manifest :: manifest_t where
  "demo_manifest = manifest_zero\<lparr>entry_count := 1, spawn_max := 2,
     entries := (\<lambda>_. \<lparr>me_resource_type = 0, me_resource_id = 42, me_permissions = 1\<rparr>)\<rparr>"

definition demo_intent :: manifest_table where
  "demo_intent = manifest_bind 1 (Some demo_manifest) (\<lambda>_. manifest_zero)"

lemma demo_intent_slots:
  "demo_intent i = (if i = 1 then demo_manifest\<lparr>bound := True\<rparr> else manifest_zero)"
  by (auto simp: demo_intent_def manifest_bind_def demo_manifest_def pid_slot word_le_nat_alt)

theorem manifest_check_exact_witness:
  "fst (manifest_check 5 1 0 42 1 demo_intent audit_boot)
   \<and> \<not> fst (manifest_check 5 1 2 7 2 demo_intent audit_boot)
   \<and> newest_event (snd (manifest_check 5 1 2 7 2 demo_intent audit_boot)) =
       Some (AUDIT_MDENY, 1, AUDIT_V_EPERM, 2, 7, 2)"
proof -
  have s: "ledger_slots audit_boot + 1 < LEDGER_LIMIT" by (simp add: ledger_slots_def audit_boot_def)
  have p: "(1 :: u32) < MAX_PROCESSES" by simp
  have i: "intends (demo_intent 1) 0 42" "\<not> intends (demo_intent 1) 2 7" "bound (demo_intent 1)"
    by (auto simp: intends_def demo_intent_slots demo_manifest_def)
  note c = manifest_check_exact [OF p ledger_inv_boot s surjective_pairing]
  show ?thesis using c [of 5 0 42 1 demo_intent] c [of 5 2 7 2 demo_intent] i by auto
qed

lemma manifest_grant_intends:
  assumes "manifest_has_room pid mt"
  shows "intends (snd (manifest_grant pid rtype rid perms mt) (unat pid)) rtype rid"
proof (cases "intends (mt (unat pid)) rtype rid")
  case True
  then show ?thesis using assms by (simp add: manifest_grant_def Let_def manifest_row_intends manifest_has_room_def)
next
  case False
  then show ?thesis
    using assms entry_count_room [of "entry_count (mt (unat pid))"]
    by (auto simp: manifest_grant_def Let_def manifest_row_intends manifest_has_room_def intends_def)
qed

text \<open>Granting a row: it succeeds exactly when the manifest is bound and already names the
  resource or has a free row, so a true \<open>manifest_has_room\<close> guarantees it; afterwards the resource
  is intended, every row that was there still is, other processes' manifests are untouched, and
  no entry at or past index 8 is ever written.\<close>

theorem manifest_grant_exact:
  assumes "manifest_inv mt" and "pid < MAX_PROCESSES"
    and "manifest_grant pid rtype rid perms mt = (ok, mt')"
  shows "(ok \<longleftrightarrow> bound (mt (unat pid)) \<and> (intends (mt (unat pid)) rtype rid \<or> manifest_has_room pid mt))
    \<and> (ok \<longrightarrow> (\<forall>rt ri. intends (mt' (unat pid)) rt ri \<longleftrightarrow> intends (mt (unat pid)) rt ri \<or> (rt = rtype \<and> ri = rid)))
    \<and> (\<not> ok \<longrightarrow> mt' = mt)
    \<and> (\<forall>i. i \<noteq> unat pid \<longrightarrow> mt' i = mt i)
    \<and> (\<forall>i\<ge>8. entries (mt' (unat pid)) i = entries (mt (unat pid)) i)"
proof -
  let ?m = "mt (unat pid)"
  have pid: "\<not> pid \<ge> MAX_PROCESSES" using assms(2) by (simp add: not_le)
  show ?thesis
  proof (cases "bound ?m \<and> \<not> intends ?m rtype rid \<and> entry_count ?m < MANIFEST_MAX_ENTRIES")
    case True
    define e where "e = \<lparr>me_resource_type = rtype, me_resource_id = rid, me_permissions = perms\<rparr>"
    define n where "n = unat (entry_count ?m)"
    have n: "n < 8" "unat (entry_count ?m + 1) = Suc n"
      using entry_count_room [of "entry_count ?m"] True by (simp_all add: n_def)
    have eq: "ok" "mt' = mt(unat pid := ?m\<lparr>entries := (entries ?m)(n := e), entry_count := entry_count ?m + 1\<rparr>)"
      using assms(3) True pid
      by (simp_all add: manifest_grant_def Let_def manifest_row_intends e_def n_def)
    have "intends (mt' (unat pid)) rt ri \<longleftrightarrow> intends ?m rt ri \<or> (rt = rtype \<and> ri = rid)" for rt ri
      using n by (auto simp: eq intends_def e_def n_def [symmetric] less_Suc_eq)
    then show ?thesis using True eq n pid by (simp add: manifest_has_room_def)
  next
    case False
    then show ?thesis
      using assms(3) pid
      by (auto simp: manifest_grant_def Let_def manifest_row_intends manifest_has_room_def split: if_splits)
  qed
qed

lemma demo_intent_inv: "manifest_inv demo_intent"
  unfolding demo_intent_def by (rule manifest_bind_inv) (simp add: manifest_inv_def)

theorem manifest_grant_exact_witness:
  "fst (manifest_grant 1 6 3 2 demo_intent) \<and> intends (snd (manifest_grant 1 6 3 2 demo_intent) 1) 6 3
   \<and> \<not> fst (manifest_grant 2 6 3 2 demo_intent)"
proof -
  have p: "(1 :: u32) < MAX_PROCESSES" "(2 :: u32) < MAX_PROCESSES" by simp_all
  have i: "bound (demo_intent 1)" "manifest_has_room 1 demo_intent" "\<not> bound (demo_intent 2)"
    by (auto simp: manifest_has_room_def demo_intent_slots demo_manifest_def pid_small)
  show ?thesis
    using manifest_grant_exact [OF demo_intent_inv p(1) surjective_pairing, of 6 3 2]
      manifest_grant_exact [OF demo_intent_inv p(2) surjective_pairing, of 6 3 2] i by auto
qed

section \<open>Quotas\<close>

text \<open>What the two counted quotas have in common: an attempt that succeeds is charged, and one is
  let through only below the limit. Everything proved here holds for both.\<close>

locale counted_quota =
  fixes active :: "'s \<Rightarrow> bool"
    and lim :: "'s \<Rightarrow> u32"
    and used :: "'s \<Rightarrow> u32"
    and attempt :: "bool \<Rightarrow> 's \<Rightarrow> 's"
  assumes active_attempt: "active s \<Longrightarrow> active (attempt ok s)"
    and lim_attempt: "active s \<Longrightarrow> lim (attempt ok s) = lim s"
    and used_attempt: "active s \<Longrightarrow> used (attempt ok s) =
      (if ok \<and> (lim s = 0 \<or> used s < lim s) then used s + 1 else used s)"
begin

lemma run_exact:
  "active s \<Longrightarrow> lim s \<noteq> 0 \<Longrightarrow> used s \<le> lim s \<Longrightarrow>
   active (fold attempt oks s) \<and> lim (fold attempt oks s) = lim s
   \<and> unat (used (fold attempt oks s)) = min (unat (used s) + length (filter id oks)) (unat (lim s))"
proof (induction oks arbitrary: s)
  case Nil
  then show ?case by (simp add: word_le_nat_alt)
next
  case (Cons ok oks)
  have u: "unat (used (attempt ok s)) = min (unat (used s) + (if ok then 1 else 0)) (unat (lim s))"
  proof (cases "used s < lim s")
    case True
    then have "unat (used s) < unat (lim s)" "unat (used s + 1) = Suc (unat (used s))"
      using unat_u32_less [of "lim s"] by (simp_all add: word_less_nat_alt unat_word_ariths)
    with True Cons.prems show ?thesis by (simp add: used_attempt)
  next
    case False
    with Cons.prems have "used s = lim s" by simp
    with Cons.prems show ?thesis by (simp add: used_attempt)
  qed
  then have "used (attempt ok s) \<le> lim (attempt ok s)"
    using Cons.prems by (simp add: lim_attempt word_le_nat_alt)
  from Cons.IH [OF active_attempt [OF Cons.prems(1)] _ this] Cons.prems u
  show ?case by (auto simp: lim_attempt)
qed

end

text \<open>One guarded spawn, as \<open>sys_spawn\<close> orders it: the precheck before any side effect, the charge
  after the child exists (\<open>ok\<close>: the spawn itself succeeds). One guarded QPU submission, as
  \<open>qpu_submit\<close> orders it.\<close>

definition spawn_attempt :: "u64 \<Rightarrow> u32 \<Rightarrow> bool \<Rightarrow> manifest_table \<times> audit_state \<Rightarrow> manifest_table \<times> audit_state" where
  "spawn_attempt now pid ok s =
     (case manifest_spawn_precheck now pid (fst s) (snd s) of
        (False, l) \<Rightarrow> (fst s, l)
      | (True, l) \<Rightarrow> if ok then (manifest_spawn_charge pid (fst s), l) else (fst s, l))"

definition qsub_attempt :: "u64 \<Rightarrow> u32 \<Rightarrow> bool \<Rightarrow> manifest_table \<times> audit_state \<Rightarrow> manifest_table \<times> audit_state" where
  "qsub_attempt now pid ok s =
     (case manifest_qsub_precheck now pid (fst s) (snd s) of
        (False, l) \<Rightarrow> (fst s, l)
      | (True, l) \<Rightarrow> if ok then (manifest_qsub_charge pid (fst s), l) else (fst s, l))"

definition slot_bound :: "u32 \<Rightarrow> manifest_table \<times> audit_state \<Rightarrow> bool" where
  "slot_bound pid s \<longleftrightarrow> \<not> pid \<ge> MAX_PROCESSES \<and> bound (fst s (unat pid))"

interpretation spawn_quota: counted_quota "slot_bound pid" "\<lambda>s. spawn_max (fst s (unat pid))"
    "\<lambda>s. spawn_used (fst s (unat pid))" "spawn_attempt now pid" for pid now
  by unfold_locales
    (auto simp: slot_bound_def spawn_attempt_def manifest_spawn_precheck_def manifest_spawn_charge_def Let_def
      split: bool.split)

interpretation qsub_quota: counted_quota "slot_bound pid" "\<lambda>s. qsub_max (fst s (unat pid))"
    "\<lambda>s. qsub_used (fst s (unat pid))" "qsub_attempt now pid" for pid now
  by unfold_locales
    (auto simp: slot_bound_def qsub_attempt_def manifest_qsub_precheck_def manifest_qsub_charge_def Let_def
      split: bool.split)

text \<open>The spawn quota is enforced exactly: over any run of spawn attempts of a bound process
  with a non-zero limit, the number of charged spawns is the smaller of the successful attempts
  and what the limit leaves, so it never passes \<open>spawn_max\<close> and failed attempts never consume it.\<close>

theorem spawn_quota_exact:
  assumes "pid < MAX_PROCESSES" and "bound (mt (unat pid))"
    and "spawn_max (mt (unat pid)) \<noteq> 0" and "spawn_used (mt (unat pid)) \<le> spawn_max (mt (unat pid))"
    and "fold (spawn_attempt now pid) oks (mt, l) = (mt', l')"
  shows "spawn_max (mt' (unat pid)) = spawn_max (mt (unat pid))
    \<and> unat (spawn_used (mt' (unat pid))) =
        min (unat (spawn_used (mt (unat pid))) + length (filter id oks)) (unat (spawn_max (mt (unat pid))))"
  using spawn_quota.run_exact [of pid "(mt, l)" now oks] assms
  by (auto simp: slot_bound_def not_le)

theorem spawn_quota_exact_witness:
  "unat (spawn_used (fst (fold (spawn_attempt 9 1) [True, False, True, True] (demo_intent, audit_boot)) 1)) = 2"
  using spawn_quota_exact [OF _ _ _ _ surjective_pairing, of 1 demo_intent 9 "[True, False, True, True]" audit_boot]
  by (simp add: demo_intent_slots demo_manifest_def word_less_nat_alt manifest_zero_def)

text \<open>The QPU submission quota is enforced in the same exact way.\<close>

theorem qsub_quota_exact:
  assumes "pid < MAX_PROCESSES" and "bound (mt (unat pid))"
    and "qsub_max (mt (unat pid)) \<noteq> 0" and "qsub_used (mt (unat pid)) \<le> qsub_max (mt (unat pid))"
    and "fold (qsub_attempt now pid) oks (mt, l) = (mt', l')"
  shows "qsub_max (mt' (unat pid)) = qsub_max (mt (unat pid))
    \<and> unat (qsub_used (mt' (unat pid))) =
        min (unat (qsub_used (mt (unat pid))) + length (filter id oks)) (unat (qsub_max (mt (unat pid))))"
  using qsub_quota.run_exact [of pid "(mt, l)" now oks] assms
  by (auto simp: slot_bound_def not_le)

theorem qsub_quota_exact_witness:
  "unat (qsub_used (fst (fold (qsub_attempt 9 1) [True, True]
      (manifest_bind 1 (Some (demo_manifest\<lparr>qsub_max := 1\<rparr>)) (\<lambda>_. manifest_zero), audit_boot)) 1)) = 1"
  using qsub_quota_exact [OF _ _ _ _ surjective_pairing, of 1
      "manifest_bind 1 (Some (demo_manifest\<lparr>qsub_max := 1\<rparr>)) (\<lambda>_. manifest_zero)" 9 "[True, True]" audit_boot]
  by (simp add: manifest_bind_def demo_manifest_def word_less_nat_alt word_le_nat_alt manifest_zero_def)

section \<open>The dump\<close>

definition quota_chars :: "u32 \<Rightarrow> string" where
  "quota_chars v = (if v = 0 then ''*'' else dec_chars (ucast v))"

lemma put_quota_clip: "put_quota (take (mx - 1) x) mx v = take (mx - 1) (x @ quota_chars v)"
  by (cases "v = 0") (simp_all only: put_quota_def quota_chars_def put_str_clip put_u64_clip if_True if_False simp_thms)

definition header_text :: "nat \<Rightarrow> manifest_t \<Rightarrow> string" where
  "header_text pid m = ''MANIFEST: pid='' @ dec_chars (of_nat pid) @ '' bound=1 spawn='' @ dec_chars (ucast (spawn_used m))
     @ ''/'' @ quota_chars (spawn_max m) @ '' cpu_ticks='' @ dec_chars (cpu_ticks m) @ '' qsub=''
     @ dec_chars (ucast (qsub_used m)) @ ''/'' @ quota_chars (qsub_max m) @ crlf"

definition row_text :: "nat \<Rightarrow> manifest_entry_t \<Rightarrow> string" where
  "row_text pid e = ''MANIFEST: pid='' @ dec_chars (of_nat pid) @ '' allow res='' @ type_name (me_resource_type e)
     @ '':'' @ dec_chars (ucast (me_resource_id e)) @ '' perms='' @ hex_chars (me_permissions e) @ crlf"

lemma length_dec_pid: "pid < 256 \<Longrightarrow> length (dec_chars (of_nat pid)) \<le> 3"
proof -
  assume "pid < 256"
  then have "unat (of_nat pid :: u64) < 10 ^ 3" by (simp add: unat_of_nat)
  then show ?thesis
    using length_dec_loop_small [of "of_nat pid" 3 "[]"] by (simp add: dec_chars_def)
qed

lemma length_quota_chars: "length (quota_chars v) \<le> 10"
  using length_dec_chars_u32 [of v] by (simp add: quota_chars_def)

lemma length_header: "pid < 256 \<Longrightarrow> length (header_text pid m) \<le> 113"
  using length_dec_pid [of pid] length_dec_chars_u32 [of "spawn_used m"] length_dec_chars_u32 [of "qsub_used m"]
    length_quota_chars [of "spawn_max m"] length_quota_chars [of "qsub_max m"] length_dec_chars [of "cpu_ticks m"]
  by (simp add: header_text_def)

lemma length_row: "pid < 256 \<Longrightarrow> length (row_text pid e) \<le> 66"
  using length_dec_pid [of pid] length_dec_chars_u32 [of "me_resource_id e"] length_type_name [of "me_resource_type e"]
    length_hex_chars [of "me_permissions e"]
  by (simp add: row_text_def)

lemma manifest_header_clip: "manifest_header mx pid m = take (mx - 1) (header_text pid m)"
  unfolding manifest_header_def Let_def put_clip put_quota_clip header_text_def by simp

lemma manifest_row_clip: "manifest_row_line mx pid e = take (mx - 1) (row_text pid e)"
  unfolding manifest_row_line_def Let_def put_clip row_text_def by simp

lemma manifest_rows_emit:
  assumes "pid < 256"
  shows "manifest_rows budget pid buf es = emit_lines budget buf (map (row_text pid) es)"
proof -
  have "manifest_row_line 128 pid e = row_text pid e" for e
    using length_row [OF assms, of e] by (simp add: manifest_row_clip)
  then show ?thesis
    by (induction es arbitrary: buf) (simp_all only: manifest_rows.simps emit_lines.simps list.map)
qed

text \<open>The lines of the dump: one header per bound process, then its rows.\<close>

definition pid_lines :: "manifest_table \<Rightarrow> nat \<Rightarrow> string list" where
  "pid_lines mt pid = (if bound (mt pid)
     then header_text pid (mt pid) # map (row_text pid) (manifest_entries (mt pid)) else [])"

definition manifest_lines :: "manifest_table \<Rightarrow> string list" where
  "manifest_lines mt = concat (map (pid_lines mt) [0..<256])"

text \<open>The overflow guard on the header never fires.\<close>

lemma header_whole:
  assumes "pid < 256"
  shows "manifest_header 128 pid m = header_text pid m" and "\<not> 127 \<le> length (header_text pid m)"
    and "last (header_text pid m) = CHR 0x0A"
proof -
  show "manifest_header 128 pid m = header_text pid m"
    using length_header [OF assms, of m] by (simp add: manifest_header_clip)
  show "\<not> 127 \<le> length (header_text pid m)" using length_header [OF assms, of m] by simp
  show "last (header_text pid m) = CHR 0x0A" by (simp add: header_text_def)
qed

lemma manifest_pids_emit:
  "\<forall>p\<in>set pids. p < 256 \<Longrightarrow>
   manifest_pids budget mt buf pids = emit_lines budget buf (concat (map (pid_lines mt) pids))"
proof (induction pids arbitrary: buf)
  case Nil
  then show ?case by simp
next
  case (Cons p pids)
  note h = header_whole [of p "mt p"]
  show ?case
  proof (cases "bound (mt p)")
    case True
    then show ?thesis
      using Cons h
      by (simp add: Let_def pid_lines_def manifest_rows_emit emit_lines_append split: option.split)
  next
    case False
    then show ?thesis using Cons by (simp add: pid_lines_def)
  qed
qed

text \<open>The manifest dump is line-atomic: the text is a run of whole lines, each bound process's
  header followed by its rows in table order, plus the truncation notice exactly when lines were
  dropped; the NUL lands right behind it inside the buffer. In particular the header's overflow
  guard never fires.\<close>

theorem manifest_format_line_atomic:
  assumes "manifest_format mx mt = Some (t, z)"
  shows "z = length t \<and> z < mx
    \<and> (\<exists>m\<le>length (manifest_lines mt). t = concat (take m (manifest_lines mt))
          @ (if m < length (manifest_lines mt) then manifest_tail else []))"
proof -
  have e: "manifest_pids budget mt [] [0..<256] = emit_lines budget [] (manifest_lines mt)" for budget
    unfolding manifest_lines_def by (rule manifest_pids_emit) simp
  show ?thesis by (rule format_dump [OF _ assms]) (simp only: manifest_format_def e)
qed

theorem manifest_format_line_atomic_witness:
  "\<exists>t z. manifest_format 400 demo_intent = Some (t, z) \<and> z = length t \<and> z < 400"
proof -
  obtain t z where "manifest_format 400 demo_intent = Some (t, z)"
    by (auto simp: manifest_format_def manifest_tail_def Let_def case_prod_beta simp del: manifest_pids.simps)
  with manifest_format_line_atomic [OF this] show ?thesis by blast
qed

section \<open>Recycling\<close>

text \<open>A recycled pid inherits nothing: after \<open>manifest_clear\<close> the slot is unbound, without
  rows, quota, spawn channel or CPU budget, and no other process's manifest changes; and a bind
  overwrites everything its predecessor had.\<close>

theorem manifest_recycled:
  assumes "pid < MAX_PROCESSES"
  shows "manifest_clear pid mt (unat pid) = manifest_zero
    \<and> (\<forall>i. i \<noteq> unat pid \<longrightarrow> manifest_clear pid mt i = mt i)
    \<and> \<not> manifest_spawn_channel pid (manifest_clear pid mt)
    \<and> \<not> manifest_over_budget pid (manifest_clear pid mt)
    \<and> \<not> manifest_has_room pid (manifest_clear pid mt)
    \<and> manifest_bind pid (Some m) mt = manifest_bind pid (Some m) (manifest_clear pid mt)"
proof -
  have "\<not> pid \<ge> MAX_PROCESSES" using assms by (simp add: not_le)
  then show ?thesis
    by (simp add: manifest_clear_def manifest_spawn_channel_def manifest_over_budget_def
        manifest_has_room_def manifest_bind_def)
qed

theorem manifest_recycled_witness:
  "bound (demo_intent 1) \<and> manifest_clear 1 demo_intent 1 = manifest_zero"
  using manifest_recycled [of 1 demo_intent] by (simp add: demo_intent_slots word_less_nat_alt)

end
