(* ===== verification/Authority.thy ===== *)
theory Authority
  imports Manifest
begin

text \<open>
  Where the capability table, the intent manifests and the ledger meet: the two-layer gate and
  capability delegation of \<open>kernel/src/syscall.c\<close>, the spawn-time channel of \<open>sys_spawn\<close>, the
  declared IPC pairs of \<open>kernel/src/service.c\<close>, and the authority part of process death in
  \<open>kernel/src/process.c\<close>. System calls run with interrupts off on one CPU, so each is one step
  and sees a single value of the tick counter.
\<close>

section \<open>Kernel state\<close>

datatype process_state_t = PROCESS_STATE_UNUSED | PROCESS_STATE_CREATED | PROCESS_STATE_READY
  | PROCESS_STATE_RUNNING | PROCESS_STATE_BLOCKED | PROCESS_STATE_TERMINATED | PROCESS_STATE_ZOMBIE

datatype process_type_t = PROCESS_TYPE_KERNEL | PROCESS_TYPE_USER | PROCESS_TYPE_SERVICE | PROCESS_TYPE_QUANTUM

datatype service_state_t = SERVICE_STATE_STOPPED | SERVICE_STATE_STARTING | SERVICE_STATE_RUNNING
  | SERVICE_STATE_STOPPING | SERVICE_STATE_CRASHED

text \<open>The fields of \<open>process_t\<close> and \<open>service_slot_t\<close> these operations read; \<open>pr_magic_ok\<close> is
  \<open>magic == PROCESS_MAGIC\<close>.\<close>

record process_t =
  pr_state :: process_state_t
  pr_type :: process_type_t
  pr_magic_ok :: bool

record service_slot_t =
  sv_registered :: bool
  sv_monitored :: bool
  sv_state :: service_state_t
  sv_pid :: u32
  sv_pid_generation :: u32

record kernel_state =
  k_caps :: cap_state
  k_man :: manifest_table
  k_procs :: "nat \<Rightarrow> process_t"
  k_gen :: "nat \<Rightarrow> u32"
  k_services :: "nat \<Rightarrow> service_slot_t"

abbreviation (input) SYSCALL_EINVAL :: u64 where "SYSCALL_EINVAL \<equiv> - 1"
abbreviation (input) SYSCALL_EFAULT :: u64 where "SYSCALL_EFAULT \<equiv> - 2"
abbreviation (input) SYSCALL_EPERM :: u64 where "SYSCALL_EPERM \<equiv> - 4"
abbreviation (input) SYSCALL_EIO :: u64 where "SYSCALL_EIO \<equiv> - 5"
abbreviation (input) MAX_SERVICES :: nat where "MAX_SERVICES \<equiv> 32"
abbreviation (input) KERNEL_PROCESS_ID :: u32 where "KERNEL_PROCESS_ID \<equiv> 0"

abbreviation k_ledger :: "kernel_state \<Rightarrow> audit_state" where
  "k_ledger k \<equiv> ledger (k_caps k)"

definition set_ledger :: "audit_state \<Rightarrow> kernel_state \<Rightarrow> kernel_state" where
  "set_ledger l k = k\<lparr>k_caps := (k_caps k)\<lparr>ledger := l\<rparr>\<rparr>"

section \<open>Processes and services\<close>

definition process_is_valid :: "u32 \<Rightarrow> kernel_state \<Rightarrow> bool" where
  "process_is_valid pid k \<longleftrightarrow> \<not> pid \<ge> MAX_PROCESSES
     \<and> pr_magic_ok (k_procs k (unat pid)) \<and> pr_state (k_procs k (unat pid)) \<noteq> PROCESS_STATE_UNUSED"

definition process_get_by_pid :: "u32 \<Rightarrow> kernel_state \<Rightarrow> process_t option" where
  "process_get_by_pid pid k = (if process_is_valid pid k then Some (k_procs k (unat pid)) else None)"

definition process_get_generation :: "u32 \<Rightarrow> kernel_state \<Rightarrow> u32" where
  "process_get_generation pid k = (if pid \<ge> MAX_PROCESSES then 0 else k_gen k (unat pid))"

definition slot_by_pid :: "u32 \<Rightarrow> kernel_state \<Rightarrow> nat option" where
  "slot_by_pid pid k = first_idx (\<lambda>i. sv_registered (k_services k i) \<and> sv_pid (k_services k i) = pid
       \<and> sv_state (k_services k i) = SERVICE_STATE_RUNNING
       \<and> process_get_generation pid k = sv_pid_generation (k_services k i)) 0 MAX_SERVICES"

definition service_pid_is_monitored :: "u32 \<Rightarrow> kernel_state \<Rightarrow> bool" where
  "service_pid_is_monitored pid k =
     (case slot_by_pid pid k of None \<Rightarrow> False | Some i \<Rightarrow> sv_monitored (k_services k i))"

section \<open>The two-layer gate\<close>

definition kernel_deny :: "u64 \<Rightarrow> u32 \<Rightarrow> u32 \<Rightarrow> u32 \<Rightarrow> u32 \<Rightarrow> kernel_state \<Rightarrow> kernel_state" where
  "kernel_deny now pid rtype rid perm k = set_ledger (audit_deny now pid rtype rid perm (k_ledger k)) k"

definition kernel_manifest_check :: "u64 \<Rightarrow> u32 \<Rightarrow> u32 \<Rightarrow> u32 \<Rightarrow> u32 \<Rightarrow> kernel_state \<Rightarrow> bool \<times> kernel_state" where
  "kernel_manifest_check now pid rtype rid perm k =
     (case manifest_check now pid rtype rid perm (k_man k) (k_ledger k) of (ok, l) \<Rightarrow> (ok, set_ledger l k))"

definition authorize :: "u64 \<Rightarrow> u32 \<Rightarrow> u32 \<Rightarrow> u32 \<Rightarrow> u32 \<Rightarrow> kernel_state \<Rightarrow> bool \<times> kernel_state" where
  "authorize now pid rtype perm rid k =
     (case cap_find_resource now pid rtype perm rid (k_caps k) of
        Inl _ \<Rightarrow> (False, kernel_deny now pid rtype rid perm k)
      | Inr _ \<Rightarrow> kernel_manifest_check now pid rtype rid perm k)"

section \<open>Delegation\<close>

record cap_derive_req_k_t =
  rq_resource_type :: u32
  rq_resource_id :: u32
  rq_permissions :: u32
  rq_target_pid :: u32
  rq_expiration :: u64

definition cap_derive_errno :: "cap_error \<Rightarrow> u64" where
  "cap_derive_errno r = (case r of CAP_ERROR_NO_SPACE \<Rightarrow> SYSCALL_EIO | _ \<Rightarrow> SYSCALL_EPERM)"

text \<open>The target test: a live ring-3 process, neither the caller nor the kernel.\<close>

definition derive_target_ok :: "u32 \<Rightarrow> u32 \<Rightarrow> kernel_state \<Rightarrow> bool" where
  "derive_target_ok pid target k \<longleftrightarrow>
     \<not> (target = pid \<or> target = KERNEL_PROCESS_ID \<or> target \<ge> MAX_PROCESSES)
     \<and> (case process_get_by_pid target k of None \<Rightarrow> False
        | Some t \<Rightarrow> pr_type t = PROCESS_TYPE_USER
            \<and> (pr_state t = PROCESS_STATE_RUNNING \<or> pr_state t = PROCESS_STATE_READY))"

text \<open>\<open>req\<close> is the request copied in from user memory; \<open>None\<close> is a span \<open>user_ok\<close> refuses.\<close>

definition sys_cap_derive :: "u64 \<Rightarrow> u32 \<Rightarrow> cap_derive_req_k_t option \<Rightarrow> kernel_state \<Rightarrow> u64 \<times> kernel_state" where
  "sys_cap_derive now pid req k =
     (case req of None \<Rightarrow> (SYSCALL_EFAULT, k)
      | Some rq \<Rightarrow>
        let rt = rq_resource_type rq; ri = rq_resource_id rq; pm = rq_permissions rq; tg = rq_target_pid rq in
        if pm = 0 then (SYSCALL_EINVAL, k)
        else if pm AND (CAP_GRANT OR CAP_REVOKE) \<noteq> 0 then (SYSCALL_EPERM, k)
        else if \<not> derive_target_ok pid tg k then (SYSCALL_EPERM, k)
        else if service_pid_is_monitored tg k then (SYSCALL_EPERM, k)
        else case cap_find_resource now pid CAP_RESOURCE_IPC CAP_WRITE tg (k_caps k) of
            Inl _ \<Rightarrow> (SYSCALL_EPERM, kernel_deny now pid CAP_RESOURCE_IPC tg CAP_WRITE k)
          | Inr _ \<Rightarrow>
            (case kernel_manifest_check now pid rt ri pm k of
               (False, k1) \<Rightarrow> (SYSCALL_EPERM, k1)
             | (True, k1) \<Rightarrow>
               (case cap_find_resource now tg rt pm ri (k_caps k1) of
                  Inr _ \<Rightarrow> (0, k1)
                | Inl _ \<Rightarrow>
                  (case cap_find_id now pid rt (pm OR CAP_GRANT) ri (k_caps k1) of
                     Inl _ \<Rightarrow> (SYSCALL_EPERM, kernel_deny now pid rt ri (pm OR CAP_GRANT) k1)
                   | Inr parent_id \<Rightarrow>
                     if \<not> manifest_has_room tg (k_man k1) then (SYSCALL_EIO, k1)
                     else case cap_derive now parent_id pid tg pm (rq_expiration rq) (k_caps k1) of
                         (Inl r, c) \<Rightarrow> (cap_derive_errno r, k1\<lparr>k_caps := c\<rparr>)
                       | (Inr _, c) \<Rightarrow>
                         (0, k1\<lparr>k_caps := c, k_man := snd (manifest_grant tg rt ri pm (k_man k1))\<rparr>)))))"

section \<open>IPC pairs\<close>

text \<open>\<open>mint_ipc_pair\<close> of service.c, and the channel of \<open>sys_spawn\<close> with its capacity test.
  \<open>None\<close> is a rollback that does not come back.\<close>

definition mint_ipc_pair :: "u64 \<Rightarrow> u32 \<Rightarrow> u32 \<Rightarrow> u32 \<Rightarrow> u32 \<Rightarrow> cap_state \<Rightarrow> cap_state option" where
  "mint_ipc_pair now a b to_perms from_perms s =
     (case (if to_perms \<noteq> 0 then cap_create now a CAP_RESOURCE_IPC b to_perms 0 s
            else (Inr CAP_ID_INVALID, s)) of
        (Inl _, s1) \<Rightarrow> Some s1
      | (Inr to_cap, s1) \<Rightarrow>
        if from_perms \<noteq> 0
        then (case cap_create now b CAP_RESOURCE_IPC a from_perms 0 s1 of
                (Inr _, s2) \<Rightarrow> Some s2
              | (Inl _, s2) \<Rightarrow>
                if to_cap \<noteq> CAP_ID_INVALID then map_option snd (cap_revoke now to_cap a s2) else Some s2)
        else Some s1)"

definition spawn_channel_has_room :: "cap_state \<Rightarrow> bool" where
  "spawn_channel_has_room s \<longleftrightarrow> \<not> st_active (cap_get_stats s) + 2 > of_nat MAX_CAPABILITIES"

definition mint_tagged :: "u64 \<Rightarrow> u32 \<Rightarrow> u32 \<Rightarrow> cap_state \<Rightarrow> cap_state" where
  "mint_tagged now owner dest s =
     (case cap_create now owner CAP_RESOURCE_IPC dest (CAP_READ OR CAP_WRITE) 0 s of
        (Inr ch, s1) \<Rightarrow> snd (cap_mark_spawn_channel ch s1)
      | (Inl _, s1) \<Rightarrow> s1)"

definition spawn_channel_mint :: "u64 \<Rightarrow> u32 \<Rightarrow> u32 \<Rightarrow> cap_state \<Rightarrow> cap_state" where
  "spawn_channel_mint now pid new_pid s = mint_tagged now new_pid pid (mint_tagged now pid new_pid s)"

section \<open>Process death\<close>

text \<open>The authority steps of \<open>process_destroy\<close>, in its order: own capabilities, surviving peers'
  capabilities on the dead port, intent. \<open>None\<close> is a sweep that does not come back.\<close>

definition process_destroy_authority :: "u64 \<Rightarrow> u32 \<Rightarrow> kernel_state \<Rightarrow> kernel_state option" where
  "process_destroy_authority now pid k =
     (case cap_revoke_all_for_process now pid (k_caps k) of None \<Rightarrow> None
      | Some c1 \<Rightarrow> (case cap_revoke_ipc_targets now pid c1 of None \<Rightarrow> None
        | Some c2 \<Rightarrow> Some (k\<lparr>k_caps := c2, k_man := manifest_clear pid (k_man k)\<rparr>)))"

end
