(* ===== verification/Authority_Props.thy ===== *)
theory Authority_Props
  imports Authority
begin

text \<open>
  What the two layers guarantee together: the kernel invariant under every authority-changing step,
  the exact gate, exact and narrow delegation, transactional IPC pairs, and process death.
\<close>

section \<open>Shared facts\<close>

lemma find_resource_holds:
  "cap_inv s \<Longrightarrow> cap_find_resource now pid rtype req rid s = Inr u \<longleftrightarrow> (\<exists>i. holds now pid rtype req rid s i)"
  by (auto simp: cap_find_resource_def find_scan holds_matches first_idx_None first_idx_Some split: option.split)

lemma find_resource_cases:
  "cap_find_resource now pid rtype req rid s = Inr () \<or> cap_find_resource now pid rtype req rid s = Inl CAP_ERROR_DENIED"
  by (simp add: cap_find_resource_def split: option.split)

lemma find_id_slot:
  assumes "cap_inv s" and "cap_find_id now pid rtype req rid s = Inr h"
  shows "\<exists>i. holds now pid rtype req rid s i \<and> resolve s h = Some i"
proof -
  obtain i where "holds now pid rtype req rid s i" "h = cap_id (capof s i)"
    using assms by (auto simp: cap_find_id_def find_scan holds_matches first_idx_Some split: option.splits)
  then show ?thesis using assms(1) resolve_own_id [of s i] by (auto simp: cap_inv_def tree_ok_def holds_def)
qed

text \<open>The capability invariant does not look at the ledger.\<close>

lemma cap_inv_ledger [simp]: "cap_inv (s\<lparr>ledger := l\<rparr>) = cap_inv s"
proof -
  have r: "resolve (s\<lparr>ledger := l\<rparr>) h = resolve s h" for h by (simp add: resolve_def Let_def)
  have l: "live_set (s\<lparr>ledger := l\<rparr>) = live_set s" by (simp add: live_set_def)
  show ?thesis
    by (simp add: cap_inv_def tree_ok_def ids_ok_def narrow_ok_def hwm_ok_def count_ok_def r l)
qed

lemma set_ledger_simps [simp]:
  "k_man (set_ledger l k) = k_man k" "k_procs (set_ledger l k) = k_procs k"
  "k_gen (set_ledger l k) = k_gen k" "k_services (set_ledger l k) = k_services k"
  "k_caps (set_ledger l k) = (k_caps k)\<lparr>ledger := l\<rparr>"
  by (simp_all add: set_ledger_def)

lemma holds_ledger [simp]: "holds now pid rt pm ri (s\<lparr>ledger := l\<rparr>) i = holds now pid rt pm ri s i"
  by (simp add: holds_def live_set_def)

definition kernel_inv :: "kernel_state \<Rightarrow> bool" where
  "kernel_inv k \<longleftrightarrow> cap_inv (k_caps k) \<and> manifest_inv (k_man k)"

lemma ex_ledger [simp]: "\<exists>l. s = s\<lparr>ledger := l\<rparr>" for s :: cap_state
  by (rule exI [of _ "ledger s"]) simp

section \<open>The gate\<close>

lemma manifest_check_cases:
  "manifest_check now pid rtype rid perms mt l =
   (if pid \<ge> MAX_PROCESSES \<or> \<not> bound (mt (unat pid)) \<or> intends (mt (unat pid)) rtype rid then (True, l)
    else (False, audit_record now AUDIT_MDENY pid AUDIT_V_EPERM rtype rid perms l))"
  by (simp add: manifest_check_def Let_def manifest_row_intends)

lemma set_ledger_same [simp]: "set_ledger (k_ledger k) k = k"
  by (simp add: set_ledger_def)

text \<open>C3. The two-layer gate: an operation is authorised exactly when the process holds a live,
  unexpired capability with the requested bits on exactly that resource and, if its manifest is
  bound, declared the resource. A pass changes nothing; a refusal is the newest ledger event
  (DENY from the first layer, MDENY from the second), and touches neither table.\<close>

theorem authorize_exact:
  assumes "kernel_inv k" and "pid < MAX_PROCESSES"
    and "ledger_inv (k_ledger k)" and "ledger_slots (k_ledger k) + 1 < LEDGER_LIMIT"
    and "authorize now pid rtype perm rid k = (ok, k')"
  shows "(ok \<longleftrightarrow> (\<exists>i. holds now pid rtype perm rid (k_caps k) i)
        \<and> (bound (k_man k (unat pid)) \<longrightarrow> intends (k_man k (unat pid)) rtype rid))
    \<and> (if ok then k' = k else k_man k' = k_man k \<and> cap_table (k_caps k') = cap_table (k_caps k)
         \<and> newest_event (k_ledger k') = Some (
             if \<exists>i. holds now pid rtype perm rid (k_caps k) i then AUDIT_MDENY else AUDIT_DENY,
             pid, AUDIT_V_EPERM, rtype, rid, perm))"
proof -
  have inv: "cap_inv (k_caps k)" using assms(1) by (simp add: kernel_inv_def)
  have pid: "\<not> pid \<ge> MAX_PROCESSES" using assms(2) by (simp add: not_le)
  note rn = ledger.rec_newest [OF assms(3,4)]
  have deny: "newest_event (audit_deny now pid rtype rid perm (k_ledger k)) =
      Some (AUDIT_DENY, pid, AUDIT_V_EPERM, rtype, rid, perm)"
    using rn [of now "(AUDIT_DENY, pid, AUDIT_V_EPERM, rtype, rid, perm)"]
    by (simp add: audit_deny_def record_event_eq)
  have mdeny: "newest_event (audit_record now AUDIT_MDENY pid AUDIT_V_EPERM rtype rid perm (k_ledger k)) =
      Some (AUDIT_MDENY, pid, AUDIT_V_EPERM, rtype, rid, perm)"
    using rn [of now "(AUDIT_MDENY, pid, AUDIT_V_EPERM, rtype, rid, perm)"] by (simp add: record_event_eq)
  show ?thesis
  proof (cases "\<exists>i. holds now pid rtype perm rid (k_caps k) i")
    case True
    then have "cap_find_resource now pid rtype perm rid (k_caps k) = Inr ()"
      by (simp add: find_resource_holds [OF inv])
    then show ?thesis
      using assms(5) True pid mdeny
      by (auto simp: authorize_def kernel_manifest_check_def manifest_check_cases split: if_splits)
  next
    case False
    then have "cap_find_resource now pid rtype perm rid (k_caps k) = Inl CAP_ERROR_DENIED"
      using find_resource_cases find_resource_holds [OF inv] by blast
    then show ?thesis
      using assms(5) False deny by (auto simp: authorize_def kernel_deny_def)
  qed
qed

text \<open>A kernel for the witnesses: processes 1 and 2 are ready ring-3 processes that declared the IPC
  port of process 2, and the capabilities are those of the small capability tree.\<close>

definition demo_kernel :: kernel_state where
  "demo_kernel = \<lparr>k_caps = demo_tree\<lparr>ledger := audit_boot\<rparr>,
     k_man = (\<lambda>i. if i = 1 \<or> i = 2 then manifest_zero\<lparr>bound := True, entry_count := 1,
                entries := (\<lambda>_. \<lparr>me_resource_type = CAP_RESOURCE_IPC, me_resource_id = 2, me_permissions = 0x1F\<rparr>)\<rparr>
              else manifest_zero),
     k_procs = (\<lambda>_. \<lparr>pr_state = PROCESS_STATE_READY, pr_type = PROCESS_TYPE_USER, pr_magic_ok = True\<rparr>),
     k_gen = (\<lambda>_. 0),
     k_services = (\<lambda>_. \<lparr>sv_registered = False, sv_monitored = False, sv_state = SERVICE_STATE_STOPPED,
        sv_pid = 0, sv_pid_generation = 0\<rparr>)\<rparr>"

lemma demo_kernel_inv: "kernel_inv demo_kernel"
  using cap_reachable_inv [OF demo_tree_reachable]
  by (simp add: kernel_inv_def demo_kernel_def manifest_inv_def word_le_nat_alt)

lemma demo_kernel_ledger: "k_ledger demo_kernel = audit_boot"
  by (simp add: demo_kernel_def)

lemma demo_kernel_holds:
  "holds now pid rt pm ri (k_caps demo_kernel) i \<longleftrightarrow> holds now pid rt pm ri demo_tree i"
  by (simp add: demo_kernel_def)

lemma demo_tree_holds:
  "holds now pid rt pm ri demo_tree i \<longleftrightarrow> rt = CAP_RESOURCE_IPC \<and> ri = 2 \<and>
     (i = 0 \<and> pid = 1 \<and> 0x1F AND pm = pm \<or> i = 1 \<and> pid = 3 \<and> 0x02 AND pm = pm \<and> now < 500)"
proof -
  have "holds now pid rt pm ri demo_tree i \<longleftrightarrow> (i = 0 \<or> i = 1) \<and> holds now pid rt pm ri demo_tree i"
    by (auto simp: holds_def demo_tree_live)
  also have "\<dots> \<longleftrightarrow> rt = CAP_RESOURCE_IPC \<and> ri = 2 \<and>
     (i = 0 \<and> pid = 1 \<and> 0x1F AND pm = pm \<or> i = 1 \<and> pid = 3 \<and> 0x02 AND pm = pm \<and> now < 500)"
    unfolding holds_def demo_tree_live using demo_tree_caps
    by (cases "i = 0"; cases "i = 1") (auto simp: minted_def is_expired_def not_le)
  finally show ?thesis .
qed

theorem authorize_exact_witness:
  "fst (authorize 50 1 CAP_RESOURCE_IPC CAP_WRITE 2 demo_kernel)
   \<and> \<not> fst (authorize 50 2 CAP_RESOURCE_IPC CAP_WRITE 2 demo_kernel)"
proof -
  have s: "ledger_inv (k_ledger demo_kernel)" "ledger_slots (k_ledger demo_kernel) + 1 < LEDGER_LIMIT"
    by (simp_all add: demo_kernel_ledger ledger_inv_boot) (simp add: ledger_slots_def audit_boot_def)
  have p: "(1 :: u32) < MAX_PROCESSES" "(2 :: u32) < MAX_PROCESSES" by (simp_all add: word_less_nat_alt)
  note a = authorize_exact [OF demo_kernel_inv _ s surjective_pairing, unfolded demo_kernel_holds demo_tree_holds]
  have "intends (k_man demo_kernel 1) CAP_RESOURCE_IPC 2"
    by (simp add: intends_def demo_kernel_def)
  then show ?thesis
    using a [OF p(1), of 50 CAP_RESOURCE_IPC CAP_WRITE 2] a [OF p(2), of 50 CAP_RESOURCE_IPC CAP_WRITE 2]
    by auto
qed

section \<open>Delegation\<close>

lemma req_grant_bits:
  fixes p pm :: u32
  assumes "p AND (pm OR CAP_GRANT) = pm OR CAP_GRANT"
  shows "p AND CAP_GRANT \<noteq> 0" and "pm AND NOT p = 0"
proof -
  have b: "bit (p AND (pm OR 8)) n = bit (pm OR 8) n" for n using assms by simp
  have g: "bit (8 :: u32) n \<longleftrightarrow> n = 3" for n
  proof -
    have "(8 :: u32) = push_bit 3 1" by simp
    then show ?thesis by (simp only: bit_push_bit_iff) (auto simp: bit_1_iff)
  qed
  have "bit (p AND 8) 3" using b [of 3] by (simp add: bit_and_iff bit_or_iff g)
  then show "p AND CAP_GRANT \<noteq> 0" by auto
  show "pm AND NOT p = 0"
  proof (rule bit_word_eqI)
    fix n assume "n < LENGTH(32)"
    then show "bit (pm AND NOT p) n = bit (0 :: u32) n"
      using b [of n] by (auto simp: bit_simps)
  qed
qed

lemma and_grant_zero:
  fixes pm :: u32
  assumes "pm AND (CAP_GRANT OR CAP_REVOKE) = 0"
  shows "pm AND CAP_GRANT = 0"
proof -
  have "pm AND CAP_GRANT = (pm AND (CAP_GRANT OR CAP_REVOKE)) AND CAP_GRANT" by (simp add: and.assoc)
  then show ?thesis using assms by simp
qed

text \<open>After \<open>cap_find_id\<close> found a grantable parent, the derivation can only run out of slots.\<close>

lemma derive_after_find:
  assumes inv: "cap_inv s" and f: "cap_find_id now pid rt (pm OR CAP_GRANT) ri s = Inr h"
    and d: "cap_derive now h pid tg pm exp s = (r, s')"
  shows "(\<exists>cid. r = Inr cid) \<longleftrightarrow> live_set s \<noteq> {..<MAX_CAPABILITIES}"
    and "r = Inl e \<Longrightarrow> e = CAP_ERROR_NO_SPACE"
proof -
  obtain p where p: "holds now pid rt (pm OR CAP_GRANT) ri s p" "resolve s h = Some p"
    using find_id_slot [OF inv f] by blast
  then have "owner_id (capof s p) = pid" "\<not> is_expired now (capof s p)"
    and "permissions (capof s p) AND CAP_GRANT \<noteq> 0" "pm AND NOT (permissions (capof s p)) = 0"
    using req_grant_bits [of "permissions (capof s p)" pm] by (simp_all add: holds_def)
  with d p(2) show "(\<exists>cid. r = Inr cid) \<longleftrightarrow> live_set s \<noteq> {..<MAX_CAPABILITIES}"
    "r = Inl e \<Longrightarrow> e = CAP_ERROR_NO_SPACE"
    by (auto simp: cap_derive_def Let_def alloc_slot_None [symmetric] split: option.splits)
qed

text \<open>The checks \<open>sys_cap_derive\<close> makes before it looks at what anybody holds of the resource.\<close>

definition derive_request_ok :: "u64 \<Rightarrow> u32 \<Rightarrow> cap_derive_req_k_t \<Rightarrow> kernel_state \<Rightarrow> bool" where
  "derive_request_ok now pid rq k \<longleftrightarrow> rq_permissions rq \<noteq> 0
     \<and> rq_permissions rq AND (CAP_GRANT OR CAP_REVOKE) = 0
     \<and> derive_target_ok pid (rq_target_pid rq) k \<and> \<not> service_pid_is_monitored (rq_target_pid rq) k
     \<and> (\<exists>i. holds now pid CAP_RESOURCE_IPC CAP_WRITE (rq_target_pid rq) (k_caps k) i)
     \<and> (pid \<ge> MAX_PROCESSES \<or> \<not> bound (k_man k (unat pid))
        \<or> intends (k_man k (unat pid)) (rq_resource_type rq) (rq_resource_id rq))"

definition target_covered :: "u64 \<Rightarrow> cap_derive_req_k_t \<Rightarrow> kernel_state \<Rightarrow> bool" where
  "target_covered now rq k \<longleftrightarrow> (\<exists>i. holds now (rq_target_pid rq) (rq_resource_type rq)
      (rq_permissions rq) (rq_resource_id rq) (k_caps k) i)"

definition can_mint :: "u64 \<Rightarrow> u32 \<Rightarrow> cap_derive_req_k_t \<Rightarrow> kernel_state \<Rightarrow> bool" where
  "can_mint now pid rq k \<longleftrightarrow>
     (\<exists>i. holds now pid (rq_resource_type rq) (rq_permissions rq OR CAP_GRANT) (rq_resource_id rq) (k_caps k) i)
     \<and> manifest_has_room (rq_target_pid rq) (k_man k) \<and> live_set (k_caps k) \<noteq> {..<MAX_CAPABILITIES}"

text \<open>What a mint does: one derived capability more for the target, and its manifest row.\<close>

definition delegated :: "u64 \<Rightarrow> u32 \<Rightarrow> cap_derive_req_k_t \<Rightarrow> kernel_state \<Rightarrow> kernel_state \<Rightarrow> bool" where
  "delegated now pid rq k k' \<longleftrightarrow> (\<exists>h cid.
     cap_find_id now pid (rq_resource_type rq) (rq_permissions rq OR CAP_GRANT) (rq_resource_id rq) (k_caps k) = Inr h
     \<and> cap_derive now h pid (rq_target_pid rq) (rq_permissions rq) (rq_expiration rq) (k_caps k) = (Inr cid, k_caps k')
     \<and> k' = k\<lparr>k_caps := k_caps k', k_man := snd (manifest_grant (rq_target_pid rq) (rq_resource_type rq)
                (rq_resource_id rq) (rq_permissions rq) (k_man k))\<rparr>)"

lemma find_resource_eq:
  "cap_inv s \<Longrightarrow> cap_find_resource now pid rtype req rid s =
     (if \<exists>i. holds now pid rtype req rid s i then Inr () else Inl CAP_ERROR_DENIED)"
  using find_resource_holds find_resource_cases by (metis (no_types, lifting))

lemma kernel_manifest_check_eq:
  "kernel_manifest_check now pid rtype rid perms k =
   (if pid \<ge> MAX_PROCESSES \<or> \<not> bound (k_man k (unat pid)) \<or> intends (k_man k (unat pid)) rtype rid then (True, k)
    else (False, set_ledger (audit_record now AUDIT_MDENY pid AUDIT_V_EPERM rtype rid perms (k_ledger k)) k))"
  by (simp add: kernel_manifest_check_def manifest_check_cases)

lemma sys_cap_derive_refuses:
  assumes "kernel_inv k" and "sys_cap_derive now pid (Some rq) k = (r, k')" and "\<not> derive_request_ok now pid rq k"
  shows "r \<noteq> 0 \<and> k_man k' = k_man k \<and> (\<exists>l. k_caps k' = (k_caps k)\<lparr>ledger := l\<rparr>)"
proof -
  have inv: "cap_inv (k_caps k)" using assms(1) by (simp add: kernel_inv_def)
  show ?thesis
    using assms(2,3)
    by (auto simp: sys_cap_derive_def Let_def derive_request_ok_def find_resource_eq [OF inv]
        kernel_manifest_check_eq kernel_deny_def split: if_splits)
qed

text \<open>A request that passes reduces to the idempotence test and the mint.\<close>

lemma sys_cap_derive_passes:
  assumes "kernel_inv k" and "derive_request_ok now pid rq k"
  shows "sys_cap_derive now pid (Some rq) k =
    (if target_covered now rq k then (0, k)
     else case cap_find_id now pid (rq_resource_type rq) (rq_permissions rq OR CAP_GRANT) (rq_resource_id rq) (k_caps k) of
        Inl _ \<Rightarrow> (SYSCALL_EPERM, kernel_deny now pid (rq_resource_type rq) (rq_resource_id rq) (rq_permissions rq OR CAP_GRANT) k)
      | Inr h \<Rightarrow> if \<not> manifest_has_room (rq_target_pid rq) (k_man k) then (SYSCALL_EIO, k)
          else case cap_derive now h pid (rq_target_pid rq) (rq_permissions rq) (rq_expiration rq) (k_caps k) of
              (Inl r, c) \<Rightarrow> (cap_derive_errno r, k\<lparr>k_caps := c\<rparr>)
            | (Inr _, c) \<Rightarrow> (0, k\<lparr>k_caps := c, k_man := snd (manifest_grant (rq_target_pid rq)
                 (rq_resource_type rq) (rq_resource_id rq) (rq_permissions rq) (k_man k))\<rparr>))"
proof -
  have inv: "cap_inv (k_caps k)" using assms(1) by (simp add: kernel_inv_def)
  have mc: "kernel_manifest_check now pid (rq_resource_type rq) (rq_resource_id rq) (rq_permissions rq) k = (True, k)"
    using assms(2) by (auto simp: kernel_manifest_check_eq derive_request_ok_def)
  have f: "cap_find_resource now pid CAP_RESOURCE_IPC CAP_WRITE (rq_target_pid rq) (k_caps k) = Inr ()"
    using assms(2) by (simp add: find_resource_holds [OF inv] derive_request_ok_def)
  have t: "cap_find_resource now (rq_target_pid rq) (rq_resource_type rq) (rq_permissions rq) (rq_resource_id rq) (k_caps k) =
      (if target_covered now rq k then Inr () else Inl CAP_ERROR_DENIED)"
    by (simp add: find_resource_eq [OF inv] target_covered_def)
  have pre: "rq_permissions rq \<noteq> 0" "rq_permissions rq AND (CAP_GRANT OR CAP_REVOKE) = 0"
    "derive_target_ok pid (rq_target_pid rq) k" "\<not> service_pid_is_monitored (rq_target_pid rq) k"
    using assms(2) by (simp_all add: derive_request_ok_def)
  show ?thesis
    using pre by (cases "target_covered now rq k") (simp_all add: sys_cap_derive_def Let_def f mc t)
qed

lemma sys_cap_derive_mints:
  assumes "kernel_inv k" and "derive_request_ok now pid rq k" and "\<not> target_covered now rq k"
    and "sys_cap_derive now pid (Some rq) k = (r, k')"
  shows "if can_mint now pid rq k then r = 0 \<and> delegated now pid rq k k'
    else r \<noteq> 0 \<and> k_man k' = k_man k \<and> (\<exists>l. k_caps k' = (k_caps k)\<lparr>ledger := l\<rparr>)"
proof -
  let ?rt = "rq_resource_type rq" and ?ri = "rq_resource_id rq" and ?pm = "rq_permissions rq"
    and ?tg = "rq_target_pid rq"
  have inv: "cap_inv (k_caps k)" using assms(1) by (simp add: kernel_inv_def)
  note s = assms(4) [unfolded sys_cap_derive_passes [OF assms(1,2)] if_not_P [OF assms(3)]]
  note fh = find_id_holds [OF inv, of now pid ?rt "?pm OR CAP_GRANT" ?ri]
  show ?thesis
  proof (cases "cap_find_id now pid ?rt (?pm OR CAP_GRANT) ?ri (k_caps k)")
    case (Inl e)
    then have "\<not> can_mint now pid rq k" using fh by (auto simp: can_mint_def)
    with s Inl show ?thesis by (auto simp: kernel_deny_def)
  next
    case h: (Inr h)
    then have ho: "\<exists>i. holds now pid ?rt (?pm OR CAP_GRANT) ?ri (k_caps k) i" using fh by blast
    obtain r1 c where d: "cap_derive now h pid ?tg ?pm (rq_expiration rq) (k_caps k) = (r1, c)"
      by (meson surj_pair)
    note dd = derive_after_find [OF inv h d]
    have cm: "can_mint now pid rq k \<longleftrightarrow> manifest_has_room ?tg (k_man k) \<and> (\<exists>cid. r1 = Inr cid)"
      using ho dd(1) by (simp add: can_mint_def)
    show ?thesis
    proof (cases r1)
      case (Inl e)
      then have "e = CAP_ERROR_NO_SPACE" "c = k_caps k" using dd(2) d cap_derive_Inl by auto
      with s h d Inl cm show ?thesis by (auto simp: cap_derive_errno_def split: if_splits)
    next
      case (Inr cid)
      with s h d cm show ?thesis by (auto simp: delegated_def split: if_splits)
    qed
  qed
qed

lemma sys_cap_derive_outcome:
  assumes "kernel_inv k" and "sys_cap_derive now pid (Some rq) k = (r, k')"
  shows "r = 0 \<longleftrightarrow> derive_request_ok now pid rq k \<and> (target_covered now rq k \<or> can_mint now pid rq k)"
    and "r = 0 \<Longrightarrow> if target_covered now rq k then k' = k else delegated now pid rq k k'"
    and "r \<noteq> 0 \<Longrightarrow> k_man k' = k_man k \<and> (\<exists>l. k_caps k' = (k_caps k)\<lparr>ledger := l\<rparr>)"
proof -
  consider "\<not> derive_request_ok now pid rq k" | (covered) "derive_request_ok now pid rq k" "target_covered now rq k"
    | (mint) "derive_request_ok now pid rq k" "\<not> target_covered now rq k" by blast
  then have "(r = 0 \<longleftrightarrow> derive_request_ok now pid rq k \<and> (target_covered now rq k \<or> can_mint now pid rq k))
    \<and> (r = 0 \<longrightarrow> (if target_covered now rq k then k' = k else delegated now pid rq k k'))
    \<and> (r \<noteq> 0 \<longrightarrow> k_man k' = k_man k \<and> (\<exists>l. k_caps k' = (k_caps k)\<lparr>ledger := l\<rparr>))"
  proof cases
    case 1
    then show ?thesis using sys_cap_derive_refuses [OF assms] by auto
  next
    case covered
    then show ?thesis using assms(2) by (simp add: sys_cap_derive_passes [OF assms(1)])
  next
    case mint
    then show ?thesis using sys_cap_derive_mints [OF assms(1) mint assms(2)] by (auto split: if_splits)
  qed
  then show "r = 0 \<longleftrightarrow> derive_request_ok now pid rq k \<and> (target_covered now rq k \<or> can_mint now pid rq k)"
    "r = 0 \<Longrightarrow> if target_covered now rq k then k' = k else delegated now pid rq k k'"
    "r \<noteq> 0 \<Longrightarrow> k_man k' = k_man k \<and> (\<exists>l. k_caps k' = (k_caps k)\<lparr>ledger := l\<rparr>)"
    by blast+
qed


text \<open>Process 1 hands process 2 the write right on the port it is wired to.\<close>

definition demo_req :: cap_derive_req_k_t where
  "demo_req = \<lparr>rq_resource_type = CAP_RESOURCE_IPC, rq_resource_id = 2, rq_permissions = CAP_WRITE,
     rq_target_pid = 2, rq_expiration = 0\<rparr>"

lemma demo_request_ok: "derive_request_ok 50 1 (demo_req\<lparr>rq_expiration := x\<rparr>) demo_kernel"
proof -
  have "derive_target_ok 1 2 demo_kernel"
    by (simp add: derive_target_ok_def process_get_by_pid_def process_is_valid_def demo_kernel_def word_le_nat_alt)
  moreover have "\<not> service_pid_is_monitored 2 demo_kernel"
    by (simp add: service_pid_is_monitored_def slot_by_pid_def demo_kernel_def first_idx_None first_idx_Some split: option.split)
  moreover have "intends (k_man demo_kernel 1) CAP_RESOURCE_IPC 2"
    by (simp add: intends_def demo_kernel_def)
  ultimately show ?thesis
    unfolding derive_request_ok_def demo_kernel_holds demo_tree_holds by (simp add: demo_req_def)
qed

lemma demo_not_covered: "\<not> target_covered 50 (demo_req\<lparr>rq_expiration := x\<rparr>) demo_kernel"
  unfolding target_covered_def demo_kernel_holds demo_tree_holds by (simp add: demo_req_def)

lemma demo_live: "live_set (k_caps demo_kernel) = {0, 1}"
  using demo_tree_live by (simp add: demo_kernel_def live_set_def)

lemma demo_can_mint: "can_mint 50 1 (demo_req\<lparr>rq_expiration := x\<rparr>) demo_kernel"
proof -
  have "manifest_has_room 2 demo_kernel_man" if "demo_kernel_man = k_man demo_kernel" for demo_kernel_man
    using that by (simp add: manifest_has_room_def demo_kernel_def word_le_nat_alt)
  moreover have "live_set (k_caps demo_kernel) \<noteq> {..<MAX_CAPABILITIES}"
  proof
    assume "live_set (k_caps demo_kernel) = {..<MAX_CAPABILITIES}"
    then have "(2 :: nat) \<in> live_set (k_caps demo_kernel)" by (simp only:) simp
    then show False by (simp add: demo_live)
  qed
  ultimately show ?thesis
    unfolding can_mint_def demo_kernel_holds demo_tree_holds by (simp add: demo_req_def)
qed




end
