(* ===== verification/Authority_Steps.thy ===== *)
theory Authority_Steps
  imports Authority_Props
begin

text \<open>
  The authority state over time: the invariant of every kernel step, transactional IPC pairs,
  the all-or-nothing spawn channel, process death, and what a loop of expired delegations does
  to the shared capability table.
\<close>

section \<open>Minting pairs\<close>

lemma desc_none: "(\<And>j. \<not> child_of s p j) \<Longrightarrow> \<not> desc s p x"
  by (simp add: desc_via_child [of s p x])

lemma create_fresh_leaf:
  assumes inv: "cap_inv s" and g: "grows s s' i c" and p: "parent_cap c = 0"
  shows "\<not> desc s' (cap_id c) x"
proof (rule desc_none)
  fix j
  obtain r where tr: "tree_ok s r" using inv by (auto simp: cap_inv_def)
  have "cap_id c \<noteq> 0" using g by (simp add: grows_def make_cap_id_nonzero)
  then show "\<not> child_of s' (cap_id c) j"
    using g p grows_old_parent [OF g tr, of j] by (auto simp: child_of_def grows_live grows_capof)
qed

text \<open>A live capability of \<open>a\<close> on the port of \<open>b\<close>, in a slot that was free in \<open>s\<close>.\<close>

definition new_ipc_cap :: "cap_state \<Rightarrow> cap_state \<Rightarrow> u32 \<Rightarrow> u32 \<Rightarrow> u32 \<Rightarrow> nat \<Rightarrow> bool" where
  "new_ipc_cap s t a b perms i \<longleftrightarrow> i \<in> live_set t \<and> i \<notin> live_set s \<and> owner_id (capof t i) = a
     \<and> resource_type (capof t i) = CAP_RESOURCE_IPC \<and> resource_id (capof t i) = b
     \<and> permissions (capof t i) = perms \<and> expiration (capof t i) = 0"

lemma create_ipc:
  assumes "cap_inv s" and "cap_create now a CAP_RESOURCE_IPC b perms 0 s = (Inr cid, s')"
  shows "cap_inv s'" and "\<exists>i c. grows s s' i c \<and> cap_id c = cid \<and> owner_id c = a \<and> parent_cap c = 0
      \<and> new_ipc_cap s s' a b perms i \<and> resolve s' cid = Some i"
proof -
  show "cap_inv s'" by (rule cap_create_inv [OF assms])
  obtain i where g: "grows s s' i (minted cid a CAP_RESOURCE_IPC b perms 0 False 0)"
    using cap_create_Inr [OF assms(2)] by blast
  have "resolve s' cid = Some i" using grows_resolve [OF g, of cid] by (simp add: minted_def)
  moreover have "new_ipc_cap s s' a b perms i"
    using g by (simp add: new_ipc_cap_def grows_live grows_capof) (simp add: grows_def minted_def)
  ultimately show "\<exists>i c. grows s s' i c \<and> cap_id c = cid \<and> owner_id c = a \<and> parent_cap c = 0
      \<and> new_ipc_cap s s' a b perms i \<and> resolve s' cid = Some i"
    using g by (intro exI [of _ i] exI [of _ "minted cid a CAP_RESOURCE_IPC b perms 0 False 0"]) (simp add: minted_def)
qed

lemma new_ipc_cap_later:
  "new_ipc_cap s t a b perms i \<Longrightarrow> grows t u j c \<Longrightarrow> new_ipc_cap s u a b perms i"
  by (auto simp: new_ipc_cap_def grows_live grows_capof) (auto simp: grows_def)

lemma new_ipc_cap_earlier:
  "new_ipc_cap t u a b perms i \<Longrightarrow> grows s t j c \<Longrightarrow> new_ipc_cap s u a b perms i"
  by (auto simp: new_ipc_cap_def grows_live)

text \<open>Undoing a mint restores every slot that was live.\<close>

lemma rollback:
  assumes inv: "cap_inv s" and c: "cap_create now a CAP_RESOURCE_IPC b perms 0 s = (Inr cid, s1)"
  shows "\<exists>t. cap_revoke now cid a s1 = Some (Inr (), t) \<and> cap_inv t \<and> live_set t = live_set s
    \<and> (\<forall>j\<in>live_set s. cap_table t j = cap_table s j)"
proof -
  note cr = create_ipc [OF inv c]
  obtain i cc where g: "grows s s1 i cc" and cc: "cap_id cc = cid" "owner_id cc = a" "parent_cap cc = 0"
    and ri: "resolve s1 cid = Some i" using cr(2) by blast
  have "may_revoke s1 a i" using g cc by (simp add: may_revoke_def grows_capof)
  then obtain t where t: "cap_revoke now cid a s1 = Some (Inr (), t)"
    using cap_revoke_total [OF cr(1), of now cid a] ri by auto
  from cap_revoke_Inr [OF cr(1) t] ri have sh: "shrinks s1 t ({i} \<union> {x. desc s1 cid x})" by auto
  have "{x. desc s1 cid x} = {}" using create_fresh_leaf [OF inv g cc(3)] cc(1) by auto
  with sh have sh: "shrinks s1 t {i}" by simp
  have il: "i \<notin> live_set s" using g by (simp add: grows_def)
  have l: "live_set t = live_set s" using shrinks_live [OF sh] grows_live [OF g] il by simp
  have "\<forall>j\<in>live_set s. cap_table t j = cap_table s j"
    using sh g il by (auto simp: shrinks_def grows_def)
  with t l cap_revoke_inv [OF cr(1) t] show ?thesis by blast
qed

lemma create_one:
  assumes "cap_inv s" and "cap_create now a CAP_RESOURCE_IPC b perms 0 s = (r, t)"
  shows "cap_inv t \<and> (case r of Inl _ \<Rightarrow> t = s | Inr _ \<Rightarrow> \<exists>i. new_ipc_cap s t a b perms i)"
proof (cases r)
  case (Inl e)
  then show ?thesis using assms cap_create_Inl [of now a CAP_RESOURCE_IPC b perms 0 s e t] by simp
next
  case (Inr cid)
  note c = create_ipc [OF assms(1) assms(2) [unfolded Inr]]
  obtain i where "new_ipc_cap s t a b perms i" using c(2) by blast
  then show ?thesis using Inr c(1) by auto
qed

definition pair_whole :: "cap_state \<Rightarrow> cap_state \<Rightarrow> u32 \<Rightarrow> u32 \<Rightarrow> u32 \<Rightarrow> u32 \<Rightarrow> bool" where
  "pair_whole s t a b tp fp \<longleftrightarrow> (tp \<noteq> 0 \<longrightarrow> (\<exists>i. new_ipc_cap s t a b tp i))
     \<and> (fp \<noteq> 0 \<longrightarrow> (\<exists>i. new_ipc_cap s t b a fp i))"

definition same_live :: "cap_state \<Rightarrow> cap_state \<Rightarrow> bool" where
  "same_live s t \<longleftrightarrow> live_set t = live_set s \<and> (\<forall>j\<in>live_set s. cap_table t j = cap_table s j)"

lemma mint_second:
  assumes inv: "cap_inv s" and c1: "cap_create now a CAP_RESOURCE_IPC b tp 0 s = (Inr cid, s1)"
    and tp: "tp \<noteq> 0" and fp: "fp \<noteq> 0"
  shows "\<exists>t. mint_ipc_pair now a b tp fp s = Some t \<and> cap_inv t \<and> (pair_whole s t a b tp fp \<or> same_live s t)"
proof -
  note cr = create_ipc [OF inv c1]
  obtain i c where g: "grows s s1 i c" and cid: "cap_id c = cid" and n1: "new_ipc_cap s s1 a b tp i"
    using cr(2) by blast
  have cz: "cid \<noteq> 0" using g cid by (auto simp: grows_def make_cap_id_nonzero)
  obtain r2 s2 where c2: "cap_create now b CAP_RESOURCE_IPC a fp 0 s1 = (r2, s2)" by (meson surj_pair)
  show ?thesis
  proof (cases r2)
    case (Inl e)
    then have "s2 = s1" using c2 cap_create_Inl by blast
    with rollback [OF inv c1] tp fp c1 c2 Inl cz show ?thesis
      by (auto simp: mint_ipc_pair_def same_live_def)
  next
    case (Inr cid2)
    note cr2 = create_ipc [OF cr(1) c2 [unfolded Inr]]
    obtain j c2' where g2: "grows s1 s2 j c2'" and n2: "new_ipc_cap s1 s2 b a fp j" using cr2(2) by blast
    have "new_ipc_cap s s2 a b tp i" "new_ipc_cap s s2 b a fp j"
      using new_ipc_cap_later [OF n1 g2] new_ipc_cap_earlier [OF n2 g] .
    then show ?thesis using tp fp c1 c2 Inr cr2(1) by (auto simp: mint_ipc_pair_def pair_whole_def)
  qed
qed

lemma mint_ipc_pair_spec:
  assumes inv: "cap_inv s"
  shows "\<exists>t. mint_ipc_pair now a b tp fp s = Some t \<and> cap_inv t \<and> (pair_whole s t a b tp fp \<or> same_live s t)"
proof -
  obtain r s1 where c1: "cap_create now a CAP_RESOURCE_IPC b tp 0 s = (r, s1)" by (meson surj_pair)
  obtain r2 s2 where c2: "cap_create now b CAP_RESOURCE_IPC a fp 0 s = (r2, s2)" by (meson surj_pair)
  note o1 = create_one [OF inv c1] and o2 = create_one [OF inv c2]
  have sl: "same_live s s" by (simp add: same_live_def)
  consider "tp \<noteq> 0" "fp \<noteq> 0" "\<exists>cid. r = Inr cid" | "tp \<noteq> 0" "\<exists>e. r = Inl e"
    | "tp \<noteq> 0" "fp = 0" "\<exists>cid. r = Inr cid" | "tp = 0" by (metis sum.exhaust)
  then show ?thesis
  proof cases
    case 1
    then show ?thesis using mint_second [OF inv] c1 by blast
  next
    case 2
    then show ?thesis using c1 o1 inv sl by (auto simp: mint_ipc_pair_def)
  next
    case 3
    then show ?thesis using c1 o1 by (auto simp: mint_ipc_pair_def pair_whole_def)
  next
    case 4
    then show ?thesis using c2 o2 inv sl
      by (cases r2) (auto simp: mint_ipc_pair_def pair_whole_def)
  qed
qed

text \<open>Declared IPC pairs are transactional: \<open>mint_ipc_pair\<close> always comes back, and either every
  requested direction exists as a new live capability, or (a first mint undone by
  \<open>cap_revoke\<close> when the second fails) the live part of the table is exactly what it was.\<close>

theorem ipc_pair_transactional:
  assumes "cap_reachable s"
  shows "\<exists>t. mint_ipc_pair now a b tp fp s = Some t \<and> cap_inv t
    \<and> ((tp \<noteq> 0 \<longrightarrow> (\<exists>i. new_ipc_cap s t a b tp i)) \<and> (fp \<noteq> 0 \<longrightarrow> (\<exists>i. new_ipc_cap s t b a fp i))
       \<or> live_set t = live_set s \<and> (\<forall>j\<in>live_set s. cap_table t j = cap_table s j))"
  using mint_ipc_pair_spec [OF cap_reachable_inv [OF assms], of now a b tp fp]
  by (simp add: pair_whole_def same_live_def)

theorem ipc_pair_transactional_witness:
  "\<exists>t. mint_ipc_pair 60 4 5 CAP_WRITE CAP_READ demo_tree = Some t"
  using ipc_pair_transactional [OF demo_tree_reachable] by blast

section \<open>The spawn channel\<close>

lemma create_with_room:
  assumes "cap_initialized s" and "card (live_set s) < MAX_CAPABILITIES"
  shows "\<exists>cid s'. cap_create now a CAP_RESOURCE_IPC b perms 0 s = (Inr cid, s')"
proof -
  have "live_set s \<noteq> {..<MAX_CAPABILITIES}" using assms(2) by (metis card_lessThan less_irrefl)
  then obtain x where "alloc_slot s = Some x" using alloc_slot_None [of s] by blast
  moreover obtain i cid s1 where "x = (i, cid, s1)" using prod_cases3 by blast
  moreover have "\<not> CAP_RESOURCE_IPC \<ge> CAP_RESOURCE_TYPE_COUNT" by (simp add: word_le_nat_alt)
  ultimately show ?thesis using assms(1) by (simp add: cap_create_def Let_def)
qed

text \<open>A live spawn-channel half.\<close>

definition channel_half :: "cap_state \<Rightarrow> cap_state \<Rightarrow> u32 \<Rightarrow> u32 \<Rightarrow> bool" where
  "channel_half s t a b \<longleftrightarrow> (\<exists>i. new_ipc_cap s t a b (CAP_READ OR CAP_WRITE) i \<and> is_spawn_channel (capof t i))"

lemma mint_tagged_spec:
  assumes inv: "cap_inv s" and init: "cap_initialized s" and room: "card (live_set s) < MAX_CAPABILITIES"
  shows "cap_inv (mint_tagged now a b s)" and "cap_initialized (mint_tagged now a b s)"
    and "card (live_set (mint_tagged now a b s)) = Suc (card (live_set s))"
    and "channel_half s (mint_tagged now a b s) a b"
    and "\<forall>j\<in>live_set s. j \<in> live_set (mint_tagged now a b s) \<and> cap_table (mint_tagged now a b s) j = cap_table s j"
proof -
  obtain cid s1 where c: "cap_create now a CAP_RESOURCE_IPC b (CAP_READ OR CAP_WRITE) 0 s = (Inr cid, s1)"
    using create_with_room [OF init room] by blast
  note cr = create_ipc [OF inv c]
  obtain i cc where g: "grows s s1 i cc" and n: "new_ipc_cap s s1 a b (CAP_READ OR CAP_WRITE) i"
    and r: "resolve s1 cid = Some i" using cr(2) by blast
  define t where "t = mint_tagged now a b s"
  have t: "t = s1\<lparr>cap_table := (cap_table s1)(i := (cap_table s1 i)\<lparr>cap := (capof s1 i)\<lparr>is_spawn_channel := True\<rparr>\<rparr>)\<rparr>"
    using c r by (simp add: t_def mint_tagged_def cap_mark_spawn_channel_def)
  have l: "live_set t = live_set s1" by (auto simp: live_set_def t)
  show "cap_inv (mint_tagged now a b s)"
    using same_tree_inv [OF same_tree_mark [of cid s1 "Inr ()" t] cr(1)] r
    by (simp add: t_def [symmetric] t cap_mark_spawn_channel_def)
  show "cap_initialized (mint_tagged now a b s)"
    using g init by (simp add: t_def [symmetric] t grows_def)
  show "card (live_set (mint_tagged now a b s)) = Suc (card (live_set s))"
    using l grows_live [OF g] g by (simp add: t_def [symmetric] grows_def)
  show "channel_half s (mint_tagged now a b s) a b"
    using n l by (auto simp: t_def [symmetric] channel_half_def new_ipc_cap_def t intro!: exI [of _ i])
  show "\<forall>j\<in>live_set s. j \<in> live_set (mint_tagged now a b s) \<and> cap_table (mint_tagged now a b s) j = cap_table s j"
    using l grows_live [OF g] g by (auto simp: t_def [symmetric] t grows_def)
qed

text \<open>The spawn channel is all or nothing: when \<open>sys_spawn\<close>'s capacity test passes on a
  reachable table, both halves of the parent-child channel are minted and tagged, and nothing that
  was live changes.\<close>

theorem spawn_channel_complete:
  assumes "cap_reachable s" and "cap_initialized s" and "spawn_channel_has_room s"
    and "t = spawn_channel_mint now pid new_pid s"
  shows "channel_half s t pid new_pid \<and> channel_half s t new_pid pid
    \<and> (\<forall>j\<in>live_set s. cap_table t j = cap_table s j)"
proof -
  have inv: "cap_inv s" using assms(1) by (rule cap_reachable_inv)
  have "st_active (stats s) = of_nat (card (live_set s))" using inv by (simp add: cap_inv_def count_ok_def)
  with assms(3) card_live_set [of s] have room: "card (live_set s) + 2 \<le> MAX_CAPABILITIES"
    by (simp add: spawn_channel_has_room_def cap_get_stats_def word_le_nat_alt not_less unat_word_ariths unat_of_nat)
  define u where "u = mint_tagged now pid new_pid s"
  have t: "t = mint_tagged now new_pid pid u" by (simp add: assms(4) u_def spawn_channel_mint_def)
  have r1: "card (live_set s) < MAX_CAPABILITIES" using room by simp
  note m1 = mint_tagged_spec [OF inv assms(2) r1, of now pid new_pid, folded u_def]
  have r2: "card (live_set u) < MAX_CAPABILITIES" using room m1(3) by simp
  note m2 = mint_tagged_spec [OF m1(1,2) r2, of now new_pid pid, folded t]
  have "channel_half s t pid new_pid"
    using m1(4) m2(5) by (fastforce simp: channel_half_def new_ipc_cap_def)
  moreover have "channel_half s t new_pid pid"
    using m2(4) m1(5) by (fastforce simp: channel_half_def new_ipc_cap_def)
  ultimately show ?thesis using m1(5) m2(5) by auto
qed

theorem spawn_channel_complete_witness:
  "channel_half demo_tree (spawn_channel_mint 70 1 4 demo_tree) 4 1"
proof -
  have "cap_initialized demo_tree"
    using cap_create_Inr [OF demo_root_create] cap_derive_Inr [OF demo_tree_derive]
    by (auto simp: grows_def cap_init_def)
  moreover have "spawn_channel_has_room demo_tree"
    using cap_reachable_inv [OF demo_tree_reachable]
    by (simp add: spawn_channel_has_room_def cap_get_stats_def cap_inv_def count_ok_def demo_tree_live
        word_le_nat_alt word_less_nat_alt)
  ultimately show ?thesis using spawn_channel_complete [OF demo_tree_reachable] by blast
qed

section \<open>Process death\<close>

text \<open>C9. Process death: the authority steps of \<open>process_destroy\<close> always come back, and afterwards no
  live capability belongs to the dead pid or names its port, and its manifest slot is the zero
  manifest; whoever receives the recycled pid starts with nothing and nobody can reach it.\<close>

theorem process_death_leaves_nothing:
  assumes "kernel_inv k" and "pid < MAX_PROCESSES"
  shows "\<exists>k'. process_destroy_authority now pid k = Some k' \<and> kernel_inv k'
    \<and> (\<forall>i\<in>live_set (k_caps k'). owner_id (capof (k_caps k') i) \<noteq> pid
         \<and> (resource_type (capof (k_caps k') i) \<noteq> CAP_RESOURCE_IPC \<or> resource_id (capof (k_caps k') i) \<noteq> pid))
    \<and> k_man k' (unat pid) = manifest_zero"
proof -
  have inv: "cap_inv (k_caps k)" and minv: "manifest_inv (k_man k)" using assms(1) by (simp_all add: kernel_inv_def)
  obtain c1 where c1: "cap_revoke_all_for_process now pid (k_caps k) = Some c1"
    and s1: "shrinks (k_caps k) c1 (swept (k_caps k) (\<lambda>c. owner_id c = pid) MAX_CAPABILITIES)"
    using reap_spec [OF inv] by blast
  have inv1: "cap_inv c1" by (rule reap_inv [OF inv c1])
  obtain c2 where c2: "cap_revoke_ipc_targets now pid c1 = Some c2"
    and s2: "shrinks c1 c2 (swept c1 (\<lambda>c. resource_type c = CAP_RESOURCE_IPC \<and> resource_id c = pid) MAX_CAPABILITIES)"
    using unlink_spec [OF inv1] by blast
  have inv2: "cap_inv c2" by (rule unlink_inv [OF inv1 c2])
  define k' where "k' = k\<lparr>k_caps := c2, k_man := manifest_clear pid (k_man k)\<rparr>"
  have "owner_id (capof c2 i) \<noteq> pid \<and> (resource_type (capof c2 i) \<noteq> CAP_RESOURCE_IPC \<or> resource_id (capof c2 i) \<noteq> pid)"
    if "i \<in> live_set c2" for i
  proof -
    have l1: "i \<in> live_set c1" and e: "cap_table c2 i = cap_table c1 i"
      and n: "\<not> (resource_type (capof c1 i) = CAP_RESOURCE_IPC \<and> resource_id (capof c1 i) = pid)"
      using shrinks_swept(1) [OF s2, of i] shrinks_swept(2) [OF s2 that] that by simp_all
    have "owner_id (capof (k_caps k) i) \<noteq> pid" "cap_table c1 i = cap_table (k_caps k) i"
      using shrinks_swept(1) [OF s1, of i] shrinks_swept(2) [OF s1 l1] l1 by simp_all
    with e n show ?thesis by simp
  qed
  moreover have "kernel_inv k'" using inv2 minv by (simp add: kernel_inv_def k'_def manifest_clear_inv)
  moreover have "k_man k' (unat pid) = manifest_zero"
    using assms(2) by (simp add: k'_def manifest_clear_def not_le [symmetric])
  moreover have "process_destroy_authority now pid k = Some k'"
    by (simp add: process_destroy_authority_def c1 c2 k'_def)
  moreover have "k_caps k' = c2" by (simp add: k'_def)
  ultimately show ?thesis by auto
qed

theorem process_death_leaves_nothing_witness:
  "\<exists>k'. process_destroy_authority 80 1 demo_kernel = Some k'
    \<and> (\<forall>i\<in>live_set (k_caps k'). owner_id (capof (k_caps k') i) \<noteq> 1)"
proof -
  have p: "(1 :: u32) < MAX_PROCESSES" by (simp add: word_less_nat_alt)
  show ?thesis using process_death_leaves_nothing [OF demo_kernel_inv p, of 80] by blast
qed

section \<open>Every step keeps the invariant\<close>

text \<open>What may happen to the authority state: any capability call, any ledger write, the gate, a
  delegation, the manifest operations, pairs and channels, a process death, and any change of the
  process and service tables.\<close>

inductive kernel_step :: "kernel_state \<Rightarrow> kernel_state \<Rightarrow> bool" where
  cap: "cap_step (k_caps k) c \<Longrightarrow> kernel_step k (k\<lparr>k_caps := c\<rparr>)"
| audit: "kernel_step k (set_ledger l k)"
| gate: "authorize now pid rtype perm rid k = (ok, k') \<Longrightarrow> kernel_step k k'"
| delegate: "sys_cap_derive now pid req k = (r, k') \<Longrightarrow> kernel_step k k'"
| man_bind: "kernel_step k (k\<lparr>k_man := manifest_bind pid m (k_man k)\<rparr>)"
| man_clear: "kernel_step k (k\<lparr>k_man := manifest_clear pid (k_man k)\<rparr>)"
| man_spawn: "kernel_step k (k\<lparr>k_man := manifest_spawn_charge pid (k_man k)\<rparr>)"
| man_qsub: "kernel_step k (k\<lparr>k_man := manifest_qsub_charge pid (k_man k)\<rparr>)"
| man_tick: "kernel_step k (k\<lparr>k_man := manifest_tick pid (k_man k)\<rparr>)"
| pair: "mint_ipc_pair now a b tp fp (k_caps k) = Some c \<Longrightarrow> kernel_step k (k\<lparr>k_caps := c\<rparr>)"
| channel: "kernel_step k (k\<lparr>k_caps := spawn_channel_mint now pid new_pid (k_caps k)\<rparr>)"
| death: "process_destroy_authority now pid k = Some k' \<Longrightarrow> kernel_step k k'"
| tables: "kernel_step k (k\<lparr>k_procs := p, k_gen := g, k_services := v\<rparr>)"

inductive kernel_reachable :: "kernel_state \<Rightarrow> bool" where
  init: "k_caps k = cap_init cap_boot \<Longrightarrow> k_man k = (\<lambda>_. manifest_zero) \<Longrightarrow> kernel_reachable k"
| step: "kernel_reachable k \<Longrightarrow> kernel_step k k' \<Longrightarrow> kernel_reachable k'"

lemma mint_tagged_inv: "cap_inv s \<Longrightarrow> cap_inv (mint_tagged now a b s)"
proof -
  assume inv: "cap_inv s"
  obtain r s1 where c: "cap_create now a CAP_RESOURCE_IPC b (CAP_READ OR CAP_WRITE) 0 s = (r, s1)"
    by (meson surj_pair)
  have i1: "cap_inv s1" by (rule cap_create_inv [OF inv c])
  show ?thesis
  proof (cases r)
    case (Inl e)
    with c i1 show ?thesis by (simp add: mint_tagged_def)
  next
    case (Inr ch)
    obtain r2 s2 where m: "cap_mark_spawn_channel ch s1 = (r2, s2)" by (meson surj_pair)
    have "cap_inv s2" by (rule same_tree_inv [OF same_tree_mark [OF m] i1])
    with c Inr m show ?thesis by (simp add: mint_tagged_def)
  qed
qed

lemma authorize_inv: "kernel_inv k \<Longrightarrow> authorize now pid rtype perm rid k = (ok, k') \<Longrightarrow> kernel_inv k'"
  by (auto simp: authorize_def kernel_deny_def kernel_manifest_check_eq kernel_inv_def
      split: sum.splits if_splits)

lemma delegated_inv: "kernel_inv k \<Longrightarrow> delegated now pid rq k k' \<Longrightarrow> kernel_inv k'"
proof -
  assume inv: "kernel_inv k" and "delegated now pid rq k k'"
  then obtain h cid m where d: "cap_derive now h pid (rq_target_pid rq) (rq_permissions rq) (rq_expiration rq) (k_caps k) = (Inr cid, k_caps k')"
    and k': "k' = k\<lparr>k_caps := k_caps k', k_man := m\<rparr>"
    and m: "m = snd (manifest_grant (rq_target_pid rq) (rq_resource_type rq) (rq_resource_id rq) (rq_permissions rq) (k_man k))"
    unfolding delegated_def by blast
  have "k_man k' = m" by (subst k') simp
  then show ?thesis
    using inv cap_derive_inv [OF _ d] manifest_grant_inv by (simp add: kernel_inv_def m)
qed

lemma sys_cap_derive_inv: "kernel_inv k \<Longrightarrow> sys_cap_derive now pid req k = (r, k') \<Longrightarrow> kernel_inv k'"
proof (cases req)
  case None
  assume "kernel_inv k" "sys_cap_derive now pid req k = (r, k')"
  with None show ?thesis by (simp add: sys_cap_derive_def)
next
  case (Some rq)
  assume inv: "kernel_inv k" and s: "sys_cap_derive now pid req k = (r, k')"
  note o = sys_cap_derive_outcome [OF inv s [unfolded Some]]
  show ?thesis
  proof (cases "r = 0")
    case True
    then show ?thesis using o(2) inv delegated_inv by (auto split: if_splits)
  next
    case False
    from o(3) [OF False] obtain l where "k_man k' = k_man k" "k_caps k' = (k_caps k)\<lparr>ledger := l\<rparr>" by blast
    then show ?thesis using inv by (simp add: kernel_inv_def)
  qed
qed

lemma death_inv: "kernel_inv k \<Longrightarrow> process_destroy_authority now pid k = Some k' \<Longrightarrow> kernel_inv k'"
  by (auto simp: process_destroy_authority_def kernel_inv_def manifest_clear_inv
      intro: unlink_inv reap_inv split: option.splits)

lemma kernel_step_inv: "kernel_step k k' \<Longrightarrow> kernel_inv k \<Longrightarrow> kernel_inv k'"
proof (induction rule: kernel_step.induct)
  case (cap k c)
  then show ?case using cap_step_inv by (simp add: kernel_inv_def)
next
  case (pair now a b tp fp k c)
  then show ?case using mint_ipc_pair_spec [of "k_caps k" now a b tp fp] by (auto simp: kernel_inv_def)
next
  case (channel k now pid new_pid)
  then show ?case by (simp add: kernel_inv_def spawn_channel_mint_def mint_tagged_inv)
next
  case (gate now pid rtype perm rid k ok k')
  then show ?case using authorize_inv by blast
next
  case (delegate now pid req k r k')
  then show ?case using sys_cap_derive_inv by blast
next
  case (death now pid k k')
  then show ?case using death_inv by blast
qed (simp_all add: kernel_inv_def manifest_bind_inv manifest_clear_inv manifest_charge_inv)



section \<open>A delegator that asks for a past expiration\<close>

text \<open>The idempotence test of \<open>sys_cap_derive\<close> is meant to bound the shared table against a looping
  delegator, but it looks for an unexpired covering capability, and the requested expiration is
  never compared with the clock. The state of such a loop:\<close>

definition expired_loop :: "u64 \<Rightarrow> u32 \<Rightarrow> cap_derive_req_k_t \<Rightarrow> kernel_state \<Rightarrow> bool" where
  "expired_loop now pid rq k \<longleftrightarrow> kernel_inv k \<and> derive_request_ok now pid rq k \<and> \<not> target_covered now rq k
     \<and> (\<exists>i. holds now pid (rq_resource_type rq) (rq_permissions rq OR CAP_GRANT) (rq_resource_id rq) (k_caps k) i)
     \<and> manifest_has_room (rq_target_pid rq) (k_man k)
     \<and> intends (k_man k (unat (rq_target_pid rq))) (rq_resource_type rq) (rq_resource_id rq)
     \<and> rq_expiration rq \<noteq> 0 \<and> rq_expiration rq \<le> now"

lemma clamp_expired:
  "exp \<noteq> 0 \<Longrightarrow> exp \<le> now \<Longrightarrow> \<not> (pexp \<noteq> 0 \<and> now \<ge> pexp) \<Longrightarrow> clamp_expiration pexp exp = exp"
  by (auto simp: clamp_expiration_def)

lemma holds_grows: "grows s s' i c \<Longrightarrow> holds now p rt pm ri s j \<Longrightarrow> holds now p rt pm ri s' j"
  by (auto simp: holds_def grows_live grows_capof) (auto simp: grows_def)

lemma holds_grows_new:
  "grows s s' i c \<Longrightarrow> holds now p rt pm ri s' j \<Longrightarrow> is_expired now c \<Longrightarrow> holds now p rt pm ri s j"
  by (auto simp: holds_def grows_live grows_capof split: if_splits)

lemma expired_loop_step:
  assumes lp: "expired_loop now pid rq k" and room: "live_set (k_caps k) \<noteq> {..<MAX_CAPABILITIES}"
    and s: "sys_cap_derive now pid (Some rq) k = (r, k')"
  shows "r = 0" and "expired_loop now pid rq k'" and "card (live_set (k_caps k')) = Suc (card (live_set (k_caps k)))"
proof -
  let ?tg = "rq_target_pid rq" and ?rt = "rq_resource_type rq" and ?ri = "rq_resource_id rq" and ?pm = "rq_permissions rq"
  have inv: "kernel_inv k" and ok: "derive_request_ok now pid rq k" and nc: "\<not> target_covered now rq k"
    and ho: "\<exists>i. holds now pid ?rt (?pm OR CAP_GRANT) ?ri (k_caps k) i"
    and hr: "manifest_has_room ?tg (k_man k)" and it: "intends (k_man k (unat ?tg)) ?rt ?ri"
    and e: "rq_expiration rq \<noteq> 0" "rq_expiration rq \<le> now"
    using lp by (simp_all add: expired_loop_def)
  note o = sys_cap_derive_outcome [OF inv s]
  have "can_mint now pid rq k" using ho hr room by (simp add: can_mint_def)
  with o ok show r: "r = 0" by simp
  with o nc have dl: "delegated now pid rq k k'" by simp
  then obtain h cid where d: "cap_derive now h pid ?tg ?pm (rq_expiration rq) (k_caps k) = (Inr cid, k_caps k')"
    and k': "k' = k\<lparr>k_caps := k_caps k', k_man := snd (manifest_grant ?tg ?rt ?ri ?pm (k_man k))\<rparr>"
    unfolding delegated_def by blast
  have "manifest_grant ?tg ?rt ?ri ?pm (k_man k) = (True, k_man k)"
    using hr it by (simp add: manifest_grant_def Let_def manifest_row_intends manifest_has_room_def)
  with k' have k2: "k' = k\<lparr>k_caps := k_caps k'\<rparr>" by simp
  have m: "k_man k' = k_man k" "k_procs k' = k_procs k" "k_gen k' = k_gen k" "k_services k' = k_services k"
    by (subst k2, simp)+
  obtain i p where p: "\<not> is_expired now (capof (k_caps k) p)"
    and g: "grows (k_caps k) (k_caps k') i (minted cid ?tg (resource_type (capof (k_caps k) p)) (resource_id (capof (k_caps k) p))
        ?pm (clamp_expiration (expiration (capof (k_caps k) p)) (rq_expiration rq)) True h)"
    using cap_derive_Inr [OF d] by blast
  have ex: "is_expired now (minted cid ?tg (resource_type (capof (k_caps k) p)) (resource_id (capof (k_caps k) p))
        ?pm (clamp_expiration (expiration (capof (k_caps k) p)) (rq_expiration rq)) True h)"
    using clamp_expired [OF e, of "expiration (capof (k_caps k) p)"] p e by (simp add: is_expired_def minted_def)
  have "derive_target_ok pid ?tg k' = derive_target_ok pid ?tg k"
    "service_pid_is_monitored ?tg k' = service_pid_is_monitored ?tg k"
    by (simp_all add: derive_target_ok_def process_get_by_pid_def process_is_valid_def m
        service_pid_is_monitored_def slot_by_pid_def process_get_generation_def cong: option.case_cong)
  then have "derive_request_ok now pid rq k'"
    using ok holds_grows [OF g] unfolding derive_request_ok_def m by blast
  moreover have "\<not> target_covered now rq k'"
    using nc holds_grows_new [OF g _ ex] unfolding target_covered_def by blast
  moreover have "kernel_inv k'" by (rule delegated_inv [OF inv dl])
  moreover have "\<exists>j. holds now pid ?rt (?pm OR CAP_GRANT) ?ri (k_caps k') j"
    using ho holds_grows [OF g] by blast
  ultimately show "expired_loop now pid rq k'" using hr it e by (simp add: expired_loop_def m)
  show "card (live_set (k_caps k')) = Suc (card (live_set (k_caps k)))"
    using grows_live [OF g] g by (simp add: grows_def)
qed

lemma expired_loop_run:
  "expired_loop now pid rq k \<Longrightarrow> card (live_set (k_caps k)) + n \<le> MAX_CAPABILITIES \<Longrightarrow>
   expired_loop now pid rq (((\<lambda>k. snd (sys_cap_derive now pid (Some rq) k)) ^^ n) k)
   \<and> card (live_set (k_caps (((\<lambda>k. snd (sys_cap_derive now pid (Some rq) k)) ^^ n) k))) = card (live_set (k_caps k)) + n"
proof (induction n)
  case 0
  then show ?case by simp
next
  case (Suc n)
  define u where "u = ((\<lambda>k. snd (sys_cap_derive now pid (Some rq) k)) ^^ n) k"
  have u: "expired_loop now pid rq u" "card (live_set (k_caps u)) = card (live_set (k_caps k)) + n"
    using Suc by (simp_all add: u_def)
  have "live_set (k_caps u) \<noteq> {..<MAX_CAPABILITIES}"
    using u(2) Suc.prems(2) by (metis Suc_eq_plus1 add_Suc_right card_lessThan not_less_eq_eq order_refl)
  from expired_loop_step [OF u(1) this surjective_pairing] u(2)
  show ?case by (simp add: u_def)
qed

text \<open>C36. A delegator can exhaust the shared capability table. If a process may delegate a resource to
  a target whose manifest already declares it (and has a free row), then repeating the same call
  with a non-zero expiration that is already past succeeds every time, and \<open>1024 - n\<close> calls on a
  table with \<open>n\<close> live slots fill it, after which every process's \<open>cap_create\<close> is refused.\<close>

theorem expired_delegation_exhausts:
  assumes "expired_loop now pid rq k"
    and "k' = ((\<lambda>k. snd (sys_cap_derive now pid (Some rq) k)) ^^ (MAX_CAPABILITIES - card (live_set (k_caps k)))) k"
  shows "live_set (k_caps k') = {..<MAX_CAPABILITIES}
    \<and> (\<exists>e. cap_create t owner rtype rid perms exp (k_caps k') = (Inl e, k_caps k'))"
proof -
  have le: "card (live_set (k_caps k)) \<le> MAX_CAPABILITIES" by (rule card_live_set)
  then have "card (live_set (k_caps k')) = MAX_CAPABILITIES"
    using expired_loop_run [OF assms(1), of "MAX_CAPABILITIES - card (live_set (k_caps k))"] assms(2) by simp
  moreover have "live_set (k_caps k') \<subseteq> {..<MAX_CAPABILITIES}" by (auto simp: live_set_def)
  ultimately have full: "live_set (k_caps k') = {..<MAX_CAPABILITIES}"
    by (intro card_subset_eq) simp_all
  then show ?thesis using alloc_slot_None [of "k_caps k'"] by (simp add: cap_create_def)
qed

theorem expired_delegation_exhausts_witness:
  "live_set (k_caps (((\<lambda>k. snd (sys_cap_derive 50 1 (Some (demo_req\<lparr>rq_expiration := 7\<rparr>)) k)) ^^ 1022) demo_kernel))
   = {..<MAX_CAPABILITIES}"
proof -
  have "manifest_has_room 2 (k_man demo_kernel)" "intends (k_man demo_kernel 2) CAP_RESOURCE_IPC 2"
    by (simp_all add: manifest_has_room_def demo_kernel_def word_le_nat_alt word_less_nat_alt intends_def)
  moreover have "\<exists>i. holds 50 1 CAP_RESOURCE_IPC (CAP_WRITE OR CAP_GRANT) 2 (k_caps demo_kernel) i"
    unfolding demo_kernel_holds demo_tree_holds by simp
  ultimately have "expired_loop 50 1 (demo_req\<lparr>rq_expiration := 7\<rparr>) demo_kernel"
    using demo_kernel_inv demo_request_ok [of 7] demo_not_covered [of 7]
    by (simp add: expired_loop_def) (simp add: demo_req_def word_le_nat_alt)
  from expired_delegation_exhausts [OF this refl] show ?thesis unfolding demo_live by simp
qed

end
