(* ===== verification/Egress.thy ===== *)
theory Egress
  imports Audit_Log
begin

text \<open>
  The egress grant (\<open>kernel/src/egress.c\<close>, \<open>kernel/include/kernel/egress.h\<close>) and the two frame
  gates of \<open>kernel/src/netdev.c\<close>: the grant parser, the live grant with its ttl and byte budget,
  the allowlist check every ring-3 send passes, and the keyed console escape. A C string is a
  list of non-NUL characters; \<open>peek\<close> reads the terminator at its end. The first \<open>n_allow\<close>
  entries of \<open>allow[]\<close> and \<open>n_listen\<close> of \<open>listen[]\<close> are lists. \<open>now\<close> is
  \<open>timer_get_ticks()\<close>.
\<close>

section \<open>Data\<close>

abbreviation (input) MAX_ALLOW :: nat where "MAX_ALLOW \<equiv> 8"
abbreviation (input) MAX_LISTEN :: nat where "MAX_LISTEN \<equiv> 8"
abbreviation (input) HOST_MAX :: nat where "HOST_MAX \<equiv> 63"
abbreviation (input) TICKS_PER_S :: u64 where "TICKS_PER_S \<equiv> 100"
abbreviation (input) GRANT_GIVEN :: u32 where "GRANT_GIVEN \<equiv> 1"
abbreviation (input) GRANT_EXPIRED :: u32 where "GRANT_EXPIRED \<equiv> 2"
abbreviation (input) GRANT_BUDGET :: u32 where "GRANT_BUDGET \<equiv> 3"
abbreviation (input) GRANT_REFUSED :: u32 where "GRANT_REFUSED \<equiv> 4"
abbreviation (input) EGRESS_PROTO_UDP :: u8 where "EGRESS_PROTO_UDP \<equiv> 17"
abbreviation (input) EGRESS_PROTO_TCP :: u8 where "EGRESS_PROTO_TCP \<equiv> 6"
abbreviation (input) DEVICE_ID_NET :: u32 where "DEVICE_ID_NET \<equiv> 0x8139"
abbreviation (input) CAP_RESOURCE_DEVICE_T :: u32 where "CAP_RESOURCE_DEVICE_T \<equiv> 2"
abbreviation (input) EGRESS_KEY_HEX :: nat where "EGRESS_KEY_HEX \<equiv> 16"
abbreviation (input) EGRESS_SPEC_MAX :: nat where "EGRESS_SPEC_MAX \<equiv> 255"
abbreviation (input) OFFER_NOKEY :: nat where "OFFER_NOKEY \<equiv> 1"
abbreviation (input) OFFER_BADKEY :: nat where "OFFER_BADKEY \<equiv> 2"
abbreviation (input) OFFER_SHAPE :: nat where "OFFER_SHAPE \<equiv> 3"

datatype egress_verdict = EGRESS_OK | EGRESS_E_NOGRANT | EGRESS_E_EXPIRED | EGRESS_E_BUDGET
  | EGRESS_E_DEST | EGRESS_E_PORT | EGRESS_E_LISTEN

record allow_t =
  al_any :: bool
  al_has_ip :: bool
  al_ip :: "u8 list"
  al_port :: u16
  al_proto :: u8
  al_host :: string

record grant_t =
  ttl_ticks :: u64
  byte_budget :: u64
  allow :: "allow_t list"
  listen :: "u16 list"

record egress_state =
  configured :: bool
  over :: bool
  start_tick :: u64
  bytes_used :: u64
  live :: grant_t
  key_set :: bool
  key :: string
  offer_pending :: bool
  offer_refused :: nat
  offer_spec :: string
  eg_ledger :: audit_state

definition allow_zero :: allow_t where
  "allow_zero = \<lparr>al_any = False, al_has_ip = False, al_ip = [0, 0, 0, 0], al_port = 0, al_proto = 0, al_host = []\<rparr>"

definition grant_zero :: grant_t where
  "grant_zero = \<lparr>ttl_ticks = 0, byte_budget = 0, allow = [], listen = []\<rparr>"

definition egress_boot :: egress_state where
  "egress_boot = \<lparr>configured = False, over = False, start_tick = 0, bytes_used = 0, live = grant_zero,
     key_set = False, key = replicate 16 (CHR 0x00), offer_pending = False, offer_refused = 0,
     offer_spec = [], eg_ledger = audit_boot\<rparr>"

section \<open>The parser\<close>

definition peek :: "string \<Rightarrow> char" where
  "peek s = (case s of [] \<Rightarrow> CHR 0x00 | c # _ \<Rightarrow> c)"

definition digit :: "char \<Rightarrow> bool" where
  "digit c \<longleftrightarrow> (of_char c :: nat) \<ge> 48 \<and> (of_char c :: nat) \<le> 57"

fun parse_digits :: "u64 \<Rightarrow> string \<Rightarrow> u64 \<times> string" where
  "parse_digits v [] = (v, [])"
| "parse_digits v (c # s) = (if digit c then parse_digits (v * 10 + of_nat (of_char c - 48)) s else (v, c # s))"

definition parse_u64 :: "string \<Rightarrow> (u64 \<times> string) option" where
  "parse_u64 p = (case parse_digits 0 p of (v, s) \<Rightarrow> if s = p then None else Some (v, s))"

text \<open>The octets from index \<open>i\<close> on: the bytes written to \<open>out\<close> (also when the parse fails), and
  the rest.\<close>

fun parse_ip_from :: "nat \<Rightarrow> string \<Rightarrow> u8 list \<Rightarrow> u8 list \<times> string option" where
  "parse_ip_from 0 s out = (out, Some s)"
| "parse_ip_from (Suc k) s out =
     (case parse_u64 s of None \<Rightarrow> (out, None)
      | Some (v, n) \<Rightarrow>
        if v > 255 \<or> (k > 0 \<and> peek n \<noteq> CHR ''.'') then (out, None)
        else parse_ip_from k (if k > 0 then tl n else n) (out[3 - k := ucast v]))"

definition parse_ip :: "string \<Rightarrow> u8 list \<Rightarrow> u8 list \<times> string option" where
  "parse_ip s out = parse_ip_from 4 s out"

text \<open>The host name copy: \<open>k\<close> counts stored characters; \<open>None\<close> is the overlong refusal.\<close>

fun parse_host :: "nat \<Rightarrow> string \<Rightarrow> (string \<times> string) option" where
  "parse_host k [] = Some ([], [])"
| "parse_host k (c # s) =
     (if c = CHR '':'' \<or> c = CHR '','' \<or> c = CHR '';'' then Some ([], c # s)
      else if k \<ge> HOST_MAX then None
      else map_option (apfst (Cons c)) (parse_host (Suc k) s))"

text \<open>The delimiters \<open>,\<close> \<open>;\<close> and NUL.\<close>

definition delim :: "char \<Rightarrow> bool" where
  "delim c \<longleftrightarrow> c = CHR '','' \<or> c = CHR '';'' \<or> c = CHR 0x00"

text \<open>From the port on: \<open>a\<close> already has its address part, \<open>n\<close> points at the colon.\<close>

definition parse_port_proto :: "allow_t \<Rightarrow> string \<Rightarrow> (allow_t \<times> string) option" where
  "parse_port_proto a n =
     (case parse_u64 (tl n) of None \<Rightarrow> None
      | Some (port, n) \<Rightarrow>
        if port = 0 \<or> port > 65535 \<or> peek n \<noteq> CHR ''/'' then None
        else let n = tl n; a = a\<lparr>al_port := ucast port\<rparr> in
          if take 3 n = ''udp''
          then (if delim (peek (drop 3 n)) then Some (a\<lparr>al_proto := EGRESS_PROTO_UDP\<rparr>, drop 3 n) else None)
          else if take 3 n = ''tcp''
          then (if delim (peek (drop 3 n)) then Some (a\<lparr>al_proto := EGRESS_PROTO_TCP\<rparr>, drop 3 n) else None)
          else None)"

definition parse_allow :: "string \<Rightarrow> (allow_t \<times> string) option" where
  "parse_allow s =
     (if peek s = CHR ''*'' \<and> delim (peek (tl s)) then Some (allow_zero\<lparr>al_any := True\<rparr>, tl s)
      else let (ip, n) = parse_ip s (al_ip allow_zero); a = allow_zero\<lparr>al_ip := ip\<rparr> in
        if n \<noteq> None \<and> peek (the n) = CHR '':'' then parse_port_proto (a\<lparr>al_has_ip := True\<rparr>) (the n)
        else (case parse_host 0 s of None \<Rightarrow> None
          | Some (h, n) \<Rightarrow>
            if h = [] \<or> peek n \<noteq> CHR '':'' then None else parse_port_proto (a\<lparr>al_host := h\<rparr>) n))"

text \<open>Every parse consumes what it accepts.\<close>

lemma parse_digits_rest: "parse_digits v s = (w, t) \<Longrightarrow> \<exists>ds. s = ds @ t \<and> (\<forall>c\<in>set ds. digit c) \<and> (t \<noteq> [] \<longrightarrow> \<not> digit (hd t))"
proof (induction v s rule: parse_digits.induct)
  case (1 v)
  then show ?case by simp
next
  case (2 v c s)
  show ?case
  proof (cases "digit c")
    case True
    with 2 obtain ds where "s = ds @ t \<and> (\<forall>c\<in>set ds. digit c) \<and> (t \<noteq> [] \<longrightarrow> \<not> digit (hd t))" by auto
    with True show ?thesis by (intro exI [of _ "c # ds"]) simp
  next
    case False
    with 2 show ?thesis by (intro exI [of _ "[]"]) auto
  qed
qed

lemma parse_u64_shorter: "parse_u64 s = Some (v, t) \<Longrightarrow> length t < length s"
proof -
  assume p: "parse_u64 s = Some (v, t)"
  then have d: "parse_digits 0 s = (v, t)" and ne: "t \<noteq> s"
    by (auto simp: parse_u64_def split: prod.splits if_splits)
  from parse_digits_rest [OF d] obtain ds where "s = ds @ t" by blast
  with ne show ?thesis by (cases ds) auto
qed

lemma parse_ip_from_shorter: "parse_ip_from k s out = (o', Some t) \<Longrightarrow> length t \<le> length s"
proof (induction k s out rule: parse_ip_from.induct)
  case (1 s out)
  then show ?case by simp
next
  case (2 k s out)
  then show ?case
    by (fastforce split: option.splits prod.splits if_splits dest: parse_u64_shorter)
qed

lemma parse_host_shorter: "parse_host k s = Some (h, t) \<Longrightarrow> length t + length h = length s"
  by (induction k s arbitrary: h t rule: parse_host.induct) (auto split: if_splits)

lemma parse_port_proto_shorter: "parse_port_proto a n = Some (b, t) \<Longrightarrow> length t < length n"
proof -
  assume p: "parse_port_proto a n = Some (b, t)"
  then obtain port m where m: "parse_u64 (tl n) = Some (port, m)"
    by (cases "parse_u64 (tl n)") (auto simp: parse_port_proto_def)
  then have "t = drop 3 (tl m)"
    using p by (simp add: parse_port_proto_def Let_def split: if_splits)
  then have "length t \<le> length m" by simp
  also have "\<dots> < length (tl n)" by (rule parse_u64_shorter [OF m])
  finally show ?thesis by simp
qed

lemma parse_allow_shorter:
  assumes "parse_allow s = Some (a, t)"
  shows "length t < length s"
proof (cases "peek s = CHR ''*'' \<and> delim (peek (tl s))")
  case True
  then have "s \<noteq> []" by (auto simp: peek_def)
  with True assms show ?thesis by (cases s) (auto simp: parse_allow_def)
next
  case False
  obtain ip n where ip: "parse_ip s (al_ip allow_zero) = (ip, n)" by (meson surj_pair)
  show ?thesis
  proof (cases "n \<noteq> None \<and> peek (the n) = CHR '':''")
    case True
    then obtain n' where n': "n = Some n'" by auto
    have "length n' \<le> length s" using ip n' by (auto simp: parse_ip_def dest: parse_ip_from_shorter)
    moreover have "length t < length n'"
      using assms False ip True n' by (auto simp: parse_allow_def Let_def dest: parse_port_proto_shorter)
    ultimately show ?thesis by simp
  next
    case nip: False
    then have "(case parse_host 0 s of None \<Rightarrow> None
          | Some (h, n) \<Rightarrow> if h = [] \<or> peek n \<noteq> CHR '':'' then None
              else parse_port_proto (allow_zero\<lparr>al_ip := ip, al_host := h\<rparr>) n) = Some (a, t)"
      using assms unfolding parse_allow_def if_not_P [OF False] ip Let_def by (simp only: case_prod_conv if_not_P [OF nip]) simp
    then obtain h n2 where "parse_host 0 s = Some (h, n2)" "h \<noteq> []"
      "parse_port_proto (allow_zero\<lparr>al_ip := ip, al_host := h\<rparr>) n2 = Some (a, t)"
      by (auto split: option.splits if_splits)
    then show ?thesis using parse_host_shorter parse_port_proto_shorter by fastforce
  qed
qed

definition skip_comma :: "string \<Rightarrow> string" where
  "skip_comma p = (if peek p = CHR '','' then tl p else p)"

lemma skip_comma_length: "length (skip_comma p) \<le> length p"
  by (simp add: skip_comma_def)

text \<open>The list loops of \<open>parse_grant\<close>.\<close>

function parse_allows :: "string \<Rightarrow> allow_t list \<Rightarrow> (allow_t list \<times> string) option" where
  "parse_allows p as =
     (if peek p = CHR 0x00 \<or> peek p = CHR '';'' then Some (as, p)
      else if length as \<ge> MAX_ALLOW then None
      else case parse_allow p of None \<Rightarrow> None
        | Some (a, p') \<Rightarrow> parse_allows (skip_comma p') (as @ [a]))"
  by pat_completeness auto
termination
  by (relation "measure (\<lambda>(p, as). length p)")
    (auto dest!: parse_allow_shorter intro: le_less_trans [OF skip_comma_length])

function parse_listens :: "string \<Rightarrow> u16 list \<Rightarrow> (u16 list \<times> string) option" where
  "parse_listens p ls =
     (if peek p = CHR 0x00 \<or> peek p = CHR '';'' then Some (ls, p)
      else if length ls \<ge> MAX_LISTEN then None
      else case parse_u64 p of None \<Rightarrow> None
        | Some (v, p') \<Rightarrow> if v = 0 \<or> v > 65535 then None else parse_listens (skip_comma p') (ls @ [ucast v]))"
  by pat_completeness auto
termination
  by (relation "measure (\<lambda>(p, ls). length p)")
    (auto dest!: parse_u64_shorter intro: le_less_trans [OF skip_comma_length])

declare parse_allows.simps [simp del] parse_listens.simps [simp del]

lemma parse_allows_length: "parse_allows p as = Some (bs, t) \<Longrightarrow> length t \<le> length p"
proof (induction p as rule: parse_allows.induct)
  case (1 p as)
  show ?case
  proof (cases "peek p = CHR 0x00 \<or> peek p = CHR '';''")
    case True
    with "1.prems" show ?thesis by (subst (asm) parse_allows.simps) simp
  next
    case False
    with "1.prems" obtain a p' where a: "\<not> length as \<ge> MAX_ALLOW" "parse_allow p = Some (a, p')"
      "parse_allows (skip_comma p') (as @ [a]) = Some (bs, t)"
      by (subst (asm) parse_allows.simps) (auto split: if_splits option.splits)
    from "1.IH" [OF False a(1,2) refl a(3)] have "length t \<le> length (skip_comma p')" .
    then show ?thesis using skip_comma_length [of p'] parse_allow_shorter [OF a(2)] by simp
  qed
qed

lemma parse_listens_length: "parse_listens p ls = Some (ms, t) \<Longrightarrow> length t \<le> length p"
proof (induction p ls rule: parse_listens.induct)
  case (1 p ls)
  show ?case
  proof (cases "peek p = CHR 0x00 \<or> peek p = CHR '';''")
    case True
    with "1.prems" show ?thesis by (subst (asm) parse_listens.simps) simp
  next
    case False
    with "1.prems" obtain v p' where a: "\<not> length ls \<ge> MAX_LISTEN" "parse_u64 p = Some (v, p')" "\<not> (v = 0 \<or> v > 65535)"
      "parse_listens (skip_comma p') (ls @ [ucast v]) = Some (ms, t)"
      by (subst (asm) parse_listens.simps) (auto split: if_splits option.splits)
    from "1.IH" [OF False a(1,2) refl a(3,4)] have "length t \<le> length (skip_comma p')" .
    then show ?thesis using skip_comma_length [of p'] parse_u64_shorter [OF a(2)] by simp
  qed
qed

text \<open>One field, and the separator behind it. The flags are \<open>have_ttl\<close> and \<open>have_bytes\<close>.\<close>

definition parse_field :: "string \<Rightarrow> grant_t \<times> bool \<times> bool \<Rightarrow> ((grant_t \<times> bool \<times> bool) \<times> string) option" where
  "parse_field p st = (case st of (g, ht, hb) \<Rightarrow>
     if take 4 p = ''ttl='' then
       (case parse_u64 (drop 4 p) of None \<Rightarrow> None
        | Some (v, p) \<Rightarrow> if v = 0 then None else Some ((g\<lparr>ttl_ticks := v * TICKS_PER_S\<rparr>, True, hb), p))
     else if take 6 p = ''bytes='' then
       (case parse_u64 (drop 6 p) of None \<Rightarrow> None
        | Some (v, p) \<Rightarrow> if v = 0 then None else Some ((g\<lparr>byte_budget := v\<rparr>, ht, True), p))
     else if take 6 p = ''allow='' then
       (case parse_allows (drop 6 p) (allow g) of None \<Rightarrow> None
        | Some (as, p) \<Rightarrow> Some ((g\<lparr>allow := as\<rparr>, ht, hb), p))
     else if take 7 p = ''listen='' then
       (case parse_listens (drop 7 p) (listen g) of None \<Rightarrow> None
        | Some (ls, p) \<Rightarrow> Some ((g\<lparr>listen := ls\<rparr>, ht, hb), p))
     else None)"

lemma parse_field_shorter: "parse_field p st = Some (st', p') \<Longrightarrow> p \<noteq> [] \<and> length p' < length p"
proof -
  assume f: "parse_field p st = Some (st', p')"
  have lt: "length (drop k p) < length p" if "take k p = c # cs" for k c cs
    using that by (cases p; cases k) auto
  obtain g ht hb where st: "st = (g, ht, hb)" by (cases st)
  have d: "length p' \<le> length (drop 4 p) \<and> take 4 p = ''ttl='' \<or> length p' \<le> length (drop 6 p) \<and> take 6 p = ''bytes=''
      \<or> length p' \<le> length (drop 6 p) \<and> take 6 p = ''allow='' \<or> length p' \<le> length (drop 7 p) \<and> take 7 p = ''listen=''"
    using f unfolding parse_field_def st
    by (auto split: if_splits option.splits dest: parse_u64_shorter parse_allows_length parse_listens_length)
  then show ?thesis using lt by fastforce
qed

function parse_fields :: "string \<Rightarrow> grant_t \<times> bool \<times> bool \<Rightarrow> (grant_t \<times> bool \<times> bool) option" where
  "parse_fields p st =
     (if peek p = CHR 0x00 then Some st
      else case parse_field p st of None \<Rightarrow> None
        | Some (st', p') \<Rightarrow>
          if peek p' = CHR '';'' then parse_fields (tl p') st'
          else if peek p' \<noteq> CHR 0x00 then None
          else parse_fields p' st')"
  by pat_completeness auto
termination
  by (relation "measure (\<lambda>(p, st). length p)") (auto dest!: parse_field_shorter)

declare parse_fields.simps [simp del]

definition parse_grant :: "string \<Rightarrow> grant_t option" where
  "parse_grant spec =
     (case parse_fields spec (grant_zero, False, False) of None \<Rightarrow> None
      | Some (g, have_ttl, have_bytes) \<Rightarrow> if \<not> have_ttl \<or> \<not> have_bytes then None else Some g)"

section \<open>The live grant\<close>

definition receipt_grant :: "u64 \<Rightarrow> u32 \<Rightarrow> u16 \<Rightarrow> egress_state \<Rightarrow> egress_state" where
  "receipt_grant now what verdict s =
     s\<lparr>eg_ledger := audit_record now AUDIT_EGRESS 0 verdict CAP_RESOURCE_DEVICE_T DEVICE_ID_NET what (eg_ledger s)\<rparr>"

text \<open>The result is the C return value: \<open>True\<close> for 0.\<close>

definition configure_from :: "u64 \<Rightarrow> string \<Rightarrow> egress_state \<Rightarrow> bool \<times> egress_state" where
  "configure_from now spec s =
     (case parse_grant spec of None \<Rightarrow> (False, s)
      | Some g \<Rightarrow> (True, receipt_grant now GRANT_GIVEN AUDIT_V_OK
          (s\<lparr>live := g, start_tick := now, bytes_used := 0, over := False, configured := True\<rparr>)))"

definition egress_configure :: "u64 \<Rightarrow> string \<Rightarrow> egress_state \<Rightarrow> bool \<times> egress_state" where
  "egress_configure now spec s = configure_from now spec s"

definition egress_configured :: "egress_state \<Rightarrow> bool" where
  "egress_configured s = configured s"

definition quiesce :: "u64 \<Rightarrow> u32 \<Rightarrow> egress_state \<Rightarrow> egress_state" where
  "quiesce now why s = (if \<not> over s then receipt_grant now why AUDIT_V_OK (s\<lparr>over := True\<rparr>) else s)"

definition egress_active :: "u64 \<Rightarrow> egress_state \<Rightarrow> bool \<times> egress_state" where
  "egress_active now s =
     (if \<not> configured s \<or> over s then (False, s)
      else if now - start_tick s \<ge> ttl_ticks (live s) then (False, quiesce now GRANT_EXPIRED s)
      else (True, s))"

definition egress_account :: "u64 \<Rightarrow> u32 \<Rightarrow> egress_state \<Rightarrow> egress_state" where
  "egress_account now len s =
     (if \<not> configured s \<or> over s then s
      else let s1 = s\<lparr>bytes_used := bytes_used s + ucast len\<rparr> in
        if bytes_used s1 \<ge> byte_budget (live s1) then quiesce now GRANT_BUDGET s1 else s1)"

definition state_verdict :: "u64 \<Rightarrow> egress_state \<Rightarrow> egress_verdict \<times> egress_state" where
  "state_verdict now s =
     (if \<not> configured s then (EGRESS_E_NOGRANT, s)
      else case egress_active now s of
          (False, s1) \<Rightarrow> (if bytes_used s1 \<ge> byte_budget (live s1) then EGRESS_E_BUDGET else EGRESS_E_EXPIRED, s1)
        | (True, s1) \<Rightarrow> (EGRESS_OK, s1))"

definition ip_u32 :: "u8 list \<Rightarrow> u32" where
  "ip_u32 ip = push_bit 24 (ucast (ip ! 0)) OR push_bit 16 (ucast (ip ! 1)) OR push_bit 8 (ucast (ip ! 2)) OR ucast (ip ! 3)"

definition receipt :: "u64 \<Rightarrow> u32 \<Rightarrow> egress_verdict \<Rightarrow> u32 \<Rightarrow> u16 \<Rightarrow> u8 \<Rightarrow> egress_state \<Rightarrow> egress_state" where
  "receipt now pid verdict dst port proto s =
     s\<lparr>eg_ledger := audit_record now AUDIT_EGRESS pid (if verdict = EGRESS_OK then AUDIT_V_OK else AUDIT_V_EPERM)
        CAP_RESOURCE_DEVICE_T dst (push_bit 16 (ucast proto) OR ucast port) (eg_ledger s)\<rparr>"

text \<open>The allowlist walk of \<open>egress_check\<close>; \<open>v\<close> is the verdict so far.\<close>

fun allow_walk :: "egress_verdict \<Rightarrow> u8 list \<Rightarrow> u16 \<Rightarrow> u8 \<Rightarrow> allow_t list \<Rightarrow> egress_verdict" where
  "allow_walk v dip dport proto [] = v"
| "allow_walk v dip dport proto (a # as) =
     (if al_any a then EGRESS_OK
      else if \<not> al_has_ip a \<or> al_ip a \<noteq> dip then allow_walk v dip dport proto as
      else if al_port a = dport \<and> al_proto a = proto then EGRESS_OK
      else allow_walk EGRESS_E_PORT dip dport proto as)"

definition egress_check :: "u64 \<Rightarrow> u32 \<Rightarrow> u8 list \<Rightarrow> u16 \<Rightarrow> u8 \<Rightarrow> egress_state \<Rightarrow> egress_verdict \<times> egress_state" where
  "egress_check now pid dip dport proto s =
     (case state_verdict now s of (v, s1) \<Rightarrow>
        let v' = (if v = EGRESS_OK then allow_walk EGRESS_E_DEST dip dport proto (allow (live s1)) else v)
        in (v', receipt now pid v' (ip_u32 dip) dport proto s1))"

definition egress_listen_ok :: "u64 \<Rightarrow> u32 \<Rightarrow> u16 \<Rightarrow> egress_state \<Rightarrow> egress_verdict \<times> egress_state" where
  "egress_listen_ok now pid lport s =
     (case state_verdict now s of (v, s1) \<Rightarrow>
        let v' = (if v = EGRESS_OK then (if lport \<in> set (listen (live s1)) then EGRESS_OK else EGRESS_E_LISTEN) else v)
        in (v', receipt now pid v' 0 lport 0 s1))"

definition egress_note_resolution :: "string \<Rightarrow> u8 list \<Rightarrow> egress_state \<Rightarrow> egress_state" where
  "egress_note_resolution host ip s =
     s\<lparr>live := (live s)\<lparr>allow := map (\<lambda>a. if al_host a \<noteq> [] \<and> al_host a = host
                                        then a\<lparr>al_ip := ip, al_has_ip := True\<rparr> else a) (allow (live s))\<rparr>\<rparr>"

definition egress_reason :: "egress_verdict \<Rightarrow> string" where
  "egress_reason v = (case v of EGRESS_OK \<Rightarrow> ''allowed'' | EGRESS_E_NOGRANT \<Rightarrow> ''no egress grant''
     | EGRESS_E_EXPIRED \<Rightarrow> ''egress grant expired'' | EGRESS_E_BUDGET \<Rightarrow> ''egress byte budget spent''
     | EGRESS_E_DEST \<Rightarrow> ''destination not in the egress allowlist''
     | EGRESS_E_PORT \<Rightarrow> ''port/proto not in the egress allowlist''
     | EGRESS_E_LISTEN \<Rightarrow> ''local port not in the egress listen list'')"

section \<open>The console escape\<close>

definition hex_ok :: "char \<Rightarrow> bool" where
  "hex_ok c \<longleftrightarrow> (let n = of_char c :: nat in
     (n \<ge> 48 \<and> n \<le> 57) \<or> (n \<ge> 97 \<and> n \<le> 102) \<or> (n \<ge> 65 \<and> n \<le> 70))"

definition hex_lower :: "char \<Rightarrow> char" where
  "hex_lower c = (let n = of_char c :: nat in if n \<ge> 65 \<and> n \<le> 70 then char_of (n - 65 + 97) else c)"

text \<open>The digit loop of \<open>egress_set_key\<close>: it stops at the first bad digit, with the digits before
  it already stored.\<close>

fun key_store :: "nat \<Rightarrow> string \<Rightarrow> string \<Rightarrow> string \<times> bool" where
  "key_store i [] k = (k, True)"
| "key_store i (c # cs) k = (if hex_ok c then key_store (Suc i) cs (k[i := hex_lower c]) else (k, False))"

definition egress_set_key :: "string \<Rightarrow> egress_state \<Rightarrow> egress_state" where
  "egress_set_key hex s =
     (if length hex \<noteq> EGRESS_KEY_HEX then s
      else case key_store 0 hex (key s) of
          (k, False) \<Rightarrow> s\<lparr>key := k\<rparr>
        | (k, True) \<Rightarrow> s\<lparr>key := k, key_set := True\<rparr>)"

text \<open>The whole-length compare of \<open>egress_offer\<close>: \<open>diff\<close> accumulates the differing bits of every
  position.\<close>

definition key_diff :: "string \<Rightarrow> string \<Rightarrow> u8" where
  "key_diff k payload =
     fold (\<lambda>i diff. diff OR (of_nat (of_char (k ! i)) XOR of_nat (of_char (hex_lower (payload ! i)))))
       [0..<EGRESS_KEY_HEX] 0"

definition egress_offer :: "string \<Rightarrow> egress_state \<Rightarrow> egress_state" where
  "egress_offer payload s =
     (let refused = (if \<not> key_set s then OFFER_NOKEY
            else if length payload < EGRESS_KEY_HEX + 1 \<or> payload ! EGRESS_KEY_HEX \<noteq> CHR '';'' then OFFER_SHAPE
            else if key_diff (key s) payload \<noteq> 0 then OFFER_BADKEY else 0)
      in if refused \<noteq> 0 then s\<lparr>offer_refused := refused, offer_pending := True\<rparr>
         else s\<lparr>offer_spec := take EGRESS_SPEC_MAX (drop (EGRESS_KEY_HEX + 1) payload),
                offer_refused := 0, offer_pending := True\<rparr>)"

text \<open>The result is the C return value (1 or 0). The recorded spec is read as a C string, up to its
  first NUL.\<close>

definition egress_apply_pending :: "u64 \<Rightarrow> egress_state \<Rightarrow> bool \<times> egress_state" where
  "egress_apply_pending now s =
     (if \<not> offer_pending s then (False, s)
      else let s1 = s\<lparr>offer_pending := False\<rparr>; spec = takeWhile (\<lambda>c. c \<noteq> CHR 0x00) (offer_spec s) in
        if offer_refused s \<noteq> 0 then (False, receipt_grant now GRANT_REFUSED AUDIT_V_EPERM s1)
        else case configure_from now spec s1 of
            (False, s2) \<Rightarrow> (False, receipt_grant now GRANT_REFUSED AUDIT_V_EPERM s2)
          | (True, s2) \<Rightarrow> (True, s2))"

section \<open>The frame gates of netdev\<close>

text \<open>\<open>r\<close> is what the bound driver's transmit returns for the frame (\<open>True\<close>: 0, handed to the
  wire); \<open>n\<close> is what its receive returned. The result says whether the frame was carried.\<close>

definition netdev_transmit :: "u64 \<Rightarrow> bool \<Rightarrow> u16 \<Rightarrow> egress_state \<Rightarrow> bool \<times> egress_state" where
  "netdev_transmit now r len s =
     (case egress_active now s of (False, s1) \<Rightarrow> (False, s1)
      | (True, s1) \<Rightarrow> (r, if r then egress_account now (ucast len) s1 else s1))"

definition netdev_receive :: "u64 \<Rightarrow> u16 \<Rightarrow> egress_state \<Rightarrow> u16 \<times> egress_state" where
  "netdev_receive now n s =
     (if n = 0 then (0, s)
      else case egress_active now s of (False, s1) \<Rightarrow> (0, s1)
        | (True, s1) \<Rightarrow> (n, egress_account now (ucast n) s1))"

end
