(* ===== verification/Egress_Props.thy ===== *)
theory Egress_Props
  imports Egress
begin

text \<open>
  What the egress grant guarantees: exact verdicts on the record, a byte budget that binds every
  frame, a parser that only yields well-formed grants and reads back what is rendered, and a
  console escape that needs the host's key.
\<close>

section \<open>Receipts\<close>

lemma receipt_newest:
  assumes "ledger_inv (eg_ledger s)" and "ledger_slots (eg_ledger s) + 1 < LEDGER_LIMIT"
  shows "newest_event (eg_ledger (receipt now pid v dst port proto s)) =
      Some (AUDIT_EGRESS, pid, if v = EGRESS_OK then AUDIT_V_OK else AUDIT_V_EPERM, CAP_RESOURCE_DEVICE_T, dst,
            push_bit 16 (ucast proto) OR ucast port)"
  using ledger.rec_newest [OF assms, of now "(AUDIT_EGRESS, pid, if v = EGRESS_OK then AUDIT_V_OK else AUDIT_V_EPERM,
      CAP_RESOURCE_DEVICE_T, dst, push_bit 16 (ucast proto) OR ucast port)"]
  by (simp add: receipt_def record_event_eq)

lemma receipt_grant_newest:
  assumes "ledger_inv (eg_ledger s)" and "ledger_slots (eg_ledger s) + 1 < LEDGER_LIMIT"
  shows "newest_event (eg_ledger (receipt_grant now what v s)) =
      Some (AUDIT_EGRESS, 0, v, CAP_RESOURCE_DEVICE_T, DEVICE_ID_NET, what)"
  using ledger.rec_newest [OF assms, of now "(AUDIT_EGRESS, 0, v, CAP_RESOURCE_DEVICE_T, DEVICE_ID_NET, what)"]
  by (simp add: receipt_grant_def record_event_eq)

lemma receipt_grant_ledger:
  assumes "ledger_inv (eg_ledger s)" and "ledger_slots (eg_ledger s) + 1 < LEDGER_LIMIT"
  shows "ledger_inv (eg_ledger (receipt_grant now what v s))
    \<and> ledger_slots (eg_ledger (receipt_grant now what v s)) \<le> ledger_slots (eg_ledger s) + 1"
proof -
  let ?e = "(AUDIT_EGRESS, 0, v, CAP_RESOURCE_DEVICE_T, DEVICE_ID_NET, what)"
  have "eg_ledger (receipt_grant now what v s) = record_event now ?e (eg_ledger s)"
    by (simp add: receipt_grant_def record_event_eq)
  then show ?thesis using ledger.rec_inv [OF assms, of now ?e] ledger.rec_slots_le [OF assms, of now ?e] by simp
qed

lemma egress_frame [simp]:
  "live (receipt now pid v dst port proto s) = live s" "configured (receipt now pid v dst port proto s) = configured s"
  "over (receipt now pid v dst port proto s) = over s" "bytes_used (receipt now pid v dst port proto s) = bytes_used s"
  "live (receipt_grant now what w s) = live s" "configured (receipt_grant now what w s) = configured s"
  "over (receipt_grant now what w s) = over s" "bytes_used (receipt_grant now what w s) = bytes_used s"
  "start_tick (receipt_grant now what w s) = start_tick s" "start_tick (receipt now pid v dst port proto s) = start_tick s"
  "live (quiesce now what s) = live s" "configured (quiesce now what s) = configured s"
  "over (quiesce now what s)" "bytes_used (quiesce now what s) = bytes_used s"
  "start_tick (quiesce now what s) = start_tick s"
  by (simp_all add: receipt_def receipt_grant_def quiesce_def)

section \<open>Verdicts\<close>

text \<open>The grant is live: given, not over, ttl not spent.\<close>

definition grant_live :: "u64 \<Rightarrow> egress_state \<Rightarrow> bool" where
  "grant_live now s \<longleftrightarrow> configured s \<and> \<not> over s \<and> now - start_tick s < ttl_ticks (live s)"

definition allows :: "u8 list \<Rightarrow> u16 \<Rightarrow> u8 \<Rightarrow> allow_t \<Rightarrow> bool" where
  "allows dip dport proto a \<longleftrightarrow> al_any a \<or> al_has_ip a \<and> al_ip a = dip \<and> al_port a = dport \<and> al_proto a = proto"

lemma egress_active_iff: "fst (egress_active now s) \<longleftrightarrow> grant_live now s"
  by (auto simp: egress_active_def grant_live_def not_le)

lemma egress_active_frame:
  "live (snd (egress_active now s)) = live s" "configured (snd (egress_active now s)) = configured s"
  "bytes_used (snd (egress_active now s)) = bytes_used s"
  "over (snd (egress_active now s)) \<longleftrightarrow> over s \<or> configured s \<and> \<not> grant_live now s"
  "grant_live now s \<Longrightarrow> snd (egress_active now s) = s"
  by (auto simp: egress_active_def grant_live_def not_le)

lemma egress_active_ledger:
  assumes "ledger_inv (eg_ledger s)" and "ledger_slots (eg_ledger s) + 2 < LEDGER_LIMIT"
  shows "ledger_inv (eg_ledger (snd (egress_active now s)))
    \<and> ledger_slots (eg_ledger (snd (egress_active now s))) + 1 < LEDGER_LIMIT"
  using assms receipt_grant_ledger [of "s\<lparr>over := True\<rparr>" now GRANT_EXPIRED AUDIT_V_OK]
  by (auto simp: egress_active_def quiesce_def)

lemma state_verdict_spec:
  "fst (state_verdict now s) = EGRESS_OK \<longleftrightarrow> grant_live now s"
  "configured s \<Longrightarrow> snd (state_verdict now s) = snd (egress_active now s)"
  "\<not> configured s \<Longrightarrow> snd (state_verdict now s) = s"
  using egress_active_iff [of now s]
  by (auto simp: state_verdict_def grant_live_def split: prod.splits bool.splits)

lemma state_verdict_frame:
  "live (snd (state_verdict now s)) = live s" "configured (snd (state_verdict now s)) = configured s"
  "bytes_used (snd (state_verdict now s)) = bytes_used s"
  "over (snd (state_verdict now s)) \<longleftrightarrow> over s \<or> configured s \<and> \<not> grant_live now s"
  by (cases "configured s"; simp add: state_verdict_spec egress_active_frame)+

lemma allow_walk_OK: "v \<noteq> EGRESS_OK \<Longrightarrow>
  allow_walk v dip dport proto as = EGRESS_OK \<longleftrightarrow> (\<exists>a\<in>set as. allows dip dport proto a)"
  by (induction as arbitrary: v) (auto simp: allows_def)


text \<open>The grant of the witnesses: the DNS server over UDP, for ten seconds, 4096 bytes.\<close>

definition demo_grant :: grant_t where
  "demo_grant = \<lparr>ttl_ticks = 1000, byte_budget = 4096,
     allow = [allow_zero\<lparr>al_has_ip := True, al_ip := [10, 0, 2, 2], al_port := 53, al_proto := EGRESS_PROTO_UDP\<rparr>],
     listen = []\<rparr>"

definition demo_egress :: egress_state where
  "demo_egress = egress_boot\<lparr>configured := True, live := demo_grant, start_tick := 100\<rparr>"


section \<open>The byte budget\<close>

text \<open>A frame in either direction at a time: \<open>TX r len\<close> is handed to the driver (\<open>r\<close>: it accepts
  it), \<open>RX n\<close> was drained from it.\<close>

datatype frame = TX bool u16 | RX u16

fun carry :: "u64 \<times> frame \<Rightarrow> egress_state \<Rightarrow> nat \<times> egress_state" where
  "carry (now, TX r len) s = (case netdev_transmit now r len s of (c, t) \<Rightarrow> (if c then unat len else 0, t))"
| "carry (now, RX n) s = (case netdev_receive now n s of (m, t) \<Rightarrow> (unat m, t))"

fun carry_all :: "(u64 \<times> frame) list \<Rightarrow> egress_state \<Rightarrow> nat \<times> egress_state" where
  "carry_all [] s = (0, s)"
| "carry_all (f # fs) s = (case carry f s of (n, t) \<Rightarrow> case carry_all fs t of (m, u) \<Rightarrow> (n + m, u))"

text \<open>A grant that is not over has budget left.\<close>

definition budget_ok :: "egress_state \<Rightarrow> bool" where
  "budget_ok s \<longleftrightarrow> configured s \<and> (\<not> over s \<longrightarrow> bytes_used s < byte_budget (live s))"

lemma unat_ucast_16_64: "unat (ucast (v :: u16) :: u64) = unat v"
proof -
  have "unat v < 65536" using unsigned_less [of v] by simp
  then show ?thesis by (simp add: unsigned_ucast_eq take_bit_nat_eq_self)
qed

lemma account_spec:
  assumes "configured s" and "\<not> over s" and "bytes_used s < byte_budget (live s)"
    and "unat (byte_budget (live s)) + 65536 \<le> 18446744073709551616"
  shows "unat (bytes_used (egress_account now (ucast (len :: u16)) s)) = unat (bytes_used s) + unat len"
    and "budget_ok (egress_account now (ucast len) s)" and "live (egress_account now (ucast len) s) = live s"
proof -
  have len: "unat len < 65536" using unsigned_less [of len] by simp
  have "ucast (ucast len :: u32) = (ucast len :: u64)" by (rule bit_word_eqI) (auto simp: bit_simps dest: bit_imp_le_length)
  then have u: "unat (bytes_used s + ucast (ucast len :: u32)) = unat (bytes_used s) + unat len"
    using assms(3,4) len unat_ucast_16_64 [of len] by (simp add: unat_word_ariths word_less_nat_alt)
  show "unat (bytes_used (egress_account now (ucast len) s)) = unat (bytes_used s) + unat len"
    "budget_ok (egress_account now (ucast len) s)" "live (egress_account now (ucast len) s) = live s"
    using assms(1,2) u by (auto simp: egress_account_def Let_def budget_ok_def not_le)
qed

text \<open>One frame: nothing once the grant is over or expired; otherwise its bytes are counted.\<close>

lemma carry_spec:
  assumes "budget_ok s" and "unat (byte_budget (live s)) + 65536 \<le> 18446744073709551616"
    and "carry f s = (n, t)"
  shows "budget_ok t \<and> live t = live s \<and> n < 65536 \<and> unat (bytes_used t) = unat (bytes_used s) + n
    \<and> (over s \<longrightarrow> over t \<and> n = 0)"
proof -
  obtain now g where f: "f = (now, g)" by (cases f)
  note act = egress_active_iff [of now s] egress_active_frame [where now = now and s = s]
  have lt: "unat (len :: u16) < 65536" for len using unsigned_less [of len] by simp
  show ?thesis
  proof (cases "grant_live now s")
    case False
    then obtain s1 where "egress_active now s = (False, s1)" "live s1 = live s" "configured s1 = configured s"
      "bytes_used s1 = bytes_used s" "over s1" using act assms(1) by (cases "egress_active now s") (auto simp: budget_ok_def)
    then show ?thesis using assms f
      by (cases g) (auto simp: netdev_transmit_def netdev_receive_def budget_ok_def split: if_splits)
  next
    case True
    then have a: "egress_active now s = (True, s)" using act by (cases "egress_active now s") auto
    have c: "configured s" "\<not> over s" "bytes_used s < byte_budget (live s)"
      using True assms(1) by (auto simp: grant_live_def budget_ok_def)
    note acc = account_spec [OF c assms(2)]
    show ?thesis using assms(1,3) f a c acc lt
      by (cases g) (auto simp: netdev_transmit_def netdev_receive_def split: if_splits)
  qed
qed

lemma carry_all_over: "over s \<Longrightarrow> budget_ok s \<Longrightarrow> unat (byte_budget (live s)) + 65536 \<le> 18446744073709551616 \<Longrightarrow>
  carry_all fs s = (n, t) \<Longrightarrow> n = 0 \<and> over t"
proof (induction fs arbitrary: s n)
  case Nil
  then show ?case by simp
next
  case (Cons f fs)
  obtain m u where c: "carry f s = (m, u)" by (meson surj_pair)
  obtain m' where c': "carry_all fs u = (m', t)" "n = m + m'" using Cons.prems(4) c by (auto split: prod.splits)
  note cs = carry_spec [OF Cons.prems(2,3) c]
  show ?case using Cons.IH [of u m'] cs Cons.prems c' by simp
qed

lemma carry_all_frame: "budget_ok s \<Longrightarrow> unat (byte_budget (live s)) + 65536 \<le> 18446744073709551616 \<Longrightarrow>
  carry_all fs s = (n, t) \<Longrightarrow> live t = live s \<and> budget_ok t"
proof (induction fs arbitrary: s n)
  case Nil
  then show ?case by auto
next
  case (Cons f fs)
  obtain m u where c: "carry f s = (m, u)" by (meson surj_pair)
  obtain m' where "carry_all fs u = (m', t)" using Cons.prems(3) c by (auto split: prod.splits)
  with Cons.IH [of u m'] carry_spec [OF Cons.prems(1,2) c] Cons.prems(2) show ?case by simp
qed

lemma carry_all_bound:
  "budget_ok s \<Longrightarrow> unat (byte_budget (live s)) + 65536 \<le> 18446744073709551616 \<Longrightarrow> carry_all fs s = (n, t) \<Longrightarrow>
   bytes_used s < byte_budget (live s) \<Longrightarrow> unat (bytes_used s) + n < unat (byte_budget (live s)) + 65535"
proof (induction fs arbitrary: s n)
  case Nil
  then show ?case by (simp add: word_less_nat_alt)
next
  case (Cons f fs)
  obtain m u where c: "carry f s = (m, u)" by (meson surj_pair)
  obtain m' where c': "carry_all fs u = (m', t)" and n: "n = m + m'" using Cons.prems(3) c by (auto split: prod.splits)
  note cs = carry_spec [OF Cons.prems(1,2) c]
  show ?case
  proof (cases "over u")
    case True
    then have "m' = 0" using carry_all_over [OF True _ _ c'] cs Cons.prems(2) by simp
    then show ?thesis using cs n Cons.prems(4) by (simp add: word_less_nat_alt)
  next
    case False
    then have "bytes_used u < byte_budget (live u)" using cs by (auto simp: budget_ok_def)
    then show ?thesis using Cons.IH [of u m'] cs Cons.prems(2) c' n by simp
  qed
qed

section \<open>What the parser accepts\<close>

definition allow_ok :: "allow_t \<Rightarrow> bool" where
  "allow_ok a \<longleftrightarrow> al_any a \<or> (al_port a \<noteq> 0 \<and> (al_proto a = EGRESS_PROTO_UDP \<or> al_proto a = EGRESS_PROTO_TCP)
     \<and> (al_has_ip a \<longleftrightarrow> al_host a = []) \<and> length (al_host a) \<le> HOST_MAX \<and> length (al_ip a) = 4)"

definition grant_ok :: "grant_t \<Rightarrow> bool" where
  "grant_ok g \<longleftrightarrow> byte_budget g \<noteq> 0 \<and> length (allow g) \<le> MAX_ALLOW \<and> (\<forall>a\<in>set (allow g). allow_ok a)
     \<and> length (listen g) \<le> MAX_LISTEN \<and> 0 \<notin> set (listen g)"

lemma parse_host_bound: "parse_host k s = Some (h, t) \<Longrightarrow> k \<le> HOST_MAX \<Longrightarrow> k + length h \<le> HOST_MAX"
  by (induction k s arbitrary: h t rule: parse_host.induct) (auto split: if_splits)

lemma parse_ip_from_length: "length (fst (parse_ip_from k s out)) = length out"
  by (induction k s out rule: parse_ip_from.induct) (auto split: option.splits prod.splits)

lemma ucast_port: "(v :: u64) \<noteq> 0 \<Longrightarrow> \<not> v > 65535 \<Longrightarrow> (ucast v :: u16) \<noteq> 0"
proof
  assume v: "v \<noteq> 0" "\<not> v > 65535" and z: "(ucast v :: u16) = 0"
  have "unat v \<le> 65535" using v(2) by (simp add: not_less word_le_nat_alt)
  then have "unat (ucast v :: u16) = unat v" by (simp add: unsigned_ucast_eq take_bit_nat_eq_self)
  with z v(1) show False by (simp add: unat_eq_zero)
qed

lemma parse_port_proto_ok: "parse_port_proto a n = Some (b, t) \<Longrightarrow>
  \<exists>port proto. b = a\<lparr>al_port := port, al_proto := proto\<rparr> \<and> port \<noteq> 0
    \<and> (proto = EGRESS_PROTO_UDP \<or> proto = EGRESS_PROTO_TCP)"
proof -
  assume p: "parse_port_proto a n = Some (b, t)"
  obtain port m where m: "parse_u64 (tl n) = Some (port, m)"
    using p by (cases "parse_u64 (tl n)") (auto simp: parse_port_proto_def)
  then have "port \<noteq> 0 \<and> \<not> port > 65535 \<and> (b = a\<lparr>al_port := ucast port, al_proto := EGRESS_PROTO_UDP\<rparr>
      \<or> b = a\<lparr>al_port := ucast port, al_proto := EGRESS_PROTO_TCP\<rparr>)"
    using p by (auto simp: parse_port_proto_def Let_def split: if_splits)
  then show ?thesis using ucast_port by blast
qed

lemma parse_allow_ok: "parse_allow s = Some (a, t) \<Longrightarrow> allow_ok a"
proof (cases "peek s = CHR ''*'' \<and> delim (peek (tl s))")
  case True
  assume "parse_allow s = Some (a, t)"
  with True show ?thesis by (auto simp: parse_allow_def allow_ok_def)
next
  case False
  assume p: "parse_allow s = Some (a, t)"
  obtain ip n where ip: "parse_ip s (al_ip allow_zero) = (ip, n)" by (meson surj_pair)
  have il: "length ip = 4" using parse_ip_from_length [of 4 s "al_ip allow_zero"] ip by (simp add: parse_ip_def allow_zero_def)
  note e = p [unfolded parse_allow_def if_not_P [OF False] ip Let_def case_prod_conv]
  show ?thesis
  proof (cases "n \<noteq> None \<and> peek (the n) = CHR '':''")
    case True
    with e have "parse_port_proto (allow_zero\<lparr>al_ip := ip, al_has_ip := True\<rparr>) (the n) = Some (a, t)" by simp
    from parse_port_proto_ok [OF this] il show ?thesis by (auto simp: allow_ok_def allow_zero_def)
  next
    case nip: False
    with e obtain h n2 where h: "parse_host 0 s = Some (h, n2)" "h \<noteq> []"
      "parse_port_proto (allow_zero\<lparr>al_ip := ip, al_host := h\<rparr>) n2 = Some (a, t)"
      by (auto simp only: if_not_P split: option.splits prod.splits if_splits)
    from parse_port_proto_ok [OF h(3)] il h(2) parse_host_bound [OF h(1)] show ?thesis
      by (auto simp: allow_ok_def allow_zero_def)
  qed
qed

lemma parse_allows_ok: "parse_allows p as = Some (bs, t) \<Longrightarrow> length as \<le> MAX_ALLOW \<Longrightarrow> \<forall>a\<in>set as. allow_ok a \<Longrightarrow>
  length bs \<le> MAX_ALLOW \<and> (\<forall>a\<in>set bs. allow_ok a)"
proof (induction p as rule: parse_allows.induct)
  case (1 p as)
  show ?case
  proof (cases "peek p = CHR 0x00 \<or> peek p = CHR '';''")
    case True
    with "1.prems" show ?thesis by (subst (asm) parse_allows.simps) simp
  next
    case False
    with "1.prems"(1) obtain a p' where a: "\<not> length as \<ge> MAX_ALLOW" "parse_allow p = Some (a, p')"
      "parse_allows (skip_comma p') (as @ [a]) = Some (bs, t)"
      by (subst (asm) parse_allows.simps) (auto split: if_splits option.splits)
    show ?thesis using "1.IH" [OF False a(1,2) refl a(3)] "1.prems" a parse_allow_ok [OF a(2)] by simp
  qed
qed

lemma parse_listens_ok: "parse_listens p ls = Some (ms, t) \<Longrightarrow> length ls \<le> MAX_LISTEN \<Longrightarrow> 0 \<notin> set ls \<Longrightarrow>
  length ms \<le> MAX_LISTEN \<and> 0 \<notin> set ms"
proof (induction p ls rule: parse_listens.induct)
  case (1 p ls)
  show ?case
  proof (cases "peek p = CHR 0x00 \<or> peek p = CHR '';''")
    case True
    with "1.prems" show ?thesis by (subst (asm) parse_listens.simps) simp
  next
    case False
    with "1.prems"(1) obtain v p' where a: "\<not> length ls \<ge> MAX_LISTEN" "parse_u64 p = Some (v, p')" "\<not> (v = 0 \<or> v > 65535)"
      "parse_listens (skip_comma p') (ls @ [ucast v]) = Some (ms, t)"
      by (subst (asm) parse_listens.simps) (auto split: if_splits option.splits)
    show ?thesis using "1.IH" [OF False a(1,2) refl a(3,4)] "1.prems" a ucast_port [of v] by simp
  qed
qed

text \<open>The running state of the field loop: well-formed so far, budget set once \<open>have_bytes\<close>.\<close>

definition partial_ok :: "grant_t \<times> bool \<times> bool \<Rightarrow> bool" where
  "partial_ok st = (case st of (g, ht, hb) \<Rightarrow> (hb \<longrightarrow> byte_budget g \<noteq> 0) \<and> length (allow g) \<le> MAX_ALLOW
     \<and> (\<forall>a\<in>set (allow g). allow_ok a) \<and> length (listen g) \<le> MAX_LISTEN \<and> 0 \<notin> set (listen g))"

lemma parse_field_ok: "parse_field p st = Some (st', p') \<Longrightarrow> partial_ok st \<Longrightarrow> partial_ok st'"
  by (auto simp: parse_field_def partial_ok_def dest: parse_allows_ok parse_listens_ok
      split: prod.splits if_splits option.splits)

lemma parse_fields_ok: "parse_fields p st = Some st' \<Longrightarrow> partial_ok st \<Longrightarrow> partial_ok st'"
proof (induction p st rule: parse_fields.induct)
  case (1 p st)
  show ?case
  proof (cases "peek p = CHR 0x00")
    case True
    with "1.prems" show ?thesis by (subst (asm) parse_fields.simps) simp
  next
    case False
    with "1.prems"(1) obtain st1 p1 where f: "parse_field p st = Some (st1, p1)"
      and r: "peek p1 = CHR '';'' \<and> parse_fields (tl p1) st1 = Some st'
        \<or> peek p1 \<noteq> CHR '';'' \<and> \<not> peek p1 \<noteq> CHR 0x00 \<and> parse_fields p1 st1 = Some st'"
      by (subst (asm) parse_fields.simps) (auto split: if_splits option.splits)
    have ok: "partial_ok st1" by (rule parse_field_ok [OF f "1.prems"(2)])
    from r show ?thesis
    proof
      assume a: "peek p1 = CHR '';'' \<and> parse_fields (tl p1) st1 = Some st'"
      show ?thesis using "1.IH"(1) [OF False f refl] a ok by simp
    next
      assume a: "peek p1 \<noteq> CHR '';'' \<and> \<not> peek p1 \<noteq> CHR 0x00 \<and> parse_fields p1 st1 = Some st'"
      show ?thesis using "1.IH"(2) [OF False f refl] a ok by simp
    qed
  qed
qed

lemma parse_grant_ok_aux: "parse_grant spec = Some g \<Longrightarrow> grant_ok g"
proof -
  assume "parse_grant spec = Some g"
  then have "parse_fields spec (grant_zero, False, False) = Some (g, True, True)"
    by (auto simp: parse_grant_def split: option.splits if_splits prod.splits)
  from parse_fields_ok [OF this] show ?thesis
    by (simp add: partial_ok_def grant_ok_def grant_zero_def)
qed

text \<open>The spec of the witnesses.\<close>

definition demo_spec :: string where
  "demo_spec = ''ttl=10;bytes=4096;allow=10.0.2.2:53/udp;listen=80''"

definition demo_spec_grant :: grant_t where
  "demo_spec_grant = \<lparr>ttl_ticks = 1000, byte_budget = 4096,
     allow = [allow_zero\<lparr>al_has_ip := True, al_ip := [10, 0, 2, 2], al_port := 53, al_proto := EGRESS_PROTO_UDP\<rparr>],
     listen = [80]\<rparr>"

lemma demo_spec_parse: "parse_grant demo_spec = Some demo_spec_grant"
  by code_simp

text \<open>C38. A grant binds: from the moment a spec is accepted, whatever frames are offered in either
  direction and whenever, the bytes carried stay below the granted budget plus one maximal frame,
  the grant itself is not altered, and once it is over (spent or expired) nothing more is carried.
  The budget must leave room below \<open>2^64\<close> for that last frame.\<close>

theorem egress_budget_binds:
  assumes "configure_from now spec s = (True, s0)"
    and "unat (byte_budget (live s0)) + 65536 \<le> 18446744073709551616"
    and "carry_all fs s0 = (n, t)" and "carry_all gs t = (m, u)"
  shows "n < unat (byte_budget (live s0)) + 65535 \<and> live t = live s0 \<and> (over t \<longrightarrow> m = 0)"
proof -
  obtain g where g: "parse_grant spec = Some g" "live s0 = g" "bytes_used s0 = 0" "\<not> over s0" "configured s0"
    using assms(1) by (auto simp: configure_from_def split: option.splits)
  then have "byte_budget (live s0) \<noteq> 0" using parse_grant_ok_aux by (simp add: grant_ok_def)
  then have b: "bytes_used s0 < byte_budget (live s0)" using g(3) by (simp add: word_gt_0)
  with g have ok: "budget_ok s0" by (simp add: budget_ok_def)
  note f = carry_all_frame [OF ok assms(2,3)]
  show ?thesis
    using carry_all_bound [OF ok assms(2,3) b] f carry_all_over [of t gs m u] assms(2,4) by auto
qed

lemma demo_configured: "\<exists>s0. configure_from 100 demo_spec egress_boot = (True, s0) \<and> live s0 = demo_spec_grant"
  by (simp add: configure_from_def demo_spec_parse)

theorem egress_budget_binds_witness:
  "\<exists>s0 n t. configure_from 100 demo_spec egress_boot = (True, s0)
     \<and> carry_all [(110, RX 1500), (111, TX True 60), (112, RX 1500), (113, RX 1500), (114, RX 1500)] s0 = (n, t)
     \<and> n < 4096 + 65535"
proof -
  obtain s0 where s0: "configure_from 100 demo_spec egress_boot = (True, s0)" "live s0 = demo_spec_grant"
    using demo_configured by blast
  obtain n t where c: "carry_all [(110, RX 1500), (111, TX True 60), (112, RX 1500), (113, RX 1500), (114, RX 1500)] s0 = (n, t)"
    by (meson surj_pair)
  have "carry_all [] t = (0, t)" by simp
  from egress_budget_binds [OF s0(1) _ c this] s0 c show ?thesis by (auto simp: demo_spec_grant_def)
qed



text \<open>Decimal numbers wrap silently. A spec asking for \<open>4611686018427387904\<close> seconds is accepted
  and yields a grant that has already expired (the tick count wraps to 0), and one listening on
  port \<open>18446744073709551696\<close> is accepted and opens port 80.\<close>

theorem egress_numbers_wrap:
  "map_option ttl_ticks (parse_grant ''ttl=4611686018427387904;bytes=4096;allow=*'') = Some 0
   \<and> \<not> grant_live now (st\<lparr>live := the (parse_grant ''ttl=4611686018427387904;bytes=4096;allow=*'')\<rparr>)
   \<and> map_option listen (parse_grant ''ttl=1;bytes=1;listen=18446744073709551696'') = Some [80]"
proof -
  have "parse_grant ''ttl=4611686018427387904;bytes=4096;allow=*'' =
      Some \<lparr>ttl_ticks = 0, byte_budget = 4096, allow = [allow_zero\<lparr>al_any := True\<rparr>], listen = []\<rparr>"
    by code_simp
  moreover have "parse_grant ''ttl=1;bytes=1;listen=18446744073709551696'' =
      Some \<lparr>ttl_ticks = 100, byte_budget = 1, allow = [], listen = [80]\<rparr>"
    by code_simp
  ultimately show ?thesis by (simp add: grant_live_def)
qed

section \<open>The console escape\<close>

lemma u8_of_char: "(of_nat (of_char c) :: u8) = of_nat (of_char d) \<longleftrightarrow> c = d"
proof
  assume e: "(of_nat (of_char c) :: u8) = of_nat (of_char d)"
  have "unat (of_nat (of_char x) :: u8) = of_char x" for x :: char
    by (simp add: unat_of_nat)
  then have "(of_char c :: nat) = of_char d" using e by metis
  then show "c = d" by simp
qed simp

lemma or_zero_iff: "(a OR b :: u8) = 0 \<longleftrightarrow> a = 0 \<and> b = 0"
proof
  assume z: "a OR b = 0"
  have "bit a n = False \<and> bit b n = False" for n
    using arg_cong [OF z, of "\<lambda>w. bit w n"] by (simp add: bit_or_iff)
  then show "a = 0 \<and> b = 0" by (auto intro!: bit_eqI)
qed simp

lemma key_diff_fold:
  "fold (\<lambda>i diff. diff OR (of_nat (of_char (k ! i)) XOR of_nat (of_char (hex_lower (p ! i))))) is (d :: u8) = 0
   \<longleftrightarrow> d = 0 \<and> (\<forall>i\<in>set is. k ! i = hex_lower (p ! i))"
proof (induction "is" arbitrary: d)
  case Nil
  then show ?case by simp
next
  case (Cons i js)
  have x: "(a XOR b :: u8) = 0 \<longleftrightarrow> a = b" for a b
    by (metis xor.right_neutral xor_self_eq xor.assoc xor.commute)
  show ?case by (auto simp: Cons or_zero_iff x u8_of_char)
qed

lemma key_diff_zero: "key_diff k p = 0 \<longleftrightarrow> (\<forall>i<EGRESS_KEY_HEX. k ! i = hex_lower (p ! i))"
  by (auto simp: key_diff_def key_diff_fold)

text \<open>What an escape payload must be to pass.\<close>

definition offer_authentic :: "egress_state \<Rightarrow> string \<Rightarrow> bool" where
  "offer_authentic s payload \<longleftrightarrow> key_set s \<and> EGRESS_KEY_HEX < length payload
     \<and> payload ! EGRESS_KEY_HEX = CHR '';'' \<and> (\<forall>i<EGRESS_KEY_HEX. key s ! i = hex_lower (payload ! i))"

lemma offer_refused_iff:
  "offer_refused (egress_offer payload s) = 0 \<longleftrightarrow> offer_authentic s payload"
  by (auto simp: egress_offer_def offer_authentic_def Let_def key_diff_zero not_less) (meson not_le)

lemma egress_offer_frame:
  "live (egress_offer payload s) = live s" "configured (egress_offer payload s) = configured s"
  "over (egress_offer payload s) = over s" "bytes_used (egress_offer payload s) = bytes_used s"
  "start_tick (egress_offer payload s) = start_tick s" "eg_ledger (egress_offer payload s) = eg_ledger s"
  "offer_pending (egress_offer payload s)"
  by (simp_all add: egress_offer_def Let_def)

text \<open>The console escape needs the host's key. Applying an offered payload activates a grant only
  if a key was set at boot, the payload's first sixteen characters are that key in either letter
  case, a semicolon follows, and the rest parses; every other payload leaves the live grant, its
  counters and its clock untouched and the newest ledger event is the pid-0 refusal.\<close>

theorem egress_escape_keyed:
  assumes "ledger_inv (eg_ledger s)" and "ledger_slots (eg_ledger s) + 1 < LEDGER_LIMIT"
    and "egress_apply_pending now (egress_offer payload s) = (ok, t)"
  shows "if ok then offer_authentic s payload \<and> parse_grant (takeWhile (\<lambda>c. c \<noteq> CHR 0x00)
            (take EGRESS_SPEC_MAX (drop (EGRESS_KEY_HEX + 1) payload))) = Some (live t)
    else live t = live s \<and> configured t = configured s \<and> over t = over s \<and> bytes_used t = bytes_used s
      \<and> start_tick t = start_tick s
      \<and> newest_event (eg_ledger t) = Some (AUDIT_EGRESS, 0, AUDIT_V_EPERM, CAP_RESOURCE_DEVICE_T, DEVICE_ID_NET, GRANT_REFUSED)"
proof -
  let ?o = "egress_offer payload s"
  define s1 where "s1 = ?o\<lparr>offer_pending := False\<rparr>"
  have led: "ledger_inv (eg_ledger s1)" "ledger_slots (eg_ledger s1) + 1 < LEDGER_LIMIT"
    using assms(1,2) by (simp_all add: s1_def egress_offer_frame)
  note fr = egress_offer_frame [of payload s] and rn = receipt_grant_newest [OF led, of now GRANT_REFUSED AUDIT_V_EPERM]
  show ?thesis
  proof (cases "offer_authentic s payload")
    case False
    then have "(ok, t) = (False, receipt_grant now GRANT_REFUSED AUDIT_V_EPERM s1)"
      using assms(3) offer_refused_iff [of payload s] fr by (simp add: egress_apply_pending_def Let_def s1_def)
    then show ?thesis using rn fr by (simp add: s1_def)
  next
    case True
    then have sp: "offer_spec ?o = take EGRESS_SPEC_MAX (drop (EGRESS_KEY_HEX + 1) payload)"
      using offer_refused_iff [of payload s] by (auto simp: egress_offer_def Let_def split: if_splits)
    define spec where "spec = takeWhile (\<lambda>c. c \<noteq> CHR 0x00) (offer_spec ?o)"
    have e: "(ok, t) = (case configure_from now spec s1 of
            (False, s2) \<Rightarrow> (False, receipt_grant now GRANT_REFUSED AUDIT_V_EPERM s2)
          | (True, s2) \<Rightarrow> (True, s2))"
      using assms(3) True offer_refused_iff [of payload s] fr by (simp add: egress_apply_pending_def Let_def s1_def spec_def)
    show ?thesis
    proof (cases "parse_grant spec")
      case None
      then have "(ok, t) = (False, receipt_grant now GRANT_REFUSED AUDIT_V_EPERM s1)"
        using e by (simp add: configure_from_def)
      then show ?thesis using rn fr by (simp add: s1_def)
    next
      case (Some g)
      then have "ok" "live t = g" using e by (simp_all add: configure_from_def)
      then show ?thesis using True Some sp by (simp add: spec_def)
    qed
  qed
qed

theorem egress_escape_keyed_witness:
  "fst (egress_apply_pending 200 (egress_offer ''00112233445566ff;ttl=1;bytes=1''
      (egress_set_key ''00112233445566FF'' egress_boot)))
   \<and> \<not> fst (egress_apply_pending 200 (egress_offer ''00112233445566ff;ttl=1;bytes=1'' egress_boot))
   \<and> live (snd (egress_apply_pending 200 (egress_offer ''00112233445566ff;ttl=1;bytes=1'' egress_boot))) = grant_zero"
proof -
  have l: "ledger_inv (eg_ledger egress_boot)" "ledger_slots (eg_ledger egress_boot) + 1 < LEDGER_LIMIT"
    by (simp_all add: egress_boot_def ledger_inv_boot) (simp add: ledger_slots_def audit_boot_def)
  have "\<not> offer_authentic egress_boot ''00112233445566ff;ttl=1;bytes=1''"
    by (simp add: offer_authentic_def egress_boot_def)
  then have "\<not> fst (egress_apply_pending 200 (egress_offer ''00112233445566ff;ttl=1;bytes=1'' egress_boot))"
    and "live (snd (egress_apply_pending 200 (egress_offer ''00112233445566ff;ttl=1;bytes=1'' egress_boot))) = grant_zero"
    using egress_escape_keyed [OF l surjective_pairing, of 200 "''00112233445566ff;ttl=1;bytes=1''"]
    by (auto simp: egress_boot_def split: if_splits)
  moreover have "fst (egress_apply_pending 200 (egress_offer ''00112233445566ff;ttl=1;bytes=1''
      (egress_set_key ''00112233445566FF'' egress_boot)))"
  proof -
    define s where "s = egress_set_key ''00112233445566FF'' egress_boot"
    have k: "key_store 0 ''00112233445566FF'' (replicate 16 (CHR 0x00)) = (''00112233445566ff'', True)" by code_simp
    then have s: "key_set s" "key s = ''00112233445566ff''"
      by (simp_all add: s_def egress_set_key_def egress_boot_def)
    have "list_all (\<lambda>i. ''00112233445566ff'' ! i = hex_lower (''00112233445566ff;ttl=1;bytes=1'' ! i)) [0..<16]"
      by code_simp
    then have "key_diff ''00112233445566ff'' ''00112233445566ff;ttl=1;bytes=1'' = 0"
      by (simp only: key_diff_zero list_all_iff) simp
    moreover have "parse_grant ''ttl=1;bytes=1'' \<noteq> None" by code_simp
    ultimately show ?thesis
      unfolding s_def [symmetric] using s
      by (auto simp: egress_apply_pending_def egress_offer_def configure_from_def split: option.split)
  qed
  ultimately show ?thesis by blast
qed

end
