(* ===== verification/Field.thy ===== *)
theory Field
  imports Prelude "HOL-Library.Signed_Division"
begin

text \<open>
  The holographic field (\<open>kernel/src/field.c\<close>, \<open>kernel/include/kernel/field.h\<close>): eight regions of
  eight pattern slots, imprint with eviction, ranked recall, introspection, scrub, and the durable
  blob. Q15 quantities and the 64-bit accumulators of the wavefront arithmetic are \<open>int\<close> (the
  theorems below show the ranges, so no operation wraps); tick and square-root arithmetic is
  on \<open>64 word\<close>. Region, slot and length arguments are \<open>nat\<close>; \<open>bytes[]\<close> and \<open>h_q15[]\<close> are lists
  of length 64.
\<close>

section \<open>Data\<close>

abbreviation (input) FIELD_REGION_COUNT :: nat where "FIELD_REGION_COUNT \<equiv> 8"
abbreviation (input) FIELD_SLOTS :: nat where "FIELD_SLOTS \<equiv> 8"
abbreviation (input) FIELD_PAT_MAX :: nat where "FIELD_PAT_MAX \<equiv> 64"
abbreviation (input) FIELD_RANK_MAX :: nat where "FIELD_RANK_MAX \<equiv> 8"
abbreviation (input) FIELD_PREVIEW :: nat where "FIELD_PREVIEW \<equiv> 16"
abbreviation (input) FIELD_ENERGY_MAX :: int where "FIELD_ENERGY_MAX \<equiv> 0x7FFF"
abbreviation (input) FIELD_ENERGY_MIN :: int where "FIELD_ENERGY_MIN \<equiv> 0x0800"
abbreviation (input) FIELD_ENERGY_DEFAULT :: int where "FIELD_ENERGY_DEFAULT \<equiv> 0x4000"
abbreviation (input) FIELD_DECAY_SHIFT :: nat where "FIELD_DECAY_SHIFT \<equiv> 8"

record field_slot_t =
  alive :: bool
  flen :: nat
  retrievals :: u32
  energy_q15 :: int
  imprint_tick :: u64
  fbytes :: bytes
  h_q15 :: "int list"

record field_state =
  regions :: "nat \<Rightarrow> nat \<Rightarrow> field_slot_t"
  region_inheritable :: "nat \<Rightarrow> bool"

record field_recall_out_k_t =
  fo_n :: nat
  fo_rank :: "(nat \<times> int) list"
  fo_winner_len :: nat
  fo_winner :: bytes

record field_slot_info_k_t =
  si_slot :: nat
  si_len :: nat
  si_energy :: int
  si_eff_energy :: int
  si_retrievals :: u32
  si_age_ticks :: u32
  si_preview :: bytes

record field_info_out_k_t =
  fi_region :: nat
  fi_live :: nat
  fi_capacity :: nat
  fi_slots :: "field_slot_info_k_t list"

definition slot_clear :: field_slot_t where
  "slot_clear = \<lparr>alive = False, flen = 0, retrievals = 0, energy_q15 = 0, imprint_tick = 0,
     fbytes = replicate 64 0, h_q15 = replicate 64 0\<rparr>"

definition field_boot :: field_state where
  "field_boot = \<lparr>regions = (\<lambda>_ _. slot_clear), region_inheritable = (\<lambda>_. False)\<rparr>"

section \<open>Integer helpers\<close>

text \<open>\<open>isqrt_u64\<close>: the start-bit loop and the digit loop.\<close>

function isqrt_start :: "u64 \<Rightarrow> u64 \<Rightarrow> u64" where
  "isqrt_start x bt = (if bt > x then isqrt_start x (drop_bit 2 bt) else bt)"
  by pat_completeness auto

lemma drop_bit_2_less: "0 < bt \<Longrightarrow> unat (drop_bit 2 bt) < unat (bt :: u64)"
proof -
  assume "0 < bt"
  then have "0 < unat bt" by (simp add: word_less_nat_alt)
  then show ?thesis by (simp add: drop_bit_eq_div unat_div)
qed

termination isqrt_start
proof (relation "measure (\<lambda>(x, bt). unat bt)")
  fix x bt :: u64
  assume "bt > x"
  then have "0 < bt" by (metis word_gt_0 word_not_simps(1))
  then show "((x, drop_bit 2 bt), (x, bt)) \<in> measure (\<lambda>(x, bt). unat bt)"
    using drop_bit_2_less by simp
qed simp

function isqrt_loop :: "u64 \<Rightarrow> u64 \<Rightarrow> u64 \<Rightarrow> u64" where
  "isqrt_loop x root bt =
     (if bt \<noteq> 0 then
        (if x \<ge> root + bt then isqrt_loop (x - (root + bt)) (drop_bit 1 root + bt) (drop_bit 2 bt)
         else isqrt_loop x (drop_bit 1 root) (drop_bit 2 bt))
      else root)"
  by pat_completeness auto

termination isqrt_loop
  by (relation "measure (\<lambda>(x, root, bt). unat bt)") (auto intro!: drop_bit_2_less simp: word_gt_0)

declare isqrt_start.simps [simp del] isqrt_loop.simps [simp del]

definition isqrt_u64 :: "u64 \<Rightarrow> u32" where
  "isqrt_u64 x = ucast (isqrt_loop x 0 (isqrt_start x (push_bit 62 1)))"

definition clamp_q15 :: "int \<Rightarrow> int" where
  "clamp_q15 v = (let v = (if v > 32767 then 32767 else v) in if v < - 32767 then - 32767 else v)"

text \<open>\<open>bytes\<close> is the first \<open>len\<close> bytes of the pattern, \<open>None\<close> the degenerate return -1. C's \<open>/\<close> on
  signed operands is \<open>sdiv\<close>.\<close>

definition centered :: "bytes \<Rightarrow> int list" where
  "centered bs = (let mean = (sum_list (map uint bs) * 256) sdiv int (length bs)
     in map (\<lambda>b. uint b * 256 - mean) bs)"

definition wavefront :: "bytes \<Rightarrow> int list option" where
  "wavefront bs =
     (let c = centered bs; mag2 = sum_list (map (\<lambda>v. word_of_int (v * v)) c) :: u64 in
      if mag2 = 0 then None
      else let mag = isqrt_u64 mag2 in
        if mag = 0 then None
        else Some (map (\<lambda>v. clamp_q15 ((v * 32767) sdiv sint mag)) c))"

definition cosine_q15 :: "int list \<Rightarrow> int list \<Rightarrow> int" where
  "cosine_q15 a b = clamp_q15 (drop_bit 15 (sum_list (map2 (*) a b)))"

definition field_age :: "field_slot_t \<Rightarrow> u64 \<Rightarrow> u64" where
  "field_age s now = (if now \<ge> imprint_tick s then now - imprint_tick s else 0)"

definition effective_energy :: "field_slot_t \<Rightarrow> u64 \<Rightarrow> int" where
  "effective_energy s now =
     (let decay = drop_bit FIELD_DECAY_SHIFT (field_age s now); energy = energy_q15 s in
      if decay \<ge> word_of_int (energy - FIELD_ENERGY_MIN) then FIELD_ENERGY_MIN
      else energy - sint (ucast decay :: u32))"

section \<open>Imprint and recall\<close>

definition clamp_energy :: "int \<Rightarrow> int" where
  "clamp_energy e = (let e = (if e < FIELD_ENERGY_MIN then FIELD_ENERGY_MIN else e)
     in if e > FIELD_ENERGY_MAX then FIELD_ENERGY_MAX else e)"

text \<open>The eviction scan: the lowest effective energy, first on a tie.\<close>

definition weakest_slot :: "(nat \<Rightarrow> field_slot_t) \<Rightarrow> u64 \<Rightarrow> nat" where
  "weakest_slot r now = snd (fold (\<lambda>i (weakest, target).
       let eff = effective_energy (r i) now in if eff < weakest then (eff, i) else (weakest, target))
     [1..<FIELD_SLOTS] (effective_energy (r 0) now, 0))"

definition imprint_target :: "(nat \<Rightarrow> field_slot_t) \<Rightarrow> u64 \<Rightarrow> nat" where
  "imprint_target r now = (case first_idx (\<lambda>i. \<not> alive (r i)) 0 FIELD_SLOTS of
     Some i \<Rightarrow> i | None \<Rightarrow> weakest_slot r now)"

definition pad :: "'a::zero list \<Rightarrow> 'a list" where
  "pad xs = xs @ replicate (64 - length xs) 0"

definition set_slot :: "nat \<Rightarrow> nat \<Rightarrow> field_slot_t \<Rightarrow> field_state \<Rightarrow> field_state" where
  "set_slot rg i sl st = st\<lparr>regions := (regions st)(rg := (regions st rg)(i := sl))\<rparr>"

text \<open>\<open>None\<close> is the return value -1. \<open>pattern\<close> is the caller's 64-byte buffer (\<open>None\<close>: NULL).\<close>

definition field_imprint ::
    "nat \<Rightarrow> bytes option \<Rightarrow> nat \<Rightarrow> int \<Rightarrow> u64 \<Rightarrow> field_state \<Rightarrow> nat option \<times> field_state" where
  "field_imprint rg pattern len energy now st =
     (case pattern of None \<Rightarrow> (None, st)
      | Some p \<Rightarrow>
        if rg \<ge> FIELD_REGION_COUNT \<or> len = 0 \<or> len > FIELD_PAT_MAX then (None, st)
        else case wavefront (take len p) of None \<Rightarrow> (None, st)
        | Some h \<Rightarrow>
            let e = clamp_energy (if energy = 0 then FIELD_ENERGY_DEFAULT else energy);
                target = imprint_target (regions st rg) now
            in (Some target, set_slot rg target
                  \<lparr>alive = True, flen = len, retrievals = 0, energy_q15 = e, imprint_tick = now,
                   fbytes = pad (take len p), h_q15 = pad h\<rparr> st))"

definition recall_zero :: field_recall_out_k_t where
  "recall_zero = \<lparr>fo_n = 0, fo_rank = replicate 8 (0, 0), fo_winner_len = 0, fo_winner = replicate 64 0\<rparr>"

text \<open>The scored live slots, in slot order: (slot, score).\<close>

definition slot_score :: "int list \<Rightarrow> field_slot_t \<Rightarrow> u64 \<Rightarrow> int" where
  "slot_score hp s now = drop_bit 15 (cosine_q15 hp (take (flen s) (h_q15 s)) * effective_energy s now)"

definition recall_scores :: "int list \<Rightarrow> (nat \<Rightarrow> field_slot_t) \<Rightarrow> u64 \<Rightarrow> (nat \<times> int) list" where
  "recall_scores hp r now = map (\<lambda>i. (i, slot_score hp (r i) now)) (filter (\<lambda>i. alive (r i)) [0..<FIELD_SLOTS])"

text \<open>One round of the selection sort: the best entry from \<open>a\<close> on, swapped into place.\<close>

definition best_from :: "(nat \<times> int) list \<Rightarrow> nat \<Rightarrow> nat" where
  "best_from xs a = fold (\<lambda>b best. if snd (xs ! b) > snd (xs ! best) then b else best) [Suc a..<length xs] a"

definition swap_at :: "nat \<Rightarrow> nat \<Rightarrow> 'a list \<Rightarrow> 'a list" where
  "swap_at i j xs = (xs[i := xs ! j])[j := xs ! i]"

definition select_top :: "nat \<Rightarrow> (nat \<times> int) list \<Rightarrow> (nat \<times> int) list" where
  "select_top want xs = fold (\<lambda>a xs. swap_at a (best_from xs a) xs) [0..<want] xs"

definition reinforce_slot :: "u64 \<Rightarrow> field_slot_t \<Rightarrow> field_slot_t" where
  "reinforce_slot now w = w\<lparr>retrievals := retrievals w + 1,
     energy_q15 := energy_q15 w + drop_bit 4 (FIELD_ENERGY_MAX - energy_q15 w), imprint_tick := now\<rparr>"

definition field_recall ::
    "nat \<Rightarrow> bytes option \<Rightarrow> nat \<Rightarrow> nat \<Rightarrow> bool \<Rightarrow> u64 \<Rightarrow> field_state \<Rightarrow> field_recall_out_k_t option \<times> field_state" where
  "field_recall rg probe len k reinforce now st =
     (case probe of None \<Rightarrow> (None, st)
      | Some p \<Rightarrow>
        if rg \<ge> FIELD_REGION_COUNT \<or> len = 0 \<or> len > FIELD_PAT_MAX \<or> k = 0 \<or> k > FIELD_RANK_MAX then (None, st)
        else case wavefront (take len p) of None \<Rightarrow> (Some recall_zero, st)
        | Some hp \<Rightarrow>
            let r = regions st rg; scored = recall_scores hp r now in
            if scored = [] then (Some recall_zero, st)
            else let want = min k (length scored); ranked = select_top want scored;
                     wi = fst (hd ranked); w = r wi
              in (Some \<lparr>fo_n = want, fo_rank = take want ranked @ replicate (8 - want) (0, 0),
                        fo_winner_len = flen w, fo_winner = pad (take (flen w) (fbytes w))\<rparr>,
                  if reinforce then set_slot rg wi (reinforce_slot now w) st else st))"

section \<open>Introspection and scrub\<close>

definition slot_info :: "nat \<Rightarrow> field_slot_t \<Rightarrow> u64 \<Rightarrow> field_slot_info_k_t" where
  "slot_info i s now = \<lparr>si_slot = i, si_len = flen s, si_energy = energy_q15 s,
     si_eff_energy = effective_energy s now, si_retrievals = retrievals s,
     si_age_ticks = (if field_age s now > 0xFFFFFFFF then 0xFFFFFFFF else ucast (field_age s now)),
     si_preview = (let pv = min (flen s) FIELD_PREVIEW in take pv (fbytes s) @ replicate (16 - pv) 0)\<rparr>"

definition info_zero :: field_slot_info_k_t where
  "info_zero = \<lparr>si_slot = 0, si_len = 0, si_energy = 0, si_eff_energy = 0, si_retrievals = 0,
     si_age_ticks = 0, si_preview = replicate 16 0\<rparr>"

text \<open>The output struct always comes back, zeroed on a bad region; the flag is "not -1".\<close>

definition field_region_info :: "nat \<Rightarrow> u64 \<Rightarrow> field_state \<Rightarrow> bool \<times> field_info_out_k_t" where
  "field_region_info rg now st =
     (if rg \<ge> FIELD_REGION_COUNT
      then (False, \<lparr>fi_region = 0, fi_live = 0, fi_capacity = 0, fi_slots = replicate 8 info_zero\<rparr>)
      else let r = regions st rg;
               infos = map (\<lambda>i. slot_info i (r i) now) (filter (\<lambda>i. alive (r i)) [0..<FIELD_SLOTS])
        in (True, \<lparr>fi_region = rg, fi_live = length infos, fi_capacity = FIELD_SLOTS,
                   fi_slots = infos @ replicate (8 - length infos) info_zero\<rparr>))"

definition field_region_scrub :: "nat \<Rightarrow> field_state \<Rightarrow> field_state" where
  "field_region_scrub rg st =
     (if rg \<ge> FIELD_REGION_COUNT then st
      else st\<lparr>regions := (regions st)(rg := (\<lambda>i. if i < FIELD_SLOTS then slot_clear else regions st rg i))\<rparr>)"

section \<open>The durable blob\<close>

abbreviation (input) FIELD_BLOB_MAGIC :: u32 where "FIELD_BLOB_MAGIC \<equiv> 0x314C4651"
abbreviation (input) FIELD_BLOB_VERSION :: u32 where "FIELD_BLOB_VERSION \<equiv> 1"
abbreviation (input) FIELD_SLOT_REC_BYTES :: nat where "FIELD_SLOT_REC_BYTES \<equiv> 76"
abbreviation (input) FIELD_BLOB_BYTES :: nat where "FIELD_BLOB_BYTES \<equiv> 4888"
abbreviation (input) FIELD_BLOB_BUF :: nat where "FIELD_BLOB_BUF \<equiv> 5120"

definition slot_record :: "field_slot_t \<Rightarrow> bytes" where
  "slot_record s = [if alive s then 1 else 0, of_nat (flen s), 0, 0] @ le32 (retrievals s)
     @ le32 (word_of_int (energy_q15 s)) @ fbytes s"

definition slot_grid :: "field_state \<Rightarrow> field_slot_t list" where
  "slot_grid st = map (\<lambda>n. regions st (n div FIELD_SLOTS) (n mod FIELD_SLOTS)) [0..<FIELD_REGION_COUNT * FIELD_SLOTS]"

text \<open>The written buffer (the whole of it is zeroed first) and the returned live count.\<close>

definition field_blob_write :: "field_state \<Rightarrow> bytes \<times> nat" where
  "field_blob_write st =
     (le32 FIELD_BLOB_MAGIC @ le32 FIELD_BLOB_VERSION @ le32 (of_nat FIELD_REGION_COUNT)
        @ le32 (of_nat FIELD_SLOTS) @ le32 (of_nat FIELD_PAT_MAX) @ [0, 0, 0, 0]
        @ concat (map slot_record (slot_grid st)) @ replicate (FIELD_BLOB_BUF - FIELD_BLOB_BYTES) 0,
      length (filter alive (slot_grid st)))"

text \<open>One record of the load: the slot it restores, or the scrubbed slot.\<close>

definition slot_of_record :: "bytes \<Rightarrow> field_slot_t" where
  "slot_of_record rec =
     (let slen = unat (rec ! 1) in
      if rec ! 0 \<noteq> 1 \<or> slen = 0 \<or> slen > FIELD_PAT_MAX then slot_clear
      else case wavefront (take slen (drop 12 rec)) of None \<Rightarrow> slot_clear
        | Some h \<Rightarrow> \<lparr>alive = True, flen = slen, retrievals = get32 rec 4,
            energy_q15 = clamp_energy (sint (get32 rec 8)), imprint_tick = 0,
            fbytes = pad (take slen (drop 12 rec)), h_q15 = pad h\<rparr>)"

definition blob_record :: "bytes \<Rightarrow> nat \<Rightarrow> bytes" where
  "blob_record b n = take FIELD_SLOT_REC_BYTES (drop (24 + FIELD_SLOT_REC_BYTES * n) b)"

text \<open>\<open>None\<close> is the return value -1.\<close>

definition field_blob_load :: "bytes \<Rightarrow> nat \<Rightarrow> field_state \<Rightarrow> nat option \<times> field_state" where
  "field_blob_load b len st =
     (if len < FIELD_BLOB_BYTES then (None, st)
      else if get32 b 0 \<noteq> FIELD_BLOB_MAGIC \<or> get32 b 4 \<noteq> FIELD_BLOB_VERSION
           \<or> get32 b 8 \<noteq> of_nat FIELD_REGION_COUNT \<or> get32 b 12 \<noteq> of_nat FIELD_SLOTS
           \<or> get32 b 16 \<noteq> of_nat FIELD_PAT_MAX then (None, st)
      else let slot = (\<lambda>rg i. slot_of_record (blob_record b (rg * FIELD_SLOTS + i)));
               live = (\<lambda>rg. length (filter (\<lambda>i. alive (slot rg i)) [0..<FIELD_SLOTS]))
        in (Some (sum_list (map live [0..<FIELD_REGION_COUNT])),
            \<lparr>regions = (\<lambda>rg i. if rg < FIELD_REGION_COUNT \<and> i < FIELD_SLOTS then slot rg i else regions st rg i),
             region_inheritable = (\<lambda>rg. if rg < FIELD_REGION_COUNT then live rg > 0
                                         else region_inheritable st rg)\<rparr>))"

definition field_region_inherit_peek :: "nat \<Rightarrow> field_state \<Rightarrow> bool" where
  "field_region_inherit_peek rg st \<longleftrightarrow> rg < FIELD_REGION_COUNT \<and> region_inheritable st rg"

definition field_region_inherit_consume :: "nat \<Rightarrow> field_state \<Rightarrow> field_state" where
  "field_region_inherit_consume rg st =
     (if rg < FIELD_REGION_COUNT then st\<lparr>region_inheritable := (region_inheritable st)(rg := False)\<rparr> else st)"

end
