(* ===== verification/Field_Math.thy ===== *)
theory Field_Math
  imports Field
begin

text \<open>
  The integer arithmetic of the field: \<open>isqrt_u64\<close> is the floor square root of every 64-bit value,
  a wavefront exists exactly for patterns with two different bytes, and every Q15 quantity stays in
  its range.
\<close>

section \<open>The integer square root\<close>

lemma unat_plus_small: "unat a + unat b < 18446744073709551616 \<Longrightarrow> unat (a + b :: u64) = unat a + unat b"
  by (simp add: unat_word_ariths)

lemma unat_drop_bit_u64:
  "unat (drop_bit (Suc 0) (w :: u64)) = unat w div 2" "unat (drop_bit 2 (w :: u64)) = unat w div 4"
  by (simp_all add: drop_bit_eq_div unat_div)

lemma four_power: "(4 :: nat) ^ k = 2 ^ k * 2 ^ k"
  by (simp add: power_mult_distrib [symmetric])

text \<open>One digit: \<open>R\<close> is the root found so far, a multiple of the digits to come; the remainder is
  kept in \<open>x\<close> and \<open>root\<close> holds the doubled, shifted root.\<close>

lemma isqrt_room:
  assumes "k \<le> 31" and "R + 2 ^ (k + 1) \<le> (4294967296 :: nat)"
  shows "R * 2 ^ (k + 1) + 4 ^ k < 18446744073709551616"
proof -
  let ?p = "2 ^ k :: nat"
  have p: "?p \<le> 2147483648" using power_increasing [OF assms(1), of "2 :: nat"] by simp
  have "R * 2 ^ (k + 1) + 4 ^ k + 3 * (?p * ?p) = (R + 2 * ?p) * (2 * ?p)" by (simp add: four_power algebra_simps)
  also have "\<dots> \<le> 4294967296 * (2 * ?p)" using assms(2) by (intro mult_right_mono) simp_all
  also have "\<dots> \<le> 4294967296 * (2 * 2147483648)" using p by simp
  finally have "R * 2 ^ (k + 1) + 4 ^ k + 3 * (?p * ?p) \<le> 18446744073709551616" by simp
  moreover have "0 < ?p * ?p" by simp
  ultimately show ?thesis by linarith
qed

text \<open>One round, whatever \<open>k\<close>.\<close>

lemma isqrt_round:
  fixes bt root x :: u64 and k R :: nat
  assumes bt: "unat bt = 4 ^ k" and k: "k \<le> 31" and rt: "unat root = R * 2 ^ (k + 1)" and x: "unat x + R * R = x0"
    and up: "x0 < (R + 2 ^ (k + 1)) * (R + 2 ^ (k + 1))" and rm: "R + 2 ^ (k + 1) \<le> 4294967296"
  shows "\<exists>x' root' R'. isqrt_loop x root bt = isqrt_loop x' root' (drop_bit 2 bt)
      \<and> unat root' = R' * 2 ^ k \<and> unat x' + R' * R' = x0 \<and> x0 < (R' + 2 ^ k) * (R' + 2 ^ k)
      \<and> R' + 2 ^ k \<le> 4294967296"
proof -
  let ?p = "2 ^ k :: nat"
  have nz: "bt \<noteq> 0" using bt by (auto simp: unat_eq_zero [symmetric])
  have s: "unat (root + bt) = R * 2 ^ (k + 1) + 4 ^ k"
    using isqrt_room [OF k rm] bt rt by (simp add: unat_plus_small)
  have h: "unat (drop_bit 1 root) = R * ?p" using rt by (simp add: unat_drop_bit_u64)
  have sq: "R * R + (R * 2 ^ (k + 1) + 4 ^ k) = (R + ?p) * (R + ?p)" by (simp add: four_power algebra_simps)
  show ?thesis
  proof (cases "x \<ge> root + bt")
    case True
    then have "unat (x - (root + bt)) = unat x - unat (root + bt)" "unat (root + bt) \<le> unat x"
      by (simp_all add: unat_sub word_le_nat_alt)
    then have "unat (x - (root + bt)) + (R + ?p) * (R + ?p) = x0" using s sq x by simp
    moreover have "unat (drop_bit 1 root + bt) = (R + ?p) * ?p"
    proof -
      have "unat (drop_bit 1 root) + unat bt < 18446744073709551616"
        using isqrt_room [OF k rm] bt rt h by simp
      then show ?thesis using h bt by (simp add: unat_plus_small four_power algebra_simps)
    qed
    moreover have "isqrt_loop x root bt = isqrt_loop (x - (root + bt)) (drop_bit 1 root + bt) (drop_bit 2 bt)"
      using nz True by (subst isqrt_loop.simps) simp
    ultimately show ?thesis
      using up rm by - (rule exI [of _ "x - (root + bt)"], rule exI [of _ "drop_bit 1 root + bt"],
          rule exI [of _ "R + ?p"], simp add: algebra_simps)
  next
    case False
    then have "unat x < R * 2 ^ (k + 1) + 4 ^ k" using s by (simp add: word_le_nat_alt)
    then have "x0 < (R + ?p) * (R + ?p)" using x sq by simp
    moreover have "isqrt_loop x root bt = isqrt_loop x (drop_bit 1 root) (drop_bit 2 bt)"
      using nz False by (subst isqrt_loop.simps) simp
    ultimately show ?thesis
      using h x rm by - (rule exI [of _ x], rule exI [of _ "drop_bit 1 root"], rule exI [of _ R], simp)
  qed
qed

lemma isqrt_loop_spec:
  "unat bt = 4 ^ k \<Longrightarrow> k \<le> 31 \<Longrightarrow> unat root = R * 2 ^ (k + 1) \<Longrightarrow> unat x + R * R = x0 \<Longrightarrow>
   x0 < (R + 2 ^ (k + 1)) * (R + 2 ^ (k + 1)) \<Longrightarrow> R + 2 ^ (k + 1) \<le> 4294967296 \<Longrightarrow>
   unat (isqrt_loop x root bt) * unat (isqrt_loop x root bt) \<le> x0
   \<and> x0 < (unat (isqrt_loop x root bt) + 1) * (unat (isqrt_loop x root bt) + 1)
   \<and> unat (isqrt_loop x root bt) < 4294967296"
proof (induction k arbitrary: bt root x R)
  case 0
    from isqrt_round [OF "0"] obtain x' root' R' where r: "isqrt_loop x root bt = isqrt_loop x' root' (drop_bit 2 bt)"
      "unat root' = R' * 2 ^ 0" "unat x' + R' * R' = x0" "x0 < (R' + 2 ^ 0) * (R' + 2 ^ 0)" "R' + 2 ^ 0 \<le> 4294967296" by blast
    have "unat (drop_bit 2 bt) = 0" using 0 by (simp add: unat_drop_bit_u64)
    then have "isqrt_loop x' root' (drop_bit 2 bt) = root'" by (subst isqrt_loop.simps) (simp add: unat_eq_zero)
    then have e: "isqrt_loop x root bt = root'" using r(1) by simp
    show ?case unfolding e using r by simp
  next
    case (Suc k)
    from isqrt_round [OF Suc.prems] obtain x' root' R' where r: "isqrt_loop x root bt = isqrt_loop x' root' (drop_bit 2 bt)"
      "unat root' = R' * 2 ^ Suc k" "unat x' + R' * R' = x0" "x0 < (R' + 2 ^ Suc k) * (R' + 2 ^ Suc k)"
      "R' + 2 ^ Suc k \<le> 4294967296" by blast
    have b: "unat (drop_bit 2 bt) = 4 ^ k" using Suc.prems(1) by (simp add: unat_drop_bit_u64)
    show ?case unfolding r(1) using Suc.IH [OF b, of root' R' x'] r Suc.prems(2) by simp
qed

lemma isqrt_start_spec:
  "unat bt = 4 ^ j \<Longrightarrow> unat x < 4 ^ (j + 1) \<Longrightarrow>
   (isqrt_start x bt = 0 \<and> x = 0) \<or> (\<exists>k\<le>j. unat (isqrt_start x bt) = 4 ^ k \<and> unat x < 4 ^ (k + 1))"
proof (induction j arbitrary: bt)
  case 0
  show ?case
  proof (cases "bt > x")
    case True
    then have x: "x = 0" using 0 by (simp add: word_less_nat_alt unat_eq_zero)
    have d: "drop_bit 2 bt = 0" using 0 by (simp add: unat_eq_zero [symmetric] unat_drop_bit_u64)
    have "isqrt_start x bt = isqrt_start x 0" using True d by (subst isqrt_start.simps) simp
    also have "\<dots> = 0" by (subst isqrt_start.simps) (simp add: x)
    finally show ?thesis using x by simp
  next
    case False
    then have "isqrt_start x bt = bt" by (subst isqrt_start.simps) simp
    then show ?thesis using 0 by auto
  qed
next
  case (Suc j)
  show ?case
  proof (cases "bt > x")
    case True
    then have "isqrt_start x bt = isqrt_start x (drop_bit 2 bt)" by (subst isqrt_start.simps) simp
    moreover have "unat (drop_bit 2 bt) = 4 ^ j" using Suc.prems by (simp add: unat_drop_bit_u64)
    moreover have "unat x < 4 ^ (j + 1)" using True Suc.prems by (simp add: word_less_nat_alt)
    ultimately show ?thesis using Suc.IH [of "drop_bit 2 bt"] by (auto intro: le_SucI)
  next
    case False
    then have "isqrt_start x bt = bt" by (subst isqrt_start.simps) simp
    then show ?thesis using Suc.prems by auto
  qed
qed

lemma isqrt_floor:
  "unat (isqrt_u64 x) * unat (isqrt_u64 x) \<le> unat x \<and> unat x < (unat (isqrt_u64 x) + 1) * (unat (isqrt_u64 x) + 1)"
proof -
  have b: "unat (push_bit 62 1 :: u64) = 4 ^ 31" by (simp add: push_bit_eq_mult)
  define bt where "bt = isqrt_start x (push_bit 62 1)"
  have u: "unat (isqrt_u64 x) = unat (isqrt_loop x 0 bt)" if "unat (isqrt_loop x 0 bt) < 4294967296"
    using that by (simp add: isqrt_u64_def bt_def unsigned_ucast_eq take_bit_nat_eq_self)
  have "(bt = 0 \<and> x = 0) \<or> (\<exists>k\<le>31. unat bt = 4 ^ k \<and> unat x < 4 ^ (k + 1))"
    unfolding bt_def using isqrt_start_spec [OF b, of x] unat_u64_less [of x] by simp
  then show ?thesis
  proof
    assume "bt = 0 \<and> x = 0"
    then have z: "isqrt_loop x 0 bt = 0" by (subst isqrt_loop.simps) simp
    then show ?thesis using u \<open>bt = 0 \<and> x = 0\<close> by simp
  next
    assume "\<exists>k\<le>31. unat bt = 4 ^ k \<and> unat x < 4 ^ (k + 1)"
    then obtain k where k: "k \<le> 31" "unat bt = 4 ^ k" "unat x < 4 ^ (k + 1)" by blast
    have "2 ^ (k + 1) \<le> (4294967296 :: nat)" using power_increasing [of "k + 1" 32 "2 :: nat"] k(1) by simp
    moreover have "unat x < (0 + 2 ^ (k + 1)) * (0 + 2 ^ (k + 1))" using k(3) by (simp add: four_power)
    ultimately show ?thesis
      using isqrt_loop_spec [OF k(2,1), of 0 0 x "unat x"] u by simp
  qed
qed

text \<open>\<open>isqrt_u64\<close> is the floor square root of every 64-bit value; its intermediate sums never
  wrap, although the top digit works at \<open>2^62\<close>.\<close>

theorem isqrt_u64_exact:
  "unat (isqrt_u64 x) * unat (isqrt_u64 x) \<le> unat x \<and> unat x < (unat (isqrt_u64 x) + 1) * (unat (isqrt_u64 x) + 1)"
  by (rule isqrt_floor)

section \<open>Wavefronts\<close>

lemma uint_byte: "0 \<le> uint (b :: u8) \<and> uint b \<le> 255"
  using uint_bounded [of b] by simp

lemma sum_bytes: "0 \<le> sum_list (map uint (bs :: bytes)) \<and> sum_list (map uint bs) \<le> 255 * int (length bs)"
proof (induction bs)
  case Nil
  then show ?case by simp
next
  case (Cons b bs)
  then show ?case using uint_byte [of b] by simp
qed

lemma sdiv_nonneg: "0 \<le> (a :: int) \<Longrightarrow> 0 < b \<Longrightarrow> a sdiv b = a div b"
  by (cases "a = 0") (simp_all add: signed_divide_int_def)

text \<open>The mean in 1/256 units, and the centered values, stay far inside 32 bits.\<close>

lemma centered_range:
  assumes "bs \<noteq> []" and "v \<in> set (centered bs)"
  shows "- 65280 \<le> v \<and> v \<le> 65280"
proof -
  let ?s = "sum_list (map uint bs)"
  let ?m = "(?s * 256) sdiv int (length bs)"
  have l: "0 < int (length bs)" using assms(1) by simp
  have m: "?m = (?s * 256) div int (length bs)" using sum_bytes [of bs] l by (simp add: sdiv_nonneg)
  have "?s * 256 \<le> 65280 * int (length bs)" using sum_bytes [of bs] by simp
  then have "(?s * 256) div int (length bs) \<le> (65280 * int (length bs)) div int (length bs)"
    using l by (rule zdiv_mono1)
  then have "0 \<le> ?m \<and> ?m \<le> 65280" using m l sum_bytes [of bs] by (simp add: pos_imp_zdiv_nonneg_iff)
  moreover have "v \<in> (\<lambda>b :: u8. uint b * 256 - ?m) ` set bs" using assms(2) by (simp add: centered_def Let_def)
  then obtain b :: u8 where "v = uint b * 256 - ?m" by blast
  ultimately show ?thesis using uint_byte [of b] by linarith
qed

lemma length_centered [simp]: "length (centered bs) = length bs"
  by (simp add: centered_def Let_def)

lemma sum_word_of_int: "sum_list (map (\<lambda>v. word_of_int (f v)) vs) = (word_of_int (sum_list (map f vs)) :: u64)"
  by (induction vs) simp_all

lemma sum_squares_range:
  "(\<forall>v\<in>set vs. - 65280 \<le> v \<and> v \<le> 65280) \<Longrightarrow>
   0 \<le> sum_list (map (\<lambda>v. v * v) vs) \<and> sum_list (map (\<lambda>v. v * v) vs) \<le> 4261478400 * int (length vs)"
proof (induction vs)
  case Nil
  then show ?case by simp
next
  case (Cons v vs)
  have "\<bar>v\<bar> * \<bar>v\<bar> \<le> 65280 * 65280" using Cons.prems by (intro mult_mono) auto
  then have "v * v \<le> 4261478400" by simp
  then show ?case using Cons by (simp add: algebra_simps)
qed

lemma sum_squares_zero: "sum_list (map (\<lambda>v. v * v) vs) = 0 \<longleftrightarrow> (\<forall>v\<in>set vs. v = (0 :: int))"
proof (induction vs)
  case Nil
  then show ?case by simp
next
  case (Cons v vs)
  have "0 \<le> sum_list (map (\<lambda>v. v * v) vs)" by (rule sum_list_nonneg) auto
  then show ?case using Cons by (auto simp: add_nonneg_eq_0_iff)
qed

definition uniform :: "bytes \<Rightarrow> bool" where
  "uniform bs \<longleftrightarrow> (\<forall>x\<in>set bs. x = hd bs)"

lemma centered_zero:
  assumes "bs \<noteq> []"
  shows "(\<forall>v\<in>set (centered bs). v = 0) \<longleftrightarrow> uniform bs"
proof
  assume z: "\<forall>v\<in>set (centered bs). v = 0"
  let ?m = "(sum_list (map uint bs) * 256) sdiv int (length bs)"
  have e: "uint x * 256 = ?m" if "x \<in> set bs" for x
    using z that by (auto simp: centered_def Let_def)
  have "x = hd bs" if "x \<in> set bs" for x
  proof -
    have "uint x * 256 = uint (hd bs) * 256" using e [OF that] e [of "hd bs"] assms by simp
    then show ?thesis by (simp add: word_uint_eq_iff)
  qed
  then show "uniform bs" by (simp add: uniform_def)
next
  assume u: "uniform bs"
  then have bs: "bs = replicate (length bs) (hd bs)"
    by (simp add: uniform_def replicate_length_same [symmetric])
  have "sum_list (map uint bs) = int (length bs) * uint (hd bs)"
    by (subst bs) (simp add: sum_list_replicate)
  then have "(sum_list (map uint bs) * 256) sdiv int (length bs) = uint (hd bs) * 256"
    using assms uint_byte [of "hd bs"] by (simp add: sdiv_nonneg mult.assoc)
  then show "\<forall>v\<in>set (centered bs). v = 0" using u by (auto simp: centered_def Let_def uniform_def)
qed

lemma mag2_value:
  assumes "bs \<noteq> []" and "length bs \<le> FIELD_PAT_MAX"
  shows "uint (sum_list (map (\<lambda>v. word_of_int (v * v)) (centered bs)) :: u64) = sum_list (map (\<lambda>v. v * v) (centered bs))"
    and "sum_list (map (\<lambda>v. v * v) (centered bs)) \<le> 272734617600"
proof -
  have r: "0 \<le> sum_list (map (\<lambda>v. v * v) (centered bs))"
    "sum_list (map (\<lambda>v. v * v) (centered bs)) \<le> 4261478400 * int (length bs)"
    using sum_squares_range [of "centered bs"] centered_range [OF assms(1)] by auto
  then show b: "sum_list (map (\<lambda>v. v * v) (centered bs)) \<le> 272734617600" using assms(2) by simp
  show "uint (sum_list (map (\<lambda>v. word_of_int (v * v)) (centered bs)) :: u64) = sum_list (map (\<lambda>v. v * v) (centered bs))"
    unfolding sum_word_of_int using r(1) b by (simp add: uint_word_of_int)
qed

lemma isqrt_zero: "isqrt_u64 x = 0 \<longleftrightarrow> x = 0"
  using isqrt_floor [of x] by (auto simp: unat_eq_zero [symmetric])

lemma wavefront_None:
  assumes "bs \<noteq> []" and "length bs \<le> FIELD_PAT_MAX"
  shows "wavefront bs = None \<longleftrightarrow> uniform bs"
proof -
  let ?m = "sum_list (map (\<lambda>v. word_of_int (v * v)) (centered bs)) :: u64"
  have "?m = 0 \<longleftrightarrow> uint ?m = 0" by (simp only: uint_0_iff)
  then have "?m = 0 \<longleftrightarrow> uniform bs"
    unfolding mag2_value(1) [OF assms] sum_squares_zero centered_zero [OF assms(1)] .
  then show ?thesis by (simp add: wavefront_def Let_def isqrt_zero)
qed

lemma clamp_range: "- 32767 \<le> clamp_q15 v \<and> clamp_q15 v \<le> 32767"
  by (simp add: clamp_q15_def Let_def)

lemma wavefront_Some:
  "wavefront bs = Some h \<Longrightarrow> length h = length bs \<and> (\<forall>v\<in>set h. - 32767 \<le> v \<and> v \<le> 32767)"
  using clamp_range by (auto simp: wavefront_def Let_def split: if_splits)

text \<open>A pattern has a wavefront exactly when it has two different bytes: for every non-empty
  pattern of at most 64 bytes, \<open>wavefront\<close> refuses exactly the all-equal ones (so the division never
  sees a zero magnitude), the sum of squares never wraps, and every component fits 16 bits.\<close>

theorem wavefront_exact:
  assumes "bs \<noteq> []" and "length bs \<le> FIELD_PAT_MAX"
  shows "case wavefront bs of None \<Rightarrow> uniform bs
    | Some h \<Rightarrow> \<not> uniform bs \<and> length h = length bs \<and> (\<forall>v\<in>set h. - 32767 \<le> v \<and> v \<le> 32767)
        \<and> uint (sum_list (map (\<lambda>v. word_of_int (v * v)) (centered bs)) :: u64)
            = sum_list (map (\<lambda>v. v * v) (centered bs))"
  using wavefront_None [OF assms] wavefront_Some [of bs] mag2_value(1) [OF assms]
  by (cases "wavefront bs") simp_all

theorem wavefront_exact_witness:
  "wavefront [7, 7, 7] = None \<and> wavefront [1, 2] \<noteq> None"
  using wavefront_exact [of "[7, 7, 7]"] wavefront_exact [of "[1, 2]"]
  by (auto simp: uniform_def split: option.splits)

section \<open>Ranges\<close>

lemma cosine_range: "- 32767 \<le> cosine_q15 a b \<and> cosine_q15 a b \<le> 32767"
  by (simp add: cosine_q15_def clamp_range)

lemma clamp_energy_range: "FIELD_ENERGY_MIN \<le> clamp_energy e \<and> clamp_energy e \<le> FIELD_ENERGY_MAX"
  by (simp add: clamp_energy_def Let_def)

lemma clamp_energy_id: "FIELD_ENERGY_MIN \<le> e \<Longrightarrow> e \<le> FIELD_ENERGY_MAX \<Longrightarrow> clamp_energy e = e"
  by (simp add: clamp_energy_def Let_def)

lemma uint_small_int: "0 \<le> z \<Longrightarrow> z < 18446744073709551616 \<Longrightarrow> uint (word_of_int z :: u64) = z"
  by (simp add: uint_word_of_int)

lemma sint_small: "0 \<le> e \<Longrightarrow> e \<le> 32767 \<Longrightarrow> sint (word_of_int e :: u32) = e"
  by (simp add: sint_uint signed_take_bit_int_eq_self uint_word_of_int)

text \<open>Decay is monotone in time and bounded by the floor: never inverted, however long the uptime.\<close>

lemma effective_energy_value:
  assumes "FIELD_ENERGY_MIN \<le> energy_q15 s" and "energy_q15 s \<le> FIELD_ENERGY_MAX"
  shows "effective_energy s now = max FIELD_ENERGY_MIN (energy_q15 s - int (unat (field_age s now) div 256))"
proof -
  let ?d = "drop_bit 8 (field_age s now)"
  have d: "unat ?d = unat (field_age s now) div 256" by (simp add: drop_bit_eq_div unat_div)
  have g: "unat (word_of_int (energy_q15 s - FIELD_ENERGY_MIN) :: u64) = nat (energy_q15 s - FIELD_ENERGY_MIN)"
  proof -
    have "uint (word_of_int (energy_q15 s - FIELD_ENERGY_MIN) :: u64) = energy_q15 s - FIELD_ENERGY_MIN"
      using assms by (intro uint_small_int) simp_all
    then show ?thesis by (metis nat_uint_eq)
  qed
  show ?thesis
  proof (cases "?d \<ge> word_of_int (energy_q15 s - FIELD_ENERGY_MIN)")
    case True
    then have "nat (energy_q15 s - FIELD_ENERGY_MIN) \<le> unat (field_age s now) div 256"
      using d g by (simp add: word_le_nat_alt)
    then have "energy_q15 s - FIELD_ENERGY_MIN \<le> int (unat (field_age s now) div 256)" by linarith
    then show ?thesis using True by (simp add: effective_energy_def Let_def max_def)
  next
    case False
    then have lt: "unat (field_age s now) div 256 < nat (energy_q15 s - FIELD_ENERGY_MIN)"
      using d g by (simp add: word_le_nat_alt)
    then have "unat (ucast ?d :: u32) = unat ?d"
      using assms d by (simp add: unsigned_ucast_eq take_bit_nat_eq_self)
    then have "uint (ucast ?d :: u32) = int (unat (field_age s now) div 256)" using d by (simp only: uint_nat)
    moreover have "int (unat (field_age s now) div 256) < 2147483648" using lt assms by simp
    ultimately have "sint (ucast ?d :: u32) = int (unat (field_age s now) div 256)"
      by (simp add: sint_uint signed_take_bit_int_eq_self)
    moreover have "2048 < energy_q15 s - int (unat (field_age s now) div 256)" using lt by linarith
    ultimately show ?thesis using False by (simp add: effective_energy_def Let_def max_def)
  qed
qed

end
