(* ===== verification/Field_Props.thy ===== *)
theory Field_Props
  imports Field_Math "HOL-Library.Multiset"
begin

text \<open>
  What the field guarantees: the slot invariant under every operation (a load of any bytes
  included), exact ranked recall that touches nothing but the winner and only with the write right,
  region isolation, and the durable round trip.
\<close>

section \<open>The slot invariant\<close>

definition slot_ok :: "field_slot_t \<Rightarrow> bool" where
  "slot_ok s \<longleftrightarrow> (if alive s
     then 0 < flen s \<and> flen s \<le> FIELD_PAT_MAX
        \<and> FIELD_ENERGY_MIN \<le> energy_q15 s \<and> energy_q15 s \<le> FIELD_ENERGY_MAX
        \<and> (\<exists>bs h. length bs = flen s \<and> fbytes s = pad bs \<and> wavefront bs = Some h \<and> h_q15 s = pad h)
     else s = slot_clear)"

definition field_inv :: "field_state \<Rightarrow> bool" where
  "field_inv st \<longleftrightarrow> (\<forall>rg<FIELD_REGION_COUNT. \<forall>i<FIELD_SLOTS. slot_ok (regions st rg i))"

lemma length_pad: "length xs \<le> 64 \<Longrightarrow> length (pad xs) = 64"
  by (simp add: pad_def)

lemma take_pad: "n \<le> length xs \<Longrightarrow> take n (pad xs) = take n xs"
  by (simp add: pad_def)

lemma slot_ok_clear [simp]: "slot_ok slot_clear"
  by (simp add: slot_ok_def slot_clear_def)

lemma field_inv_boot: "field_inv field_boot"
  by (simp add: field_inv_def field_boot_def)

lemma slot_ok_bytes: "slot_ok s \<Longrightarrow> length (fbytes s) = 64"
  by (auto simp: slot_ok_def length_pad slot_clear_def split: if_splits)

lemma slot_ok_new:
  assumes "0 < length bs" and "length bs \<le> FIELD_PAT_MAX" and "wavefront bs = Some h"
  shows "slot_ok \<lparr>alive = True, flen = length bs, retrievals = r, energy_q15 = clamp_energy e, imprint_tick = t,
    fbytes = pad bs, h_q15 = pad h\<rparr>"
  using assms clamp_energy_range [of e] by (auto simp: slot_ok_def)

lemma set_slot_inv: "field_inv st \<Longrightarrow> slot_ok sl \<Longrightarrow> field_inv (set_slot rg i sl st)"
  by (simp add: field_inv_def set_slot_def)

lemma imprint_inv:
  assumes "field_inv st" and "\<forall>b. p = Some b \<longrightarrow> len \<le> length b"
  shows "field_inv (snd (field_imprint rg p len e now st))"
proof (cases "p = None \<or> rg \<ge> FIELD_REGION_COUNT \<or> len = 0 \<or> len > FIELD_PAT_MAX \<or> wavefront (take len (the p)) = None")
  case True
  then show ?thesis using assms(1) by (auto simp: field_imprint_def split: option.split)
next
  case False
  then obtain b h where b: "p = Some b" "wavefront (take len b) = Some h" "0 < len" "len \<le> 64" "len \<le> length b"
    using assms(2) by auto
  have "slot_ok \<lparr>alive = True, flen = len, retrievals = 0,
      energy_q15 = clamp_energy (if e = 0 then FIELD_ENERGY_DEFAULT else e), imprint_tick = now,
      fbytes = pad (take len b), h_q15 = pad h\<rparr>"
    using slot_ok_new [of "take len b" h 0] b by simp
  then show ?thesis using False assms(1) b by (simp add: field_imprint_def Let_def set_slot_inv)
qed

lemma reinforce_ok: "slot_ok w \<Longrightarrow> alive w \<Longrightarrow> slot_ok (reinforce_slot now w)"
proof -
  assume ok: "slot_ok w" and al: "alive w"
  then have e: "FIELD_ENERGY_MIN \<le> energy_q15 w" "energy_q15 w \<le> FIELD_ENERGY_MAX" by (simp_all add: slot_ok_def)
  define d where "d = drop_bit 4 (FIELD_ENERGY_MAX - energy_q15 w)"
  have d: "0 \<le> d" "d \<le> FIELD_ENERGY_MAX - energy_q15 w"
    using e by (simp_all add: d_def drop_bit_eq_div)
  have s: "energy_q15 (reinforce_slot now w) = energy_q15 w + d" by (simp add: reinforce_slot_def d_def)
  have "FIELD_ENERGY_MIN \<le> energy_q15 w + d" "energy_q15 w + d \<le> FIELD_ENERGY_MAX" using d e by linarith+
  then show ?thesis using ok al unfolding slot_ok_def s by (simp add: reinforce_slot_def)
qed

section \<open>Ranking\<close>

text \<open>The first \<open>a\<close> entries are in order and none after them scores higher.\<close>

definition top_sorted :: "nat \<Rightarrow> (nat \<times> int) list \<Rightarrow> bool" where
  "top_sorted a xs \<longleftrightarrow> (\<forall>i j. i < a \<and> i < j \<and> j < length xs \<longrightarrow> snd (xs ! j) \<le> snd (xs ! i))"

lemma best_fold:
  fixes xs :: "(nat \<times> int) list"
  shows "fold (\<lambda>b best. if snd (xs ! b) > snd (xs ! best) then b else best) js b0 \<in> insert b0 (set js)
   \<and> (\<forall>j\<in>insert b0 (set js). snd (xs ! j) \<le> snd (xs ! fold (\<lambda>b best. if snd (xs ! b) > snd (xs ! best) then b else best) js b0))"
proof (induction js arbitrary: b0)
  case Nil
  then show ?case by simp
next
  case (Cons j js)
  show ?case
  proof (cases "snd (xs ! j) > snd (xs ! b0)")
    case True
    then show ?thesis using Cons.IH [of j] by (auto intro: order_trans [OF less_imp_le])
  next
    case False
    then have "snd (xs ! j) \<le> snd (xs ! b0)" by simp
    then show ?thesis using False Cons.IH [of b0] by (auto intro: order_trans)
  qed
qed

lemma best_from_spec:
  assumes "a < length xs"
  shows "a \<le> best_from xs a \<and> best_from xs a < length xs
    \<and> (\<forall>j. a \<le> j \<and> j < length xs \<longrightarrow> snd (xs ! j) \<le> snd (xs ! best_from xs a))"
proof -
  have s: "insert a (set [Suc a..<length xs]) = {a..<length xs}" using assms by auto
  show ?thesis
    using best_fold [of xs "[Suc a..<length xs]" a] unfolding s best_from_def [symmetric] by auto
qed

lemma length_swap_at [simp]: "length (swap_at i j xs) = length xs"
  by (simp add: swap_at_def)

lemma nth_swap_at: "i < length xs \<Longrightarrow> j < length xs \<Longrightarrow> k < length xs \<Longrightarrow>
  swap_at i j xs ! k = (if k = j then xs ! i else if k = i then xs ! j else xs ! k)"
  by (auto simp: swap_at_def nth_list_update)

lemma mset_swap_at: "i < length xs \<Longrightarrow> j < length xs \<Longrightarrow> mset (swap_at i j xs) = mset xs"
  by (simp add: swap_at_def mset_swap)

lemma top_sorted_step:
  assumes "top_sorted a xs" and a: "a < length xs"
  shows "top_sorted (Suc a) (swap_at a (best_from xs a) xs)"
proof -
  let ?b = "best_from xs a"
  note b = best_from_spec [OF a]
  have "snd (swap_at a ?b xs ! j) \<le> snd (swap_at a ?b xs ! i)"
    if ij: "i < Suc a" "i < j" "j < length xs" for i j
  proof (cases "i = a")
    case True
    then have "swap_at a ?b xs ! i = xs ! ?b" using a b by (auto simp: nth_swap_at)
    moreover have "\<exists>k. a \<le> k \<and> k < length xs \<and> swap_at a ?b xs ! j = xs ! k"
      using a b ij True by (intro exI [of _ "if j = ?b then a else j"]) (auto simp: nth_swap_at)
    ultimately show ?thesis using b by auto
  next
    case False
    then have "swap_at a ?b xs ! i = xs ! i" using a b ij by (simp add: nth_swap_at)
    moreover have "\<exists>k. i < k \<and> k < length xs \<and> swap_at a ?b xs ! j = xs ! k"
      using a b ij False
      by (intro exI [of _ "if j = ?b then a else if j = a then ?b else j"]) (auto simp: nth_swap_at)
    ultimately show ?thesis using assms(1) False ij(1) unfolding top_sorted_def
      by (metis less_Suc_eq)
  qed
  then show ?thesis by (simp add: top_sorted_def)
qed

lemma select_top_spec:
  "n \<le> length xs \<Longrightarrow> mset (select_top n xs) = mset xs \<and> top_sorted n (select_top n xs)"
proof (induction n)
  case 0
  then show ?case by (simp add: select_top_def top_sorted_def)
next
  case (Suc n)
  define ys where "ys = select_top n xs"
  have ih: "mset ys = mset xs" "top_sorted n ys" using Suc by (simp_all add: ys_def)
  then have l: "n < length ys" using Suc.prems by (metis Suc_le_lessD size_mset)
  have e: "select_top (Suc n) xs = swap_at n (best_from ys n) ys" by (simp add: select_top_def ys_def)
  show ?case
    unfolding e using top_sorted_step [OF ih(2) l] best_from_spec [OF l] l ih(1) by (simp add: mset_swap_at)
qed

lemma recall_scores_alive: "(i, s) \<in> set (recall_scores hp r now) \<longleftrightarrow>
    i < FIELD_SLOTS \<and> alive (r i) \<and> s = slot_score hp (r i) now"
  by (auto simp: recall_scores_def)

text \<open>Recall ranks exactly: when something resonates, the answer lists the best
  \<open>min k live\<close> live slots of the region in descending score (the whole live set, permuted, with no
  later entry above an earlier listed one), the completion is the stored pattern of the best, and
  the only slot that can change is that winner, and only when the caller holds the write right.\<close>

theorem field_recall_exact:
  assumes "field_recall rg (Some p) len k reinforce now st = (Some out, st')" and "fo_n out \<noteq> 0"
  shows "\<exists>hp ranked. wavefront (take len p) = Some hp
    \<and> mset ranked = mset (recall_scores hp (regions st rg) now)
    \<and> fo_n out = min k (length ranked) \<and> top_sorted (fo_n out) ranked
    \<and> take (fo_n out) (fo_rank out) = take (fo_n out) ranked
    \<and> fo_winner out = pad (take (flen (regions st rg (fst (hd ranked)))) (fbytes (regions st rg (fst (hd ranked)))))
    \<and> (\<forall>rg' i. rg' \<noteq> rg \<or> i \<noteq> fst (hd ranked) \<or> \<not> reinforce \<longrightarrow> regions st' rg' i = regions st rg' i)"
proof -
  have ok: "\<not> (rg \<ge> FIELD_REGION_COUNT \<or> len = 0 \<or> len > FIELD_PAT_MAX \<or> k = 0 \<or> k > FIELD_RANK_MAX)"
    using assms(1) by (auto simp: field_recall_def split: if_splits)
  obtain hp where hp: "wavefront (take len p) = Some hp"
    using assms ok by (cases "wavefront (take len p)") (auto simp: field_recall_def recall_zero_def)
  define scored where "scored = recall_scores hp (regions st rg) now"
  have ne: "scored \<noteq> []"
    using assms ok hp by (auto simp: field_recall_def scored_def recall_zero_def)
  define n where "n = min k (length scored)"
  define ranked where "ranked = select_top n scored"
  have sp: "mset ranked = mset scored" "top_sorted n ranked"
    using select_top_spec [of n scored] by (simp_all add: ranked_def n_def)
  then have l: "length ranked = length scored" by (metis size_mset)
  have r: "out = \<lparr>fo_n = n, fo_rank = take n ranked @ replicate (8 - n) (0, 0),
        fo_winner_len = flen (regions st rg (fst (hd ranked))),
        fo_winner = pad (take (flen (regions st rg (fst (hd ranked)))) (fbytes (regions st rg (fst (hd ranked)))))\<rparr>"
    "st' = (if reinforce then set_slot rg (fst (hd ranked)) (reinforce_slot now (regions st rg (fst (hd ranked)))) st else st)"
    using assms(1) ok hp ne by (auto simp: field_recall_def Let_def scored_def ranked_def n_def)
  show ?thesis
    using hp sp l r by (intro exI [of _ hp] exI [of _ ranked]) (auto simp: scored_def n_def set_slot_def)
qed

text \<open>The region of the witnesses: one imprinted pattern.\<close>

definition demo_pattern :: bytes where
  "demo_pattern = [1, 2, 3]"

definition demo_field :: field_state where
  "demo_field = snd (field_imprint 0 (Some demo_pattern) 3 0 100 field_boot)"

lemma isqrt_unique:
  assumes "n * n \<le> unat x" and "unat x < (n + 1) * (n + 1)"
  shows "unat (isqrt_u64 x) = n"
proof -
  define r where "r = unat (isqrt_u64 x)"
  have "r * r < (n + 1) * (n + 1)" "n * n < (r + 1) * (r + 1)"
    using isqrt_floor [of x] assms unfolding r_def by linarith+
  then have "r < n + 1" "n < r + 1"
    by (metis le_less_trans linorder_not_le mult_le_mono nless_le)+
  then show ?thesis by (simp add: r_def)
qed

lemma demo_wave: "wavefront demo_pattern = Some [- 23172, 0, 23172]"
proof -
  have c: "centered [1, 2, 3] = [- 256, 0, 256]" by (simp add: centered_def signed_divide_int_def)
  have "unat (isqrt_u64 131072) = 362" by (rule isqrt_unique) simp_all
  then have "isqrt_u64 131072 = 362" by (intro word_unat_eq_iff [THEN iffD2]) simp
  then show ?thesis by (simp add: wavefront_def demo_pattern_def c Let_def clamp_q15_def signed_divide_int_def)
qed

lemma demo_field_value: "demo_field = set_slot 0 0 \<lparr>alive = True, flen = 3, retrievals = 0, energy_q15 = 16384,
    imprint_tick = 100, fbytes = pad demo_pattern, h_q15 = pad [- 23172, 0, 23172]\<rparr> field_boot"
proof -
  have "imprint_target (regions field_boot 0) 100 = 0"
    by (simp add: imprint_target_def field_boot_def slot_clear_def first_idx.simps)
  moreover have "take 3 demo_pattern = demo_pattern" by (simp add: demo_pattern_def)
  ultimately show ?thesis
    by (simp add: demo_field_def field_imprint_def demo_wave clamp_energy_def Let_def)
qed

theorem field_recall_exact_witness:
  "\<exists>out st'. field_recall 0 (Some demo_pattern) 3 8 True 200 demo_field = (Some out, st')
    \<and> fo_winner out = pad demo_pattern \<and> fo_n out = 1
    \<and> (\<forall>rg' i. rg' \<noteq> 0 \<or> i \<noteq> 0 \<longrightarrow> regions st' rg' i = regions demo_field rg' i)"
proof -
  define r where "r = field_recall 0 (Some demo_pattern) 3 8 True 200 demo_field"
  have d: "take 3 demo_pattern = demo_pattern" by (simp add: demo_pattern_def)
  have fl: "filter (\<lambda>i. alive (regions demo_field 0 i)) [0..<8] = [0]"
    by (simp add: demo_field_value set_slot_def field_boot_def slot_clear_def upt_rec)
  have fo: "\<exists>out st'. r = (Some out, st') \<and> fo_n out = 1"
    unfolding r_def by (simp add: field_recall_def d demo_wave recall_scores_def fl Let_def)
  then obtain out st' where o: "r = (Some out, st')" "fo_n out = 1" by blast
  obtain hp ranked where e: "wavefront (take 3 demo_pattern) = Some hp"
      "mset ranked = mset (recall_scores hp (regions demo_field 0) 200)"
      "fo_winner out = pad (take (flen (regions demo_field 0 (fst (hd ranked)))) (fbytes (regions demo_field 0 (fst (hd ranked)))))"
      "\<forall>rg' i. rg' \<noteq> 0 \<or> i \<noteq> fst (hd ranked) \<or> \<not> True \<longrightarrow> regions st' rg' i = regions demo_field rg' i"
    using field_recall_exact [of 0 demo_pattern 3 8 True 200 demo_field out st'] o unfolding r_def by auto
  have "ranked = [(0, slot_score hp (regions demo_field 0 0) 200)]"
    using e(2) by (simp add: recall_scores_def fl)
  then show ?thesis using e o unfolding r_def
    by (intro exI [of _ out] exI [of _ st']) (simp add: demo_field_value set_slot_def pad_def demo_pattern_def)
qed

section \<open>The invariant under every operation\<close>

lemma recall_change:
  "snd (field_recall rg p len k reinforce now st) = st \<or> (\<exists>i. i < FIELD_SLOTS \<and> alive (regions st rg i)
     \<and> rg < FIELD_REGION_COUNT
     \<and> snd (field_recall rg p len k reinforce now st) = set_slot rg i (reinforce_slot now (regions st rg i)) st)"
proof (cases "p = None \<or> rg \<ge> FIELD_REGION_COUNT \<or> len = 0 \<or> len > FIELD_PAT_MAX \<or> k = 0 \<or> k > FIELD_RANK_MAX
    \<or> wavefront (take len (the p)) = None \<or> \<not> reinforce")
  case True
  then show ?thesis by (cases p) (auto simp: field_recall_def Let_def split: option.split)
next
  case False
  then obtain b hp where b: "p = Some b" "wavefront (take len b) = Some hp" by auto
  define sc where "sc = recall_scores hp (regions st rg) now"
  define rk where "rk = select_top (min k (length sc)) sc"
  have e: "snd (field_recall rg p len k reinforce now st) = (if sc = [] then st
      else set_slot rg (fst (hd rk)) (reinforce_slot now (regions st rg (fst (hd rk)))) st)"
    using False b unfolding sc_def rk_def by (simp add: field_recall_def Let_def)
  have m: "mset rk = mset sc" using select_top_spec unfolding rk_def by simp
  show ?thesis
  proof (cases "sc = []")
    case True
    then show ?thesis by (simp add: e)
  next
    case ne: False
    then have "rk \<noteq> []" using m by auto
    moreover have "set rk = set sc" using m by (metis set_mset_mset)
    ultimately have "(fst (hd rk), snd (hd rk)) \<in> set sc" by (metis hd_in_set prod.collapse)
    then show ?thesis using ne e False unfolding sc_def recall_scores_alive by auto
  qed
qed

lemma recall_inv:
  assumes "field_inv st"
  shows "field_inv (snd (field_recall rg p len k reinforce now st))"
  using recall_change [of rg p len k reinforce now st] assms reinforce_ok
  by (auto simp: field_inv_def set_slot_def)

lemma scrub_inv: "field_inv st \<Longrightarrow> field_inv (field_region_scrub rg st)"
  by (simp add: field_inv_def field_region_scrub_def)

text \<open>The trust boundary of the durable blob: whatever the bytes, a restored slot is well formed.\<close>

lemma slot_of_record_ok:
  assumes "length rec = 76"
  shows "slot_ok (slot_of_record rec)"
proof (cases "rec ! 0 \<noteq> 1 \<or> unat (rec ! 1) = 0 \<or> unat (rec ! 1) > FIELD_PAT_MAX
    \<or> wavefront (take (unat (rec ! 1)) (drop 12 rec)) = None")
  case True
  then show ?thesis by (auto simp: slot_of_record_def Let_def split: option.split)
next
  case False
  then obtain h where "wavefront (take (unat (rec ! 1)) (drop 12 rec)) = Some h" by auto
  then show ?thesis using False assms slot_ok_new [of "take (unat (rec ! 1)) (drop 12 rec)" h "get32 rec 4"]
    by (simp add: slot_of_record_def Let_def)
qed

lemma length_blob_record: "n < 64 \<Longrightarrow> 4888 \<le> length b \<Longrightarrow> length (blob_record b n) = 76"
  by (simp add: blob_record_def)

lemma load_inv:
  assumes "field_inv st" and "len \<le> length b"
  shows "field_inv (snd (field_blob_load b len st))"
proof -
  have "slot_ok (slot_of_record (blob_record b (rg * 8 + i)))" if "rg < 8" "i < 8" "4888 \<le> len" for rg i
    using that assms(2) by (intro slot_of_record_ok length_blob_record) simp_all
  then show ?thesis using assms(1) by (simp add: field_inv_def field_blob_load_def Let_def)
qed

lemma consume_inv: "field_inv st \<Longrightarrow> field_inv (field_region_inherit_consume rg st)"
  by (simp add: field_inv_def field_region_inherit_consume_def)

text \<open>Every way the syscalls and the boot path change the field.\<close>

inductive field_step :: "field_state \<Rightarrow> field_state \<Rightarrow> bool" where
  step_imprint: "\<forall>b. p = Some b \<longrightarrow> len \<le> length b \<Longrightarrow> field_step st (snd (field_imprint rg p len e now st))"
| step_recall: "field_step st (snd (field_recall rg p len k reinforce now st))"
| step_scrub: "field_step st (field_region_scrub rg st)"
| step_load: "len \<le> length b \<Longrightarrow> field_step st (snd (field_blob_load b len st))"
| step_consume: "field_step st (field_region_inherit_consume rg st)"

inductive field_reachable :: "field_state \<Rightarrow> bool" where
  reach_boot: "field_reachable field_boot"
| reach_step: "field_reachable st \<Longrightarrow> field_step st st' \<Longrightarrow> field_reachable st'"

lemma field_step_inv: "field_step st st' \<Longrightarrow> field_inv st \<Longrightarrow> field_inv st'"
  by (induction rule: field_step.induct) (simp_all add: imprint_inv recall_inv scrub_inv load_inv consume_inv)

lemma field_reachable_inv: "field_reachable st \<Longrightarrow> field_inv st"
  by (induction rule: field_reachable.induct) (simp_all add: field_inv_boot field_step_inv)

text \<open>C40. Whatever sequence of imprints, recalls, scrubs and restores of arbitrary bytes (a tampered
  disk included) a region has been through, every live slot has a length of 1 to 64, an energy inside
  [0x0800, 0x7FFF], exactly the wavefront of its own stored bytes, and an effective energy that only
  decays, to the floor and never below.\<close>

theorem field_slots_sound:
  assumes "field_reachable st" and "rg < FIELD_REGION_COUNT" and "i < FIELD_SLOTS" and "alive (regions st rg i)"
  shows "let s = regions st rg i in 0 < flen s \<and> flen s \<le> FIELD_PAT_MAX
    \<and> FIELD_ENERGY_MIN \<le> energy_q15 s \<and> energy_q15 s \<le> FIELD_ENERGY_MAX
    \<and> Some (take (flen s) (h_q15 s)) = wavefront (take (flen s) (fbytes s))
    \<and> effective_energy s now = max FIELD_ENERGY_MIN (energy_q15 s - int (unat (field_age s now) div 256))"
proof -
  have ok: "slot_ok (regions st rg i)"
    using field_reachable_inv [OF assms(1)] assms(2,3) by (simp add: field_inv_def)
  then obtain bs h where b: "length bs = flen (regions st rg i)" "fbytes (regions st rg i) = pad bs"
      "wavefront bs = Some h" "h_q15 (regions st rg i) = pad h"
    using assms(4) by (auto simp: slot_ok_def)
  then have "length h = flen (regions st rg i)" using wavefront_Some by simp
  then show ?thesis
    using ok assms(4) b effective_energy_value [of "regions st rg i" now] by (simp add: slot_ok_def take_pad Let_def)
qed

theorem field_slots_sound_witness:
  "field_reachable demo_field \<and> alive (regions demo_field 0 0)
   \<and> Some (take 3 (h_q15 (regions demo_field 0 0))) = wavefront (take 3 (fbytes (regions demo_field 0 0)))"
proof -
  have r: "field_reachable demo_field"
    unfolding demo_field_def by (rule reach_step [OF reach_boot step_imprint]) (simp add: demo_pattern_def)
  moreover have l: "alive (regions demo_field 0 0)" "flen (regions demo_field 0 0) = 3"
    by (simp_all add: demo_field_value set_slot_def)
  ultimately show ?thesis using field_slots_sound [of demo_field 0 0 100] by (simp add: Let_def)
qed

section \<open>Imprint\<close>

lemma weakest_fold:
  fixes f :: "nat \<Rightarrow> int"
  shows "fold (\<lambda>i (w, t). if f i < w then (f i, i) else (w, t)) is (f t0, t0) = (f t, t) \<Longrightarrow>
    t \<in> insert t0 (set is) \<and> (\<forall>j\<in>insert t0 (set is). f t \<le> f j)"
proof (induction "is" arbitrary: t0)
  case Nil
  then show ?case by simp
next
  case (Cons i js)
  show ?case
  proof (cases "f i < f t0")
    case True
    then show ?thesis using Cons.IH [of i] Cons.prems by force
  next
    case False
    then show ?thesis using Cons.IH [of t0] Cons.prems by force
  qed
qed

lemma weakest_fold_pair:
  fixes f :: "nat \<Rightarrow> int"
  shows "\<exists>t. fold (\<lambda>i (w, t). if f i < w then (f i, i) else (w, t)) js (f t0, t0) = (f t, t)"
  by (induction js arbitrary: t0) auto

lemma weakest_slot_spec:
  "weakest_slot r now < FIELD_SLOTS
   \<and> (\<forall>j<FIELD_SLOTS. effective_energy (r (weakest_slot r now)) now \<le> effective_energy (r j) now)"
proof -
  let ?f = "\<lambda>i. effective_energy (r i) now"
  obtain t where t: "fold (\<lambda>i (w, t). if ?f i < w then (?f i, i) else (w, t)) [1..<8] (?f 0, 0) = (?f t, t)"
    using weakest_fold_pair [of ?f "[1..<8]" 0] by (rule exE)
  then have w: "weakest_slot r now = t" by (simp add: weakest_slot_def Let_def del: upt_conv_Cons)
  have s: "insert 0 (set [1..<8]) = {0..<8 :: nat}" by auto
  show ?thesis using weakest_fold [OF t] unfolding w s by auto
qed

lemma imprint_target_spec:
  "imprint_target r now < FIELD_SLOTS
   \<and> (alive (r (imprint_target r now)) \<longrightarrow> (\<forall>j<FIELD_SLOTS. alive (r j)
        \<and> effective_energy (r (imprint_target r now)) now \<le> effective_energy (r j) now))"
proof (cases "first_idx (\<lambda>i. \<not> alive (r i)) 0 FIELD_SLOTS")
  case None
  then have "imprint_target r now = weakest_slot r now" "\<And>j. j < FIELD_SLOTS \<Longrightarrow> alive (r j)"
    using first_idx_None [of "\<lambda>i. \<not> alive (r i)" 0 8] by (simp_all add: imprint_target_def)
  then show ?thesis using weakest_slot_spec [of r now] by presburger
next
  case (Some i)
  then have "imprint_target r now = i" by (simp add: imprint_target_def)
  then show ?thesis using first_idx_SomeD [OF Some] by simp
qed

text \<open>Imprint is exact: it refuses, changing nothing, exactly a bad region, a bad length or a
  pattern of equal bytes; otherwise it stores the pattern with its wavefront and clamped energy in
  one slot of its region, that slot is a free one unless all eight are live, in which case the slot
  displaced is one of least effective energy, and every other slot of every region is untouched.\<close>

theorem field_imprint_exact:
  assumes "len \<le> length p"
  shows "case field_imprint rg (Some p) len e now st of
     (None, st') \<Rightarrow> st' = st \<and> (rg \<ge> FIELD_REGION_COUNT \<or> len = 0 \<or> len > FIELD_PAT_MAX \<or> uniform (take len p))
   | (Some i, st') \<Rightarrow> rg < FIELD_REGION_COUNT \<and> 0 < len \<and> len \<le> FIELD_PAT_MAX \<and> i < FIELD_SLOTS
       \<and> (let s = regions st' rg i in alive s \<and> flen s = len \<and> take len (fbytes s) = take len p
            \<and> Some (take len (h_q15 s)) = wavefront (take len p) \<and> retrievals s = 0 \<and> imprint_tick s = now
            \<and> energy_q15 s = clamp_energy (if e = 0 then FIELD_ENERGY_DEFAULT else e))
       \<and> (alive (regions st rg i) \<longrightarrow> (\<forall>j<FIELD_SLOTS. alive (regions st rg j)
            \<and> effective_energy (regions st rg i) now \<le> effective_energy (regions st rg j) now))
       \<and> (\<forall>rg' j. rg' \<noteq> rg \<or> j \<noteq> i \<longrightarrow> regions st' rg' j = regions st rg' j)"
proof (cases "rg \<ge> FIELD_REGION_COUNT \<or> len = 0 \<or> len > FIELD_PAT_MAX \<or> wavefront (take len p) = None")
  case True
  then have "rg \<ge> FIELD_REGION_COUNT \<or> len = 0 \<or> len > FIELD_PAT_MAX \<or> uniform (take len p)"
    using wavefront_None [of "take len p"] assms by fastforce
  moreover have "field_imprint rg (Some p) len e now st = (None, st)"
    using True by (auto simp: field_imprint_def)
  ultimately show ?thesis by simp
next
  case False
  then obtain h where h: "wavefront (take len p) = Some h" by auto
  then have l: "length h = len" using wavefront_Some [OF h] assms by simp
  have n: "rg < 8" "0 < len" "len \<le> 64" using False by auto
  let ?i = "imprint_target (regions st rg) now"
  have r: "field_imprint rg (Some p) len e now st = (Some ?i, set_slot rg ?i
      \<lparr>alive = True, flen = len, retrievals = 0, energy_q15 = clamp_energy (if e = 0 then FIELD_ENERGY_DEFAULT else e),
       imprint_tick = now, fbytes = pad (take len p), h_q15 = pad h\<rparr> st)"
    using False h by (simp add: field_imprint_def Let_def)
  show ?thesis
    unfolding r using imprint_target_spec [of "regions st rg" now] n l h assms
    by (simp add: set_slot_def take_pad Let_def)
qed

theorem field_imprint_exact_witness:
  "fst (field_imprint 0 (Some demo_pattern) 3 0 100 field_boot) = Some 0
   \<and> take 3 (fbytes (regions demo_field 0 0)) = take 3 demo_pattern"
proof -
  have t: "imprint_target (regions field_boot 0) 100 = 0"
    by (simp add: imprint_target_def field_boot_def slot_clear_def first_idx.simps)
  have "take 3 demo_pattern = demo_pattern" by (simp add: demo_pattern_def)
  then have f: "field_imprint 0 (Some demo_pattern) 3 0 100 field_boot = (Some 0, demo_field)"
    unfolding demo_field_def by (simp add: field_imprint_def demo_wave t Let_def)
  have "3 \<le> length demo_pattern" by (simp add: demo_pattern_def)
  from field_imprint_exact [OF this, where rg = 0 and e = 0 and now = 100 and st = field_boot] show ?thesis
    unfolding f by (simp add: Let_def)
qed

section \<open>Region isolation\<close>

text \<open>Regions do not leak into each other: two fields that agree on a region give the same
  imprint, recall and introspection answers on it and the same new contents of it, whatever the other
  regions hold, and none of these calls (nor a scrub) changes another region.\<close>

theorem field_region_isolated:
  assumes "regions st rg = regions st2 rg"
  shows "fst (field_imprint rg p len e now st) = fst (field_imprint rg p len e now st2)
    \<and> fst (field_recall rg p len k w now st) = fst (field_recall rg p len k w now st2)
    \<and> field_region_info rg now st = field_region_info rg now st2
    \<and> regions (snd (field_imprint rg p len e now st)) rg = regions (snd (field_imprint rg p len e now st2)) rg
    \<and> regions (snd (field_recall rg p len k w now st)) rg = regions (snd (field_recall rg p len k w now st2)) rg
    \<and> (\<forall>rg'. rg' \<noteq> rg \<longrightarrow> regions (snd (field_imprint rg p len e now st)) rg' = regions st rg'
         \<and> regions (snd (field_recall rg p len k w now st)) rg' = regions st rg'
         \<and> regions (field_region_scrub rg st) rg' = regions st rg')"
proof -
  have o: "regions (snd (field_recall rg p len k w now st)) rg' = regions st rg'" if "rg' \<noteq> rg" for rg'
    using recall_change [of rg p len k w now st] that by (auto simp: set_slot_def)
  have i: "regions (snd (field_imprint rg p len e now st)) rg' = regions st rg'" if "rg' \<noteq> rg" for rg'
    using that by (auto simp: field_imprint_def set_slot_def Let_def split: option.split)
  show ?thesis using o i assms
    by (auto simp: field_imprint_def field_recall_def field_region_info_def field_region_scrub_def set_slot_def Let_def
        split: option.split)
qed

theorem field_region_isolated_witness:
  "fst (field_imprint 1 (Some demo_pattern) 3 0 100 demo_field) = fst (field_imprint 1 (Some demo_pattern) 3 0 100 field_boot)"
proof -
  have "regions demo_field 1 = regions field_boot 1" by (simp add: demo_field_value set_slot_def)
  from field_region_isolated [OF this] show ?thesis by blast
qed

section \<open>The durable round trip\<close>

lemma length_slot_record: "slot_ok s \<Longrightarrow> length (slot_record s) = 76"
  by (simp add: slot_record_def slot_ok_bytes)

lemma slot_record_round_trip:
  assumes "slot_ok s"
  shows "slot_of_record (slot_record s) = s\<lparr>imprint_tick := 0\<rparr>"
proof (cases "alive s")
  case False
  then have "s = slot_clear" using assms by (simp add: slot_ok_def)
  then show ?thesis by (simp add: slot_of_record_def slot_record_def slot_clear_def Let_def)
next
  case True
  then obtain bs h where s: "0 < flen s" "flen s \<le> 64" "FIELD_ENERGY_MIN \<le> energy_q15 s" "energy_q15 s \<le> FIELD_ENERGY_MAX"
      "length bs = flen s" "fbytes s = pad bs" "wavefront bs = Some h" "h_q15 s = pad h"
    using assms by (auto simp: slot_ok_def)
  have rec: "slot_record s = [1, of_nat (flen s), 0, 0] @ le32 (retrievals s) @ le32 (word_of_int (energy_q15 s)) @ fbytes s"
    using True by (simp add: slot_record_def)
  have l: "unat (of_nat (flen s) :: u8) = flen s" using s(2) by (simp add: unat_of_nat)
  have r: "get32 (slot_record s) 4 = retrievals s" "get32 (slot_record s) 8 = word_of_int (energy_q15 s)"
    using get32_le32 [of 4 "[1, of_nat (flen s), 0, 0]" "retrievals s"]
      get32_le32 [of 8 "[1, of_nat (flen s), 0, 0] @ le32 (retrievals s)" "word_of_int (energy_q15 s)"]
    unfolding rec by simp_all
  have e: "clamp_energy (sint (get32 (slot_record s) 8)) = energy_q15 s"
    unfolding r using s(3,4) sint_small [of "energy_q15 s"] clamp_energy_id by simp
  have p: "take (flen s) (drop 12 (slot_record s)) = bs"
    unfolding rec using s(5,6) by (simp add: le32_def pad_def)
  have "slot_of_record (slot_record s) = \<lparr>alive = True, flen = flen s, retrievals = retrievals s,
      energy_q15 = energy_q15 s, imprint_tick = 0, fbytes = pad bs, h_q15 = pad h\<rparr>"
    unfolding slot_of_record_def Let_def using s(1,2) l p s(7) r e by (simp add: rec)
  then show ?thesis using True s by simp
qed

lemma grid_ok: "field_inv st \<Longrightarrow> s \<in> set (slot_grid st) \<Longrightarrow> slot_ok s"
  by (auto simp: slot_grid_def field_inv_def)

lemma blob_record_written:
  assumes "field_inv st" and "n < 64"
  shows "blob_record (fst (field_blob_write st)) n = slot_record (slot_grid st ! n)"
proof -
  have l: "length (slot_grid st) = 64" by (simp add: slot_grid_def)
  have w: "\<And>s. s \<in> set (slot_grid st) \<Longrightarrow> length (slot_record s) = 76"
    using grid_ok [OF assms(1)] length_slot_record by blast
  have c: "length (concat (map slot_record (slot_grid st))) = 4864"
    using length_concat_const [of "slot_grid st" slot_record 76] w l by simp
  have "take 76 (drop (76 * n) (concat (map slot_record (slot_grid st)))) = slot_record (slot_grid st ! n)"
    using chunk_concat_in [of "slot_grid st" slot_record 76 n] w assms(2) l by simp
  moreover obtain P where "fst (field_blob_write st) = P @ concat (map slot_record (slot_grid st)) @ replicate 232 0"
      "length P = 24"
    by (rule that [of "le32 FIELD_BLOB_MAGIC @ le32 FIELD_BLOB_VERSION @ le32 8 @ le32 8 @ le32 64 @ [0, 0, 0, 0]"])
      (simp_all add: field_blob_write_def)
  ultimately show ?thesis using c assms(2) by (simp add: blob_record_def)
qed

lemma live_grid:
  "length (filter alive (map (\<lambda>n. r (n div 8) (n mod 8)) [0..<k * 8]))
   = sum_list (map (\<lambda>rg. length (filter (\<lambda>i. alive (r rg i)) [0..<8])) [0..<k])"
proof (induction k)
  case 0
  then show ?case by simp
next
  case (Suc k)
  have "[k * 8..<k * 8 + 8] = map (\<lambda>i. i + k * 8) [0..<8]" by (simp add: map_add_upt add.commute)
  then have "map (\<lambda>n. r (n div 8) (n mod 8)) [k * 8..<k * 8 + 8] = map (r k) [0..<8]"
    by (simp add: comp_def)
  moreover have "[0..<Suc k * 8] = [0..<k * 8] @ [k * 8..<k * 8 + 8]"
    using upt_add_eq_append [of 0 "k * 8" 8] by (simp add: add.commute)
  ultimately show ?case using Suc.IH by (simp add: filter_map comp_def del: upt_conv_Cons)
qed

lemma slot_grid_nth: "rg < 8 \<Longrightarrow> i < 8 \<Longrightarrow> slot_grid st ! (rg * 8 + i) = regions st rg i"
  by (simp add: slot_grid_def)

lemma blob_header:
  "get32 (fst (field_blob_write st)) 0 = FIELD_BLOB_MAGIC \<and> get32 (fst (field_blob_write st)) 4 = FIELD_BLOB_VERSION
   \<and> get32 (fst (field_blob_write st)) 8 = 8 \<and> get32 (fst (field_blob_write st)) 12 = 8
   \<and> get32 (fst (field_blob_write st)) 16 = 64"
  using get32_le32 [of 0 "[]"] get32_le32 [of 4 "le32 FIELD_BLOB_MAGIC"]
    get32_le32 [of 8 "le32 FIELD_BLOB_MAGIC @ le32 1"] get32_le32 [of 12 "le32 FIELD_BLOB_MAGIC @ le32 1 @ le32 8"]
    get32_le32 [of 16 "le32 FIELD_BLOB_MAGIC @ le32 1 @ le32 8 @ le32 8"]
  by (simp add: field_blob_write_def)

lemma field_blob_restores:
  assumes inv: "field_inv st"
  shows "\<exists>st1. field_blob_load (fst (field_blob_write st)) FIELD_BLOB_BYTES st0 = (Some (snd (field_blob_write st)), st1)
    \<and> (\<forall>rg<FIELD_REGION_COUNT. \<forall>i<FIELD_SLOTS. regions st1 rg i = (regions st rg i)\<lparr>imprint_tick := 0\<rparr>)
    \<and> (\<forall>rg<FIELD_REGION_COUNT. field_region_inherit_peek rg st1 \<longleftrightarrow> (\<exists>i<FIELD_SLOTS. alive (regions st rg i)))"
proof -
  let ?b = "fst (field_blob_write st)"
  have s: "slot_of_record (blob_record ?b (rg * 8 + i)) = (regions st rg i)\<lparr>imprint_tick := 0\<rparr>" if "rg < 8" "i < 8" for rg i
    using that inv blob_record_written [OF inv, of "rg * 8 + i"]
    by (simp add: slot_grid_nth slot_record_round_trip field_inv_def)
  have f: "filter (\<lambda>i. alive (slot_of_record (blob_record ?b (rg * 8 + i)))) [0..<8] = filter (\<lambda>i. alive (regions st rg i)) [0..<8]"
    if "rg < 8" for rg
    by (rule filter_cong) (simp_all add: s that del: upt_conv_Cons)
  have m: "map (\<lambda>rg. length (filter (\<lambda>i. alive (slot_of_record (blob_record ?b (rg * 8 + i)))) [0..<8])) [0..<8]
      = map (\<lambda>rg. length (filter (\<lambda>i. alive (regions st rg i)) [0..<8])) [0..<8]"
    by (rule map_cong) (simp_all add: f del: upt_conv_Cons)
  have n: "snd (field_blob_write st) = sum_list (map (\<lambda>rg. length (filter (\<lambda>i. alive (regions st rg i)) [0..<8])) [0..<8])"
    using live_grid [of "regions st" 8] by (simp add: field_blob_write_def slot_grid_def del: upt_conv_Cons)
  have p: "filter (\<lambda>i. alive (regions st rg i)) [0..<8] \<noteq> [] \<longleftrightarrow> (\<exists>i<8. alive (regions st rg i))" for rg
    unfolding filter_empty_conv by auto
  show ?thesis
    using blob_header [of st]
    by (simp add: field_blob_load_def Let_def m n s f p field_region_inherit_peek_def del: upt_conv_Cons)
qed

lemma length_field_blob: "field_inv st \<Longrightarrow> length (fst (field_blob_write st)) = 5120"
proof -
  assume inv: "field_inv st"
  have "length (concat (map slot_record (slot_grid st))) = 76 * length (slot_grid st)"
    by (rule length_concat_const) (use grid_ok [OF inv] length_slot_record in blast)
  then show ?thesis by (simp add: field_blob_write_def slot_grid_def)
qed

text \<open>The durable field round trip: writing a field and loading the buffer into any field restores
  every slot (bytes, wavefront recomputed from them, energy, retrieval count) with only the imprint
  clock restarted, returns the number of live slots written, and flags as inheritable exactly the
  regions that came back with something in them.\<close>

theorem field_blob_round_trip:
  assumes "field_reachable st"
  shows "\<exists>st1. field_blob_load (fst (field_blob_write st)) FIELD_BLOB_BYTES st0 = (Some (snd (field_blob_write st)), st1)
    \<and> (\<forall>rg<FIELD_REGION_COUNT. \<forall>i<FIELD_SLOTS. regions st1 rg i = (regions st rg i)\<lparr>imprint_tick := 0\<rparr>)
    \<and> (\<forall>rg<FIELD_REGION_COUNT. field_region_inherit_peek rg st1 \<longleftrightarrow> (\<exists>i<FIELD_SLOTS. alive (regions st rg i)))"
  by (rule field_blob_restores [OF field_reachable_inv [OF assms]])

theorem field_blob_round_trip_witness:
  "\<exists>st1. field_blob_load (fst (field_blob_write demo_field)) 4888 field_boot = (Some (snd (field_blob_write demo_field)), st1)
    \<and> fbytes (regions st1 0 0) = pad demo_pattern \<and> field_region_inherit_peek 0 st1"
proof -
  have r: "field_reachable demo_field"
    unfolding demo_field_def by (rule reach_step [OF reach_boot step_imprint]) (simp add: demo_pattern_def)
  have l: "alive (regions demo_field 0 0)" "fbytes (regions demo_field 0 0) = pad demo_pattern"
    by (simp_all add: demo_field_value set_slot_def)
  show ?thesis using field_blob_round_trip [OF r, of field_boot] l by force
qed

end
