(* ===== verification/Ipc_Rep.thy ===== *)
theory Ipc_Rep
  imports Ipc_Queue
begin

text \<open>
  The representation of the message queues: what it means for the pointers of an \<open>ipc_state\<close> to hold
  given lists of entries, and that enqueue, dequeue (with and without a sender filter), and the drain
  loop implement list operations under it. This is the refinement used by every IPC theorem.
\<close>

section \<open>Linked segments\<close>

text \<open>From \<open>p\<close>, whose predecessor is \<open>prev\<close>, the links go through \<open>xs\<close> and end at \<open>q\<close>.\<close>

fun seg :: "(addr \<Rightarrow> ipc_queue_entry_t) \<Rightarrow> addr option \<Rightarrow> addr option \<Rightarrow> addr list \<Rightarrow> addr option \<Rightarrow> bool" where
  "seg es prev p [] q \<longleftrightarrow> p = q"
| "seg es prev p (a # xs) q \<longleftrightarrow> p = Some a \<and> eprev (es a) = prev \<and> seg es (Some a) (enext (es a)) xs q"

definition lst :: "addr option \<Rightarrow> addr list \<Rightarrow> addr option" where
  "lst prev xs = (if xs = [] then prev else Some (last xs))"

lemma lst_simps [simp]: "lst prev [] = prev" "lst prev (xs @ [a]) = Some a" "lst prev (a # xs) = lst (Some a) xs"
  by (simp_all add: lst_def)

lemma lst_append: "lst prev (xs @ ys) = lst (lst prev xs) ys"
  by (induction xs arbitrary: prev) simp_all

lemma seg_append: "seg es prev p (xs @ ys) q \<longleftrightarrow> (\<exists>m. seg es prev p xs m \<and> seg es (lst prev xs) m ys q)"
  by (induction xs arbitrary: prev p) auto

lemma seg_frame: "(\<And>x. x \<in> set xs \<Longrightarrow> es' x = es x) \<Longrightarrow> seg es' prev p xs q = seg es prev p xs q"
  by (induction xs arbitrary: prev p) auto

lemma seg_update_other [simp]: "a \<notin> set xs \<Longrightarrow> seg (es(a := e)) prev p xs q = seg es prev p xs q"
  by (rule seg_frame) auto

lemma seg_set_next: "seg es prev p (ys @ [b]) q \<Longrightarrow> b \<notin> set ys \<Longrightarrow>
  seg (es(b := (es b)\<lparr>enext := q'\<rparr>)) prev p (ys @ [b]) q'"
  by (auto simp: seg_append)

lemma seg_set_prev: "seg es prev p (c # zs) q \<Longrightarrow> c \<notin> set zs \<Longrightarrow>
  seg (es(c := (es c)\<lparr>eprev := prev'\<rparr>)) prev' p (c # zs) q"
  by simp

text \<open>The free list uses only the next links.\<close>

fun free_chain :: "(addr \<Rightarrow> ipc_queue_entry_t) \<Rightarrow> addr option \<Rightarrow> addr list \<Rightarrow> bool" where
  "free_chain es p [] \<longleftrightarrow> p = None"
| "free_chain es p (a # xs) \<longleftrightarrow> p = Some a \<and> free_chain es (enext (es a)) xs"

lemma free_chain_frame: "(\<And>x. x \<in> set xs \<Longrightarrow> es' x = es x) \<Longrightarrow> free_chain es' p xs = free_chain es p xs"
  by (induction xs arbitrary: p) auto

lemma free_chain_update_other [simp]: "a \<notin> set xs \<Longrightarrow> free_chain (es(a := e)) p xs = free_chain es p xs"
  by (rule free_chain_frame) auto

section \<open>The representation predicate\<close>

definition queue_ok :: "(addr \<Rightarrow> ipc_queue_entry_t) \<Rightarrow> ipc_queue_t \<Rightarrow> addr list \<Rightarrow> bool" where
  "queue_ok es q xs \<longleftrightarrow> seg es None (qhead q) xs None \<and> qtail q = lst None xs \<and> qcount q = length xs
     \<and> length xs \<le> qmax q"

text \<open>\<open>L\<close>: the queues in use, \<open>A\<close>: the entries of each, \<open>F\<close>: the free entries. Every entry is in at most
  one of these lists, and at most once.\<close>

definition owned_apart :: "(queue_ref \<Rightarrow> addr list) \<Rightarrow> addr list \<Rightarrow> bool" where
  "owned_apart A F \<longleftrightarrow> distinct F \<and> (\<forall>r. distinct (A r) \<and> set (A r) \<inter> set F = {})
     \<and> (\<forall>r r'. r \<noteq> r' \<longrightarrow> set (A r) \<inter> set (A r') = {})"

definition ipc_rep :: "ipc_state \<Rightarrow> queue_ref set \<Rightarrow> (queue_ref \<Rightarrow> addr list) \<Rightarrow> addr list \<Rightarrow> bool" where
  "ipc_rep st L A F \<longleftrightarrow> (\<forall>r\<in>L. queue_ok (entries st) (queue_at st r) (A r)) \<and> (\<forall>r. r \<notin> L \<longrightarrow> A r = [])
     \<and> free_chain (entries st) (entry_free_list st) F \<and> owned_apart A F
     \<and> (\<forall>r. \<forall>a\<in>set (A r). a < heap_brk st) \<and> (\<forall>a\<in>set F. a < heap_brk st)"

lemma ipc_repD:
  assumes "ipc_rep st L A F"
  shows "r \<in> L \<Longrightarrow> queue_ok (entries st) (queue_at st r) (A r)" "r \<notin> L \<Longrightarrow> A r = []"
    "free_chain (entries st) (entry_free_list st) F" "owned_apart A F" "a \<in> set (A r) \<Longrightarrow> a < heap_brk st"
    "a \<in> set F \<Longrightarrow> a < heap_brk st"
  using assms by (auto simp: ipc_rep_def)

lemma owned_apartD:
  assumes "owned_apart A F"
  shows "distinct F" "distinct (A r)" "a \<in> set (A r) \<Longrightarrow> a \<notin> set F" "r \<noteq> r' \<Longrightarrow> a \<in> set (A r) \<Longrightarrow> a \<notin> set (A r')"
  using assms unfolding owned_apart_def by blast+

text \<open>Messages of a queue, read off the store.\<close>

definition msgs_at :: "ipc_state \<Rightarrow> addr list \<Rightarrow> ipc_message_t list" where
  "msgs_at st xs = map (\<lambda>a. message (entries st a)) xs"

lemma set_entry_simps [simp]:
  "entries (set_entry a e st) = (entries st)(a := e)" "queue_at (set_entry a e st) = queue_at st"
  "entry_free_list (set_entry a e st) = entry_free_list st" "heap_brk (set_entry a e st) = heap_brk st"
  "entries (set_queue r q st) = entries st" "queue_at (set_queue r q st) = (queue_at st)(r := q)"
  "entry_free_list (set_queue r q st) = entry_free_list st" "heap_brk (set_queue r q st) = heap_brk st"
  by (simp_all add: set_entry_def set_queue_def)

text \<open>The representation depends only on the queues, the store and the free list.\<close>

lemma ipc_rep_frame:
  assumes "entries st' = entries st" "queue_at st' = queue_at st" "entry_free_list st' = entry_free_list st"
    "heap_brk st' = heap_brk st"
  shows "ipc_rep st' L A F = ipc_rep st L A F"
  unfolding ipc_rep_def assms ..

lemma owned_apart_shrink:
  assumes "owned_apart A F" and "set xs \<subseteq> set (A r)" and "distinct xs"
  shows "owned_apart (A(r := xs)) F"
proof -
  have "set ((A(r := xs)) r') \<subseteq> set (A r') \<and> distinct ((A(r := xs)) r')" for r'
    using assms by (simp add: owned_apart_def)
  then show ?thesis using assms(1) unfolding owned_apart_def by blast
qed

section \<open>Allocation and release\<close>

lemma alloc_rep:
  assumes rep: "ipc_rep st L A F" and al: "queue_alloc_entry st = (Some a, st')"
  shows "\<exists>F'. ipc_rep st' L A F' \<and> a \<notin> set F' \<and> (\<forall>r. a \<notin> set (A r)) \<and> a < heap_brk st'
    \<and> (\<forall>b. b \<noteq> a \<longrightarrow> entries st' b = entries st b) \<and> queue_at st' = queue_at st"
proof (cases "entry_free_list st")
  case None
  then have a: "a = heap_brk st" "st' = set_entry a ((entries st a)\<lparr>enext := None, eprev := None\<rparr>) (st\<lparr>heap_brk := a + 1\<rparr>)"
    using al by (auto simp: queue_alloc_entry_def split: if_splits)
  then have n: "a \<notin> set F" "\<forall>r. a \<notin> set (A r)" using ipc_repD(5,6) [OF rep] by blast+
  then have "ipc_rep st' L A F"
    using rep a(1) unfolding ipc_rep_def a(2) by (auto simp: queue_ok_def less_Suc_eq)
  then show ?thesis using n a by (intro exI [of _ F]) auto
next
  case (Some b)
  then have a: "a = b" "st' = set_entry a ((entries st a)\<lparr>enext := None, eprev := None\<rparr>)
      (st\<lparr>entry_free_list := enext (entries st a)\<rparr>)"
    using al by (auto simp: queue_alloc_entry_def)
  obtain F' where F: "F = a # F'" using ipc_repD(3) [OF rep] Some a by (cases F) auto
  note ap = owned_apartD [OF ipc_repD(4) [OF rep]]
  have n: "a \<notin> set F'" "\<forall>r. a \<notin> set (A r)" using ap(1,3) F by auto
  have "owned_apart A F'" using ipc_repD(4) [OF rep] unfolding owned_apart_def F by auto
  then have "ipc_rep st' L A F'"
    using rep n unfolding ipc_rep_def a(2) F by (auto simp: queue_ok_def)
  then show ?thesis using n a ipc_repD(6) [OF rep] F by (intro exI [of _ F']) auto
qed

lemma alloc_None: "queue_alloc_entry st = (None, st') \<Longrightarrow> st' = st \<and> entry_free_list st = None \<and> heap_brk st \<ge> heap_limit st"
  by (auto simp: queue_alloc_entry_def split: option.splits if_splits)

text \<open>Returning an entry that no list holds.\<close>

lemma free_rep:
  assumes rep: "ipc_rep st L A F" and n: "a \<notin> set F" "\<forall>r. a \<notin> set (A r)" "a < heap_brk st"
  shows "ipc_rep (queue_free_entry a st) L A (a # F)"
proof -
  have "owned_apart A (a # F)"
    using ipc_repD(4) [OF rep] n unfolding owned_apart_def by auto
  then show ?thesis
    using rep n unfolding ipc_rep_def queue_free_entry_def by (auto simp: queue_ok_def)
qed

section \<open>Enqueue\<close>

lemma enqueue_fail:
  assumes rep: "ipc_rep st L A F" and "queue_enqueue r m st = (res, st')" and "res \<noteq> IPC_SUCCESS"
  shows "ipc_rep st' L A F \<and> entries st' = entries st
    \<and> (res = IPC_ERROR_BUFFER_FULL \<and> qcount (queue_at st r) \<ge> qmax (queue_at st r)
       \<or> res = IPC_ERROR_OUT_OF_MEMORY \<and> entry_free_list st = None \<and> heap_brk st \<ge> heap_limit st)"
proof -
  have s: "st' = queue_drop r st" "(res = IPC_ERROR_BUFFER_FULL \<and> qcount (queue_at st r) \<ge> qmax (queue_at st r)
       \<or> res = IPC_ERROR_OUT_OF_MEMORY \<and> entry_free_list st = None \<and> heap_brk st \<ge> heap_limit st)"
    using assms(2,3) alloc_None
    by (auto simp: queue_enqueue_def Let_def split: if_splits option.splits prod.splits)
  have "ipc_rep (queue_drop r st) L A F"
    using rep unfolding ipc_rep_def queue_drop_def by (auto simp: queue_ok_def)
  then show ?thesis using s by (simp add: queue_drop_def)
qed

lemma owned_apart_add:
  assumes "owned_apart A F" and "a \<notin> set F" and "\<forall>r. a \<notin> set (A r)"
  shows "owned_apart (A(r := A r @ [a])) F"
  using assms unfolding owned_apart_def by (auto simp: disjoint_iff)

text \<open>Linking a fresh entry \<open>a\<close> behind the tail.\<close>

lemma link_tail:
  assumes "queue_ok es q xs" and "qcount q < qmax q" and "a \<notin> set xs" and "distinct xs"
  shows "queue_ok (case qtail q of Some t \<Rightarrow> (es(a := \<lparr>message = m, enext = None, eprev = qtail q\<rparr>))(t := (es t)\<lparr>enext := Some a\<rparr>)
      | None \<Rightarrow> es(a := \<lparr>message = m, enext = None, eprev = qtail q\<rparr>))
    ((case qtail q of Some t \<Rightarrow> q | None \<Rightarrow> q\<lparr>qhead := Some a\<rparr>)\<lparr>qtail := Some a, qcount := Suc (qcount q)\<rparr>) (xs @ [a])"
proof (cases xs rule: rev_cases)
  case Nil
  then show ?thesis using assms by (simp add: queue_ok_def)
next
  case (snoc ys t)
  then have q: "qtail q = Some t" using assms(1) by (simp add: queue_ok_def)
  have "seg es None (qhead q) (ys @ [t]) None" "t \<notin> set ys" "a \<noteq> t" "a \<notin> set ys"
    using assms snoc by (simp_all add: queue_ok_def)
  then have "seg (es(t := (es t)\<lparr>enext := Some a\<rparr>)) None (qhead q) (ys @ [t]) (Some a)" by (rule_tac seg_set_next)
  then have "seg ((es(a := \<lparr>message = m, enext = None, eprev = Some t\<rparr>))(t := (es t)\<lparr>enext := Some a\<rparr>)) None (qhead q) (ys @ [t]) (Some a)"
    using \<open>a \<noteq> t\<close> \<open>a \<notin> set ys\<close> by (subst fun_upd_twist) simp_all
  then show ?thesis using assms snoc q \<open>a \<noteq> t\<close> by (auto simp: queue_ok_def seg_append lst_append)
qed

lemma enqueue_ok:
  assumes rep: "ipc_rep st L A F" and r: "r \<in> L" and eq: "queue_enqueue r m st = (IPC_SUCCESS, st')"
  shows "\<exists>a F'. ipc_rep st' L (A(r := A r @ [a])) F' \<and> message (entries st' a) = m \<and> (\<forall>r. a \<notin> set (A r))
    \<and> (\<forall>b. b \<noteq> a \<longrightarrow> message (entries st' b) = message (entries st b)) \<and> length (A r) < qmax (queue_at st r)"
proof -
  define q where "q = queue_at st r"
  have room: "qcount q < qmax q" using eq by (auto simp: queue_enqueue_def q_def Let_def split: if_splits)
  obtain a st1 where al: "queue_alloc_entry st = (Some a, st1)"
    using eq room by (auto simp: queue_enqueue_def q_def Let_def split: prod.splits option.splits)
  obtain F' where f: "ipc_rep st1 L A F'" "a \<notin> set F'" "\<forall>r. a \<notin> set (A r)" "a < heap_brk st1"
      "\<forall>b. b \<noteq> a \<longrightarrow> entries st1 b = entries st b" "queue_at st1 = queue_at st"
    using alloc_rep [OF rep al] by blast
  note ap = owned_apartD [OF ipc_repD(4) [OF f(1)]]
  have ok: "queue_ok (entries st1) q (A r)" using ipc_repD(1) [OF f(1) r] f(6) by (simp add: q_def)
  define e where "e = \<lparr>message = m, enext = None, eprev = qtail q\<rparr>"
  define es where "es = (case qtail q of Some t \<Rightarrow> ((entries st1)(a := e))(t := (entries st1 t)\<lparr>enext := Some a\<rparr>)
      | None \<Rightarrow> (entries st1)(a := e))"
  define q' where "q' = (case qtail q of Some t \<Rightarrow> q | None \<Rightarrow> q\<lparr>qhead := Some a\<rparr>)\<lparr>qtail := Some a, qcount := Suc (qcount q)\<rparr>"
  have tl: "t \<in> set (A r) \<and> t \<noteq> a" if "qtail q = Some t" for t
  proof -
    have "A r \<noteq> []" "t = last (A r)" using ok that by (auto simp: queue_ok_def lst_def split: if_splits)
    then show ?thesis using f(3) last_in_set by metis
  qed
  have st': "entries st' = es" "queue_at st' = (queue_at st1)(r := q')" "entry_free_list st' = entry_free_list st1"
      "heap_brk st' = heap_brk st1"
    using eq room al tl unfolding queue_enqueue_def es_def q'_def e_def q_def [symmetric]
    by (auto simp: Let_def split: option.splits)
  have ok': "queue_ok es q' (A r @ [a])"
    using link_tail [OF ok room, of a m] f(3) ap(2) unfolding es_def q'_def e_def by blast
  have fr: "es b = entries st1 b" if "b \<noteq> a" "b \<notin> set (A r)" for b
    using that tl by (auto simp: es_def split: option.split)
  have oth: "queue_ok es (queue_at st1 r') (A r')" if "r' \<in> L" "r' \<noteq> r" for r'
  proof -
    have "es x = entries st1 x" if "x \<in> set (A r')" for x
      using ap(4) [OF \<open>r' \<noteq> r\<close> that] f(3) that by (intro fr) auto
    then have "seg es None p (A r') None = seg (entries st1) None p (A r') None" for p by (rule seg_frame)
    then show ?thesis using ipc_repD(1) [OF f(1) that(1)] by (simp add: queue_ok_def)
  qed
  have fc: "free_chain es (entry_free_list st1) F'"
    using ipc_repD(3) [OF f(1)] by (subst free_chain_frame [where es' = es]) (use f(2) ap(3) in \<open>auto intro!: fr\<close>)
  have "ipc_rep st' L (A(r := A r @ [a])) F'"
    unfolding ipc_rep_def st' using ok' oth fc owned_apart_add [OF ipc_repD(4) [OF f(1)] f(2,3)] r f(4) ipc_repD [OF f(1)]
    by auto
  moreover have "message (es a) = m" "\<forall>b. b \<noteq> a \<longrightarrow> message (es b) = message (entries st b)"
    using tl f(5) by (auto simp: es_def e_def split: option.split)
  ultimately show ?thesis
    using f(3) room ok unfolding st'(1) by (auto simp: queue_ok_def q_def intro!: exI [of _ a])
qed

section \<open>Dequeue\<close>

lemma find_sender_fuel:
  "seg es prev p xs None \<Longrightarrow> length xs \<le> n \<Longrightarrow>
   find_sender n es p s = find (\<lambda>a. sender_id (message (es a)) = s) xs"
proof (induction xs arbitrary: n prev p)
  case Nil
  then show ?case by (cases n) simp_all
next
  case (Cons a xs)
  then show ?case by (cases n) auto
qed

lemma find_split: "find P xs = Some a \<Longrightarrow> \<exists>ys zs. xs = ys @ a # zs \<and> P a \<and> (\<forall>y\<in>set ys. \<not> P y)"
proof (induction xs)
  case (Cons x xs)
  show ?case
  proof (cases "P x")
    case True
    then show ?thesis using Cons.prems by (intro exI [of _ "[]"] exI [of _ xs]) simp
  next
    case False
    then obtain ys zs where "xs = ys @ a # zs" "P a" "\<forall>y\<in>set ys. \<not> P y" using Cons by auto
    then show ?thesis using False by (intro exI [of _ "x # ys"] exI [of _ zs]) simp
  qed
qed simp

text \<open>Taking an entry out of the middle, as \<open>queue_dequeue\<close> does.\<close>

definition unlink_prev :: "addr option \<Rightarrow> addr option \<Rightarrow> (addr \<Rightarrow> ipc_queue_entry_t) \<Rightarrow> (addr \<Rightarrow> ipc_queue_entry_t)" where
  "unlink_prev p n es = (case p of Some b \<Rightarrow> es(b := (es b)\<lparr>enext := n\<rparr>) | None \<Rightarrow> es)"

definition unlink_next :: "addr option \<Rightarrow> addr option \<Rightarrow> (addr \<Rightarrow> ipc_queue_entry_t) \<Rightarrow> (addr \<Rightarrow> ipc_queue_entry_t)" where
  "unlink_next n p es = (case n of Some c \<Rightarrow> es(c := (es c)\<lparr>eprev := p\<rparr>) | None \<Rightarrow> es)"

lemma seg_first: "seg es prev p zs None \<Longrightarrow> p = (if zs = [] then None else Some (hd zs))"
  by (cases zs) auto

lemma unlink_seg:
  assumes s: "seg es None h (ys @ a # zs) None" and d: "distinct (ys @ a # zs)"
  shows "seg (unlink_next (enext (es a)) (eprev (es a)) (unlink_prev (eprev (es a)) (enext (es a)) es)) None
     (if eprev (es a) = None then enext (es a) else h) (ys @ zs) None"
proof -
  let ?n = "enext (es a)"
  have y: "seg es None h ys (Some a)" and p: "eprev (es a) = lst None ys" and z: "seg es (Some a) ?n zs None"
    using s by (auto simp: seg_append)
  define es1 where "es1 = unlink_prev (eprev (es a)) ?n es"
  have y1: "seg es1 None (if eprev (es a) = None then ?n else h) ys ?n"
  proof (cases ys rule: rev_cases)
    case Nil
    then show ?thesis using p by (simp add: es1_def unlink_prev_def)
  next
    case (snoc us b)
    then show ?thesis using seg_set_next [of es None h us b "Some a" ?n] y p d by (simp add: es1_def unlink_prev_def)
  qed
  have e1: "es1 x = es x" if "x \<notin> set ys" for x
    using that p by (cases ys rule: rev_cases) (auto simp: es1_def unlink_prev_def)
  have "seg es1 (Some a) ?n zs None"
    using z e1 d by (subst seg_frame [where es = es]) auto
  then have z2: "seg (unlink_next ?n (lst None ys) es1) (lst None ys) ?n zs None"
    using d by (cases zs) (auto simp: unlink_next_def)
  have "seg (unlink_next ?n (lst None ys) es1) None q ys q' = seg es1 None q ys q'" for q q'
    using seg_first [OF z] d by (intro seg_frame) (auto simp: unlink_next_def split: option.split if_splits)
  then show ?thesis using y1 z2 p unfolding es1_def by (auto simp: seg_append)
qed

lemma lst_nonempty: "zs \<noteq> [] \<Longrightarrow> lst p zs = Some (last zs)"
  by (simp add: lst_def)

lemma unlink_rep:
  assumes rep: "ipc_rep st L A F" and r: "r \<in> L" and A: "A r = ys @ a # zs"
  shows "ipc_rep (queue_unlink r a st) L (A(r := ys @ zs)) (a # F)
    \<and> (\<forall>b. message (entries (queue_unlink r a st) b) = message (entries st b))"
proof -
  define q where "q = queue_at st r"
  define es where "es = entries st"
  define es' where "es' = unlink_next (enext (es a)) (eprev (es a)) (unlink_prev (eprev (es a)) (enext (es a)) es)"
  define q' where "q' = q\<lparr>qhead := (if eprev (es a) = None then enext (es a) else qhead q),
      qtail := (if enext (es a) = None then eprev (es a) else qtail q), qcount := qcount q - 1\<rparr>"
  note ap = owned_apartD [OF ipc_repD(4) [OF rep]]
  have ok: "queue_ok es q (A r)" using ipc_repD(1) [OF rep r] by (simp add: q_def es_def)
  have d: "distinct (ys @ a # zs)" using ap(2) [of r] A by simp
  have s: "seg es None (qhead q) (ys @ a # zs) None" using ok A by (simp add: queue_ok_def)
  then have p: "eprev (es a) = lst None ys" "seg es (Some a) (enext (es a)) zs None" by (auto simp: seg_append)
  have nx: "enext (es a) = (if zs = [] then None else Some (hd zs))" by (rule seg_first [OF p(2)])
  have u: "queue_unlink r a st = queue_free_entry a (set_queue r q' (st\<lparr>entries := es'\<rparr>))"
    unfolding queue_unlink_def q'_def es'_def es_def q_def unlink_prev_def unlink_next_def set_entry_def
    by (auto simp: Let_def split: option.split)
  have ok': "queue_ok es' q' (ys @ zs)"
    using unlink_seg [OF s d] ok p nx A unfolding es'_def q'_def by (auto simp: queue_ok_def lst_append lst_nonempty)
  have fr: "es' b = es b" if "b \<notin> set (A r)" for b
    using that p nx A by (cases ys rule: rev_cases) (auto simp: es'_def unlink_prev_def unlink_next_def)
  have oth: "queue_ok es' (queue_at st r') (A r')" if "r' \<in> L" "r' \<noteq> r" for r'
  proof -
    have "es' x = es x" if "x \<in> set (A r')" for x
      using ap(4) [OF \<open>r' \<noteq> r\<close> that] by (rule fr)
    then have "seg es' None p (A r') None = seg es None p (A r') None" for p by (rule seg_frame)
    then show ?thesis using ipc_repD(1) [OF rep that(1)] by (simp add: queue_ok_def es_def)
  qed
  have fc: "free_chain es' (entry_free_list st) F"
    using ipc_repD(3) [OF rep] ap(3) [of _ r] fr by (subst free_chain_frame [where es = es]) (auto simp: es_def)
  have bd: "\<forall>x\<in>set ys \<union> set zs. x < heap_brk st" using ipc_repD(5) [OF rep, of _ r] A by simp
  have "owned_apart (A(r := ys @ zs)) F"
    using owned_apart_shrink [OF ipc_repD(4) [OF rep], of "ys @ zs" r] d A by auto
  then have "ipc_rep (set_queue r q' (st\<lparr>entries := es'\<rparr>)) L (A(r := ys @ zs)) F"
    using ok' oth fc ipc_repD [OF rep] r bd unfolding ipc_rep_def by auto
  moreover have "\<forall>r'. a \<notin> set ((A(r := ys @ zs)) r')" "a \<notin> set F" "a < heap_brk st"
    using d A ap(3) [of a r] ap(4) [of r _ a] ipc_repD(5) [OF rep, of a r] by auto
  ultimately have "ipc_rep (queue_unlink r a st) L (A(r := ys @ zs)) (a # F)"
    unfolding u by (intro free_rep) (simp_all add: set_queue_def)
  moreover have "message (es' b) = message (es b)" for b
    by (auto simp: es'_def unlink_prev_def unlink_next_def split: option.split)
  ultimately show ?thesis unfolding u by (auto simp: queue_free_entry_def es_def)
qed

lemma length_owned: "ipc_rep st L A F \<Longrightarrow> length (A r) \<le> heap_brk st"
proof -
  assume rep: "ipc_rep st L A F"
  have "set (A r) \<subseteq> {..<heap_brk st}" using ipc_repD(5) [OF rep] by auto
  then have "card (set (A r)) \<le> heap_brk st" by (metis card_lessThan card_mono finite_lessThan)
  then show ?thesis using owned_apartD(2) [OF ipc_repD(4) [OF rep], of r] by (simp add: distinct_card)
qed

text \<open>The message a receiver takes: the first, or the first of the sender asked for.\<close>

definition takes :: "u32 option \<Rightarrow> ipc_message_t \<Rightarrow> bool" where
  "takes fs m \<longleftrightarrow> fs = None \<or> fs = Some IPC_PID_ANY \<or> fs = Some (sender_id m)"

lemma dequeue_ok:
  assumes rep: "ipc_rep st L A F" and r: "r \<in> L" and eq: "queue_dequeue r fs st = (Inr m, st')"
  shows "\<exists>ys a zs. A r = ys @ a # zs \<and> ipc_rep st' L (A(r := ys @ zs)) (a # F) \<and> m = message (entries st a)
    \<and> takes fs m \<and> (\<forall>y\<in>set ys. \<not> takes fs (message (entries st y)))
    \<and> (\<forall>b. message (entries st' b) = message (entries st b))"
proof -
  have ok: "queue_ok (entries st) (queue_at st r) (A r)" using ipc_repD(1) [OF rep r] .
  then have h: "seg (entries st) None (qhead (queue_at st r)) (A r) None" by (simp add: queue_ok_def)
  have ex: "\<exists>ys a zs. A r = ys @ a # zs \<and> (m, st') = (message (entries st a), queue_unlink r a st)
      \<and> takes fs (message (entries st a)) \<and> (\<forall>y\<in>set ys. \<not> takes fs (message (entries st y)))"
  proof (cases "fs \<noteq> None \<and> fs \<noteq> Some IPC_PID_ANY")
    case True
    obtain a where a: "find_sender (heap_brk st) (entries st) (qhead (queue_at st r)) (the fs) = Some a"
        "m = message (entries st a)" "st' = queue_unlink r a st"
      using eq True by (auto simp: queue_dequeue_def Let_def split: if_splits option.splits)
    have "find (\<lambda>a. sender_id (message (entries st a)) = the fs) (A r) = Some a"
      using find_sender_fuel [OF h length_owned [OF rep]] a(1) by simp
    then show ?thesis using find_split True a(2,3) unfolding takes_def by fastforce
  next
    case False
    then obtain a where a: "qhead (queue_at st r) = Some a" "m = message (entries st a)" "st' = queue_unlink r a st"
      using eq by (auto simp: queue_dequeue_def Let_def split: if_splits option.splits)
    then obtain zs where "A r = a # zs" using h by (cases "A r") auto
    then show ?thesis using a False by (intro exI [of _ "[]"] exI [of _ a] exI [of _ zs]) (auto simp: takes_def)
  qed
  then show ?thesis using unlink_rep [OF rep r] by blast
qed

lemma dequeue_fail:
  assumes rep: "ipc_rep st L A F" and r: "r \<in> L" and eq: "queue_dequeue r fs st = (Inl e, st')"
  shows "e = IPC_ERROR_NO_MESSAGE \<and> st' = st \<and> (\<forall>a\<in>set (A r). \<not> takes fs (message (entries st a)))"
proof -
  have ok: "queue_ok (entries st) (queue_at st r) (A r)" using ipc_repD(1) [OF rep r] .
  then have h: "seg (entries st) None (qhead (queue_at st r)) (A r) None" by (simp add: queue_ok_def)
  have e: "e = IPC_ERROR_NO_MESSAGE" "st' = st"
    using eq by (auto simp: queue_dequeue_def Let_def split: if_splits option.splits)
  show ?thesis
  proof (cases "A r = []")
    case True
    then show ?thesis using e by simp
  next
    case False
    then have ne: "qcount (queue_at st r) \<noteq> 0" "qhead (queue_at st r) \<noteq> None"
      using ok seg_first [OF h] by (auto simp: queue_ok_def)
    then have fs: "fs \<noteq> None" "fs \<noteq> Some IPC_PID_ANY"
        "find_sender (heap_brk st) (entries st) (qhead (queue_at st r)) (the fs) = None"
      using eq by (auto simp: queue_dequeue_def Let_def split: if_splits option.splits)
    then have "find (\<lambda>a. sender_id (message (entries st a)) = the fs) (A r) = None"
      using find_sender_fuel [OF h length_owned [OF rep]] by simp
    then show ?thesis using e fs by (auto simp: find_None_iff takes_def)
  qed
qed

section \<open>Draining\<close>

lemma ipc_rep_release: "ipc_rep st L A F \<Longrightarrow> ipc_rep st (L - {r}) (A(r := [])) F"
  unfolding ipc_rep_def owned_apart_def by auto

lemma drain_rep:
  assumes "ipc_rep st L A F" and "r \<notin> L" and "seg (entries st) prev (qhead (queue_at st r)) xs None"
    and "distinct xs" and "\<forall>a\<in>set xs. a \<notin> set F \<and> (\<forall>r. a \<notin> set (A r)) \<and> a < heap_brk st" and "length xs \<le> n"
  shows "ipc_rep (queue_drain n r st) L A (rev xs @ F) \<and> qhead (queue_at (queue_drain n r st) r) = None
    \<and> (\<forall>b. message (entries (queue_drain n r st) b) = message (entries st b))"
  using assms
proof (induction xs arbitrary: n st F prev)
  case Nil
  then show ?case by (cases n) simp_all
next
  case (Cons a xs)
  then obtain k where n: "n = Suc k" "length xs \<le> k" by (cases n) auto
  define st1 where "st1 = set_queue r ((queue_at st r)\<lparr>qhead := enext (entries st a)\<rparr>) st"
  define st2 where "st2 = queue_free_entry a st1"
  have h: "qhead (queue_at st r) = Some a" "seg (entries st) (Some a) (enext (entries st a)) xs None" using Cons.prems(3) by auto
  have d: "queue_drain n r st = queue_drain k r st2" using h n by (simp add: st1_def st2_def)
  have "ipc_rep st1 L A F" using Cons.prems(1,2) unfolding ipc_rep_def st1_def by auto
  then have rep2: "ipc_rep st2 L A (a # F)" unfolding st2_def using Cons.prems(5) by (intro free_rep) (auto simp: st1_def set_queue_def)
  have sg: "seg (entries st2) (Some a) (qhead (queue_at st2 r)) xs None"
    using h Cons.prems(4) by (simp add: st2_def st1_def queue_free_entry_def)
  have brk: "heap_brk st2 = heap_brk st" by (simp add: st2_def st1_def queue_free_entry_def set_queue_def)
  have bd: "\<forall>b\<in>set xs. b \<notin> set (a # F) \<and> (\<forall>r. b \<notin> set (A r)) \<and> b < heap_brk st2"
    using Cons.prems(4,5) brk by auto
  have "distinct xs" using Cons.prems(4) by simp
  from Cons.IH [OF rep2 Cons.prems(2) sg this bd n(2)]
  have "ipc_rep (queue_drain k r st2) L A (rev xs @ a # F) \<and> qhead (queue_at (queue_drain k r st2) r) = None
      \<and> (\<forall>b. message (entries (queue_drain k r st2) b) = message (entries st2 b))" .
  then show ?case unfolding d by (auto simp: st2_def st1_def queue_free_entry_def)
qed

text \<open>With fuel \<open>heap_brk\<close> the loop empties the queue: every entry goes to the free list, and no other
  queue is touched.\<close>

lemma drain_queue:
  assumes rep: "ipc_rep st L A F" and r: "r \<in> L"
  shows "ipc_rep (queue_drain (heap_brk st) r st) (L - {r}) (A(r := [])) (rev (A r) @ F)
    \<and> qhead (queue_at (queue_drain (heap_brk st) r st) r) = None
    \<and> (\<forall>b. message (entries (queue_drain (heap_brk st) r st) b) = message (entries st b))"
proof (rule drain_rep [where prev = None])
  show "ipc_rep st (L - {r}) (A(r := [])) F" by (rule ipc_rep_release [OF rep])
  show "seg (entries st) None (qhead (queue_at st r)) (A r) None" using ipc_repD(1) [OF rep r] by (simp add: queue_ok_def)
  show "distinct (A r)" using owned_apartD(2) [OF ipc_repD(4) [OF rep]] .
  show "\<forall>a\<in>set (A r). a \<notin> set F \<and> (\<forall>r'. a \<notin> set ((A(r := [])) r')) \<and> a < heap_brk st"
    using owned_apartD(3,4) [OF ipc_repD(4) [OF rep]] ipc_repD(5) [OF rep] by auto
  show "length (A r) \<le> heap_brk st" by (rule length_owned [OF rep])
qed simp

lemma drain_frame:
  "ports (queue_drain n r st) = ports st \<and> channels (queue_drain n r st) = channels st
   \<and> queue_initialized (queue_drain n r st) = queue_initialized st \<and> heap_brk (queue_drain n r st) = heap_brk st
   \<and> ipc_initialized (queue_drain n r st) = ipc_initialized st
   \<and> (\<forall>r'. r' \<noteq> r \<longrightarrow> queue_at (queue_drain n r st) r' = queue_at st r')"
  by (induction n arbitrary: st) (auto simp: queue_free_entry_def set_entry_def set_queue_def split: option.split)

end
