(* ===== verification/Ipc.thy ===== *)
theory Ipc
  imports Ipc_Rep
begin

text \<open>
  The operations of \<open>kernel/src/ipc/ipc.c\<close> over the queues of \<open>Ipc_Queue\<close>: process message passing,
  named ports, channels, the quantum message helpers and the queries. \<open>cur\<close> is the pid
  \<open>get_current_pid()\<close> returns during the call; names are C strings, given as lists without the NUL;
  \<open>get_timestamp_ns()\<close> is the constant 0 the source returns. Pids and ids keep their 32 bits.
\<close>

section \<open>Helpers\<close>

fun str_equal :: "string \<Rightarrow> string \<Rightarrow> bool" where
  "str_equal (a # as) (b # bs) = (if a \<noteq> b then False else str_equal as bs)"
| "str_equal [] [] = True"
| "str_equal _ _ = False"

lemma str_equal_iff [simp]: "str_equal a b \<longleftrightarrow> a = b"
  by (induction a b rule: str_equal.induct) auto

definition str_copy :: "string \<Rightarrow> nat \<Rightarrow> string" where
  "str_copy src n = take (n - 1) src"

definition find_port_by_id :: "ipc_state \<Rightarrow> u32 \<Rightarrow> nat option" where
  "find_port_by_id st pid = first_idx (\<lambda>i. port_id (ports st i) = pid \<and> port_state (ports st i) \<noteq> IPC_PORT_CLOSED) 0 MAX_PORTS"

definition find_port_by_name :: "ipc_state \<Rightarrow> string \<Rightarrow> nat option" where
  "find_port_by_name st name = first_idx (\<lambda>i. port_state (ports st i) \<noteq> IPC_PORT_CLOSED \<and> str_equal (port_name (ports st i)) name) 0 MAX_PORTS"

definition find_channel :: "ipc_state \<Rightarrow> u32 \<Rightarrow> nat option" where
  "find_channel st cid = first_idx (\<lambda>i. channel_id (channels st i) = cid \<and> is_active (channels st i)) 0 MAX_CHANNELS"

definition queue_reset :: "port_state \<Rightarrow> ipc_queue_t" where
  "queue_reset s = \<lparr>qhead = None, qtail = None, qcount = 0, qmax = IPC_MAX_QUEUE_SIZE, qdropped = 0, qstate = s\<rparr>"

section \<open>Initialisation and process lifecycle\<close>

definition ipc_process_init :: "u32 \<Rightarrow> ipc_state \<Rightarrow> ipc_result_t \<times> ipc_state" where
  "ipc_process_init pid st =
     (if unat pid \<ge> IPC_MAX_PROCESSES then (IPC_ERROR_INVALID_ARG, st)
      else if queue_initialized st (unat pid) then (IPC_SUCCESS, st)
      else (IPC_SUCCESS, (set_queue (QProc (unat pid)) (queue_reset IPC_PORT_OPEN) st)
              \<lparr>queue_initialized := (queue_initialized st)(unat pid := True)\<rparr>))"

text \<open>The initialisation loops, then the kernel's own queue.\<close>

definition ipc_init :: "ipc_state \<Rightarrow> ipc_result_t \<times> ipc_state" where
  "ipc_init st =
     (if ipc_initialized st then (IPC_SUCCESS, st)
      else let st = st\<lparr>
            queue_at := (\<lambda>r. case r of QProc i \<Rightarrow> if i < IPC_MAX_PROCESSES then queue_reset IPC_PORT_CLOSED else queue_at st r
                                      | _ \<Rightarrow> queue_at st r),
            queue_initialized := (\<lambda>i. if i < IPC_MAX_PROCESSES then False else queue_initialized st i),
            ports := (\<lambda>i. if i < MAX_PORTS then (ports st i)\<lparr>port_id := 0, owner_id := 0, port_name := [], port_state := IPC_PORT_CLOSED\<rparr>
                          else ports st i),
            channels := (\<lambda>i. if i < MAX_CHANNELS then (channels st i)\<lparr>channel_id := 0, is_active := False\<rparr> else channels st i),
            total_sent := 0, total_received := 0, total_dropped := 0\<rparr>;
          st = snd (ipc_process_init IPC_PID_KERNEL st)
        in (IPC_SUCCESS, st\<lparr>ipc_initialized := True\<rparr>))"

text \<open>The bound of the free loops: \<open>heap_brk\<close> entries exist (theorems show that it empties the queue).\<close>

definition queue_free_all :: "queue_ref \<Rightarrow> ipc_state \<Rightarrow> ipc_state" where
  "queue_free_all r st = queue_drain (heap_brk st) r st"

definition ipc_port_destroy :: "u32 \<Rightarrow> u32 \<Rightarrow> ipc_state \<Rightarrow> ipc_result_t \<times> ipc_state" where
  "ipc_port_destroy cur pid st =
     (case find_port_by_id st pid of None \<Rightarrow> (IPC_ERROR_INVALID_PORT, st)
      | Some i \<Rightarrow>
        if owner_id (ports st i) \<noteq> cur \<and> cur \<noteq> IPC_PID_KERNEL then (IPC_ERROR_PERMISSION_DENIED, st)
        else let st = queue_free_all (QPort i) st
          in (IPC_SUCCESS, st\<lparr>ports := (ports st)(i := (ports st i)\<lparr>port_state := IPC_PORT_CLOSED, port_id := 0, port_name := []\<rparr>)\<rparr>))"

definition cleanup_port :: "u32 \<Rightarrow> u32 \<Rightarrow> nat \<Rightarrow> ipc_state \<Rightarrow> ipc_state" where
  "cleanup_port cur pid i st =
     (if owner_id (ports st i) = pid \<and> port_state (ports st i) \<noteq> IPC_PORT_CLOSED
      then snd (ipc_port_destroy cur (port_id (ports st i)) st) else st)"

definition ipc_process_cleanup :: "u32 \<Rightarrow> u32 \<Rightarrow> ipc_state \<Rightarrow> ipc_result_t \<times> ipc_state" where
  "ipc_process_cleanup cur pid st =
     (if unat pid \<ge> IPC_MAX_PROCESSES then (IPC_ERROR_INVALID_ARG, st)
      else if \<not> queue_initialized st (unat pid) then (IPC_SUCCESS, st)
      else let r = QProc (unat pid);
               st = queue_free_all r st;
               st = (set_queue r ((queue_at st r)\<lparr>qtail := None, qcount := 0, qstate := IPC_PORT_CLOSED\<rparr>) st)
                      \<lparr>queue_initialized := (queue_initialized st)(unat pid := False)\<rparr>
        in (IPC_SUCCESS, fold (cleanup_port cur pid) [0..<MAX_PORTS] st))"

section \<open>Message passing\<close>

text \<open>The stamped copy of the caller's message, and the id counter it consumes.\<close>

definition stamp_message :: "u32 \<Rightarrow> u32 \<Rightarrow> ipc_message_t \<Rightarrow> ipc_state \<Rightarrow> ipc_message_t \<times> ipc_state" where
  "stamp_message snd_id rcv msg st =
     (msg\<lparr>sender_id := snd_id, receiver_id := rcv, message_id := next_message_id st, timestamp := 0\<rparr>,
      st\<lparr>next_message_id := next_message_id st + 1\<rparr>)"

definition count_sent :: "ipc_result_t \<times> ipc_state \<Rightarrow> ipc_result_t \<times> ipc_state" where
  "count_sent rs = (case rs of (res, st) \<Rightarrow>
     (res, if res = IPC_SUCCESS then st\<lparr>total_sent := total_sent st + 1\<rparr> else st))"

definition count_received :: "(ipc_result_t + ipc_message_t) \<times> ipc_state \<Rightarrow> (ipc_result_t + ipc_message_t) \<times> ipc_state" where
  "count_received rs = (case rs of (Inl e, st) \<Rightarrow> (Inl e, st)
     | (Inr m, st) \<Rightarrow> (Inr m, st\<lparr>total_received := total_received st + 1\<rparr>))"

definition ipc_send :: "u32 \<Rightarrow> u32 \<Rightarrow> ipc_message_t option \<Rightarrow> ipc_state \<Rightarrow> ipc_result_t \<times> ipc_state" where
  "ipc_send cur rcv msg st =
     (if \<not> ipc_initialized st then (IPC_ERROR_NOT_SUPPORTED, st)
      else case msg of None \<Rightarrow> (IPC_ERROR_INVALID_ARG, st)
      | Some msg \<Rightarrow>
        if unat rcv \<ge> IPC_MAX_PROCESSES then (IPC_ERROR_INVALID_RECEIVER, st)
        else if \<not> queue_initialized st (unat rcv) then (IPC_ERROR_INVALID_RECEIVER, st)
        else if unat (mlength msg) > IPC_MAX_MESSAGE_SIZE then (IPC_ERROR_MESSAGE_TOO_LARGE, st)
        else let (m, st) = stamp_message cur rcv msg st;
                 (res, st) = count_sent (queue_enqueue (QProc (unat rcv)) m st)
          in (res, if res = IPC_SUCCESS then st\<lparr>boosts := boosts st @ [rcv]\<rparr> else st))"

text \<open>\<open>want\<close> is \<open>msg != NULL\<close>, \<open>fs\<close> the value behind \<open>sender_id\<close> (\<open>None\<close>: NULL). On success \<open>*sender_id\<close>
  becomes the sender of the message returned.\<close>

definition ipc_receive :: "u32 \<Rightarrow> u32 option \<Rightarrow> bool \<Rightarrow> ipc_state \<Rightarrow> (ipc_result_t + ipc_message_t) \<times> ipc_state" where
  "ipc_receive cur fs want st =
     (if \<not> ipc_initialized st then (Inl IPC_ERROR_NOT_SUPPORTED, st)
      else if \<not> want then (Inl IPC_ERROR_INVALID_ARG, st)
      else if unat cur \<ge> IPC_MAX_PROCESSES \<or> \<not> queue_initialized st (unat cur) then (Inl IPC_ERROR_INVALID_RECEIVER, st)
      else count_received (queue_dequeue (QProc (unat cur)) fs st))"

definition ipc_reply :: "u32 \<Rightarrow> ipc_message_t option \<Rightarrow> ipc_message_t option \<Rightarrow> ipc_state \<Rightarrow> ipc_result_t \<times> ipc_state" where
  "ipc_reply cur original reply st =
     (case (original, reply) of
        (Some om, Some rm) \<Rightarrow> ipc_send cur (sender_id om)
           (Some (rm\<lparr>message_type := message_type rm OR 0x0002, reply_to := message_id om\<rparr>)) st
      | _ \<Rightarrow> (IPC_ERROR_INVALID_ARG, st))"

definition ipc_call :: "u32 \<Rightarrow> u32 \<Rightarrow> ipc_message_t option \<Rightarrow> bool \<Rightarrow> ipc_state \<Rightarrow> (ipc_result_t + ipc_message_t) \<times> ipc_state" where
  "ipc_call cur rcv request want st =
     (if request = None \<or> \<not> want then (Inl IPC_ERROR_INVALID_ARG, st)
      else case ipc_send cur rcv request st of (res, st) \<Rightarrow>
        if res \<noteq> IPC_SUCCESS then (Inl res, st) else ipc_receive cur (Some rcv) want st)"

section \<open>Ports\<close>

definition ipc_port_create :: "u32 \<Rightarrow> string option \<Rightarrow> bool \<Rightarrow> ipc_state \<Rightarrow> (ipc_result_t + u32) \<times> ipc_state" where
  "ipc_port_create cur name out st =
     (if \<not> ipc_initialized st then (Inl IPC_ERROR_NOT_SUPPORTED, st)
      else case name of None \<Rightarrow> (Inl IPC_ERROR_INVALID_ARG, st)
      | Some name \<Rightarrow>
        if \<not> out then (Inl IPC_ERROR_INVALID_ARG, st)
        else if find_port_by_name st name \<noteq> None then (Inl IPC_ERROR_ALREADY_EXISTS, st)
        else case first_idx (\<lambda>i. port_state (ports st i) = IPC_PORT_CLOSED) 0 MAX_PORTS of
          None \<Rightarrow> (Inl IPC_ERROR_OUT_OF_MEMORY, st)
        | Some i \<Rightarrow> (Inr (next_port_id st),
            (set_queue (QPort i) (queue_reset IPC_PORT_OPEN) st)
              \<lparr>next_port_id := next_port_id st + 1,
               ports := (ports st)(i := \<lparr>port_id = next_port_id st, owner_id = cur, port_name = str_copy name 64,
                                         port_state = IPC_PORT_LISTENING\<rparr>)\<rparr>))"

definition ipc_port_lookup :: "string option \<Rightarrow> bool \<Rightarrow> ipc_state \<Rightarrow> ipc_result_t + u32" where
  "ipc_port_lookup name out st =
     (case name of None \<Rightarrow> Inl IPC_ERROR_INVALID_ARG
      | Some name \<Rightarrow> if \<not> out then Inl IPC_ERROR_INVALID_ARG
          else case find_port_by_name st name of None \<Rightarrow> Inl IPC_ERROR_NOT_FOUND
          | Some i \<Rightarrow> Inr (port_id (ports st i)))"

definition ipc_port_send :: "u32 \<Rightarrow> u32 \<Rightarrow> ipc_message_t \<Rightarrow> ipc_state \<Rightarrow> ipc_result_t \<times> ipc_state" where
  "ipc_port_send cur pid msg st =
     (case find_port_by_id st pid of None \<Rightarrow> (IPC_ERROR_INVALID_PORT, st)
      | Some i \<Rightarrow>
        if port_state (ports st i) \<noteq> IPC_PORT_LISTENING then (IPC_ERROR_PORT_CLOSED, st)
        else let (m, st) = stamp_message cur (owner_id (ports st i)) msg st
          in count_sent (queue_enqueue (QPort i) m st))"

definition ipc_port_receive :: "u32 \<Rightarrow> u32 \<Rightarrow> ipc_state \<Rightarrow> (ipc_result_t + ipc_message_t) \<times> ipc_state" where
  "ipc_port_receive cur pid st =
     (case find_port_by_id st pid of None \<Rightarrow> (Inl IPC_ERROR_INVALID_PORT, st)
      | Some i \<Rightarrow>
        if owner_id (ports st i) \<noteq> cur then (Inl IPC_ERROR_PERMISSION_DENIED, st)
        else count_received (queue_dequeue (QPort i) (Some IPC_PID_ANY) st))"

section \<open>Channels\<close>

definition ipc_channel_create :: "u32 \<Rightarrow> u32 \<Rightarrow> bool \<Rightarrow> ipc_state \<Rightarrow> (ipc_result_t + u32) \<times> ipc_state" where
  "ipc_channel_create ea eb out st =
     (if \<not> ipc_initialized st then (Inl IPC_ERROR_NOT_SUPPORTED, st)
      else if \<not> out then (Inl IPC_ERROR_INVALID_ARG, st)
      else if unat ea \<ge> IPC_MAX_PROCESSES \<or> unat eb \<ge> IPC_MAX_PROCESSES then (Inl IPC_ERROR_INVALID_ARG, st)
      else case first_idx (\<lambda>i. \<not> is_active (channels st i)) 0 MAX_CHANNELS of
        None \<Rightarrow> (Inl IPC_ERROR_OUT_OF_MEMORY, st)
      | Some i \<Rightarrow> (Inr (next_channel_id st),
          (set_queue (QBtoA i) (queue_reset IPC_PORT_OPEN) (set_queue (QAtoB i) (queue_reset IPC_PORT_OPEN) st))
            \<lparr>next_channel_id := next_channel_id st + 1,
             channels := (channels st)(i := \<lparr>channel_id = next_channel_id st, endpoint_a = ea, endpoint_b = eb, is_active = True\<rparr>)\<rparr>))"

definition ipc_channel_destroy :: "u32 \<Rightarrow> ipc_state \<Rightarrow> ipc_result_t \<times> ipc_state" where
  "ipc_channel_destroy cid st =
     (case find_channel st cid of None \<Rightarrow> (IPC_ERROR_NOT_FOUND, st)
      | Some i \<Rightarrow> let st = queue_free_all (QAtoB i) st; st = queue_free_all (QBtoA i) st
          in (IPC_SUCCESS, st\<lparr>channels := (channels st)(i := (channels st i)\<lparr>is_active := False, channel_id := 0\<rparr>)\<rparr>))"

definition ipc_channel_send :: "u32 \<Rightarrow> u32 \<Rightarrow> ipc_message_t \<Rightarrow> ipc_state \<Rightarrow> ipc_result_t \<times> ipc_state" where
  "ipc_channel_send cur cid msg st =
     (case find_channel st cid of None \<Rightarrow> (IPC_ERROR_NOT_FOUND, st)
      | Some i \<Rightarrow> let ch = channels st i in
        if cur \<noteq> endpoint_a ch \<and> cur \<noteq> endpoint_b ch then (IPC_ERROR_PERMISSION_DENIED, st)
        else let r = (if cur = endpoint_a ch then QAtoB i else QBtoA i);
                 (m, st) = stamp_message cur (if cur = endpoint_a ch then endpoint_b ch else endpoint_a ch) msg st
          in count_sent (queue_enqueue r m st))"

definition ipc_channel_receive :: "u32 \<Rightarrow> u32 \<Rightarrow> ipc_state \<Rightarrow> (ipc_result_t + ipc_message_t) \<times> ipc_state" where
  "ipc_channel_receive cur cid st =
     (case find_channel st cid of None \<Rightarrow> (Inl IPC_ERROR_NOT_FOUND, st)
      | Some i \<Rightarrow> let ch = channels st i in
        if cur \<noteq> endpoint_a ch \<and> cur \<noteq> endpoint_b ch then (Inl IPC_ERROR_PERMISSION_DENIED, st)
        else count_received (queue_dequeue (if cur = endpoint_a ch then QBtoA i else QAtoB i) (Some IPC_PID_ANY) st))"

section \<open>Quantum messages and queries\<close>

definition zero_message :: ipc_message_t where
  "zero_message = \<lparr>sender_id = 0, receiver_id = 0, message_type = 0, message_id = 0, reply_to = 0, mlength = 0,
     timestamp = 0, deadline = 0, mdata = replicate 4096 0\<rparr>"

definition ipc_quantum_circuit_handoff :: "u32 \<Rightarrow> u32 \<Rightarrow> u32 \<Rightarrow> u64 \<Rightarrow> ipc_state \<Rightarrow> ipc_result_t \<times> ipc_state" where
  "ipc_quantum_circuit_handoff cur rcv circuit coherence st =
     ipc_send cur rcv (Some (zero_message\<lparr>message_type := 0x0008 OR 0x0010, deadline := coherence,
        mdata := le32 circuit @ replicate 4092 0, mlength := 4\<rparr>)) st"

text \<open>\<open>probability\<close> is the 8-byte image of the \<open>double\<close>, copied and never read.\<close>

definition ipc_quantum_measurement_result :: "u32 \<Rightarrow> u32 \<Rightarrow> u32 \<Rightarrow> u8 \<Rightarrow> u64 \<Rightarrow> ipc_state \<Rightarrow> ipc_result_t \<times> ipc_state" where
  "ipc_quantum_measurement_result cur rcv mid res probability st =
     ipc_send cur rcv (Some (zero_message\<lparr>message_type := 0x0008,
        mdata := le32 mid @ [res] @ le64 probability @ replicate 4083 0, mlength := 13\<rparr>)) st"

definition ipc_get_queue_depth :: "u32 \<Rightarrow> ipc_state \<Rightarrow> nat" where
  "ipc_get_queue_depth cur st =
     (if unat cur \<ge> IPC_MAX_PROCESSES \<or> \<not> queue_initialized st (unat cur) then 0
      else qcount (queue_at st (QProc (unat cur))))"

definition ipc_has_messages :: "u32 \<Rightarrow> ipc_state \<Rightarrow> bool" where
  "ipc_has_messages cur st \<longleftrightarrow> ipc_get_queue_depth cur st > 0"

definition ipc_get_stats :: "ipc_state \<Rightarrow> u32 \<times> u32 \<times> u32" where
  "ipc_get_stats st = (ucast (total_sent st), ucast (total_received st), ucast (total_dropped st))"

fun ipc_result_string :: "ipc_result_t \<Rightarrow> string" where
  "ipc_result_string IPC_SUCCESS = ''Success''"
| "ipc_result_string IPC_ERROR_INVALID_RECEIVER = ''Invalid receiver''"
| "ipc_result_string IPC_ERROR_INVALID_SENDER = ''Invalid sender''"
| "ipc_result_string IPC_ERROR_MESSAGE_TOO_LARGE = ''Message too large''"
| "ipc_result_string IPC_ERROR_PERMISSION_DENIED = ''Permission denied''"
| "ipc_result_string IPC_ERROR_BUFFER_FULL = ''Buffer full''"
| "ipc_result_string IPC_ERROR_TIMEOUT = ''Timeout''"
| "ipc_result_string IPC_ERROR_NO_MESSAGE = ''No message''"
| "ipc_result_string IPC_ERROR_INVALID_PORT = ''Invalid port''"
| "ipc_result_string IPC_ERROR_PORT_CLOSED = ''Port closed''"
| "ipc_result_string IPC_ERROR_OUT_OF_MEMORY = ''Out of memory''"
| "ipc_result_string IPC_ERROR_INVALID_ARG = ''Invalid argument''"
| "ipc_result_string IPC_ERROR_ALREADY_EXISTS = ''Already exists''"
| "ipc_result_string IPC_ERROR_NOT_SUPPORTED = ''Not supported''"
| "ipc_result_string IPC_ERROR_NOT_FOUND = ''Unknown error''"

end
