(* ===== verification/Ipc_Inv.thy ===== *)
theory Ipc_Inv
  imports Ipc
begin

text \<open>
  The message contents of the IPC queues, read off the pointers, and the invariant every IPC operation
  keeps: the queues in use are well-formed lists of at most 64 entries that share no entry with each
  other or with the free list.
\<close>

section \<open>Queues in use and their messages\<close>

fun queue_live :: "ipc_state \<Rightarrow> queue_ref \<Rightarrow> bool" where
  "queue_live st (QProc i) \<longleftrightarrow> i < IPC_MAX_PROCESSES \<and> queue_initialized st i"
| "queue_live st (QPort i) \<longleftrightarrow> i < MAX_PORTS \<and> port_state (ports st i) \<noteq> IPC_PORT_CLOSED"
| "queue_live st (QAtoB i) \<longleftrightarrow> i < MAX_CHANNELS \<and> is_active (channels st i)"
| "queue_live st (QBtoA i) \<longleftrightarrow> i < MAX_CHANNELS \<and> is_active (channels st i)"

definition live_refs :: "ipc_state \<Rightarrow> queue_ref set" where
  "live_refs st = {r. queue_live st r}"

fun walk :: "nat \<Rightarrow> (addr \<Rightarrow> ipc_queue_entry_t) \<Rightarrow> addr option \<Rightarrow> addr list" where
  "walk 0 es p = []"
| "walk (Suc n) es p = (case p of None \<Rightarrow> [] | Some a \<Rightarrow> a # walk n es (enext (es a)))"

definition queue_msgs :: "ipc_state \<Rightarrow> queue_ref \<Rightarrow> ipc_message_t list" where
  "queue_msgs st r = (if queue_live st r
     then msgs_at st (walk (qcount (queue_at st r)) (entries st) (qhead (queue_at st r))) else [])"

definition ipc_inv :: "ipc_state \<Rightarrow> bool" where
  "ipc_inv st \<longleftrightarrow> (\<exists>A F. ipc_rep st (live_refs st) A F) \<and> (\<forall>r. queue_live st r \<longrightarrow> qmax (queue_at st r) = IPC_MAX_QUEUE_SIZE)"

lemma walk_seg: "seg es prev p xs None \<Longrightarrow> walk (length xs) es p = xs"
  by (induction xs arbitrary: prev p) auto

lemma queue_msgs_rep: "ipc_rep st (live_refs st) A F \<Longrightarrow> queue_msgs st r = msgs_at st (A r)"
proof (cases "queue_live st r")
  case True
  assume "ipc_rep st (live_refs st) A F"
  then have "queue_ok (entries st) (queue_at st r) (A r)" using True ipc_repD(1) by (simp add: live_refs_def)
  then show ?thesis using True walk_seg unfolding queue_msgs_def queue_ok_def by fastforce
next
  case False
  assume "ipc_rep st (live_refs st) A F"
  then show ?thesis using False ipc_repD(2) by (simp add: queue_msgs_def live_refs_def msgs_at_def)
qed

lemma queue_msgs_length:
  assumes "ipc_inv st" and "queue_live st r"
  shows "length (queue_msgs st r) = qcount (queue_at st r)" and "qcount (queue_at st r) \<le> IPC_MAX_QUEUE_SIZE"
proof -
  obtain A F where rep: "ipc_rep st (live_refs st) A F" using assms(1) by (auto simp: ipc_inv_def)
  then have "queue_ok (entries st) (queue_at st r) (A r)" using assms(2) ipc_repD(1) by (simp add: live_refs_def)
  then show "length (queue_msgs st r) = qcount (queue_at st r)" "qcount (queue_at st r) \<le> IPC_MAX_QUEUE_SIZE"
    using assms queue_msgs_rep [OF rep, of r] by (auto simp: queue_ok_def msgs_at_def ipc_inv_def)
qed

text \<open>The tables around the queues.\<close>

definition same_tables :: "ipc_state \<Rightarrow> ipc_state \<Rightarrow> bool" where
  "same_tables st' st \<longleftrightarrow> queue_initialized st' = queue_initialized st \<and> ports st' = ports st
     \<and> channels st' = channels st \<and> ipc_initialized st' = ipc_initialized st"

lemma same_tables_live: "same_tables st' st \<Longrightarrow> queue_live st' = queue_live st"
proof
  fix r
  assume "same_tables st' st"
  then show "queue_live st' r = queue_live st r" by (cases r) (simp_all add: same_tables_def)
qed

lemma same_tables_refs: "same_tables st' st \<Longrightarrow> live_refs st' = live_refs st"
  using same_tables_live unfolding live_refs_def by metis

lemma same_tables_refl [simp]: "same_tables st st"
  by (simp add: same_tables_def)

lemma same_tables_trans: "same_tables s2 s1 \<Longrightarrow> same_tables s1 s \<Longrightarrow> same_tables s2 s"
  by (simp add: same_tables_def)

text \<open>Changes outside queues, store and free list.\<close>

definition same_queues :: "ipc_state \<Rightarrow> ipc_state \<Rightarrow> bool" where
  "same_queues st' st \<longleftrightarrow> same_tables st' st \<and> entries st' = entries st \<and> queue_at st' = queue_at st
     \<and> entry_free_list st' = entry_free_list st \<and> heap_brk st' = heap_brk st"

lemma same_queues_inv: "same_queues st' st \<Longrightarrow> ipc_inv st' = ipc_inv st"
proof -
  assume s: "same_queues st' st"
  have "ipc_rep st' L A F = ipc_rep st L A F" for L A F
    by (rule ipc_rep_frame) (use s in \<open>auto simp: same_queues_def\<close>)
  moreover have "queue_live st' = queue_live st" "live_refs st' = live_refs st"
    using s same_tables_live same_tables_refs by (simp_all add: same_queues_def)
  ultimately show ?thesis using s by (simp add: ipc_inv_def same_queues_def)
qed

lemma same_queues_msgs: "same_queues st' st \<Longrightarrow> queue_msgs st' = queue_msgs st"
proof
  fix r
  assume s: "same_queues st' st"
  then have "queue_live st' = queue_live st" by (simp add: same_queues_def same_tables_live)
  then show "queue_msgs st' r = queue_msgs st r" using s by (simp add: queue_msgs_def same_queues_def msgs_at_def)
qed

lemma enqueue_frame: "queue_enqueue r m st = (res, st') \<Longrightarrow> same_tables st' st \<and> qmax (queue_at st' r') = qmax (queue_at st r')
    \<and> next_message_id st' = next_message_id st \<and> boosts st' = boosts st \<and> total_sent st' = total_sent st"
  by (auto simp: queue_enqueue_def queue_alloc_entry_def queue_drop_def set_entry_def set_queue_def Let_def same_tables_def
      split: if_splits option.splits)

lemma dequeue_frame: "queue_dequeue r fs st = (res, st') \<Longrightarrow> same_tables st' st \<and> qmax (queue_at st' r') = qmax (queue_at st r')
    \<and> next_message_id st' = next_message_id st \<and> boosts st' = boosts st"
  by (auto simp: queue_dequeue_def queue_unlink_def queue_free_entry_def set_entry_def set_queue_def Let_def same_tables_def
      split: if_splits option.splits prod.splits)

section \<open>Queue operations on message lists\<close>

lemma enqueue_spec:
  assumes inv: "ipc_inv st" and live: "queue_live st r" and eq: "queue_enqueue r m st = (res, st')"
  shows "ipc_inv st' \<and> (if res = IPC_SUCCESS
     then length (queue_msgs st r) < IPC_MAX_QUEUE_SIZE \<and> queue_msgs st' = (queue_msgs st)(r := queue_msgs st r @ [m])
     else queue_msgs st' = queue_msgs st
       \<and> (res = IPC_ERROR_BUFFER_FULL \<and> length (queue_msgs st r) = IPC_MAX_QUEUE_SIZE
          \<or> res = IPC_ERROR_OUT_OF_MEMORY \<and> entry_free_list st = None \<and> heap_brk st \<ge> heap_limit st))"
proof -
  obtain A F where rep: "ipc_rep st (live_refs st) A F" using inv by (auto simp: ipc_inv_def)
  note fr = enqueue_frame [OF eq] and mx = queue_msgs_length [OF inv live]
  have refs: "live_refs st' = live_refs st" using fr by (simp add: same_tables_refs)
  have qm: "\<forall>r. queue_live st' r \<longrightarrow> qmax (queue_at st' r) = IPC_MAX_QUEUE_SIZE"
    using fr inv same_tables_live [of st' st] by (simp add: ipc_inv_def)
  show ?thesis
  proof (cases "res = IPC_SUCCESS")
    case True
    obtain a F' where e: "ipc_rep st' (live_refs st') (A(r := A r @ [a])) F'" "message (entries st' a) = m" "\<forall>r. a \<notin> set (A r)"
        "\<forall>b. b \<noteq> a \<longrightarrow> message (entries st' b) = message (entries st b)" "length (A r) < qmax (queue_at st r)"
      using enqueue_ok [OF rep _ eq [unfolded True]] live refs by (auto simp: live_refs_def)
    have keep: "msgs_at st' (A r') = msgs_at st (A r')" for r'
      unfolding msgs_at_def using e(3,4) by (intro map_cong) auto
    have m: "queue_msgs st' r' = ((queue_msgs st)(r := queue_msgs st r @ [m])) r'" for r'
      using queue_msgs_rep [OF rep] queue_msgs_rep [OF e(1)] keep e(2) by (auto simp: msgs_at_def)
    have l: "length (queue_msgs st r) < IPC_MAX_QUEUE_SIZE"
      using e(5) inv live queue_msgs_rep [OF rep, of r] by (simp add: msgs_at_def ipc_inv_def)
    show ?thesis using True e(1) qm m l by (auto simp: ipc_inv_def)
  next
    case False
    then have e: "ipc_rep st' (live_refs st') A F" "entries st' = entries st"
        "res = IPC_ERROR_BUFFER_FULL \<and> qcount (queue_at st r) \<ge> qmax (queue_at st r)
         \<or> res = IPC_ERROR_OUT_OF_MEMORY \<and> entry_free_list st = None \<and> heap_brk st \<ge> heap_limit st"
      using enqueue_fail [OF rep eq] refs by auto
    have "queue_msgs st' = queue_msgs st"
      using queue_msgs_rep [OF rep] queue_msgs_rep [OF e(1)] e(2) by (auto simp: msgs_at_def)
    then show ?thesis using False e qm mx inv live by (auto simp: ipc_inv_def)
  qed
qed

lemma dequeue_spec_Inr:
  assumes inv: "ipc_inv st" and live: "queue_live st r" and eq: "queue_dequeue r fs st = (Inr m, st')"
  shows "ipc_inv st' \<and> (\<exists>ys zs. queue_msgs st r = ys @ m # zs \<and> queue_msgs st' = (queue_msgs st)(r := ys @ zs)
     \<and> takes fs m \<and> (\<forall>y\<in>set ys. \<not> takes fs y))"
proof -
  obtain A F where rep: "ipc_rep st (live_refs st) A F" using inv by (auto simp: ipc_inv_def)
  note fr = dequeue_frame [OF eq]
  have refs: "live_refs st' = live_refs st" using fr by (simp add: same_tables_refs)
  have qm: "\<forall>r. queue_live st' r \<longrightarrow> qmax (queue_at st' r) = IPC_MAX_QUEUE_SIZE"
    using fr inv same_tables_live [of st' st] by (simp add: ipc_inv_def)
  obtain ys a zs where d: "A r = ys @ a # zs" "ipc_rep st' (live_refs st') (A(r := ys @ zs)) (a # F)" "m = message (entries st a)"
      "takes fs m" "\<forall>y\<in>set ys. \<not> takes fs (message (entries st y))" "\<forall>b. message (entries st' b) = message (entries st b)"
    using dequeue_ok [OF rep _ eq] live refs by (auto simp: live_refs_def)
  have m: "queue_msgs st' r' = ((queue_msgs st)(r := msgs_at st ys @ msgs_at st zs)) r'" for r'
    using queue_msgs_rep [OF rep] queue_msgs_rep [OF d(2)] d(6) by (auto simp: msgs_at_def)
  have i: "ipc_inv st'" using d(2) qm by (auto simp: ipc_inv_def)
  have m': "queue_msgs st' = (queue_msgs st)(r := msgs_at st ys @ msgs_at st zs)" using m by (rule ext)
  have r: "queue_msgs st r = msgs_at st ys @ m # msgs_at st zs"
    using queue_msgs_rep [OF rep, of r] d(1,3) by (simp add: msgs_at_def)
  have "\<forall>y\<in>set (msgs_at st ys). \<not> takes fs y" "takes fs m" using d(3,4,5) by (simp_all add: msgs_at_def)
  then show ?thesis using i m' r by blast
qed

lemma dequeue_spec_Inl:
  assumes inv: "ipc_inv st" and live: "queue_live st r" and eq: "queue_dequeue r fs st = (Inl e, st')"
  shows "e = IPC_ERROR_NO_MESSAGE \<and> st' = st \<and> (\<forall>m\<in>set (queue_msgs st r). \<not> takes fs m)"
proof -
  obtain A F where rep: "ipc_rep st (live_refs st) A F" using inv by (auto simp: ipc_inv_def)
  show ?thesis
    using dequeue_fail [OF rep _ eq] live queue_msgs_rep [OF rep, of r] by (auto simp: live_refs_def msgs_at_def)
qed

section \<open>Opening and closing queues\<close>

text \<open>What an operation that only opens, empties or closes queues does: it keeps the invariant, and the
  queues it does not name keep their messages.\<close>

definition queues_only :: "queue_ref set \<Rightarrow> ipc_state \<Rightarrow> ipc_state \<Rightarrow> bool" where
  "queues_only R st st' \<longleftrightarrow> ipc_inv st' \<and> (\<forall>r. r \<notin> R \<longrightarrow> queue_live st' r = queue_live st r \<and> queue_msgs st' r = queue_msgs st r)
     \<and> (\<forall>r\<in>R. queue_msgs st' r = [])"

lemma queues_only_rep:
  assumes "ipc_rep st (live_refs st) A F" and "ipc_rep st' (live_refs st') A' F'"
    and "\<And>r. queue_live st' r \<Longrightarrow> qmax (queue_at st' r) = IPC_MAX_QUEUE_SIZE"
    and "\<And>r. r \<notin> R \<Longrightarrow> A' r = A r \<and> queue_live st' r = queue_live st r" and "\<And>r. r \<in> R \<Longrightarrow> A' r = []"
    and "\<And>b. message (entries st' b) = message (entries st b)"
  shows "queues_only R st st'"
  using assms(3-6) queue_msgs_rep [OF assms(1)] queue_msgs_rep [OF assms(2)] assms(2)
  unfolding queues_only_def ipc_inv_def by (auto simp: msgs_at_def)

text \<open>Queues that are not in use can be reset and opened.\<close>

lemma open_only:
  assumes inv: "ipc_inv st" and new: "R \<inter> live_refs st = {}" "live_refs st' = live_refs st \<union> R"
    and q: "\<And>r. r \<in> R \<Longrightarrow> queue_at st' r = queue_reset s" "\<And>r. r \<notin> R \<Longrightarrow> queue_at st' r = queue_at st r"
    and e: "entries st' = entries st" "entry_free_list st' = entry_free_list st" "heap_brk st' = heap_brk st"
  shows "queues_only R st st'"
proof -
  obtain A F where rep: "ipc_rep st (live_refs st) A F" using inv by (auto simp: ipc_inv_def)
  have A: "A r = []" if "r \<in> R" for r using that new ipc_repD(2) [OF rep] by auto
  have ok: "queue_ok (entries st') (queue_at st' r) (A r)" if "r \<in> live_refs st'" for r
    using that q A ipc_repD(1) [OF rep] new(2) e by (cases "r \<in> R") (simp_all add: queue_ok_def queue_reset_def)
  have rep': "ipc_rep st' (live_refs st') A F"
    using ok ipc_repD [OF rep] new(2) unfolding ipc_rep_def e by auto
  show ?thesis
  proof (rule queues_only_rep [OF rep rep'])
    show "qmax (queue_at st' r) = IPC_MAX_QUEUE_SIZE" if "queue_live st' r" for r
      using that inv q new(2) by (cases "r \<in> R") (auto simp: ipc_inv_def queue_reset_def live_refs_def)
    show "A r = A r \<and> queue_live st' r = queue_live st r" if "r \<notin> R" for r
      using that new(2) by (auto simp: live_refs_def)
  qed (use A e in auto)
qed

text \<open>Closing: the freed queues leave the set in use.\<close>

lemma close_only:
  assumes inv: "ipc_inv st" and rep: "ipc_rep st (live_refs st) A F"
    and e: "ipc_rep sf (live_refs st - R) A' F'" "\<And>r. r \<notin> R \<Longrightarrow> A' r = A r" "\<And>r. r \<in> R \<Longrightarrow> A' r = []"
      "\<And>b. message (entries sf b) = message (entries st b)" "\<And>r. r \<notin> R \<Longrightarrow> queue_at sf r = queue_at st r"
    and n: "live_refs st' = live_refs st - R" "entries st' = entries sf" "entry_free_list st' = entry_free_list sf"
      "heap_brk st' = heap_brk sf" "\<And>r. r \<notin> R \<Longrightarrow> queue_at st' r = queue_at sf r"
  shows "queues_only R st st'"
proof -
  have rep': "ipc_rep st' (live_refs st') A' F'"
    using ipc_repD [OF e(1)] n unfolding ipc_rep_def by auto
  show ?thesis
  proof (rule queues_only_rep [OF rep rep'])
    show "qmax (queue_at st' r) = IPC_MAX_QUEUE_SIZE" if "queue_live st' r" for r
    proof -
      have "r \<in> live_refs st" "r \<notin> R" using that n(1) by (auto simp: live_refs_def)
      then show ?thesis using inv n(5) e(5) by (simp add: ipc_inv_def live_refs_def)
    qed
    show "A' r = A r \<and> queue_live st' r = queue_live st r" if "r \<notin> R" for r
      using that n(1) e(2) by (auto simp: live_refs_def)
  qed (use e n in auto)
qed

lemma free_all_rep:
  assumes "ipc_rep st L A F" and "r \<in> L"
  shows "ipc_rep (queue_free_all r st) (L - {r}) (A(r := [])) (rev (A r) @ F)
    \<and> (\<forall>b. message (entries (queue_free_all r st) b) = message (entries st b))"
  using drain_queue [OF assms] by (simp add: queue_free_all_def)

lemma free_all_frame:
  "ports (queue_free_all r st) = ports st" "channels (queue_free_all r st) = channels st"
  "queue_initialized (queue_free_all r st) = queue_initialized st" "heap_brk (queue_free_all r st) = heap_brk st"
  "ipc_initialized (queue_free_all r st) = ipc_initialized st"
  "r' \<noteq> r \<Longrightarrow> queue_at (queue_free_all r st) r' = queue_at st r'"
  using drain_frame by (auto simp: queue_free_all_def)

lemma process_init_only:
  assumes inv: "ipc_inv st" and eq: "ipc_process_init pid st = (res, st')"
  shows "st' = st \<or> queues_only {QProc (unat pid)} st st'"
proof (cases "st' = st")
  case False
  then have c: "unat pid < 256" "\<not> queue_initialized st (unat pid)"
      "st' = (set_queue (QProc (unat pid)) (queue_reset IPC_PORT_OPEN) st)
              \<lparr>queue_initialized := (queue_initialized st)(unat pid := True)\<rparr>"
    using eq by (auto simp: ipc_process_init_def split: if_splits)
  have lv: "queue_live st' r = (r = QProc (unat pid) \<or> queue_live st r)" for r
    using c by (cases r) (auto simp: set_queue_def)
  have "queues_only {QProc (unat pid)} st st'"
    by (rule open_only [OF inv, where s = IPC_PORT_OPEN]) (use lv c in \<open>auto simp: live_refs_def set_queue_def\<close>)
  then show ?thesis ..
qed simp

lemma port_create_only:
  assumes inv: "ipc_inv st" and eq: "ipc_port_create cur nm out st = (res, st')"
  shows "st' = st \<or> (\<exists>i. queues_only {QPort i} st st')"
proof (cases "st' = st")
  case False
  then obtain i name where c: "first_idx (\<lambda>i. port_state (ports st i) = IPC_PORT_CLOSED) 0 MAX_PORTS = Some i"
      "st' = (set_queue (QPort i) (queue_reset IPC_PORT_OPEN) st)
              \<lparr>next_port_id := next_port_id st + 1,
               ports := (ports st)(i := \<lparr>port_id = next_port_id st, owner_id = cur, port_name = str_copy name 64,
                                         port_state = IPC_PORT_LISTENING\<rparr>)\<rparr>"
    using eq by (auto simp: ipc_port_create_def split: if_splits option.splits)
  have i: "i < 128" "port_state (ports st i) = IPC_PORT_CLOSED" using first_idx_SomeD [OF c(1)] by auto
  have lv: "queue_live st' r = (r = QPort i \<or> queue_live st r)" for r
    using c i by (cases r) (auto simp: set_queue_def)
  have "queues_only {QPort i} st st'"
    by (rule open_only [OF inv, where s = IPC_PORT_OPEN]) (use lv c i in \<open>auto simp: live_refs_def set_queue_def\<close>)
  then show ?thesis by blast
qed simp

lemma channel_create_only:
  assumes inv: "ipc_inv st" and eq: "ipc_channel_create ea eb out st = (res, st')"
  shows "st' = st \<or> (\<exists>i. queues_only {QAtoB i, QBtoA i} st st')"
proof (cases "st' = st")
  case False
  then obtain i where c: "first_idx (\<lambda>i. \<not> is_active (channels st i)) 0 MAX_CHANNELS = Some i"
      "st' = (set_queue (QBtoA i) (queue_reset IPC_PORT_OPEN) (set_queue (QAtoB i) (queue_reset IPC_PORT_OPEN) st))
            \<lparr>next_channel_id := next_channel_id st + 1,
             channels := (channels st)(i := \<lparr>channel_id = next_channel_id st, endpoint_a = ea, endpoint_b = eb, is_active = True\<rparr>)\<rparr>"
    using eq by (auto simp: ipc_channel_create_def split: if_splits option.splits)
  have i: "i < 64" "\<not> is_active (channels st i)" using first_idx_SomeD [OF c(1)] by auto
  have lv: "queue_live st' r = (r = QAtoB i \<or> r = QBtoA i \<or> queue_live st r)" for r
    using c i by (cases r) (auto simp: set_queue_def)
  have "queues_only {QAtoB i, QBtoA i} st st'"
    by (rule open_only [OF inv, where s = IPC_PORT_OPEN]) (use lv c i in \<open>auto simp: live_refs_def set_queue_def\<close>)
  then show ?thesis by blast
qed simp

lemma port_destroy_only:
  assumes inv: "ipc_inv st" and eq: "ipc_port_destroy cur pid st = (res, st')"
  shows "st' = st \<or> (\<exists>i. queues_only {QPort i} st st')"
proof (cases "st' = st")
  case False
  then obtain i where c: "find_port_by_id st pid = Some i"
      "st' = (queue_free_all (QPort i) st)\<lparr>ports := (ports st)(i := (ports st i)\<lparr>port_state := IPC_PORT_CLOSED, port_id := 0, port_name := []\<rparr>)\<rparr>"
    using eq by (auto simp: ipc_port_destroy_def Let_def free_all_frame split: if_splits option.splits)
  obtain A F where rep: "ipc_rep st (live_refs st) A F" using inv by (auto simp: ipc_inv_def)
  have i: "QPort i \<in> live_refs st" using first_idx_SomeD c(1) unfolding find_port_by_id_def live_refs_def by fastforce
  have lv: "queue_live st' r = (queue_live st r \<and> r \<noteq> QPort i)" for r
    using c(2) by (cases r) (auto simp: free_all_frame)
  have "queues_only {QPort i} st st'"
    by (rule close_only [OF inv rep, where sf = "queue_free_all (QPort i) st" and A' = "A(QPort i := [])"])
      (use free_all_rep [OF rep i] lv c(2) in \<open>auto simp: live_refs_def free_all_frame\<close>)
  then show ?thesis by blast
qed simp

lemma channel_destroy_only:
  assumes inv: "ipc_inv st" and eq: "ipc_channel_destroy cid st = (res, st')"
  shows "st' = st \<or> (\<exists>i. queues_only {QAtoB i, QBtoA i} st st')"
proof (cases "st' = st")
  case False
  then obtain i where c: "find_channel st cid = Some i"
      "st' = (queue_free_all (QBtoA i) (queue_free_all (QAtoB i) st))
         \<lparr>channels := (channels st)(i := (channels st i)\<lparr>is_active := False, channel_id := 0\<rparr>)\<rparr>"
    using eq by (auto simp: ipc_channel_destroy_def Let_def free_all_frame split: if_splits option.splits)
  obtain A F where rep: "ipc_rep st (live_refs st) A F" using inv by (auto simp: ipc_inv_def)
  define s1 where "s1 = queue_free_all (QAtoB i) st"
  have i: "QAtoB i \<in> live_refs st" "QBtoA i \<in> live_refs st - {QAtoB i}"
    using first_idx_SomeD c(1) unfolding find_channel_def live_refs_def by fastforce+
  obtain F1 where r1: "ipc_rep s1 (live_refs st - {QAtoB i}) (A(QAtoB i := [])) F1" "\<And>b. message (entries s1 b) = message (entries st b)"
    using free_all_rep [OF rep i(1)] unfolding s1_def by blast
  obtain F2 where r2: "ipc_rep (queue_free_all (QBtoA i) s1) (live_refs st - {QAtoB i, QBtoA i}) (A(QAtoB i := [], QBtoA i := [])) F2"
      "\<And>b. message (entries (queue_free_all (QBtoA i) s1) b) = message (entries st b)"
    using free_all_rep [OF r1(1) i(2)] r1(2) by (metis Diff_insert2)
  have lv: "queue_live st' r = (queue_live st r \<and> r \<noteq> QAtoB i \<and> r \<noteq> QBtoA i)" for r
    using c(2) by (cases r) (auto simp: free_all_frame)
  have "queues_only {QAtoB i, QBtoA i} st st'"
    by (rule close_only [OF inv rep r2(1)]) (use r2(2) lv c(2) in \<open>auto simp: live_refs_def free_all_frame s1_def\<close>)
  then show ?thesis by blast
qed simp

text \<open>The first half of \<open>ipc_process_cleanup\<close>: the dead process's own queue.\<close>

definition cleanup_queue :: "u32 \<Rightarrow> ipc_state \<Rightarrow> ipc_state" where
  "cleanup_queue pid st = (let r = QProc (unat pid); st = queue_free_all r st in
     (set_queue r ((queue_at st r)\<lparr>qtail := None, qcount := 0, qstate := IPC_PORT_CLOSED\<rparr>) st)
       \<lparr>queue_initialized := (queue_initialized st)(unat pid := False)\<rparr>)"

lemma cleanup_queue_only:
  assumes inv: "ipc_inv st" and i: "queue_live st (QProc (unat pid))"
  shows "queues_only {QProc (unat pid)} st (cleanup_queue pid st)"
proof -
  let ?r = "QProc (unat pid)"
  obtain A F where rep: "ipc_rep st (live_refs st) A F" using inv by (auto simp: ipc_inv_def)
  have l: "?r \<in> live_refs st" using i by (simp add: live_refs_def)
  have lv: "queue_live (cleanup_queue pid st) r = (queue_live st r \<and> r \<noteq> ?r)" for r
    by (cases r) (auto simp: cleanup_queue_def Let_def free_all_frame set_queue_def)
  show ?thesis
    by (rule close_only [OF inv rep, where sf = "queue_free_all ?r st" and A' = "A(?r := [])"])
      (use free_all_rep [OF rep l] lv in \<open>auto simp: live_refs_def free_all_frame cleanup_queue_def Let_def\<close>)
qed

lemma cleanup_port_inv: "ipc_inv st \<Longrightarrow> ipc_inv (cleanup_port cur pid i st)"
proof -
  assume inv: "ipc_inv st"
  obtain res st' where d: "ipc_port_destroy cur (port_id (ports st i)) st = (res, st')" by (meson surj_pair)
  have "ipc_inv st'" using port_destroy_only [OF inv d] inv by (auto simp: queues_only_def)
  then show ?thesis using inv d by (simp add: cleanup_port_def)
qed

lemma cleanup_ports_inv: "ipc_inv st \<Longrightarrow> ipc_inv (fold (cleanup_port cur pid) is st)"
  by (induction "is" arbitrary: st) (simp_all add: cleanup_port_inv)

lemma process_cleanup_value:
  "ipc_process_cleanup cur pid st = (if unat pid \<ge> IPC_MAX_PROCESSES then (IPC_ERROR_INVALID_ARG, st)
     else if \<not> queue_initialized st (unat pid) then (IPC_SUCCESS, st)
     else (IPC_SUCCESS, fold (cleanup_port cur pid) [0..<MAX_PORTS] (cleanup_queue pid st)))"
  by (simp add: ipc_process_cleanup_def cleanup_queue_def Let_def)

lemma process_cleanup_inv: "ipc_inv st \<Longrightarrow> ipc_inv (snd (ipc_process_cleanup cur pid st))"
  using cleanup_ports_inv cleanup_queue_only [of st pid] by (simp add: process_cleanup_value queues_only_def)

section \<open>Message operations\<close>

lemma stamp_same: "stamp_message snd_id rcv msg st = (m, st') \<Longrightarrow> same_queues st' st"
  by (auto simp: stamp_message_def same_queues_def same_tables_def)

lemma count_sent_same: "same_queues (snd (count_sent (res, st))) st" and count_sent_res [simp]: "fst (count_sent (res, st)) = res"
  by (simp_all add: count_sent_def same_queues_def same_tables_def)

lemma count_received_same: "same_queues (snd (count_received (res, st))) st" and count_received_res [simp]: "fst (count_received (res, st)) = res"
  by (auto simp: count_received_def same_queues_def same_tables_def split: sum.split)

text \<open>Posting a stamped message to a queue in use, the common tail of every send.\<close>

definition post :: "queue_ref \<Rightarrow> u32 \<Rightarrow> u32 \<Rightarrow> ipc_message_t \<Rightarrow> ipc_state \<Rightarrow> ipc_result_t \<times> ipc_state" where
  "post r snd_id rcv msg st = (let (m, st) = stamp_message snd_id rcv msg st in count_sent (queue_enqueue r m st))"

lemma post_spec:
  assumes inv: "ipc_inv st" and live: "queue_live st r" and eq: "post r snd_id rcv msg st = (res, st')"
  shows "ipc_inv st' \<and> same_tables st' st \<and> (if res = IPC_SUCCESS
     then length (queue_msgs st r) < IPC_MAX_QUEUE_SIZE
       \<and> queue_msgs st' = (queue_msgs st)(r := queue_msgs st r @ [fst (stamp_message snd_id rcv msg st)])
     else queue_msgs st' = queue_msgs st
       \<and> (res = IPC_ERROR_BUFFER_FULL \<and> length (queue_msgs st r) = IPC_MAX_QUEUE_SIZE
          \<or> res = IPC_ERROR_OUT_OF_MEMORY \<and> entry_free_list st = None \<and> heap_brk st \<ge> heap_limit st))"
proof -
  obtain m s1 where s1: "stamp_message snd_id rcv msg st = (m, s1)" by (meson surj_pair)
  obtain r0 s2 where s2: "queue_enqueue r m s1 = (r0, s2)" by (meson surj_pair)
  have e: "res = r0" "same_queues st' s2"
    using eq count_sent_same [of r0 s2] count_sent_res [of r0 s2] s1 s2 by (simp_all add: post_def)
  note q1 = stamp_same [OF s1]
  have live1: "queue_live s1 r" using live q1 same_tables_live [of s1 st] by (simp add: same_queues_def)
  have inv1: "ipc_inv s1" using same_queues_inv [OF q1] inv by simp
  have m1: "queue_msgs s1 = queue_msgs st" "queue_msgs st' = queue_msgs s2"
    using same_queues_msgs [OF q1] same_queues_msgs [OF e(2)] by simp_all
  have lim: "heap_limit s1 = heap_limit st" using s1 by (auto simp: stamp_message_def)
  have "same_tables st' st"
    using e(2) enqueue_frame [OF s2] q1 same_tables_trans by (meson same_queues_def)
  then show ?thesis
    using enqueue_spec [OF inv1 live1 s2] same_queues_inv [OF e(2)] m1 e(1) s1 q1 lim by (auto simp: same_queues_def)
qed

text \<open>Taking a message from a queue in use, the common tail of every receive.\<close>

definition take_from :: "queue_ref \<Rightarrow> u32 option \<Rightarrow> ipc_state \<Rightarrow> (ipc_result_t + ipc_message_t) \<times> ipc_state" where
  "take_from r fs st = count_received (queue_dequeue r fs st)"

lemma take_from_spec:
  assumes inv: "ipc_inv st" and live: "queue_live st r" and eq: "take_from r fs st = (res, st')"
  shows "ipc_inv st' \<and> same_tables st' st \<and> (case res of
      Inl e \<Rightarrow> e = IPC_ERROR_NO_MESSAGE \<and> st' = st \<and> (\<forall>m\<in>set (queue_msgs st r). \<not> takes fs m)
    | Inr m \<Rightarrow> \<exists>ys zs. queue_msgs st r = ys @ m # zs \<and> queue_msgs st' = (queue_msgs st)(r := ys @ zs)
        \<and> takes fs m \<and> (\<forall>y\<in>set ys. \<not> takes fs y))"
proof -
  obtain r0 s1 where s1: "queue_dequeue r fs st = (r0, s1)" by (meson surj_pair)
  have e: "res = r0" "same_queues st' s1" "r0 = Inl x \<Longrightarrow> st' = s1" for x
    using eq count_received_same [of r0 s1] count_received_res [of r0 s1] s1
    by (auto simp: take_from_def count_received_def)
  have t: "same_tables st' st"
    using e(2) dequeue_frame [OF s1] same_tables_trans by (meson same_queues_def)
  show ?thesis
  proof (cases r0)
    case (Inl x)
    then show ?thesis using dequeue_spec_Inl [OF inv live s1 [unfolded Inl]] e t inv by auto
  next
    case (Inr m)
    then show ?thesis
      using dequeue_spec_Inr [OF inv live s1 [unfolded Inr]] e(1) t same_queues_inv [OF e(2)] same_queues_msgs [OF e(2)] by auto
  qed
qed

end
