(* ===== verification/Ipc_Props.thy ===== *)
theory Ipc_Props
  imports Ipc_Inv
begin

text \<open>
  What IPC guarantees: the queue representation under every call, exact outcomes of send and receive,
  per-sender ordered exactly-once delivery for any interleaving of message calls, endpoint-only
  channels, and a process death that leaves no queued message behind. Delivery is proved once in the
  locale \<open>mailbox\<close> and interpreted on the IPC calls.
\<close>

section \<open>Mailboxes\<close>

datatype ('r, 'm) mbox_event = Accepted 'r 'm | Delivered 'r 'm

fun accepted :: "'r \<Rightarrow> ('r, 'm) mbox_event list \<Rightarrow> 'm list" where
  "accepted r [] = []"
| "accepted r (Accepted r' m # es) = (if r' = r then m # accepted r es else accepted r es)"
| "accepted r (Delivered r' m # es) = accepted r es"

fun delivered :: "'r \<Rightarrow> ('r, 'm) mbox_event list \<Rightarrow> 'm list" where
  "delivered r [] = []"
| "delivered r (Delivered r' m # es) = (if r' = r then m # delivered r es else delivered r es)"
| "delivered r (Accepted r' m # es) = delivered r es"

lemma accepted_append [simp]: "accepted r (es @ fs) = accepted r es @ accepted r fs"
  by (induction r es rule: accepted.induct) auto

lemma delivered_append [simp]: "delivered r (es @ fs) = delivered r es @ delivered r fs"
  by (induction r es rule: delivered.induct) auto

fun run_calls :: "('c \<Rightarrow> 's \<Rightarrow> 'e list \<times> 's) \<Rightarrow> 'c list \<Rightarrow> 's \<Rightarrow> 'e list \<times> 's" where
  "run_calls f [] s = ([], s)"
| "run_calls f (c # cs) s = (case f c s of (es, s1) \<Rightarrow> case run_calls f cs s1 of (fs, s2) \<Rightarrow> (es @ fs, s2))"

locale mailbox =
  fixes inv :: "'s \<Rightarrow> bool"
    and box :: "'s \<Rightarrow> 'r \<Rightarrow> 'm list"
    and key :: "'m \<Rightarrow> 'k"
    and exec :: "'c \<Rightarrow> 's \<Rightarrow> ('r, 'm) mbox_event list \<times> 's"
    and msg_call :: "'c \<Rightarrow> bool"
  assumes inv_exec: "inv s \<Longrightarrow> msg_call c \<Longrightarrow> inv (snd (exec c s))"
    and conserve: "inv s \<Longrightarrow> msg_call c \<Longrightarrow>
      filter (\<lambda>m. key m = k) (box s r @ accepted r (fst (exec c s)))
        = filter (\<lambda>m. key m = k) (delivered r (fst (exec c s)) @ box (snd (exec c s)) r)"
begin

lemma run_conserves:
  "inv s \<Longrightarrow> list_all msg_call cs \<Longrightarrow> run_calls exec cs s = (es, s') \<Longrightarrow>
   inv s' \<and> filter (\<lambda>m. key m = k) (box s r @ accepted r es) = filter (\<lambda>m. key m = k) (delivered r es @ box s' r)"
proof (induction cs arbitrary: s es s')
  case Nil
  then show ?case by simp
next
  case (Cons c cs)
  obtain e1 s1 where c: "exec c s = (e1, s1)" by (meson surj_pair)
  obtain e2 s2 where r: "run_calls exec cs s1 = (e2, s2)" by (meson surj_pair)
  have e: "es = e1 @ e2" "s' = s2" using Cons.prems(3) c r by simp_all
  have i: "inv s1" using inv_exec [OF Cons.prems(1), of c] Cons.prems(2) c by simp
  have "list_all msg_call cs" using Cons.prems(2) by simp
  note IH = Cons.IH [OF i this r]
  have "filter (\<lambda>m. key m = k) (box s r @ accepted r e1) = filter (\<lambda>m. key m = k) (delivered r e1 @ box s1 r)"
    using conserve [OF Cons.prems(1), of c] Cons.prems(2) c by simp
  then show ?case using IH e by simp (metis append_assoc)
qed

text \<open>From an empty mailbox, what was delivered of a sender is a prefix of what was accepted from it.\<close>

lemma run_prefix:
  assumes "inv s" and "list_all msg_call cs" and "run_calls exec cs s = (es, s')" and "box s r = []"
  shows "\<exists>rest. filter (\<lambda>m. key m = k) (accepted r es) = filter (\<lambda>m. key m = k) (delivered r es) @ rest
    \<and> rest = filter (\<lambda>m. key m = k) (box s' r)"
  using run_conserves [OF assms(1-3), where k = k and r = r] assms(4) by simp

end

section \<open>The message calls\<close>

lemma live_port: "find_port_by_id st pid = Some i \<Longrightarrow> queue_live st (QPort i)"
  using first_idx_SomeD unfolding find_port_by_id_def by fastforce

lemma live_channel: "find_channel st cid = Some i \<Longrightarrow> queue_live st (QAtoB i) \<and> queue_live st (QBtoA i)"
  using first_idx_SomeD unfolding find_channel_def by fastforce

text \<open>The refusals of \<open>ipc_send\<close> and \<open>ipc_receive\<close>, in order.\<close>

definition send_refusal :: "u32 \<Rightarrow> ipc_message_t option \<Rightarrow> ipc_state \<Rightarrow> ipc_result_t option" where
  "send_refusal rcv msg st =
     (if \<not> ipc_initialized st then Some IPC_ERROR_NOT_SUPPORTED
      else if msg = None then Some IPC_ERROR_INVALID_ARG
      else if \<not> queue_live st (QProc (unat rcv)) then Some IPC_ERROR_INVALID_RECEIVER
      else if unat (mlength (the msg)) > IPC_MAX_MESSAGE_SIZE then Some IPC_ERROR_MESSAGE_TOO_LARGE
      else None)"

definition receive_refusal :: "u32 \<Rightarrow> bool \<Rightarrow> ipc_state \<Rightarrow> ipc_result_t option" where
  "receive_refusal cur want st =
     (if \<not> ipc_initialized st then Some IPC_ERROR_NOT_SUPPORTED
      else if \<not> want then Some IPC_ERROR_INVALID_ARG
      else if \<not> queue_live st (QProc (unat cur)) then Some IPC_ERROR_INVALID_RECEIVER
      else None)"

definition boosted :: "u32 \<Rightarrow> ipc_result_t \<times> ipc_state \<Rightarrow> ipc_result_t \<times> ipc_state" where
  "boosted rcv rs = (case rs of (res, st) \<Rightarrow> (res, if res = IPC_SUCCESS then st\<lparr>boosts := boosts st @ [rcv]\<rparr> else st))"

lemma ipc_send_value: "ipc_send cur rcv msg st = (case send_refusal rcv msg st of
    Some e \<Rightarrow> (e, st) | None \<Rightarrow> boosted rcv (post (QProc (unat rcv)) cur rcv (the msg) st))"
  by (auto simp: ipc_send_def send_refusal_def boosted_def post_def Let_def split: option.split prod.split)

lemma ipc_receive_value: "ipc_receive cur fs want st = (case receive_refusal cur want st of
    Some e \<Rightarrow> (Inl e, st) | None \<Rightarrow> take_from (QProc (unat cur)) fs st)"
  by (auto simp: ipc_receive_def receive_refusal_def take_from_def)

lemma boosted_same: "boosted rcv (res, st) = (res', st') \<Longrightarrow> res' = res \<and> same_queues st' st"
  by (auto simp: boosted_def same_queues_def same_tables_def split: if_splits)

lemma port_send_value: "ipc_port_send cur pid msg st = (case find_port_by_id st pid of None \<Rightarrow> (IPC_ERROR_INVALID_PORT, st)
    | Some i \<Rightarrow> if port_state (ports st i) \<noteq> IPC_PORT_LISTENING then (IPC_ERROR_PORT_CLOSED, st)
        else post (QPort i) cur (owner_id (ports st i)) msg st)"
  by (simp add: ipc_port_send_def post_def split: option.split)

lemma port_receive_value: "ipc_port_receive cur pid st = (case find_port_by_id st pid of None \<Rightarrow> (Inl IPC_ERROR_INVALID_PORT, st)
    | Some i \<Rightarrow> if owner_id (ports st i) \<noteq> cur then (Inl IPC_ERROR_PERMISSION_DENIED, st)
        else take_from (QPort i) (Some IPC_PID_ANY) st)"
  by (simp add: ipc_port_receive_def take_from_def split: option.split)

lemma channel_send_value: "ipc_channel_send cur cid msg st = (case find_channel st cid of None \<Rightarrow> (IPC_ERROR_NOT_FOUND, st)
    | Some i \<Rightarrow> if cur = endpoint_a (channels st i) then post (QAtoB i) cur (endpoint_b (channels st i)) msg st
        else if cur = endpoint_b (channels st i) then post (QBtoA i) cur (endpoint_a (channels st i)) msg st
        else (IPC_ERROR_PERMISSION_DENIED, st))"
  by (simp add: ipc_channel_send_def post_def Let_def split: option.split)

lemma channel_receive_value: "ipc_channel_receive cur cid st = (case find_channel st cid of None \<Rightarrow> (Inl IPC_ERROR_NOT_FOUND, st)
    | Some i \<Rightarrow> if cur = endpoint_a (channels st i) then take_from (QBtoA i) (Some IPC_PID_ANY) st
        else if cur = endpoint_b (channels st i) then take_from (QAtoB i) (Some IPC_PID_ANY) st
        else (Inl IPC_ERROR_PERMISSION_DENIED, st))"
  by (simp add: ipc_channel_receive_def take_from_def Let_def split: option.split)


text \<open>Receiving is exact: after the refusals, the call takes the first message of the caller's own
  queue that matches the sender asked for (any sender for NULL and \<open>IPC_PID_ANY\<close>), keeps the order of
  the others, and touches no other queue; it reports "no message" exactly when nothing matches, and
  then changes nothing.\<close>

theorem ipc_receive_exact:
  assumes "ipc_inv st" and "ipc_receive cur fs want st = (res, st')"
  shows "case receive_refusal cur want st of Some e \<Rightarrow> res = Inl e \<and> st' = st
    | None \<Rightarrow> (case res of
        Inl e \<Rightarrow> e = IPC_ERROR_NO_MESSAGE \<and> st' = st \<and> (\<forall>m\<in>set (queue_msgs st (QProc (unat cur))). \<not> takes fs m)
      | Inr m \<Rightarrow> \<exists>ys zs. queue_msgs st (QProc (unat cur)) = ys @ m # zs
          \<and> queue_msgs st' = (queue_msgs st)(QProc (unat cur) := ys @ zs) \<and> takes fs m \<and> (\<forall>y\<in>set ys. \<not> takes fs y))"
proof (cases "receive_refusal cur want st")
  case None
  then have live: "queue_live st (QProc (unat cur))" by (auto simp: receive_refusal_def split: if_splits)
  have "take_from (QProc (unat cur)) fs st = (res, st')" using assms(2) None by (simp add: ipc_receive_value)
  from take_from_spec [OF assms(1) live this] None show ?thesis by (simp split: sum.split)
next
  case (Some e)
  then show ?thesis using assms(2) by (simp add: ipc_receive_value)
qed

section \<open>Ordered exactly-once delivery\<close>

datatype ipc_call_t =
    CSend u32 u32 "ipc_message_t option"
  | CReceive u32 "u32 option" bool
  | CReply u32 "ipc_message_t option" "ipc_message_t option"
  | CCall u32 u32 "ipc_message_t option" bool
  | CPortSend u32 u32 ipc_message_t
  | CPortReceive u32 u32
  | CChannelSend u32 u32 ipc_message_t
  | CChannelReceive u32 u32
  | CPortCreate u32 "string option" bool
  | CPortDestroy u32 u32
  | CChannelCreate u32 u32 bool
  | CChannelDestroy u32
  | CProcessInit u32
  | CProcessCleanup u32 u32
  | CInit

text \<open>A call as a transition: its new state, and what it put into and took out of which queue.\<close>

definition sent_event :: "queue_ref \<Rightarrow> u32 \<Rightarrow> u32 \<Rightarrow> ipc_message_t \<Rightarrow> ipc_state \<Rightarrow> ipc_result_t \<times> ipc_state
    \<Rightarrow> (queue_ref, ipc_message_t) mbox_event list \<times> ipc_state" where
  "sent_event r cur rcv msg st rs = (if fst rs = IPC_SUCCESS then [Accepted r (fst (stamp_message cur rcv msg st))] else [], snd rs)"

definition taken_event :: "queue_ref \<Rightarrow> (ipc_result_t + ipc_message_t) \<times> ipc_state
    \<Rightarrow> (queue_ref, ipc_message_t) mbox_event list \<times> ipc_state" where
  "taken_event r rs = (case fst rs of Inl _ \<Rightarrow> [] | Inr m \<Rightarrow> [Delivered r m], snd rs)"

fun ipc_exec :: "ipc_call_t \<Rightarrow> ipc_state \<Rightarrow> (queue_ref, ipc_message_t) mbox_event list \<times> ipc_state" where
  "ipc_exec (CSend cur rcv msg) st = sent_event (QProc (unat rcv)) cur rcv (the msg) st (ipc_send cur rcv msg st)"
| "ipc_exec (CReceive cur fs want) st = taken_event (QProc (unat cur)) (ipc_receive cur fs want st)"
| "ipc_exec (CReply cur om rm) st = (case (om, rm) of
      (Some o', Some r') \<Rightarrow> sent_event (QProc (unat (sender_id o'))) cur (sender_id o')
          (r'\<lparr>message_type := message_type r' OR 0x0002, reply_to := message_id o'\<rparr>) st (ipc_reply cur om rm st)
    | _ \<Rightarrow> ([], snd (ipc_reply cur om rm st)))"
| "ipc_exec (CCall cur rcv msg want) st =
     (if msg = None \<or> \<not> want then ([], snd (ipc_call cur rcv msg want st))
      else if fst (ipc_send cur rcv msg st) \<noteq> IPC_SUCCESS then ([], snd (ipc_call cur rcv msg want st))
      else (fst (sent_event (QProc (unat rcv)) cur rcv (the msg) st (ipc_send cur rcv msg st))
              @ fst (taken_event (QProc (unat cur)) (ipc_call cur rcv msg want st)), snd (ipc_call cur rcv msg want st)))"
| "ipc_exec (CPortSend cur pid msg) st = (case find_port_by_id st pid of None \<Rightarrow> ([], snd (ipc_port_send cur pid msg st))
    | Some i \<Rightarrow> sent_event (QPort i) cur (owner_id (ports st i)) msg st (ipc_port_send cur pid msg st))"
| "ipc_exec (CPortReceive cur pid) st = (case find_port_by_id st pid of None \<Rightarrow> ([], snd (ipc_port_receive cur pid st))
    | Some i \<Rightarrow> taken_event (QPort i) (ipc_port_receive cur pid st))"
| "ipc_exec (CChannelSend cur cid msg) st = (case find_channel st cid of None \<Rightarrow> ([], snd (ipc_channel_send cur cid msg st))
    | Some i \<Rightarrow> if cur = endpoint_a (channels st i)
        then sent_event (QAtoB i) cur (endpoint_b (channels st i)) msg st (ipc_channel_send cur cid msg st)
        else sent_event (QBtoA i) cur (endpoint_a (channels st i)) msg st (ipc_channel_send cur cid msg st))"
| "ipc_exec (CChannelReceive cur cid) st = (case find_channel st cid of None \<Rightarrow> ([], snd (ipc_channel_receive cur cid st))
    | Some i \<Rightarrow> taken_event (if cur = endpoint_a (channels st i) then QBtoA i else QAtoB i) (ipc_channel_receive cur cid st))"
| "ipc_exec (CPortCreate cur nm out) st = ([], snd (ipc_port_create cur nm out st))"
| "ipc_exec (CPortDestroy cur pid) st = ([], snd (ipc_port_destroy cur pid st))"
| "ipc_exec (CChannelCreate ea eb out) st = ([], snd (ipc_channel_create ea eb out st))"
| "ipc_exec (CChannelDestroy cid) st = ([], snd (ipc_channel_destroy cid st))"
| "ipc_exec (CProcessInit pid) st = ([], snd (ipc_process_init pid st))"
| "ipc_exec (CProcessCleanup cur pid) st = ([], snd (ipc_process_cleanup cur pid st))"
| "ipc_exec CInit st = ([], snd (ipc_init st))"

text \<open>The calls that move messages; the others open and close queues.\<close>

fun message_call :: "ipc_call_t \<Rightarrow> bool" where
  "message_call (CSend _ _ _) = True" | "message_call (CReceive _ _ _) = True"
| "message_call (CReply _ _ _) = True" | "message_call (CCall _ _ _ _) = True"
| "message_call (CPortSend _ _ _) = True" | "message_call (CPortReceive _ _) = True"
| "message_call (CChannelSend _ _ _) = True" | "message_call (CChannelReceive _ _) = True"
| "message_call _ = False"

definition from_sender :: "u32 \<Rightarrow> ipc_message_t list \<Rightarrow> ipc_message_t list" where
  "from_sender k ms = filter (\<lambda>m. sender_id m = k) ms"

text \<open>What one transition does to the invariant and to each sender's messages.\<close>

definition conserves :: "ipc_state \<Rightarrow> (queue_ref, ipc_message_t) mbox_event list \<times> ipc_state \<Rightarrow> bool" where
  "conserves st es \<longleftrightarrow> ipc_inv (snd es) \<and> (\<forall>r k. from_sender k (queue_msgs st r @ accepted r (fst es))
     = from_sender k (delivered r (fst es) @ queue_msgs (snd es) r))"

lemma from_sender_append [simp]: "from_sender k (xs @ ys) = from_sender k xs @ from_sender k ys"
  by (simp add: from_sender_def)

lemma from_sender_Nil [simp]: "from_sender k [] = []"
  by (simp add: from_sender_def)

lemma conserves_same [simp]: "ipc_inv st \<Longrightarrow> conserves st ([], st)"
  by (simp add: conserves_def)

lemma conserves_sent:
  assumes "ipc_inv st" and "ipc_inv st'"
    and "res = IPC_SUCCESS \<Longrightarrow> queue_msgs st' = (queue_msgs st)(r := queue_msgs st r @ [fst (stamp_message cur rcv msg st)])"
    and "res \<noteq> IPC_SUCCESS \<Longrightarrow> queue_msgs st' = queue_msgs st"
  shows "conserves st (sent_event r cur rcv msg st (res, st'))"
  using assms by (auto simp: conserves_def sent_event_def)

lemma conserves_taken:
  assumes "ipc_inv st" and "ipc_inv st'" and "res = Inl e \<Longrightarrow> st' = st"
    and "\<And>m. res = Inr m \<Longrightarrow> \<exists>ys zs. queue_msgs st r = ys @ m # zs \<and> queue_msgs st' = (queue_msgs st)(r := ys @ zs)
        \<and> takes fs m \<and> (\<forall>y\<in>set ys. \<not> takes fs y)"
    and "\<And>e. res = Inl e \<Longrightarrow> st' = st"
  shows "conserves st (taken_event r (res, st'))"
proof (cases res)
  case (Inl e)
  then show ?thesis using assms(1,5) by (simp add: taken_event_def)
next
  case (Inr m)
  then obtain ys zs where q: "queue_msgs st r = ys @ m # zs" "queue_msgs st' = (queue_msgs st)(r := ys @ zs)"
      "takes fs m" "\<forall>y\<in>set ys. \<not> takes fs y"
    using assms(4) by blast
  have "from_sender (sender_id m) ys = []"
    using q(3,4) by (auto simp: from_sender_def takes_def filter_empty_conv)
  then have "from_sender k (ys @ m # zs) = from_sender k (m # ys @ zs)" for k
    by (cases "k = sender_id m") (simp_all add: from_sender_def)
  then show ?thesis using assms(2) q(1,2) Inr by (auto simp: conserves_def taken_event_def from_sender_def)
qed

lemma conserves_post:
  assumes "ipc_inv st" and "queue_live st r"
  shows "conserves st (sent_event r cur rcv msg st (post r cur rcv msg st))"
proof -
  obtain res st' where p: "post r cur rcv msg st = (res, st')" by (meson surj_pair)
  show ?thesis unfolding p by (rule conserves_sent) (use assms(1) post_spec [OF assms p] in \<open>auto split: if_splits\<close>)
qed

lemma conserves_take:
  assumes "ipc_inv st" and "queue_live st r"
  shows "conserves st (taken_event r (take_from r fs st))"
proof -
  obtain res st' where p: "take_from r fs st = (res, st')" by (meson surj_pair)
  show ?thesis unfolding p
    by (rule conserves_taken [where fs = fs]) (use assms(1) take_from_spec [OF assms p] in \<open>auto split: sum.splits\<close>)
qed

lemma conserves_send:
  assumes inv: "ipc_inv st"
  shows "conserves st (sent_event (QProc (unat rcv)) cur rcv (the msg) st (ipc_send cur rcv msg st))"
proof (cases "send_refusal rcv msg st")
  case None
  then have live: "queue_live st (QProc (unat rcv))" by (auto simp: send_refusal_def split: if_splits)
  obtain r0 s1 where p: "post (QProc (unat rcv)) cur rcv (the msg) st = (r0, s1)" by (meson surj_pair)
  obtain st' where b: "boosted rcv (r0, s1) = (r0, st')" "same_queues st' s1" using boosted_same by (metis surj_pair)
  have v: "ipc_send cur rcv msg st = (r0, st')" using None p b by (simp add: ipc_send_value)
  show ?thesis unfolding v
    by (rule conserves_sent)
      (use inv post_spec [OF inv live p] same_queues_inv [OF b(2)] same_queues_msgs [OF b(2)] in \<open>auto split: if_splits\<close>)
next
  case (Some e)
  then have v: "ipc_send cur rcv msg st = (e, st)" by (simp add: ipc_send_value)
  have "e \<noteq> IPC_SUCCESS" using Some by (auto simp: send_refusal_def split: if_splits)
  then show ?thesis using inv v by (simp add: sent_event_def)
qed

lemma conserves_receive: "ipc_inv st \<Longrightarrow> conserves st (taken_event (QProc (unat cur)) (ipc_receive cur fs want st))"
proof (cases "receive_refusal cur want st")
  case None
  assume inv: "ipc_inv st"
  have live: "queue_live st (QProc (unat cur))" using None by (auto simp: receive_refusal_def split: if_splits)
  then show ?thesis using conserves_take [OF inv live] None by (simp add: ipc_receive_value)
next
  case (Some e)
  assume inv: "ipc_inv st"
  then show ?thesis using Some by (simp add: ipc_receive_value taken_event_def)
qed

lemma conserves_trans: "conserves st (e1, sm) \<Longrightarrow> conserves sm (e2, s2) \<Longrightarrow> conserves st (e1 @ e2, s2)"
  unfolding conserves_def by simp (metis append_assoc append_same_eq from_sender_append)

lemma call_value: "ipc_call cur rcv msg want st = (if msg = None \<or> \<not> want then (Inl IPC_ERROR_INVALID_ARG, st)
    else if fst (ipc_send cur rcv msg st) \<noteq> IPC_SUCCESS then (Inl (fst (ipc_send cur rcv msg st)), snd (ipc_send cur rcv msg st))
    else ipc_receive cur (Some rcv) want (snd (ipc_send cur rcv msg st)))"
  by (simp add: ipc_call_def split_beta)

lemma conserves_call:
  assumes inv: "ipc_inv st"
  shows "conserves st (ipc_exec (CCall cur rcv msg want) st)"
proof -
  obtain res s1 where s: "ipc_send cur rcv msg st = (res, s1)" by (meson surj_pair)
  have c1: "conserves st (sent_event (QProc (unat rcv)) cur rcv (the msg) st (res, s1))"
    using conserves_send [OF inv, of rcv cur msg] s by simp
  then have i1: "ipc_inv s1" by (simp add: conserves_def sent_event_def)
  consider (bad) "msg = None \<or> \<not> want" | (refused) "\<not> (msg = None \<or> \<not> want)" "res \<noteq> IPC_SUCCESS"
    | (sent) "\<not> (msg = None \<or> \<not> want)" "res = IPC_SUCCESS" by blast
  then show ?thesis
  proof cases
    case bad
    then show ?thesis using inv by (auto simp: call_value)
  next
    case refused
    then show ?thesis using c1 s by (auto simp: call_value sent_event_def)
  next
    case sent
    obtain r s2 where r: "ipc_receive cur (Some rcv) want s1 = (r, s2)" by (meson surj_pair)
    have "conserves s1 (taken_event (QProc (unat cur)) (r, s2))" using conserves_receive [OF i1] r by metis
    then have "conserves st (fst (sent_event (QProc (unat rcv)) cur rcv (the msg) st (res, s1))
        @ fst (taken_event (QProc (unat cur)) (r, s2)), s2)"
      using c1 sent by (intro conserves_trans [where sm = s1]) (simp_all add: sent_event_def taken_event_def)
    then show ?thesis using sent s r by (auto simp: call_value)
  qed
qed

lemma conserves_port_send:
  assumes inv: "ipc_inv st"
  shows "conserves st (ipc_exec (CPortSend cur pid msg) st)"
proof (cases "find_port_by_id st pid")
  case (Some i)
  show ?thesis
  proof (cases "port_state (ports st i) = IPC_PORT_LISTENING")
    case True
    then show ?thesis using conserves_post [OF inv live_port [OF Some]] Some by (simp add: port_send_value)
  qed (use inv Some in \<open>simp add: port_send_value sent_event_def\<close>)
qed (use inv in \<open>simp add: port_send_value\<close>)

lemma conserves_port_receive:
  assumes inv: "ipc_inv st"
  shows "conserves st (ipc_exec (CPortReceive cur pid) st)"
proof (cases "find_port_by_id st pid")
  case (Some i)
  show ?thesis
  proof (cases "owner_id (ports st i) = cur")
    case True
    then show ?thesis using conserves_take [OF inv live_port [OF Some]] Some by (simp add: port_receive_value)
  qed (use inv Some in \<open>simp add: port_receive_value taken_event_def\<close>)
qed (use inv in \<open>simp add: port_receive_value\<close>)

lemma conserves_channel_send:
  assumes inv: "ipc_inv st"
  shows "conserves st (ipc_exec (CChannelSend cur cid msg) st)"
proof (cases "find_channel st cid")
  case (Some i)
  note c = conserves_post [OF inv conjunct1 [OF live_channel [OF Some]], of cur "endpoint_b (channels st i)" msg]
    conserves_post [OF inv conjunct2 [OF live_channel [OF Some]], of cur "endpoint_a (channels st i)" msg]
  consider "cur = endpoint_a (channels st i)" | "cur \<noteq> endpoint_a (channels st i)" "cur = endpoint_b (channels st i)"
    | "cur \<noteq> endpoint_a (channels st i)" "cur \<noteq> endpoint_b (channels st i)" by blast
  then show ?thesis
  proof cases
    case 1
    then show ?thesis using c(1) Some by (simp add: channel_send_value)
  next
    case 2
    then show ?thesis using c(2) Some by (simp add: channel_send_value)
  next
    case 3
    then show ?thesis using inv Some by (simp add: channel_send_value sent_event_def)
  qed
qed (use inv in \<open>simp add: channel_send_value\<close>)

lemma conserves_channel_receive:
  assumes inv: "ipc_inv st"
  shows "conserves st (ipc_exec (CChannelReceive cur cid) st)"
proof (cases "find_channel st cid")
  case (Some i)
  note c = conserves_take [OF inv conjunct1 [OF live_channel [OF Some]], of "Some IPC_PID_ANY"]
    conserves_take [OF inv conjunct2 [OF live_channel [OF Some]], of "Some IPC_PID_ANY"]
  consider "cur = endpoint_a (channels st i)" | "cur \<noteq> endpoint_a (channels st i)" "cur = endpoint_b (channels st i)"
    | "cur \<noteq> endpoint_a (channels st i)" "cur \<noteq> endpoint_b (channels st i)" by blast
  then show ?thesis
  proof cases
    case 1
    then show ?thesis using c(2) Some by (simp add: channel_receive_value)
  next
    case 2
    then show ?thesis using c(1) Some by (simp add: channel_receive_value)
  next
    case 3
    then show ?thesis using inv Some by (simp add: channel_receive_value taken_event_def)
  qed
qed (use inv in \<open>simp add: channel_receive_value\<close>)

lemma message_call_conserves: "ipc_inv st \<Longrightarrow> message_call c \<Longrightarrow> conserves st (ipc_exec c st)"
proof (cases c)
  case (CReply cur om rm)
  assume inv: "ipc_inv st"
  show ?thesis
  proof (cases "\<exists>o' r'. om = Some o' \<and> rm = Some r'")
    case True
    then obtain o' r' where o: "om = Some o'" "rm = Some r'" by blast
    show ?thesis
      using conserves_send [OF inv, of "sender_id o'" cur "Some (r'\<lparr>message_type := message_type r' OR 0x0002, reply_to := message_id o'\<rparr>)"]
      by (simp add: CReply o ipc_reply_def)
  next
    case False
    then show ?thesis using inv by (auto simp: CReply ipc_reply_def split: option.split)
  qed
qed (simp_all add: conserves_send conserves_receive conserves_call conserves_port_send conserves_port_receive
    conserves_channel_send conserves_channel_receive del: ipc_exec.simps(4-8))

interpretation ipc: mailbox ipc_inv queue_msgs sender_id ipc_exec message_call
proof
  fix st c k r
  assume c: "ipc_inv st" "message_call c"
  show "ipc_inv (snd (ipc_exec c st))" using message_call_conserves [OF c] by (simp add: conserves_def)
  show "filter (\<lambda>m. sender_id m = k) (queue_msgs st r @ accepted r (fst (ipc_exec c st)))
      = filter (\<lambda>m. sender_id m = k) (delivered r (fst (ipc_exec c st)) @ queue_msgs (snd (ipc_exec c st)) r)"
    using message_call_conserves [OF c] by (simp add: conserves_def from_sender_def)
qed

section \<open>Reachable states\<close>

definition ipc_boot :: "addr \<Rightarrow> ipc_state" where
  "ipc_boot limit = \<lparr>entries = (\<lambda>_. \<lparr>message = zero_message, enext = None, eprev = None\<rparr>), entry_free_list = None,
     heap_brk = 0, heap_limit = limit,
     queue_at = (\<lambda>_. \<lparr>qhead = None, qtail = None, qcount = 0, qmax = 0, qdropped = 0, qstate = IPC_PORT_CLOSED\<rparr>),
     queue_initialized = (\<lambda>_. False),
     ports = (\<lambda>_. \<lparr>port_id = 0, owner_id = 0, port_name = [], port_state = IPC_PORT_CLOSED\<rparr>),
     channels = (\<lambda>_. \<lparr>channel_id = 0, endpoint_a = 0, endpoint_b = 0, is_active = False\<rparr>),
     next_port_id = 1, next_channel_id = 1, next_message_id = 1,
     total_sent = 0, total_received = 0, total_dropped = 0, ipc_initialized = False, boosts = []\<rparr>"

text \<open>\<open>heap_limit\<close> is how many queue entries the kernel heap can provide; any call may come next.\<close>

inductive ipc_reachable :: "addr \<Rightarrow> ipc_state \<Rightarrow> bool" for limit where
  reach_boot: "ipc_reachable limit (ipc_boot limit)"
| reach_call: "ipc_reachable limit st \<Longrightarrow> ipc_reachable limit (snd (ipc_exec c st))"

lemma ipc_boot_inv: "ipc_inv (ipc_boot limit)"
proof -
  have lv: "\<not> queue_live (ipc_boot limit) r" for r by (cases r) (simp_all add: ipc_boot_def)
  have "ipc_rep (ipc_boot limit) (live_refs (ipc_boot limit)) (\<lambda>_. []) []"
    using lv by (simp add: ipc_rep_def live_refs_def owned_apart_def ipc_boot_def)
  then show ?thesis using lv by (auto simp: ipc_inv_def)
qed

lemma ipc_init_inv: "ipc_inv st \<Longrightarrow> ipc_inv (snd (ipc_init st))"
proof (cases "ipc_initialized st")
  case False
  assume inv: "ipc_inv st"
  define s1 where "s1 = st\<lparr>
            queue_at := (\<lambda>r. case r of QProc i \<Rightarrow> if i < IPC_MAX_PROCESSES then queue_reset IPC_PORT_CLOSED else queue_at st r
                                      | _ \<Rightarrow> queue_at st r),
            queue_initialized := (\<lambda>i. if i < IPC_MAX_PROCESSES then False else queue_initialized st i),
            ports := (\<lambda>i. if i < MAX_PORTS then (ports st i)\<lparr>port_id := 0, owner_id := 0, port_name := [], port_state := IPC_PORT_CLOSED\<rparr>
                          else ports st i),
            channels := (\<lambda>i. if i < MAX_CHANNELS then (channels st i)\<lparr>channel_id := 0, is_active := False\<rparr> else channels st i),
            total_sent := 0, total_received := 0, total_dropped := 0\<rparr>"
  have lv: "\<not> queue_live s1 r" for r by (cases r) (simp_all add: s1_def)
  obtain A F where "ipc_rep st (live_refs st) A F" using inv by (auto simp: ipc_inv_def)
  then have "ipc_rep s1 (live_refs s1) (\<lambda>_. []) F"
    using lv by (simp add: ipc_rep_def live_refs_def owned_apart_def s1_def)
  then have i1: "ipc_inv s1" using lv by (auto simp: ipc_inv_def)
  obtain r s2 where p: "ipc_process_init IPC_PID_KERNEL s1 = (r, s2)" by (meson surj_pair)
  have i2: "ipc_inv s2" using process_init_only [OF i1 p] i1 by (auto simp: queues_only_def)
  have "same_queues (s2\<lparr>ipc_initialized := True\<rparr>) (s2\<lparr>ipc_initialized := True\<rparr>)" by (simp add: same_queues_def)
  have "ipc_inv (s2\<lparr>ipc_initialized := True\<rparr>)"
  proof -
    have l: "queue_live (s2\<lparr>ipc_initialized := True\<rparr>) r = queue_live s2 r" for r by (cases r) simp_all
    have "ipc_rep (s2\<lparr>ipc_initialized := True\<rparr>) L A F = ipc_rep s2 L A F" for L A F by (rule ipc_rep_frame) simp_all
    then show ?thesis using i2 l by (simp add: ipc_inv_def live_refs_def)
  qed
  then show ?thesis using False p by (simp add: ipc_init_def s1_def Let_def)
qed (simp add: ipc_init_def)

lemma ipc_exec_inv:
  assumes inv: "ipc_inv st"
  shows "ipc_inv (snd (ipc_exec c st))"
proof (cases c)
  case (CPortCreate cur nm out)
  obtain r s where e: "ipc_port_create cur nm out st = (r, s)" by (meson surj_pair)
  show ?thesis using port_create_only [OF inv e] inv e by (auto simp: CPortCreate queues_only_def)
next
  case (CPortDestroy cur pid)
  obtain r s where e: "ipc_port_destroy cur pid st = (r, s)" by (meson surj_pair)
  show ?thesis using port_destroy_only [OF inv e] inv e by (auto simp: CPortDestroy queues_only_def)
next
  case (CChannelCreate ea eb out)
  obtain r s where e: "ipc_channel_create ea eb out st = (r, s)" by (meson surj_pair)
  show ?thesis using channel_create_only [OF inv e] inv e by (auto simp: CChannelCreate queues_only_def)
next
  case (CChannelDestroy cid)
  obtain r s where e: "ipc_channel_destroy cid st = (r, s)" by (meson surj_pair)
  show ?thesis using channel_destroy_only [OF inv e] inv e by (auto simp: CChannelDestroy queues_only_def)
next
  case (CProcessInit pid)
  obtain r s where e: "ipc_process_init pid st = (r, s)" by (meson surj_pair)
  show ?thesis using process_init_only [OF inv e] inv e by (auto simp: CProcessInit queues_only_def)
next
  case (CProcessCleanup cur pid)
  then show ?thesis using process_cleanup_inv [OF inv] by simp
next
  case CInit
  then show ?thesis using ipc_init_inv [OF inv] by simp
qed (use message_call_conserves [OF inv, of c] in \<open>simp_all add: conserves_def del: ipc_exec.simps\<close>)

lemma ipc_reachable_inv: "ipc_reachable limit st \<Longrightarrow> ipc_inv st"
  by (induction rule: ipc_reachable.induct) (simp_all add: ipc_boot_inv ipc_exec_inv)

text \<open>C14. The message queues are sound: after any sequence of IPC calls by any processes, starting from
  boot and with any amount of kernel heap, the pointers of every open queue are a doubly linked list of
  exactly \<open>count\<close> entries from head to tail, at most 64; no entry is in two queues, twice in one, or in a
  queue and on the free list. So no call can corrupt, leak into or resurrect another queue's entries.\<close>

theorem ipc_queues_sound:
  assumes "ipc_reachable limit st"
  shows "\<exists>A F. (\<forall>r. queue_live st r \<longrightarrow> seg (entries st) None (qhead (queue_at st r)) (A r) None
        \<and> qtail (queue_at st r) = lst None (A r) \<and> qcount (queue_at st r) = length (A r) \<and> length (A r) \<le> IPC_MAX_QUEUE_SIZE)
    \<and> free_chain (entries st) (entry_free_list st) F
    \<and> distinct F \<and> (\<forall>r. distinct (A r) \<and> set (A r) \<inter> set F = {}) \<and> (\<forall>r r'. r \<noteq> r' \<longrightarrow> set (A r) \<inter> set (A r') = {})"
proof -
  have inv: "ipc_inv st" by (rule ipc_reachable_inv [OF assms])
  then obtain A F where rep: "ipc_rep st (live_refs st) A F" by (auto simp: ipc_inv_def)
  have "queue_live st r \<longrightarrow> queue_ok (entries st) (queue_at st r) (A r) \<and> length (A r) \<le> IPC_MAX_QUEUE_SIZE" for r
    using ipc_repD(1) [OF rep] inv by (auto simp: live_refs_def queue_ok_def ipc_inv_def)
  then show ?thesis using ipc_repD(3,4) [OF rep] unfolding owned_apart_def queue_ok_def
    by (intro exI [of _ A] exI [of _ F]) auto
qed

text \<open>C15. Delivery is in order and exactly once per sender: over any interleaving of sends, receives
  (filtered or not), replies, calls, port and channel traffic by all processes, the messages of one
  sender delivered from a queue, followed by those still waiting in it, are exactly the ones waiting at
  the start followed by those accepted since, in order. Nothing accepted is lost, duplicated or
  overtaken by a later message of the same sender.\<close>

theorem ipc_delivery_in_order:
  assumes "ipc_reachable limit st" and "list_all message_call cs" and "run_calls ipc_exec cs st = (es, st')"
  shows "from_sender k (queue_msgs st r @ accepted r es) = from_sender k (delivered r es @ queue_msgs st' r)"
  using ipc.run_conserves [OF ipc_reachable_inv [OF assms(1)] assms(2,3)] by (simp add: from_sender_def)

lemma take_first:
  assumes "ipc_inv st" and "queue_live st r"
  shows "fst (take_from r (Some IPC_PID_ANY) st) = (case queue_msgs st r of [] \<Rightarrow> Inl IPC_ERROR_NO_MESSAGE | m # _ \<Rightarrow> Inr m)"
proof -
  obtain rr s2 where q: "take_from r (Some IPC_PID_ANY) st = (rr, s2)" by (meson surj_pair)
  have "takes (Some IPC_PID_ANY) m" for m by (simp add: takes_def)
  then show ?thesis using take_from_spec [OF assms q] q by (auto split: sum.splits list.split)
qed

text \<open>Only its two endpoints can use a channel, and what one sends only the other receives: the
  first endpoint's messages go to the queue the second one reads and the other way round, and anyone
  else is refused with nothing changed. A channel whose endpoints are the same process never delivers:
  it sends into one direction and reads the other.\<close>

theorem ipc_channel_endpoints:
  assumes "ipc_inv st" and "find_channel st cid = Some i" and "a = endpoint_a (channels st i)" and "b = endpoint_b (channels st i)"
  shows "(cur \<noteq> a \<and> cur \<noteq> b \<longrightarrow> ipc_channel_send cur cid msg st = (IPC_ERROR_PERMISSION_DENIED, st)
      \<and> ipc_channel_receive cur cid st = (Inl IPC_ERROR_PERMISSION_DENIED, st))
    \<and> (fst (ipc_channel_send a cid msg st) = IPC_SUCCESS \<longrightarrow>
        queue_msgs (snd (ipc_channel_send a cid msg st)) = (queue_msgs st)(QAtoB i := queue_msgs st (QAtoB i)
          @ [msg\<lparr>sender_id := a, receiver_id := b, message_id := next_message_id st, timestamp := 0\<rparr>]))
    \<and> (b \<noteq> a \<longrightarrow> fst (ipc_channel_receive b cid st) = (case queue_msgs st (QAtoB i) of
          [] \<Rightarrow> Inl IPC_ERROR_NO_MESSAGE | m # _ \<Rightarrow> Inr m))
    \<and> (b = a \<longrightarrow> fst (ipc_channel_receive a cid (snd (ipc_channel_send a cid msg st))) = fst (ipc_channel_receive a cid st))"
proof -
  note live = live_channel [OF assms(2)]
  obtain res st' where p: "post (QAtoB i) a b msg st = (res, st')" by (meson surj_pair)
  have s: "ipc_channel_send a cid msg st = (res, st')" using p assms by (simp add: channel_send_value)
  note ps = post_spec [OF assms(1) conjunct1 [OF live] p]
  then have s': "res = IPC_SUCCESS \<longrightarrow> queue_msgs st' = (queue_msgs st)(QAtoB i := queue_msgs st (QAtoB i)
          @ [msg\<lparr>sender_id := a, receiver_id := b, message_id := next_message_id st, timestamp := 0\<rparr>])"
    by (simp add: stamp_message_def)
  have st: "ipc_inv st'" "same_tables st' st" "queue_msgs st' (QBtoA i) = queue_msgs st (QBtoA i)"
    using ps by (auto split: if_splits)
  have f: "find_channel st' cid = Some i" "channels st' = channels st" "queue_live st' (QBtoA i)"
    using assms(2) st(2) live same_tables_live [OF st(2)] by (simp_all add: find_channel_def same_tables_def)
  show ?thesis
    using s s' take_first [OF assms(1) conjunct1 [OF live]] take_first [OF assms(1) conjunct2 [OF live]]
      take_first [OF st(1) f(3)] f st(3) assms
    by (auto simp: channel_send_value channel_receive_value split: list.splits)
qed

text \<open>The witness state: processes 0 and 7, and one channel between them.\<close>

definition demo_msg :: ipc_message_t where
  "demo_msg = zero_message\<lparr>mlength := 4\<rparr>"

definition demo_ipc :: ipc_state where
  "demo_ipc = snd (run_calls ipc_exec [CInit, CProcessInit 7, CChannelCreate 0 7 True] (ipc_boot 1000))"

lemma run_reachable: "ipc_reachable limit st \<Longrightarrow> ipc_reachable limit (snd (run_calls ipc_exec cs st))"
proof (induction cs arbitrary: st)
  case (Cons c cs)
  then show ?case using reach_call by (simp add: split_beta)
qed simp

lemma demo_ipc_reachable: "ipc_reachable 1000 demo_ipc"
  unfolding demo_ipc_def by (intro run_reachable reach_boot)

lemma demo_ipc_inv: "ipc_inv demo_ipc"
  by (rule ipc_reachable_inv [OF demo_ipc_reachable])

lemma demo_ipc_fields:
  "ipc_initialized demo_ipc" "queue_initialized demo_ipc 7" "queue_initialized demo_ipc 0"
  "channels demo_ipc 0 = \<lparr>channel_id = 1, endpoint_a = 0, endpoint_b = 7, is_active = True\<rparr>"
  "heap_brk demo_ipc = 0" "heap_limit demo_ipc = 1000" "entry_free_list demo_ipc = None"
  "queue_at demo_ipc (QProc 7) = queue_reset IPC_PORT_OPEN" "queue_at demo_ipc (QProc 0) = queue_reset IPC_PORT_OPEN"
  "queue_at demo_ipc (QAtoB 0) = queue_reset IPC_PORT_OPEN" "boosts demo_ipc = []"
  by (simp_all add: demo_ipc_def ipc_boot_def ipc_init_def ipc_process_init_def ipc_channel_create_def
      set_queue_def first_idx.simps Let_def)

lemma demo_send: "fst (ipc_send 0 7 (Some demo_msg) demo_ipc) = IPC_SUCCESS"
  by (simp add: ipc_send_def demo_ipc_fields demo_msg_def zero_message_def stamp_message_def count_sent_def
      queue_enqueue_def queue_alloc_entry_def queue_reset_def set_entry_def set_queue_def Let_def)

lemma demo_send_ok: "send_refusal 7 (Some demo_msg) demo_ipc = None"
  by (simp add: send_refusal_def demo_ipc_fields demo_msg_def zero_message_def)

lemma demo_empty: "queue_msgs demo_ipc (QProc 7) = []"
  by (simp add: queue_msgs_def demo_ipc_fields queue_reset_def msgs_at_def)

theorem ipc_queues_sound_witness:
  "ipc_reachable 1000 demo_ipc \<and> (\<exists>F. free_chain (entries demo_ipc) (entry_free_list demo_ipc) F \<and> distinct F)"
  using ipc_queues_sound [OF demo_ipc_reachable] demo_ipc_reachable by blast


theorem ipc_receive_exact_witness:
  "fst (ipc_receive 7 None True demo_ipc) = Inl IPC_ERROR_NO_MESSAGE \<and> snd (ipc_receive 7 None True demo_ipc) = demo_ipc"
proof -
  obtain res st' where r: "ipc_receive 7 None True demo_ipc = (res, st')" by (meson surj_pair)
  have "receive_refusal 7 True demo_ipc = None" by (simp add: receive_refusal_def demo_ipc_fields)
  then show ?thesis using ipc_receive_exact [OF demo_ipc_inv r] r demo_empty by (auto split: sum.splits)
qed

theorem ipc_delivery_in_order_witness:
  "\<exists>es st'. run_calls ipc_exec [CSend 0 7 (Some demo_msg), CReceive 7 None True] demo_ipc = (es, st')
    \<and> accepted (QProc 7) es \<noteq> []
    \<and> from_sender 0 (queue_msgs demo_ipc (QProc 7) @ accepted (QProc 7) es)
        = from_sender 0 (delivered (QProc 7) es @ queue_msgs st' (QProc 7))"
proof -
  obtain es st' where r: "run_calls ipc_exec [CSend 0 7 (Some demo_msg), CReceive 7 None True] demo_ipc = (es, st')"
    by (meson surj_pair)
  have "accepted (QProc 7) es \<noteq> []" using r demo_send by (auto simp: sent_event_def split_beta)
  moreover have "from_sender 0 (queue_msgs demo_ipc (QProc 7) @ accepted (QProc 7) es)
      = from_sender 0 (delivered (QProc 7) es @ queue_msgs st' (QProc 7))"
    by (rule ipc_delivery_in_order [OF demo_ipc_reachable _ r]) simp
  ultimately show ?thesis using r by blast
qed

theorem ipc_channel_endpoints_witness:
  "find_channel demo_ipc 1 = Some 0 \<and> ipc_channel_receive 9 1 demo_ipc = (Inl IPC_ERROR_PERMISSION_DENIED, demo_ipc)
   \<and> fst (ipc_channel_receive 7 1 demo_ipc) = Inl IPC_ERROR_NO_MESSAGE"
proof -
  have f: "find_channel demo_ipc 1 = Some 0" by (simp add: find_channel_def demo_ipc_fields first_idx.simps)
  have e: "0 = endpoint_a (channels demo_ipc 0)" "7 = endpoint_b (channels demo_ipc 0)" by (simp_all add: demo_ipc_fields)
  have q: "queue_msgs demo_ipc (QAtoB 0) = []" by (simp add: queue_msgs_def demo_ipc_fields queue_reset_def msgs_at_def)
  show ?thesis using ipc_channel_endpoints [OF demo_ipc_inv f e] f q by simp
qed

section \<open>Process death\<close>

definition others_kept :: "ipc_state \<Rightarrow> ipc_state \<Rightarrow> bool" where
  "others_kept st st' \<longleftrightarrow> (\<forall>r. (\<forall>i. r \<noteq> QPort i) \<longrightarrow> queue_live st' r = queue_live st r \<and> queue_msgs st' r = queue_msgs st r)"

lemma cleanup_port_kept:
  assumes inv: "ipc_inv st"
  shows "others_kept st (cleanup_port cur pid i st)"
proof -
  obtain res st' where d: "ipc_port_destroy cur (port_id (ports st i)) st = (res, st')" by (meson surj_pair)
  show ?thesis using port_destroy_only [OF inv d] d by (auto simp: cleanup_port_def others_kept_def queues_only_def)
qed

lemma cleanup_ports_kept: "ipc_inv st \<Longrightarrow> others_kept st (fold (cleanup_port cur pid) is st)"
proof (induction "is" arbitrary: st)
  case (Cons i js)
  have "others_kept (cleanup_port cur pid i st) (fold (cleanup_port cur pid) js (cleanup_port cur pid i st))"
    by (rule Cons.IH [OF cleanup_port_inv [OF Cons.prems]])
  then show ?case using cleanup_port_kept [OF Cons.prems, of cur pid i] by (simp add: others_kept_def)
qed (simp add: others_kept_def)

text \<open>When a process dies its queue goes: cleanup leaves the pid's queue closed, whatever was in it, so
  a process that later takes over the pid starts with an empty queue; the queues of all other processes
  and of the channels keep their messages.\<close>

theorem ipc_cleanup_queue_complete:
  assumes "ipc_inv st" and "unat pid < IPC_MAX_PROCESSES" and "ipc_process_cleanup cur pid st = (res, st')"
  shows "res = IPC_SUCCESS \<and> ipc_inv st' \<and> \<not> queue_live st' (QProc (unat pid))
    \<and> (\<forall>r. r \<noteq> QProc (unat pid) \<and> (\<forall>i. r \<noteq> QPort i) \<longrightarrow> queue_live st' r = queue_live st r \<and> queue_msgs st' r = queue_msgs st r)
    \<and> queue_msgs (snd (ipc_process_init pid st')) (QProc (unat pid)) = []"
proof -
  let ?r = "QProc (unat pid)"
  have main: "ipc_inv st' \<and> \<not> queue_live st' ?r
    \<and> (\<forall>r. r \<noteq> ?r \<and> (\<forall>i. r \<noteq> QPort i) \<longrightarrow> queue_live st' r = queue_live st r \<and> queue_msgs st' r = queue_msgs st r)"
  proof (cases "queue_initialized st (unat pid)")
    case True
    define s1 where "s1 = cleanup_queue pid st"
    have l: "queue_live st ?r" using True assms(2) by simp
    have s1: "queues_only {?r} st s1" unfolding s1_def by (rule cleanup_queue_only [OF assms(1) l])
    have d1: "\<not> queue_live s1 ?r" by (simp add: s1_def cleanup_queue_def Let_def)
    have st': "st' = fold (cleanup_port cur pid) [0..<MAX_PORTS] s1"
      using assms(2,3) True by (simp add: process_cleanup_value s1_def del: upt_conv_Cons)
    have i1: "ipc_inv s1" using s1 by (simp add: queues_only_def)
    show ?thesis
      using cleanup_ports_kept [OF i1, of cur pid "[0..<MAX_PORTS]"] cleanup_ports_inv [OF i1, of cur pid "[0..<MAX_PORTS]"] d1 s1
      unfolding st' by (simp add: others_kept_def queues_only_def del: upt_conv_Cons queue_live.simps)
  next
    case False
    then show ?thesis using assms by (auto simp: process_cleanup_value)
  qed
  obtain r2 s2 where p: "ipc_process_init pid st' = (r2, s2)" by (meson surj_pair)
  have "queue_msgs s2 ?r = []"
    using process_init_only [OF conjunct1 [OF main] p] main by (auto simp: queues_only_def queue_msgs_def)
  moreover have "res = IPC_SUCCESS" using assms(2,3) by (auto simp: process_cleanup_value split: if_splits)
  ultimately show ?thesis using main p by simp
qed

theorem ipc_cleanup_queue_complete_witness:
  "fst (ipc_process_cleanup 0 7 demo_ipc) = IPC_SUCCESS \<and> \<not> queue_live (snd (ipc_process_cleanup 0 7 demo_ipc)) (QProc 7)"
proof -
  obtain res st' where c: "ipc_process_cleanup 0 7 demo_ipc = (res, st')" by (meson surj_pair)
  show ?thesis using ipc_cleanup_queue_complete [OF demo_ipc_inv _ c] c by simp
qed

text \<open>A name of 64 characters or more is stored cut, so creating it twice makes two ports of one
  name and neither creation finds the other.\<close>

lemma long_port_name_unfound:
  assumes "\<forall>i<MAX_PORTS. length (port_name (ports st i)) < 64" and "64 \<le> length name"
  shows "find_port_by_name st name = None"
  using assms by (auto simp: find_port_by_name_def first_idx_None)

end
