(* ===== verification/Tar.thy ===== *)
theory Tar
  imports Textfmt
begin

text \<open>
  The ustar reader of \<open>kernel/src/initrd.c\<close> (shared with the disk restore) and the ustar writer of
  \<open>kernel/src/ramfs.c\<close>. C strings are byte lists without the NUL, an archive is the list of its bytes, a
  visitor is a function that returns its stop flag and its new context.
\<close>

section \<open>Strings\<close>

text \<open>\<open>normalize\<close>: one leading \<open>./\<close>, then all leading \<open>/\<close>.\<close>

definition normalize :: "bytes \<Rightarrow> bytes" where
  "normalize name = (let name = (if take 2 name = [46, 47] then drop 2 name else name) in dropWhile (\<lambda>c. c = 47) name)"

fun str_eq :: "bytes \<Rightarrow> bytes \<Rightarrow> bool" where
  "str_eq (a # as) (b # bs) = (if a = b then str_eq as bs else False)"
| "str_eq [] [] = True"
| "str_eq _ _ = False"

fun str_starts :: "bytes \<Rightarrow> bytes \<Rightarrow> bool" where
  "str_starts s [] = True"
| "str_starts (a # s) (b # prefix) = (if a = b then str_starts s prefix else False)"
| "str_starts [] (b # prefix) = False"

lemma str_eq_iff [simp]: "str_eq a b \<longleftrightarrow> a = b"
  by (induction a b rule: str_eq.induct) auto

lemma str_starts_iff: "str_starts s p \<longleftrightarrow> take (length p) s = p"
  by (induction s p rule: str_starts.induct) auto

definition c_string :: "bytes \<Rightarrow> bytes" where
  "c_string b = takeWhile (\<lambda>c. c \<noteq> 0) b"

lemma normalize_props: "length (normalize s) \<le> length s" "set (normalize s) \<subseteq> set s" "normalize s \<noteq> [] \<Longrightarrow> hd (normalize s) \<noteq> 47"
proof -
  let ?t = "if take 2 s = [46, 47] then drop 2 s else s"
  have n: "normalize s = dropWhile (\<lambda>c. c = 47) ?t" by (simp add: normalize_def Let_def)
  have "length ?t \<le> length s" "set ?t \<subseteq> set s" by (auto dest: in_set_dropD)
  then show "length (normalize s) \<le> length s" "set (normalize s) \<subseteq> set s"
    unfolding n using length_dropWhile_le [of "\<lambda>c. c = 47" ?t] set_dropWhileD [of _ "\<lambda>c. c = 47" ?t] by fastforce+
  show "hd (normalize s) \<noteq> 47" if "normalize s \<noteq> []"
    using that hd_dropWhile [of "\<lambda>c. c = 47" ?t] unfolding n by blast
qed

lemma c_string_props: "length (c_string s) \<le> length s" "0 \<notin> set (c_string s)"
  by (auto simp: c_string_def length_takeWhile_le dest: set_takeWhileD)

section \<open>Octal fields\<close>

fun octal_digits :: "u32 \<Rightarrow> bytes \<Rightarrow> u32" where
  "octal_digits v [] = v"
| "octal_digits v (c # cs) = (if c \<ge> 48 \<and> c \<le> 55 then octal_digits (push_bit 3 v OR ucast (c - 48)) cs else v)"

definition tar_octal :: "bytes \<Rightarrow> nat \<Rightarrow> u32" where
  "tar_octal p len = octal_digits 0 (take len p)"

text \<open>The last \<open>n\<close> octal digits of \<open>v\<close>.\<close>

fun oct_field :: "nat \<Rightarrow> u32 \<Rightarrow> bytes" where
  "oct_field 0 v = []"
| "oct_field (Suc n) v = oct_field n (drop_bit 3 v) @ [48 + ucast (v AND 7)]"

definition tar_put_octal :: "u32 \<Rightarrow> bytes" where
  "tar_put_octal v = oct_field 11 v @ [0]"

section \<open>Headers\<close>

definition byte_sum :: "bytes \<Rightarrow> u32" where
  "byte_sum bs = sum_list (map ucast bs)"

text \<open>The header checksum with the eight checksum bytes read as spaces.\<close>

definition header_sum :: "bytes \<Rightarrow> u32" where
  "header_sum p = sum_list (map (\<lambda>i. if i \<ge> 148 \<and> i < 156 then 32 else ucast (p ! i)) [0..<512])"

text \<open>Everything but the checksum digits, whose field still holds the eight spaces.\<close>

definition tar_header_body :: "bytes \<Rightarrow> u32 \<Rightarrow> bytes" where
  "tar_header_body name sz =
     (let h = replicate 512 0;
          h = poke h 0 (take 100 name);
          h = poke h 100 [48, 48, 48, 48, 54, 52, 52];
          h = poke h 108 [48, 48, 48, 48, 48, 48, 48];
          h = poke h 116 [48, 48, 48, 48, 48, 48, 48];
          h = poke h 124 (tar_put_octal sz);
          h = poke h 136 (tar_put_octal 0);
          h = h[156 := 48];
          h = poke h 257 [117, 115, 116, 97, 114];
          h = (h[262 := 0])[263 := 48];
          h = h[264 := 48]
      in poke h 148 (replicate 8 32))"

definition tar_put_header :: "bytes \<Rightarrow> u32 \<Rightarrow> bytes" where
  "tar_put_header name sz = (let h = tar_header_body name sz
     in ((poke h 148 (oct_field 6 (byte_sum h)))[154 := 0])[155 := 32])"

definition align_block :: "u32 \<Rightarrow> u32" where
  "align_block v = (v + 512 - 1) AND NOT (512 - 1)"

text \<open>One archive member, and the archive \<open>persist_sync\<close> composes: header, data, zeros to the block
  boundary per file, then two zero blocks.\<close>

definition tar_member :: "bytes \<Rightarrow> bytes \<Rightarrow> bytes" where
  "tar_member name d = tar_put_header name (of_nat (length d)) @ d
     @ replicate (unat (align_block (of_nat (length d))) - length d) 0"

definition tar_archive :: "(bytes \<times> bytes) list \<Rightarrow> bytes" where
  "tar_archive fs = concat (map (\<lambda>(name, d). tar_member name d) fs) @ replicate 1024 0"

section \<open>The walk\<close>

type_synonym 'c tar_visit = "bytes \<Rightarrow> bytes \<Rightarrow> 'c \<Rightarrow> bool \<times> 'c"

text \<open>The walk from byte offset \<open>off\<close>. The block count is 32-bit arithmetic, as in the source.\<close>

function tar_walk_from :: "'c tar_visit \<Rightarrow> bytes \<Rightarrow> nat \<Rightarrow> 'c \<Rightarrow> 'c" where
  "tar_walk_from cb base off ctx =
     (if off + 512 \<le> length base then
        let p = take 512 (drop off base) in
        if p ! 0 = 0 then ctx
        else if p ! 257 \<noteq> 117 then ctx
        else if header_sum p \<noteq> tar_octal (drop 148 p) 8 then ctx
        else let name = c_string (take 100 p); sz = tar_octal (drop 124 p) 12; data_off = off + 512 in
          if unat sz > length base - data_off then ctx
          else case (if p ! 156 = 48 \<or> p ! 156 = 0
                     then cb (normalize name) (take (unat sz) (drop data_off base)) ctx else (False, ctx)) of
              (True, ctx) \<Rightarrow> ctx
            | (False, ctx) \<Rightarrow> tar_walk_from cb base (data_off + unat ((sz + 512 - 1) div 512) * 512) ctx
      else ctx)"
  by pat_completeness auto
termination
  by (relation "measure (\<lambda>(cb, base, off, ctx). length base - off)") auto

declare tar_walk_from.simps [simp del]

definition tar_walk_mem :: "'c tar_visit \<Rightarrow> bytes \<Rightarrow> 'c \<Rightarrow> 'c" where
  "tar_walk_mem cb base ctx = tar_walk_from cb base 0 ctx"

section \<open>The embedded initrd\<close>

text \<open>\<open>initrd\<close> is the archive objcopy puts into the kernel image.\<close>

definition count_cb :: "(u32 \<times> u32) tar_visit" where
  "count_cb name data c = (False, (fst c + 1, snd c + of_nat (length data)))"

definition initrd_init :: "bytes \<Rightarrow> u32 \<times> u32" where
  "initrd_init initrd = tar_walk_mem count_cb initrd (0, 0)"

definition lookup_cb :: "bytes \<Rightarrow> bytes option tar_visit" where
  "lookup_cb want name data l = (if str_eq name want then (True, Some data) else (False, l))"

definition initrd_lookup :: "bytes \<Rightarrow> bytes option \<Rightarrow> bytes option" where
  "initrd_lookup initrd path = (case path of None \<Rightarrow> None
     | Some path \<Rightarrow> tar_walk_mem (lookup_cb (normalize path)) initrd None)"

text \<open>The listing: one row per file, whole rows only. The text is as characters.\<close>

definition list_row :: "bytes \<Rightarrow> nat \<Rightarrow> string" where
  "list_row name sz = ''FS: '' @ take 104 (map (\<lambda>c. char_of (unat c)) name) @ '' '' @ dec_chars (of_nat sz) @ [CHR 0x0D, CHR 0x0A]"

definition list_cb :: "bytes \<Rightarrow> nat \<Rightarrow> string tar_visit" where
  "list_cb prefix mx name data buf =
     (if prefix \<noteq> [] \<and> \<not> str_starts name prefix then (False, buf)
      else if length buf + length (list_row name (length data)) + 1 > mx then (True, buf)
      else (False, buf @ list_row name (length data)))"

definition initrd_format_list :: "bytes \<Rightarrow> bytes option \<Rightarrow> nat \<Rightarrow> string" where
  "initrd_format_list initrd path mx =
     (if mx = 0 then []
      else tar_walk_mem (list_cb (normalize (case path of None \<Rightarrow> [] | Some p \<Rightarrow> p)) mx) initrd [])"

end
