(* ===== verification/Ramfs.thy ===== *)
theory Ramfs
  imports Tar
begin

text \<open>
  The writable overlay of \<open>kernel/src/ramfs.c\<close> (\<open>kernel/include/kernel/ramfs.h\<close>): a table of sixteen
  files with 64 KiB buffers. Names are C strings without the NUL, a data pointer is the buffer it owns
  (\<open>None\<close>: NULL), sizes are 32-bit words. What \<open>kmalloc\<close> answers is an argument of the operation that
  calls it. The return value -1 is \<open>None\<close>.
\<close>

section \<open>State and operations\<close>

abbreviation (input) RAMFS_MAX_FILES :: nat where "RAMFS_MAX_FILES \<equiv> 16"
abbreviation (input) RAMFS_FILE_MAX :: u32 where "RAMFS_FILE_MAX \<equiv> 65536"
abbreviation (input) RAMFS_NAME_MAX :: nat where "RAMFS_NAME_MAX \<equiv> 100"

record ramfile_t =
  rname :: bytes
  rdata :: "bytes option"
  rsize :: u32
  rused :: bool

type_synonym ramfs = "nat \<Rightarrow> ramfile_t"

definition ramfs_boot :: ramfs where
  "ramfs_boot = (\<lambda>_. \<lparr>rname = [], rdata = None, rsize = 0, rused = False\<rparr>)"

definition find_by_name :: "bytes \<Rightarrow> ramfs \<Rightarrow> nat option" where
  "find_by_name norm files = first_idx (\<lambda>i. rused (files i) \<and> str_eq (rname (files i)) norm) 0 RAMFS_MAX_FILES"

definition ramfs_create :: "bytes option \<Rightarrow> bytes option \<Rightarrow> ramfs \<Rightarrow> nat option \<times> ramfs" where
  "ramfs_create alloc path files =
     (case path of None \<Rightarrow> (None, files)
      | Some p \<Rightarrow>
          let norm = normalize p in
          if norm = [] then (None, files)
          else if length norm > RAMFS_NAME_MAX then (None, files)
          else case find_by_name norm files of
            Some idx \<Rightarrow> (Some idx, files(idx := (files idx)\<lparr>rsize := 0\<rparr>))
          | None \<Rightarrow> (case first_idx (\<lambda>i. \<not> rused (files i)) 0 RAMFS_MAX_FILES of
              None \<Rightarrow> (None, files)
            | Some i \<Rightarrow> (case alloc of None \<Rightarrow> (None, files)
                | Some buf \<Rightarrow> (Some i, files(i := \<lparr>rname = norm, rdata = Some buf, rsize = 0, rused = True\<rparr>)))))"

definition ramfs_append :: "int \<Rightarrow> bytes option \<Rightarrow> u32 \<Rightarrow> ramfs \<Rightarrow> u32 option \<times> ramfs" where
  "ramfs_append idx data len files =
     (let i = nat idx; f = files i in
      if idx < 0 \<or> idx \<ge> int RAMFS_MAX_FILES \<or> \<not> rused f then (None, files)
      else case data of None \<Rightarrow> (None, files)
      | Some d \<Rightarrow>
          let room = RAMFS_FILE_MAX - rsize f; len = (if len > room then room else len) in
          (Some len, files(i := f\<lparr>
             rdata := map_option (\<lambda>b. poke b (unat (rsize f)) (take (unat len) d)) (rdata f),
             rsize := rsize f + len\<rparr>)))"

text \<open>The index, the data pointer and the size.\<close>

definition ramfs_lookup :: "bytes option \<Rightarrow> ramfs \<Rightarrow> (nat \<times> bytes option \<times> u32) option" where
  "ramfs_lookup path files = (case path of None \<Rightarrow> None
     | Some p \<Rightarrow> map_option (\<lambda>i. (i, rdata (files i), rsize (files i))) (find_by_name (normalize p) files))"

definition ramfs_unlink :: "bytes option \<Rightarrow> ramfs \<Rightarrow> unit option \<times> ramfs" where
  "ramfs_unlink path files = (case path of None \<Rightarrow> (None, files)
     | Some p \<Rightarrow> (case find_by_name (normalize p) files of None \<Rightarrow> (None, files)
         | Some i \<Rightarrow> (Some (), files(i := \<lparr>rname = [], rdata = None, rsize = 0, rused = False\<rparr>))))"

definition ramfs_count :: "ramfs \<Rightarrow> nat" where
  "ramfs_count files = length (filter (\<lambda>i. rused (files i)) [0..<RAMFS_MAX_FILES])"

definition ramfs_get :: "int \<Rightarrow> ramfs \<Rightarrow> (bytes \<times> bytes option \<times> u32) option" where
  "ramfs_get idx files = (let f = files (nat idx) in
     if idx < 0 \<or> idx \<ge> int RAMFS_MAX_FILES \<or> \<not> rused f then None else Some (rname f, rdata f, rsize f))"

definition ram_row :: "ramfile_t \<Rightarrow> string" where
  "ram_row f = ''FS: '' @ take 104 (map (\<lambda>c. char_of (unat c)) (rname f)) @ '' '' @ dec_chars (ucast (rsize f))
     @ '' [ram]'' @ [CHR 0x0D, CHR 0x0A]"

text \<open>The rows of the live files under the prefix, appended to the \<open>buf\<close> already written; the loop
  breaks at the first row that does not fit.\<close>

fun ram_rows :: "bytes \<Rightarrow> nat \<Rightarrow> ramfile_t list \<Rightarrow> string \<Rightarrow> string" where
  "ram_rows pref mx [] buf = buf"
| "ram_rows pref mx (f # fs) buf =
     (if \<not> rused f then ram_rows pref mx fs buf
      else if pref \<noteq> [] \<and> \<not> str_starts (rname f) pref then ram_rows pref mx fs buf
      else if length buf + length (ram_row f) + 1 > mx then buf
      else ram_rows pref mx fs (buf @ ram_row f))"

definition ramfs_format_list :: "bytes option \<Rightarrow> nat \<Rightarrow> ramfs \<Rightarrow> string \<Rightarrow> string" where
  "ramfs_format_list prefix mx files buf =
     ram_rows (normalize (case prefix of None \<Rightarrow> [] | Some p \<Rightarrow> p)) mx (map files [0..<RAMFS_MAX_FILES]) buf"

section \<open>Invariant\<close>

definition file_ok :: "ramfile_t \<Rightarrow> bool" where
  "file_ok f \<longleftrightarrow> rname f \<noteq> [] \<and> length (rname f) \<le> RAMFS_NAME_MAX \<and> hd (rname f) \<noteq> 47 \<and> 0 \<notin> set (rname f)
     \<and> unat (rsize f) \<le> 65536 \<and> (case rdata f of None \<Rightarrow> False | Some b \<Rightarrow> length b = 65536)"

definition ramfs_inv :: "ramfs \<Rightarrow> bool" where
  "ramfs_inv files \<longleftrightarrow> (\<forall>i<16. rused (files i) \<longrightarrow> file_ok (files i))
     \<and> (\<forall>i<16. \<forall>j<16. rused (files i) \<and> rused (files j) \<and> rname (files i) = rname (files j) \<longrightarrow> i = j)"

text \<open>The contents of a file, and the abstract store: a map from names to contents.\<close>

definition file_content :: "ramfile_t \<Rightarrow> bytes" where
  "file_content f = take (unat (rsize f)) (case rdata f of None \<Rightarrow> [] | Some b \<Rightarrow> b)"

definition ramfs_abs :: "ramfs \<Rightarrow> bytes \<rightharpoonup> bytes" where
  "ramfs_abs files n = map_option (\<lambda>i. file_content (files i)) (find_by_name n files)"

text \<open>The allocator law: an answered buffer has the requested size.\<close>

definition alloc_ok :: "bytes option \<Rightarrow> bool" where
  "alloc_ok a \<longleftrightarrow> (case a of None \<Rightarrow> True | Some b \<Rightarrow> length b = 65536)"

lemma find_by_name_Some: "find_by_name n files = Some i \<Longrightarrow> i < 16 \<and> rused (files i) \<and> rname (files i) = n"
  unfolding find_by_name_def by (auto dest: first_idx_SomeD)

lemma find_by_name_None: "find_by_name n files = None \<longleftrightarrow> (\<forall>i<16. rused (files i) \<longrightarrow> rname (files i) \<noteq> n)"
  unfolding find_by_name_def first_idx_None by auto

lemma find_by_name_used:
  assumes "ramfs_inv files" "i < 16" "rused (files i)"
  shows "find_by_name (rname (files i)) files = Some i"
proof (cases "find_by_name (rname (files i)) files")
  case None
  then show ?thesis using assms find_by_name_None by blast
next
  case (Some j)
  then show ?thesis using assms find_by_name_Some [OF Some] unfolding ramfs_inv_def by metis
qed

lemma inv_file: "ramfs_inv files \<Longrightarrow> i < 16 \<Longrightarrow> rused (files i) \<Longrightarrow> file_ok (files i)"
  unfolding ramfs_inv_def by blast

lemma ramfs_inv_boot: "ramfs_inv ramfs_boot"
  by (simp add: ramfs_inv_def ramfs_boot_def)

text \<open>Replacing one entry: how the invariant and the store see it.\<close>

lemma ramfs_invI:
  assumes "\<And>i. i < 16 \<Longrightarrow> rused (files i) \<Longrightarrow> file_ok (files i)"
    "\<And>i j. i < 16 \<Longrightarrow> j < 16 \<Longrightarrow> rused (files i) \<Longrightarrow> rused (files j) \<Longrightarrow> rname (files i) = rname (files j) \<Longrightarrow> i = j"
  shows "ramfs_inv files"
  unfolding ramfs_inv_def using assms by (intro conjI allI impI) (simp, metis)

lemma ramfs_inv_inj:
  "ramfs_inv files \<Longrightarrow> i < 16 \<Longrightarrow> j < 16 \<Longrightarrow> rused (files i) \<Longrightarrow> rused (files j) \<Longrightarrow> rname (files i) = rname (files j) \<Longrightarrow> i = j"
  unfolding ramfs_inv_def by simp

lemma inv_replace:
  assumes inv: "ramfs_inv files" and i: "i < 16" and ok: "rused f \<Longrightarrow> file_ok f"
    and fresh: "\<And>j. rused f \<Longrightarrow> j < 16 \<Longrightarrow> rused (files j) \<Longrightarrow> rname (files j) = rname f \<Longrightarrow> j = i"
  shows "ramfs_inv (files(i := f))"
proof (rule ramfs_invI)
  fix j assume "j < (16 :: nat)" "rused ((files(i := f)) j)"
  then show "file_ok ((files(i := f)) j)" using ok inv_file [OF inv, of j] by (cases "j = i") simp_all
next
  fix j k assume a: "j < (16 :: nat)" "k < (16 :: nat)" "rused ((files(i := f)) j)" "rused ((files(i := f)) k)"
    "rname ((files(i := f)) j) = rname ((files(i := f)) k)"
  show "j = k"
  proof (cases "j = i")
    case True
    then have "k \<noteq> i \<Longrightarrow> rused f \<and> rused (files k) \<and> rname (files k) = rname f" using a by simp
    then show ?thesis using True a(2) fresh by blast
  next
    case False
    then have j: "rused (files j)" "k = i \<Longrightarrow> rused f \<and> rname (files j) = rname f"
        "k \<noteq> i \<Longrightarrow> rused (files k) \<and> rname (files j) = rname (files k)" using a by simp_all
    show ?thesis using j a(1,2) fresh [of j] ramfs_inv_inj [OF inv a(1,2)] by blast
  qed
qed

lemma find_replace:
  assumes inv: "ramfs_inv (files(i := f))" and "i < 16" "ramfs_inv files"
  shows "find_by_name n (files(i := f)) = (if rused f \<and> rname f = n then Some i
     else if find_by_name n files = Some i then None else find_by_name n files)"
proof (cases "rused f \<and> rname f = n")
  case True
  then show ?thesis using find_by_name_used [OF inv \<open>i < 16\<close>] by simp
next
  case False
  show ?thesis
  proof (cases "find_by_name n files")
    case None
    then have "find_by_name n (files(i := f)) = None" using False unfolding find_by_name_None by simp
    then show ?thesis using False None by simp
  next
    case (Some j)
    note j = find_by_name_Some [OF Some]
    show ?thesis
    proof (cases "j = i")
      case True
      have "find_by_name n (files(i := f)) = None" unfolding find_by_name_None
      proof (intro allI impI)
        fix k assume k: "k < (16 :: nat)" "rused ((files(i := f)) k)"
        show "rname ((files(i := f)) k) \<noteq> n"
        proof (cases "k = i")
          case True then show ?thesis using k False by simp
        next
          case ki: False
          then have "rname (files k) = n \<Longrightarrow> k = j" using find_by_name_used [OF assms(3) k(1)] k(2) Some by simp
          then show ?thesis using ki \<open>j = i\<close> by auto
        qed
      qed
      then show ?thesis using False True Some by simp
    next
      case ji: False
      then have "find_by_name n (files(i := f)) = Some j" using find_by_name_used [OF inv, of j] j by simp
      then show ?thesis using False Some ji by simp
    qed
  qed
qed

lemma abs_replace:
  assumes "ramfs_inv (files(i := f))" "i < 16" "ramfs_inv files" and used: "rused (files i)"
  shows "ramfs_abs (files(i := f)) = (if rused f then (ramfs_abs files |` (- {rname (files i)}))(rname f \<mapsto> file_content f)
     else ramfs_abs files |` (- {rname (files i)}))"
proof
  fix n
  have "find_by_name n files = Some i \<longleftrightarrow> rname (files i) = n"
    using find_by_name_used [OF assms(3,2) used] find_by_name_Some by blast
  then show "ramfs_abs (files(i := f)) n = (if rused f then (ramfs_abs files |` (- {rname (files i)}))(rname f \<mapsto> file_content f)
     else ramfs_abs files |` (- {rname (files i)})) n"
    unfolding ramfs_abs_def find_replace [OF assms(1-3)]
    by (cases "find_by_name n files") (auto simp: restrict_map_def dest: find_by_name_Some)
qed

lemma abs_fresh:
  assumes "ramfs_inv (files(i := f))" "i < 16" "ramfs_inv files" "\<not> rused (files i)" "rused f"
  shows "ramfs_abs (files(i := f)) = (ramfs_abs files)(rname f \<mapsto> file_content f)"
proof
  fix n
  have "find_by_name n files \<noteq> Some i" using find_by_name_Some [of n files i] assms(4) by auto
  then show "ramfs_abs (files(i := f)) n = ((ramfs_abs files)(rname f \<mapsto> file_content f)) n"
    using assms(5) unfolding ramfs_abs_def find_replace [OF assms(1-3)]
    by (cases "find_by_name n files") (auto dest: find_by_name_Some)
qed

end
