(* ===== verification/Blkdev.thy ===== *)
theory Blkdev
  imports Prelude
begin

text \<open>
  The block-device binding of \<open>kernel/src/blkdev.c\<close> (\<open>kernel/include/kernel/blkdev.h\<close>): the forwarded
  operations, the probe, and the boot self-test. The drivers talk to hardware and are a parameter: an
  operations record over a device state \<open>'d\<close> of their own, whose fields may be NULL (\<open>None\<close>) as in the
  source. A read answers the bytes it put into the buffer, \<open>None\<close> where the source returns non-zero; a
  write answers whether it returned 0.
\<close>

section \<open>The driver interface\<close>

record 'd blkdev_ops_t =
  op_name :: string
  op_tag :: "string option"
  op_init :: "('d \<Rightarrow> bool \<times> 'd) option"
  op_present :: "('d \<Rightarrow> bool) option"
  op_sector_count :: "('d \<Rightarrow> u32) option"
  op_read :: "(u32 \<Rightarrow> u32 \<Rightarrow> 'd \<Rightarrow> bytes option \<times> 'd) option"
  op_write :: "(u32 \<Rightarrow> bytes \<Rightarrow> u32 \<Rightarrow> 'd \<Rightarrow> bool \<times> 'd) option"

definition blkdev_name :: "'d blkdev_ops_t option \<Rightarrow> string" where
  "blkdev_name bound = (case bound of None \<Rightarrow> ''none'' | Some ops \<Rightarrow> op_name ops)"

definition blkdev_present :: "'d blkdev_ops_t option \<Rightarrow> 'd \<Rightarrow> bool" where
  "blkdev_present bound d = (case bound of None \<Rightarrow> False
     | Some ops \<Rightarrow> (case op_present ops of None \<Rightarrow> False | Some f \<Rightarrow> f d))"

definition blkdev_sector_count :: "'d blkdev_ops_t option \<Rightarrow> 'd \<Rightarrow> u32" where
  "blkdev_sector_count bound d = (case bound of None \<Rightarrow> 0
     | Some ops \<Rightarrow> (case op_sector_count ops of None \<Rightarrow> 0 | Some f \<Rightarrow> f d))"

definition blkdev_read :: "'d blkdev_ops_t option \<Rightarrow> u32 \<Rightarrow> u32 \<Rightarrow> 'd \<Rightarrow> bytes option \<times> 'd" where
  "blkdev_read bound lba count d = (case bound of None \<Rightarrow> (None, d)
     | Some ops \<Rightarrow> (case op_read ops of None \<Rightarrow> (None, d) | Some f \<Rightarrow> f lba count d))"

definition blkdev_write :: "'d blkdev_ops_t option \<Rightarrow> u32 \<Rightarrow> bytes \<Rightarrow> u32 \<Rightarrow> 'd \<Rightarrow> bool \<times> 'd" where
  "blkdev_write bound lba buf count d = (case bound of None \<Rightarrow> (False, d)
     | Some ops \<Rightarrow> (case op_write ops of None \<Rightarrow> (False, d) | Some f \<Rightarrow> f lba buf count d))"

section \<open>Log lines\<close>

text \<open>\<open>blk_log\<close>: \<open>"<tag>: <msg>"\<close> in a 128-byte line.\<close>

definition blk_log :: "'d blkdev_ops_t option \<Rightarrow> string \<Rightarrow> string" where
  "blk_log bound msg =
     (let tag = (case bound of None \<Rightarrow> ''BLK'' | Some ops \<Rightarrow> (case op_tag ops of None \<Rightarrow> ''BLK'' | Some t \<Rightarrow> t));
          line = take 125 tag @ '': ''
      in line @ take (127 - length line) msg)"

lemma length_blk_log: "length (blk_log bound msg) \<le> 127"
  by (simp add: blk_log_def Let_def)

section \<open>The boot self-test\<close>

abbreviation (input) QDSK_MAGIC :: bytes where "QDSK_MAGIC \<equiv> [81, 68, 83, 75, 49]"

text \<open>The outcomes, one per log line.\<close>

datatype selftest = Skipped_read | Foreign_volume | Failed_write | Failed_readback | Failed_verify | Failed_restore | Selftest_ok

definition selftest_pattern :: bytes where
  "selftest_pattern = map (\<lambda>i. 0xA5 XOR of_nat i) [0..<512]"

definition blk_rw_selftest :: "'d blkdev_ops_t option \<Rightarrow> 'd \<Rightarrow> selftest \<times> 'd" where
  "blk_rw_selftest bound d =
     (let lba = blkdev_sector_count bound d - 1 in
      case blkdev_read bound lba 1 d of (None, d) \<Rightarrow> (Skipped_read, d)
      | (Some original, d) \<Rightarrow>
        let last_all_zero = list_all (\<lambda>c. c = 0) (take 512 original) in
        case blkdev_read bound 0 1 d of (sb, d) \<Rightarrow>
        let qdsk_owned = (case sb of None \<Rightarrow> False | Some sb \<Rightarrow> take 5 sb = QDSK_MAGIC) in
        if \<not> last_all_zero \<and> \<not> qdsk_owned then (Foreign_volume, d)
        else case blkdev_write bound lba selftest_pattern 1 d of (False, d) \<Rightarrow> (Failed_write, d)
        | (True, d) \<Rightarrow> (case blkdev_read bound lba 1 d of (None, d) \<Rightarrow> (Failed_readback, d)
          | (Some readback, d) \<Rightarrow>
            if take 512 readback \<noteq> selftest_pattern then (Failed_verify, d)
            else (case blkdev_write bound lba original 1 d of (False, d) \<Rightarrow> (Failed_restore, d)
              | (True, d) \<Rightarrow> (Selftest_ok, d))))"

text \<open>The probe list is bound once: the first driver that initialises, then its self-test.\<close>

fun blkdev_probe :: "'d blkdev_ops_t list \<Rightarrow> 'd \<Rightarrow> 'd blkdev_ops_t option \<times> 'd" where
  "blkdev_probe [] d = (None, d)"
| "blkdev_probe (ops # drivers) d = (case op_init ops of None \<Rightarrow> blkdev_probe drivers d
     | Some init \<Rightarrow> (case init d of (True, d) \<Rightarrow> (Some ops, d) | (False, d) \<Rightarrow> blkdev_probe drivers d))"

definition blkdev_init :: "'d blkdev_ops_t list \<Rightarrow> 'd \<Rightarrow> 'd blkdev_ops_t option \<times> 'd" where
  "blkdev_init drivers d = (case blkdev_probe drivers d of
     (None, d) \<Rightarrow> (None, d)
   | (Some ops, d) \<Rightarrow> (Some ops, snd (blk_rw_selftest (Some ops) d)))"

section \<open>An honest disk\<close>

text \<open>The documented behaviour of a working driver, a hypothesis of the theorems that need one: \<open>img\<close> is
  the content of the medium, an in-range read answers its bytes, an in-range write succeeds and changes
  exactly the named sectors.\<close>

definition disk_serves :: "'d blkdev_ops_t option \<Rightarrow> u32 \<Rightarrow> ('d \<Rightarrow> bytes) \<Rightarrow> bool" where
  "disk_serves bound n img \<longleftrightarrow> (\<forall>d. blkdev_present bound d \<and> blkdev_sector_count bound d = n
     \<and> length (img d) = 512 * unat n
     \<and> (\<forall>lba cnt. unat lba + unat cnt \<le> unat n \<longrightarrow>
          (\<exists>d'. blkdev_read bound lba cnt d = (Some (take (512 * unat cnt) (drop (512 * unat lba) (img d))), d') \<and> img d' = img d))
     \<and> (\<forall>lba cnt buf. unat lba + unat cnt \<le> unat n \<and> 512 * unat cnt \<le> length buf \<longrightarrow>
          (\<exists>d'. blkdev_write bound lba buf cnt d = (True, d') \<and> img d' = poke (img d) (512 * unat lba) (take (512 * unat cnt) buf))))"

lemma serves_present: "disk_serves bound n img \<Longrightarrow> blkdev_present bound d"
  and serves_count: "disk_serves bound n img \<Longrightarrow> blkdev_sector_count bound d = n"
  and serves_length: "disk_serves bound n img \<Longrightarrow> length (img d) = 512 * unat n"
  by (simp_all add: disk_serves_def)

lemma serves_read:
  assumes "disk_serves bound n img" "unat lba + unat cnt \<le> unat n"
  obtains d' where "blkdev_read bound lba cnt d = (Some (take (512 * unat cnt) (drop (512 * unat lba) (img d))), d')" "img d' = img d"
  using assms unfolding disk_serves_def by blast

lemma serves_write:
  assumes "disk_serves bound n img" "unat lba + unat cnt \<le> unat n" "512 * unat cnt \<le> length buf"
  obtains d' where "blkdev_write bound lba buf cnt d = (True, d')"
    "img d' = poke (img d) (512 * unat lba) (take (512 * unat cnt) buf)"
  using assms unfolding disk_serves_def by blast

lemma poke_poke_same:
  "length ys = length xs \<Longrightarrow> off + length xs \<le> length b \<Longrightarrow> poke (poke b off xs) off ys = poke b off ys"
  by (simp add: poke_def)

lemma poke_take_drop: "off + k \<le> length b \<Longrightarrow> poke b off (take k (drop off b)) = b"
  by (simp add: poke_def) (metis append_take_drop_id drop_drop add.commute)

lemma length_pattern [simp]: "length selftest_pattern = 512"
  unfolding selftest_pattern_def by (simp only: length_map length_upt)

text \<open>The write self-test leaves an honest disk as it found it, runs only when the last sector is
  blank or the volume is ours, and then always succeeds.\<close>

theorem selftest_harmless:
  assumes "disk_serves bound n img" "0 < n"
  shows "img (snd (blk_rw_selftest bound d)) = img d
    \<and> fst (blk_rw_selftest bound d) =
        (if list_all (\<lambda>c. c = 0) (drop (512 * (unat n - 1)) (img d)) \<or> take 5 (img d) = QDSK_MAGIC
         then Selftest_ok else Foreign_volume)"
proof -
  let ?l = "n - 1"
  have n: "unat ?l + unat (1 :: u32) \<le> unat n" "unat ?l = unat n - 1" "unat (0 :: u32) + unat (1 :: u32) \<le> unat n"
  proof -
    have "0 < unat n" using assms(2) by (simp add: word_less_nat_alt)
    moreover show e: "unat ?l = unat n - 1" by (subst unat_sub) (use calculation in \<open>simp_all add: word_le_nat_alt\<close>)
    ultimately show "unat ?l + unat (1 :: u32) \<le> unat n" "unat (0 :: u32) + unat (1 :: u32) \<le> unat n" by simp_all
  qed
  have len: "length (img e) = 512 * unat n" for e by (rule serves_length [OF assms(1)])
  let ?o = "drop (512 * (unat n - 1)) (img d)"
  have o: "take 512 ?o = ?o" "length ?o = 512" using len [of d] n by (simp_all add: algebra_simps)
  obtain d1 where d1: "blkdev_read bound ?l 1 d = (Some ?o, d1)" "img d1 = img d"
    using serves_read [OF assms(1) n(1), of d] n(2) o by auto
  obtain d2 where d2: "blkdev_read bound 0 1 d1 = (Some (take 512 (img d)), d2)" "img d2 = img d"
    using serves_read [OF assms(1) n(3), of d1] d1(2) by auto
  show ?thesis
  proof (cases "list_all (\<lambda>c. c = 0) ?o \<or> take 5 (img d) = QDSK_MAGIC")
    case False
    then show ?thesis using d1 d2 o by (simp add: blk_rw_selftest_def serves_count [OF assms(1)])
  next
    case True
    have p1: "512 * unat (1 :: u32) \<le> length selftest_pattern" "512 * unat (1 :: u32) \<le> length ?o" using o by simp_all
    obtain d3 where d3: "blkdev_write bound ?l selftest_pattern 1 d2 = (True, d3)"
        "img d3 = poke (img d) (512 * (unat n - 1)) selftest_pattern"
      using serves_write [OF assms(1) n(1) p1(1), of d2] n(2) d2(2) by auto
    have off: "512 * (unat n - 1) + 512 \<le> length (img d)" using len n by simp
    obtain d4 where d4: "blkdev_read bound ?l 1 d3 = (Some selftest_pattern, d4)" "img d4 = img d3"
      using serves_read [OF assms(1) n(1), of d3] n(2) d3(2) off take_drop_poke_same [of "512 * (unat n - 1)" selftest_pattern "img d"]
      by auto
    obtain d5 where d5: "blkdev_write bound ?l ?o 1 d4 = (True, d5)" "img d5 = poke (img d4) (512 * (unat n - 1)) ?o"
      using serves_write [OF assms(1) n(1) p1(2), of d4] n(2) o by auto
    have "img d5 = img d" unfolding d5(2) d4(2) d3(2) using poke_poke_same [of ?o selftest_pattern] off o
      poke_take_drop [OF off] by simp
    then show ?thesis using True d1 d2 d3 d4 d5 o
      by (elim disjE) (simp_all add: blk_rw_selftest_def serves_count [OF assms(1)] Let_def)
  qed
qed

section \<open>A RAM disk\<close>

text \<open>The concrete driver of the witnesses: the state is the medium itself, read as \<open>n\<close> sectors.\<close>

definition ram_medium :: "u32 \<Rightarrow> bytes \<Rightarrow> bytes" where
  "ram_medium n d = take (512 * unat n) (d @ replicate (512 * unat n) 0)"

definition ram_disk :: "u32 \<Rightarrow> bytes blkdev_ops_t" where
  "ram_disk n = \<lparr>op_name = ''ram'', op_tag = None, op_init = None, op_present = Some (\<lambda>d. True),
     op_sector_count = Some (\<lambda>d. n),
     op_read = Some (\<lambda>lba cnt d. (if unat lba + unat cnt \<le> unat n
       then Some (take (512 * unat cnt) (drop (512 * unat lba) (ram_medium n d))) else None, d)),
     op_write = Some (\<lambda>lba buf cnt d. if unat lba + unat cnt \<le> unat n \<and> 512 * unat cnt \<le> length buf
       then (True, poke (ram_medium n d) (512 * unat lba) (take (512 * unat cnt) buf)) else (False, d))\<rparr>"

lemma length_ram_medium [simp]: "length (ram_medium n d) = 512 * unat n"
  by (simp add: ram_medium_def)

lemma ram_medium_full: "length d = 512 * unat n \<Longrightarrow> ram_medium n d = d"
  by (simp add: ram_medium_def)

lemma ram_disk_serves: "disk_serves (Some (ram_disk n)) n (ram_medium n)"
proof -
  have "ram_medium n (poke (ram_medium n d) (512 * unat lba) (take (512 * unat cnt) buf))
      = poke (ram_medium n d) (512 * unat lba) (take (512 * unat cnt) buf)"
    if "unat lba + unat cnt \<le> unat n" for d :: bytes and lba cnt :: u32 and buf
    using that by (intro ram_medium_full) (simp add: min_def)
  then show ?thesis
    by (simp add: disk_serves_def blkdev_present_def blkdev_sector_count_def blkdev_read_def blkdev_write_def ram_disk_def)
qed

theorem selftest_harmless_witness:
  "fst (blk_rw_selftest (Some (ram_disk 4)) (replicate 2048 0)) = Selftest_ok"
proof -
  have "(0 :: u32) < 4" by simp
  from selftest_harmless [OF ram_disk_serves this, of "replicate 2048 0"]
  show ?thesis by (simp add: ram_medium_full list_all_iff)
qed

end
