(* ===== verification/Persist.thy ===== *)
theory Persist
  imports Ramfs Blkdev Field Audit_Log
begin

text \<open>
  The durable half of \<open>kernel/src/ramfs.c\<close>: \<open>persist_sync\<close> writes the overlay as a ustar archive behind
  the superblock, the field blob and the audit ledger at their fixed homes below the disk top, and the
  superblock last; \<open>persist_restore\<close> reads the three sections back, each on its own. The driver and its
  state are parameters (\<open>Blkdev\<close>), as are the allocator's answers: \<open>heap\<close> for the archive buffer, \<open>mem\<close>
  for a file buffer. Sector numbers and byte counts are 32-bit words; the log lines are not modelled.
\<close>

section \<open>Layout\<close>

abbreviation (input) QDSK_TARBYTES_OFF :: nat where "QDSK_TARBYTES_OFF \<equiv> 8"
abbreviation (input) QDSK_FILECOUNT_OFF :: nat where "QDSK_FILECOUNT_OFF \<equiv> 12"
abbreviation (input) QDSK_CHECKSUM_OFF :: nat where "QDSK_CHECKSUM_OFF \<equiv> 16"
abbreviation (input) QDSK_FIELD_LBA_OFF :: nat where "QDSK_FIELD_LBA_OFF \<equiv> 32"
abbreviation (input) QDSK_FIELD_BYTES_OFF :: nat where "QDSK_FIELD_BYTES_OFF \<equiv> 36"
abbreviation (input) QDSK_FIELD_CSUM_OFF :: nat where "QDSK_FIELD_CSUM_OFF \<equiv> 40"
abbreviation (input) QDSK_AUDIT_LBA_OFF :: nat where "QDSK_AUDIT_LBA_OFF \<equiv> 44"
abbreviation (input) QDSK_AUDIT_BYTES_OFF :: nat where "QDSK_AUDIT_BYTES_OFF \<equiv> 48"
abbreviation (input) QDSK_AUDIT_CSUM_OFF :: nat where "QDSK_AUDIT_CSUM_OFF \<equiv> 52"
abbreviation (input) AUDIT_HOME_TOP_OFFSET :: u32 where "AUDIT_HOME_TOP_OFFSET \<equiv> 27"
abbreviation (input) FIELD_HOME_RESERVE_SECTORS :: u32 where "FIELD_HOME_RESERVE_SECTORS \<equiv> 16"
abbreviation (input) FIELD_BLOB_SECTORS :: u32 where "FIELD_BLOB_SECTORS \<equiv> 10"

definition audit_home_lba :: "u32 \<Rightarrow> u32" where
  "audit_home_lba sectors = sectors - AUDIT_HOME_TOP_OFFSET"

definition field_home_lba :: "u32 \<Rightarrow> u32" where
  "field_home_lba sectors = audit_home_lba sectors - FIELD_HOME_RESERVE_SECTORS"

definition audit_disk_fits :: "u32 \<Rightarrow> bool" where
  "audit_disk_fits sectors \<longleftrightarrow> sectors \<ge> AUDIT_HOME_TOP_OFFSET + FIELD_HOME_RESERVE_SECTORS + 2"

definition archive_checksum :: "bytes \<Rightarrow> u32" where
  "archive_checksum buf = foldl (\<lambda>sum b. (push_bit 1 sum OR drop_bit 31 sum) XOR ucast b) 0x517E7A11 buf"

section \<open>Sync\<close>

text \<open>The live files in slot order, and the sizes the first pass adds up: archive bytes and file count.\<close>

definition live_files :: "ramfs \<Rightarrow> (bytes \<times> bytes) list" where
  "live_files files = concat (map (\<lambda>i. case ramfs_get (int i) files of None \<Rightarrow> []
     | Some (nm, d, sz) \<Rightarrow> [(nm, take (unat sz) (case d of None \<Rightarrow> [] | Some b \<Rightarrow> b))]) [0..<RAMFS_MAX_FILES])"

definition archive_size :: "ramfs \<Rightarrow> u32 \<times> u32" where
  "archive_size files = fold (\<lambda>i (tar_bytes, nfiles). case ramfs_get (int i) files of None \<Rightarrow> (tar_bytes, nfiles)
     | Some (nm, d, sz) \<Rightarrow> (tar_bytes + (512 + align_block sz), nfiles + 1)) [0..<RAMFS_MAX_FILES] (2 * 512, 0)"

text \<open>The guard: a volume may be written when it carries the magic or its sector 0 is blank.\<close>

definition volume_writable :: "bytes \<Rightarrow> bool" where
  "volume_writable sb0 \<longleftrightarrow> take 5 sb0 = QDSK_MAGIC \<or> list_all (\<lambda>c. c = 0) (take 512 sb0)"

text \<open>A section descriptor: location, byte count, checksum.\<close>

type_synonym section_desc = "u32 \<times> u32 \<times> u32"

definition superblock :: "u32 \<Rightarrow> u32 \<Rightarrow> u32 \<Rightarrow> section_desc \<Rightarrow> section_desc \<Rightarrow> bytes" where
  "superblock tar_bytes nfiles csum fd ad =
     (case fd of (field_lba, field_bytes, field_csum) \<Rightarrow> case ad of (audit_lba, audit_bytes, audit_csum) \<Rightarrow>
      let sb = poke (replicate 512 0) 0 QDSK_MAGIC;
          sb = poke sb QDSK_TARBYTES_OFF (le32 tar_bytes);
          sb = poke sb QDSK_FILECOUNT_OFF (le32 nfiles);
          sb = poke sb QDSK_CHECKSUM_OFF (le32 csum);
          sb = poke sb QDSK_FIELD_LBA_OFF (le32 field_lba);
          sb = poke sb QDSK_FIELD_BYTES_OFF (le32 field_bytes);
          sb = poke sb QDSK_FIELD_CSUM_OFF (le32 field_csum);
          sb = poke sb QDSK_AUDIT_LBA_OFF (le32 audit_lba);
          sb = poke sb QDSK_AUDIT_BYTES_OFF (le32 audit_bytes)
      in poke sb QDSK_AUDIT_CSUM_OFF (le32 audit_csum))"

text \<open>The field section: a failed write aborts the sync, a disk too small leaves the descriptor zero.\<close>

definition sync_field :: "'d blkdev_ops_t option \<Rightarrow> field_state \<Rightarrow> 'd \<Rightarrow> section_desc option \<times> 'd" where
  "sync_field bound fs d =
     (let blob = fst (field_blob_write fs); field_csum = archive_checksum (take FIELD_BLOB_BYTES blob);
          n = blkdev_sector_count bound d in
      if audit_disk_fits n then
        (case blkdev_write bound (field_home_lba n) blob FIELD_BLOB_SECTORS d of
           (False, d) \<Rightarrow> (None, d)
         | (True, d) \<Rightarrow> (Some (field_home_lba (blkdev_sector_count bound d), of_nat FIELD_BLOB_BYTES, field_csum), d))
      else (Some (0, 0, 0), d))"

text \<open>The audit section is best effort. \<open>abuf\<close>: what the static bounce buffer holds from its last use.\<close>

definition sync_audit :: "'d blkdev_ops_t option \<Rightarrow> bytes \<Rightarrow> audit_state \<Rightarrow> 'd \<Rightarrow> section_desc \<times> 'd" where
  "sync_audit bound abuf ledger d =
     (let n = blkdev_sector_count bound d in
      case (if audit_disk_fits n then audit_serialize (Some abuf) AUDIT_BLOB_BUFSZ ledger else (None, 0)) of
        (Some blob, len) \<Rightarrow>
          if len = AUDIT_BLOB_BYTES then
            (case blkdev_write bound (audit_home_lba n) blob (of_nat AUDIT_BLOB_SECTORS) d of
               (True, d) \<Rightarrow> ((audit_home_lba (blkdev_sector_count bound d), of_nat AUDIT_BLOB_BYTES,
                              archive_checksum (take AUDIT_BLOB_BYTES blob)), d)
             | (False, d) \<Rightarrow> ((0, 0, 0), d))
          else ((0, 0, 0), d)
      | (None, _) \<Rightarrow> ((0, 0, 0), d))"

text \<open>\<open>None\<close> is the return value -1.\<close>

definition persist_sync ::
    "'d blkdev_ops_t option \<Rightarrow> (u32 \<Rightarrow> bool) \<Rightarrow> ramfs \<Rightarrow> field_state \<Rightarrow> bytes \<Rightarrow> audit_state \<Rightarrow> 'd \<Rightarrow> u32 option \<times> 'd" where
  "persist_sync bound heap files fs abuf ledger d =
     (if \<not> blkdev_present bound d then (None, d)
      else case blkdev_read bound 0 1 d of (None, d) \<Rightarrow> (None, d)
      | (Some sb0, d) \<Rightarrow>
        if \<not> volume_writable sb0 then (None, d)
        else let (tar_bytes, nfiles) = archive_size files; tar_sectors = tar_bytes div 512;
                 n = blkdev_sector_count bound d;
                 tar_floor = (if audit_disk_fits n then field_home_lba n else n - 1) in
          if 1 + tar_sectors > tar_floor then (None, d)
          else if \<not> heap tar_bytes then (None, d)
          else let buf = tar_archive (live_files files); csum = archive_checksum buf in
            (case blkdev_write bound 1 buf tar_sectors d of (False, d) \<Rightarrow> (None, d)
             | (True, d) \<Rightarrow> (case sync_field bound fs d of (None, d) \<Rightarrow> (None, d)
               | (Some fd, d) \<Rightarrow> (case sync_audit bound abuf ledger d of (ad, d) \<Rightarrow>
                   (case blkdev_write bound 0 (superblock tar_bytes nfiles csum fd ad) 1 d of
                      (False, d) \<Rightarrow> (None, d)
                    | (True, d) \<Rightarrow> (Some nfiles, d))))))"

section \<open>Restore\<close>

definition restore_cb :: "(ramfs \<Rightarrow> bytes option) \<Rightarrow> (u32 \<times> ramfs) tar_visit" where
  "restore_cb mem name data ctx = (case ramfs_create (mem (snd ctx)) (Some name) (snd ctx) of
     (None, files) \<Rightarrow> (False, (fst ctx, files))
   | (Some idx, files) \<Rightarrow>
       (False, (fst ctx + 1, snd (ramfs_append (int idx) (Some data) (of_nat (length data)) files))))"

definition restore_fs_section ::
    "'d blkdev_ops_t option \<Rightarrow> (u32 \<Rightarrow> bool) \<Rightarrow> (ramfs \<Rightarrow> bytes option) \<Rightarrow> bytes \<Rightarrow> ramfs \<Rightarrow> 'd \<Rightarrow> ramfs \<times> 'd" where
  "restore_fs_section bound heap mem sb files d =
     (let tar_bytes = get32 sb QDSK_TARBYTES_OFF; want_csum = get32 sb QDSK_CHECKSUM_OFF;
          worst = 16 * (512 + 65536) + 2 * 512 in
      if tar_bytes < 2 * 512 \<or> tar_bytes mod 512 \<noteq> 0 \<or> tar_bytes > worst
         \<or> tar_bytes div 512 > blkdev_sector_count bound d - 1 then (files, d)
      else if \<not> heap tar_bytes then (files, d)
      else case blkdev_read bound 1 (tar_bytes div 512) d of (None, d) \<Rightarrow> (files, d)
      | (Some buf, d) \<Rightarrow>
        if archive_checksum (take (unat tar_bytes) buf) \<noteq> want_csum then (files, d)
        else (snd (tar_walk_mem (restore_cb mem) (take (unat tar_bytes) buf) (0, files)), d))"

definition restore_field_section ::
    "'d blkdev_ops_t option \<Rightarrow> bytes \<Rightarrow> field_state \<Rightarrow> 'd \<Rightarrow> field_state \<times> 'd" where
  "restore_field_section bound sb fs d =
     (let field_lba = get32 sb QDSK_FIELD_LBA_OFF; field_bytes = get32 sb QDSK_FIELD_BYTES_OFF;
          want_csum = get32 sb QDSK_FIELD_CSUM_OFF in
      if field_lba = 0 then (fs, d)
      else if field_lba \<noteq> field_home_lba (blkdev_sector_count bound d) \<or> field_bytes \<noteq> of_nat FIELD_BLOB_BYTES then (fs, d)
      else case blkdev_read bound field_lba FIELD_BLOB_SECTORS d of (None, d) \<Rightarrow> (fs, d)
      | (Some blob, d) \<Rightarrow>
        if archive_checksum (take FIELD_BLOB_BYTES blob) \<noteq> want_csum then (fs, d)
        else (snd (field_blob_load blob FIELD_BLOB_BYTES fs), d))"

definition restore_audit_section ::
    "'d blkdev_ops_t option \<Rightarrow> bytes \<Rightarrow> audit_state \<Rightarrow> 'd \<Rightarrow> audit_state \<times> 'd" where
  "restore_audit_section bound sb ledger d =
     (let audit_lba = get32 sb QDSK_AUDIT_LBA_OFF; audit_bytes = get32 sb QDSK_AUDIT_BYTES_OFF;
          want_csum = get32 sb QDSK_AUDIT_CSUM_OFF; n = blkdev_sector_count bound d in
      if audit_lba = 0 then (ledger, d)
      else if \<not> audit_disk_fits n \<or> audit_lba \<noteq> audit_home_lba n \<or> audit_bytes \<noteq> of_nat AUDIT_BLOB_BYTES then (ledger, d)
      else case blkdev_read bound audit_lba (of_nat AUDIT_BLOB_SECTORS) d of (None, d) \<Rightarrow> (ledger, d)
      | (Some blob, d) \<Rightarrow>
        if archive_checksum (take AUDIT_BLOB_BYTES blob) \<noteq> want_csum then (ledger, d)
        else (snd (audit_load (Some blob) AUDIT_BLOB_BYTES ledger), d))"

record durable =
  du_files :: ramfs
  du_field :: field_state
  du_ledger :: audit_state

definition persist_restore ::
    "'d blkdev_ops_t option \<Rightarrow> (u32 \<Rightarrow> bool) \<Rightarrow> (ramfs \<Rightarrow> bytes option) \<Rightarrow> durable \<Rightarrow> 'd \<Rightarrow> durable \<times> 'd" where
  "persist_restore bound heap mem du d =
     (if \<not> blkdev_present bound d then (du, d)
      else case blkdev_read bound 0 1 d of (None, d) \<Rightarrow> (du, d)
      | (Some sb, d) \<Rightarrow>
        if take 5 sb \<noteq> QDSK_MAGIC then (du, d)
        else case restore_fs_section bound heap mem sb (du_files du) d of (files, d) \<Rightarrow>
             case restore_field_section bound sb (du_field du) d of (fs, d) \<Rightarrow>
             case restore_audit_section bound sb (du_ledger du) d of (ledger, d) \<Rightarrow>
               (\<lparr>du_files = files, du_field = fs, du_ledger = ledger\<rparr>, d))"

end
