(* ===== verification/Tar_Props.thy ===== *)
theory Tar_Props
  imports Tar
begin

text \<open>
  What the ustar code guarantees: the written header is one the reader accepts and reads back, an
  archive of written members is walked member by member, and a hostile archive can make the walk
  visit nothing but slices of itself under short normalized names.
\<close>

section \<open>Octal round trip\<close>

lemma length_oct_field [simp]: "length (oct_field n v) = n"
  by (induction n v rule: oct_field.induct) auto

lemma oct_digit: "48 \<le> (48 :: u8) + ucast (v AND 7 :: u32) \<and> (48 :: u8) + ucast (v AND 7 :: u32) \<le> 55
    \<and> ucast ((48 :: u8) + ucast (v AND 7 :: u32) - 48) = v AND 7"
proof -
  have lt: "unat (v AND 7) < 8"
    using word_and_le1 [of v 7] by (simp add: word_le_nat_alt)
  then have u: "unat (ucast (v AND 7) :: u8) = unat (v AND 7)"
    by (simp add: unsigned_ucast_eq take_bit_nat_eq_self)
  have p: "unat ((48 :: u8) + ucast (v AND 7)) = 48 + unat (v AND 7)"
    using u lt by (simp add: unat_word_ariths)
  have "ucast (ucast (v AND 7) :: u8) = v AND 7"
    using u lt by (intro word_unat_eq_iff [THEN iffD2]) simp
  then show ?thesis using p lt by (simp add: word_le_nat_alt)
qed

lemma oct_join: "push_bit 3 (push_bit (3 * n) a OR take_bit (3 * n) (drop_bit 3 v)) OR (v AND 7)
    = push_bit (3 * Suc n) a OR take_bit (3 * Suc n) (v :: u32)"
proof (rule bit_word_eqI)
  fix i
  assume "i < LENGTH(32)"
  have seven: "bit (7 :: u32) i \<longleftrightarrow> i < 3"
    using bit_mask_iff [of 3 i, where 'a = u32] \<open>i < LENGTH(32)\<close> by (simp add: mask_eq_exp_minus_1)
  show "bit (push_bit 3 (push_bit (3 * n) a OR take_bit (3 * n) (drop_bit 3 v)) OR (v AND 7)) i
      = bit (push_bit (3 * Suc n) a OR take_bit (3 * Suc n) v) i"
    using \<open>i < LENGTH(32)\<close> seven by (auto simp: bit_simps less_diff_conv2 le_diff_conv2)
qed

lemma octal_digits_field:
  "octal_digits a (oct_field n v @ rest) = octal_digits (push_bit (3 * n) a OR take_bit (3 * n) v) rest"
proof (induction n v arbitrary: a rest rule: oct_field.induct)
  case (1 v)
  then show ?case by simp
next
  case (2 n v)
  have "octal_digits a (oct_field (Suc n) v @ rest)
      = octal_digits (push_bit (3 * n) a OR take_bit (3 * n) (drop_bit 3 v)) ((48 + ucast (v AND 7)) # rest)"
    using 2 by simp
  also have "\<dots> = octal_digits (push_bit (3 * Suc n) a OR take_bit (3 * Suc n) v) rest"
    using oct_digit [of v] oct_join [of n a v] by simp
  finally show ?case .
qed

lemma tar_octal_round_trip: "tar_octal (tar_put_octal v @ rest) 12 = v"
proof -
  have "tar_octal (tar_put_octal v @ rest) 12 = octal_digits 0 (oct_field 11 v @ [0])"
    by (simp add: tar_octal_def tar_put_octal_def)
  also have "\<dots> = take_bit 33 v" by (subst octal_digits_field) simp
  finally show ?thesis by (simp add: take_bit_word_eq_self)
qed

section \<open>The header round trip\<close>

lemma length_tar_put_octal [simp]: "length (tar_put_octal v) = 12"
  by (simp add: tar_put_octal_def)

lemma length_body [simp]: "length (tar_header_body name sz) = 512"
  by (simp add: tar_header_body_def Let_def)

lemma length_tar_header [simp]: "length (tar_put_header name sz) = 512"
  by (simp add: tar_put_header_def Let_def)

text \<open>The header before its checksum digits, position by position.\<close>

lemma body_nth:
  assumes "i < 512"
  shows "tar_header_body name sz ! i =
    (if 148 \<le> i \<and> i < 156 then 32
     else if i = 264 \<or> i = 263 then 48 else if i = 262 then 0
     else if 257 \<le> i \<and> i < 262 then [117, 115, 116, 97, 114] ! (i - 257)
     else if i = 156 then 48
     else if 136 \<le> i \<and> i < 148 then tar_put_octal 0 ! (i - 136)
     else if 124 \<le> i \<and> i < 136 then tar_put_octal sz ! (i - 124)
     else if 116 \<le> i \<and> i < 123 \<or> 108 \<le> i \<and> i < 115 then 48
     else if 100 \<le> i \<and> i < 107 then [48, 48, 48, 48, 54, 52, 52] ! (i - 100)
     else if i < length (take 100 name) then name ! i else 0)"
proof -
  have r: "[48, 48, 48, 48, 48, 48, 48 :: u8] = replicate 7 48" by (simp add: numeral_eq_Suc)
  show ?thesis
    using assms unfolding tar_header_body_def Let_def r by (auto simp: nth_poke nth_list_update)
qed

lemma header_nth: "i < 512 \<Longrightarrow> tar_put_header name sz ! i =
    (if i = 155 then 32 else if i = 154 then 0
     else if 148 \<le> i \<and> i < 154 then oct_field 6 (byte_sum (tar_header_body name sz)) ! (i - 148)
     else tar_header_body name sz ! i)"
  by (auto simp: tar_put_header_def Let_def nth_poke nth_list_update)

lemma header_name:
  assumes "length name \<le> 100" and "0 \<notin> set name"
  shows "c_string (take 100 (tar_put_header name sz)) = name"
proof -
  have "take 100 (tar_put_header name sz) = name @ replicate (100 - length name) 0"
    using assms(1) by (intro nth_equalityI) (simp_all add: header_nth body_nth nth_append)
  moreover have "takeWhile (\<lambda>c. c \<noteq> 0) name = name" using assms(2) by (intro takeWhile_eq_all_conv [THEN iffD2]) auto
  ultimately show ?thesis
    using assms(2) by (simp add: c_string_def takeWhile_append takeWhile_replicate)
qed

lemma header_size: "tar_octal (drop 124 (tar_put_header name sz)) 12 = sz"
proof -
  have "take 12 (drop 124 (tar_put_header name sz)) = tar_put_octal sz"
    by (intro nth_equalityI) (simp_all add: header_nth body_nth)
  then have "drop 124 (tar_put_header name sz) = tar_put_octal sz @ drop 12 (drop 124 (tar_put_header name sz))"
    by (metis append_take_drop_id)
  then show ?thesis using tar_octal_round_trip by metis
qed

lemma sum_ucast_bound: "length bs \<le> 512 \<Longrightarrow> unat (sum_list (map ucast bs :: u32 list)) \<le> 255 * length (bs :: bytes)"
proof (induction bs)
  case Nil
  then show ?case by simp
next
  case (Cons b bs)
  have b: "unat (ucast b :: u32) \<le> 255" using unat_u8_less [of b] by simp
  have s: "unat (sum_list (map ucast bs :: u32 list)) \<le> 255 * length bs" using Cons by simp
  have "unat (ucast b + sum_list (map ucast bs) :: u32) \<le> unat (ucast b :: u32) + unat (sum_list (map ucast bs) :: u32)"
    by (simp add: unat_word_ariths)
  then show ?case using b s by simp
qed

lemma map_by_nth: "length b = n \<Longrightarrow> map (\<lambda>i. f (b ! i)) [0..<n] = map f b"
  by (rule nth_equalityI) auto

lemma header_sum_body: "header_sum (tar_put_header name sz) = byte_sum (tar_header_body name sz)"
proof -
  have e: "(if i \<ge> 148 \<and> i < 156 then 32 else ucast (tar_put_header name sz ! i)) = (ucast (tar_header_body name sz ! i) :: u32)"
    if "i \<in> set [0..<512]" for i
  proof (cases "148 \<le> i \<and> i < 156")
    case True
    then show ?thesis by (simp add: body_nth)
  next
    case False
    have "i < 512" using that by (simp only: set_upt atLeastLessThan_iff)
    then show ?thesis using False by (auto simp: header_nth)
  qed
  have "header_sum (tar_put_header name sz) = sum_list (map (\<lambda>i. ucast (tar_header_body name sz ! i)) [0..<512])"
    unfolding header_sum_def by (rule arg_cong [where f = sum_list], rule map_cong [OF refl e])
  also have "\<dots> = byte_sum (tar_header_body name sz)"
    unfolding byte_sum_def by (rule arg_cong [where f = sum_list], rule map_by_nth [OF length_body])
  finally show ?thesis .
qed

lemma header_checksum: "header_sum (tar_put_header name sz) = tar_octal (drop 148 (tar_put_header name sz)) 8"
proof -
  let ?s = "byte_sum (tar_header_body name sz)"
  have e: "take 8 (drop 148 (tar_put_header name sz)) = oct_field 6 ?s @ [0, 32]"
    by (intro nth_equalityI) (auto simp: header_nth nth_append nth_Cons split: nat.split)
  have "unat ?s \<le> 130560" using sum_ucast_bound [of "tar_header_body name sz"] by (simp add: byte_sum_def)
  then have "take_bit 18 ?s = ?s"
    by (intro word_unat_eq_iff [THEN iffD2]) (simp add: take_bit_eq_mod unat_mod)
  then have "tar_octal (drop 148 (tar_put_header name sz)) 8 = ?s"
    by (simp add: tar_octal_def e octal_digits_field)
  then show ?thesis by (simp add: header_sum_body)
qed

section \<open>Walking a written archive\<close>

lemma align_block_div: "align_block v = (v + 511) div 512 * 512"
proof -
  have e: "(512 - 1 :: u32) = 511" "v + 512 - 1 = v + 511" by simp_all
  have "align_block v = push_bit 9 (drop_bit 9 (v + 511))"
    unfolding align_block_def e
  proof (rule bit_word_eqI)
    fix i
    assume i: "i < LENGTH(32)"
    have "bit (511 :: u32) i \<longleftrightarrow> i < 9"
      using bit_mask_iff [of 9 i, where 'a = u32] i by (simp add: mask_eq_exp_minus_1)
    then have "bit (NOT 511 :: u32) i \<longleftrightarrow> \<not> i < 9" using i by (simp only: bit_not_iff_eq bit_simps) simp
    then show "bit ((v + 511) AND NOT 511) i = bit (push_bit 9 (drop_bit 9 (v + 511))) i"
      using i by (simp only: bit_and_iff) (auto simp: bit_simps)
  qed
  then show ?thesis by (simp add: push_bit_eq_mult drop_bit_eq_div mult.commute)
qed

text \<open>The names and sizes the archive format can carry.\<close>

definition member_ok :: "bytes \<Rightarrow> bytes \<Rightarrow> bool" where
  "member_ok name d \<longleftrightarrow> name \<noteq> [] \<and> length name \<le> 100 \<and> 0 \<notin> set name \<and> length d + 512 \<le> 4294967296"

lemma unat_size_511: "n + 512 \<le> 4294967296 \<Longrightarrow> unat (of_nat n + 511 :: u32) = n + 511"
  by (simp add: unat_word_ariths unat_of_nat)

lemma blocks_of: "n + 512 \<le> 4294967296 \<Longrightarrow> unat ((of_nat n + 512 - 1 :: u32) div 512) = (n + 511) div 512"
proof -
  assume n: "n + 512 \<le> 4294967296"
  have "(of_nat n + 512 - 1 :: u32) = of_nat n + 511" by simp
  then show ?thesis using unat_size_511 [OF n] by (simp only: unat_div) simp
qed

lemma length_member:
  assumes "length d + 512 \<le> 4294967296"
  shows "length (tar_member name d) = 512 + (length d + 511) div 512 * 512"
proof -
  define w where "w = (of_nat (length d) + 511 :: u32)"
  have w: "unat w = length d + 511" using unat_size_511 [OF assms] by (simp add: w_def)
  have m: "(length d + 511) div 512 * 512 \<le> length d + 511" by simp
  have "unat (w div 512 * 512) = unat w div 512 * 512"
    using m w assms by (simp add: unat_word_ariths unat_div)
  then have "unat (align_block (of_nat (length d))) = (length d + 511) div 512 * 512"
    unfolding align_block_div w_def [symmetric] w .
  moreover have "length d \<le> (length d + 511) div 512 * 512" by linarith
  ultimately show ?thesis by (simp add: tar_member_def)
qed

text \<open>What the walk does with a list of members: each is visited in turn until the visitor stops.\<close>

fun visit_all :: "'c tar_visit \<Rightarrow> (bytes \<times> bytes) list \<Rightarrow> 'c \<Rightarrow> 'c" where
  "visit_all cb [] ctx = ctx"
| "visit_all cb ((n, d) # fs) ctx = (case cb n d ctx of (True, c) \<Rightarrow> c | (False, c) \<Rightarrow> visit_all cb fs c)"

lemma walk_step:
  assumes "off + 512 \<le> length b" "p = take 512 (drop off b)" "p ! 0 \<noteq> 0" "p ! 257 = 117"
    "header_sum p = tar_octal (drop 148 p) 8" "nm = c_string (take 100 p)" "sz = tar_octal (drop 124 p) 12"
    "unat sz \<le> length b - (off + 512)" "p ! 156 = 48"
  shows "tar_walk_from cb b off ctx = (case cb (normalize nm) (take (unat sz) (drop (off + 512) b)) ctx of
     (True, c) \<Rightarrow> c | (False, c) \<Rightarrow> tar_walk_from cb b (off + 512 + unat ((sz + 512 - 1) div 512) * 512) c)"
proof -
  have "\<not> unat sz > length b - (off + 512)" using assms(8) by simp
  then show ?thesis
    using assms(1,3,4,5,9) unfolding assms(6,7) by (subst tar_walk_from.simps) (simp only: assms(2) [symmetric] Let_def if_True if_False simp_thms)
qed

lemma walk_member:
  assumes ok: "member_ok n d"
  shows "tar_walk_from cb (pre @ tar_member n d @ rest) (length pre) ctx = (case cb (normalize n) d ctx of
     (True, c) \<Rightarrow> c | (False, c) \<Rightarrow> tar_walk_from cb (pre @ tar_member n d @ rest) (length pre + length (tar_member n d)) c)"
proof -
  let ?b = "pre @ tar_member n d @ rest" and ?h = "tar_put_header n (of_nat (length d))"
  have s: "length d + 512 \<le> 4294967296" and n: "length n \<le> 100" "0 \<notin> set n" "n \<noteq> []" using ok by (simp_all add: member_ok_def)
  have u: "unat (of_nat (length d) :: u32) = length d" using s by (simp add: unat_of_nat)
  have h: "?h = take 512 (drop (length pre) ?b)" by (simp add: tar_member_def)
  have "?h ! 0 = n ! 0" using n by (simp add: header_nth body_nth)
  then have h0: "?h ! 0 \<noteq> 0" using n by (metis length_greater_0_conv nth_mem)
  have hx: "?h ! 257 = 117" "?h ! 156 = 48" by (simp_all add: header_nth body_nth)
  have data: "take (length d) (drop (length pre + 512) ?b) = d" by (simp add: tar_member_def)
  have big: "length pre + 512 \<le> length ?b" "unat (of_nat (length d) :: u32) \<le> length ?b - (length pre + 512)"
    unfolding u by (simp_all add: tar_member_def)
  have next_off: "length pre + 512 + unat ((of_nat (length d) + 512 - 1 :: u32) div 512) * 512 = length pre + length (tar_member n d)"
    unfolding blocks_of [OF s] length_member [OF s] by simp
  show ?thesis
    using walk_step [OF big(1) h h0 hx(1) header_checksum header_name [OF n(1,2), symmetric] header_size [symmetric] big(2) hx(2)]
    unfolding u data next_off .
qed

lemma walk_end: "tar_walk_from cb (pre @ replicate 1024 0) (length pre) ctx = ctx"
  by (subst tar_walk_from.simps) simp

lemma walk_members:
  "\<forall>(n, d)\<in>set fs. member_ok n d \<Longrightarrow>
   tar_walk_from cb (pre @ concat (map (\<lambda>(n, d). tar_member n d) fs) @ replicate 1024 0) (length pre) ctx
     = visit_all cb (map (apfst normalize) fs) ctx"
proof (induction fs arbitrary: pre ctx)
  case Nil
  then show ?case by (simp add: walk_end)
next
  case (Cons f fs)
  obtain n d where f: "f = (n, d)" by (cases f)
  let ?r = "concat (map (\<lambda>(n, d). tar_member n d) fs) @ replicate 1024 0"
  have ok: "member_ok n d" using Cons.prems f by simp
  have "tar_walk_from cb ((pre @ tar_member n d) @ ?r) (length (pre @ tar_member n d)) c
      = visit_all cb (map (apfst normalize) fs) c" for c
    by (rule Cons.IH) (use Cons.prems in auto)
  then show ?case using walk_member [OF ok, of cb pre ?r ctx] f by (simp split: prod.split bool.split)
qed

text \<open>C13. The archive round trip: walking the archive the disk sync composes visits exactly its members,
  in order, each under its normalized name with its exact contents, until the visitor stops. Every
  header passes the reader's checks (magic, checksum, size), whatever the contents.\<close>

theorem tar_archive_walk:
  assumes "\<forall>(n, d)\<in>set fs. member_ok n d"
  shows "tar_walk_mem cb (tar_archive fs) ctx = visit_all cb (map (apfst normalize) fs) ctx"
  using walk_members [OF assms, of cb "[]" ctx] by (simp add: tar_walk_mem_def tar_archive_def)

theorem tar_archive_walk_witness:
  "initrd_lookup (tar_archive [([46, 47, 97], [1, 2, 3]), ([98], [])]) (Some [47, 98]) = Some []
   \<and> initrd_lookup (tar_archive [([46, 47, 97], [1, 2, 3]), ([98], [])]) (Some [97]) = Some [1, 2, 3]"
proof -
  have ok: "\<forall>(n, d)\<in>set [([46, 47, 97], [1, 2, 3]), ([98], [])]. member_ok n d" by (simp add: member_ok_def)
  show ?thesis
    unfolding initrd_lookup_def option.case tar_archive_walk [OF ok] by (simp add: lookup_cb_def normalize_def)
qed

section \<open>Hostile archives\<close>

definition slice_of :: "bytes \<Rightarrow> bytes \<Rightarrow> bool" where
  "slice_of base d \<longleftrightarrow> (\<exists>off. off + length d \<le> length base \<and> d = take (length d) (drop off base))"

definition visitable :: "bytes \<Rightarrow> bytes \<Rightarrow> bytes \<Rightarrow> bool" where
  "visitable base n d \<longleftrightarrow> length n \<le> 100 \<and> 0 \<notin> set n \<and> \<not> (n \<noteq> [] \<and> hd n = 47) \<and> slice_of base d"

lemma visitable_entry:
  assumes "off + n \<le> length base"
  shows "visitable base (normalize (c_string (take 100 p))) (take n (drop off base))"
proof -
  have "length (c_string (take 100 p)) \<le> 100" using c_string_props(1) [of "take 100 p"] by simp
  moreover have "slice_of base (take n (drop off base))"
    unfolding slice_of_def using assms by (intro exI [of _ off]) (simp add: min_def)
  ultimately show ?thesis
    using normalize_props [of "c_string (take 100 p)"] c_string_props(2) [of "take 100 p"] unfolding visitable_def by fastforce
qed

text \<open>One accepted header, as a single equation.\<close>

definition header_ok :: "bytes \<Rightarrow> nat \<Rightarrow> bool" where
  "header_ok base off \<longleftrightarrow> (let p = take 512 (drop off base) in off + 512 \<le> length base \<and> p ! 0 \<noteq> 0 \<and> p ! 257 = 117
     \<and> header_sum p = tar_octal (drop 148 p) 8 \<and> unat (tar_octal (drop 124 p) 12) \<le> length base - (off + 512))"

definition next_header :: "bytes \<Rightarrow> nat \<Rightarrow> nat" where
  "next_header base off = off + 512 + unat ((tar_octal (drop 124 (take 512 (drop off base))) 12 + 512 - 1) div 512) * 512"

definition visit_header :: "'c tar_visit \<Rightarrow> bytes \<Rightarrow> nat \<Rightarrow> 'c \<Rightarrow> bool \<times> 'c" where
  "visit_header cb base off ctx = (let p = take 512 (drop off base) in
     if p ! 156 = 48 \<or> p ! 156 = 0
     then cb (normalize (c_string (take 100 p))) (take (unat (tar_octal (drop 124 p) 12)) (drop (off + 512) base)) ctx
     else (False, ctx))"

lemma walk_eq:
  "tar_walk_from cb base off ctx = (if header_ok base off then
     (case visit_header cb base off ctx of (True, c) \<Rightarrow> c | (False, c) \<Rightarrow> tar_walk_from cb base (next_header base off) c) else ctx)"
proof -
  let ?p = "take 512 (drop off base)"
  have stop: "tar_walk_from cb base off ctx = ctx" if "\<not> header_ok base off"
    using that unfolding header_ok_def Let_def by (subst tar_walk_from.simps) (auto simp: Let_def)
  have go: "tar_walk_from cb base off ctx = (case visit_header cb base off ctx of (True, c) \<Rightarrow> c
     | (False, c) \<Rightarrow> tar_walk_from cb base (next_header base off) c)" if "header_ok base off"
  proof -
    have c: "off + 512 \<le> length base" "(?p ! 0 = 0) = False" "(?p ! 257 \<noteq> 117) = False"
      "(header_sum ?p \<noteq> tar_octal (drop 148 ?p) 8) = False"
      "(unat (tar_octal (drop 124 ?p) 12) > length base - (off + 512)) = False"
      using that unfolding header_ok_def Let_def by auto
    show ?thesis unfolding visit_header_def next_header_def Let_def
      by (subst tar_walk_from.simps) (simp only: Let_def c if_True if_False)
  qed
  show ?thesis using stop go by simp
qed

lemma walk_contained:
  "\<exists>fs. (\<forall>(n, d)\<in>set fs. visitable base n d) \<and> tar_walk_from cb base off ctx = visit_all cb fs ctx"
proof (induction "length base - off" arbitrary: off ctx rule: less_induct)
  case less
  let ?p = "take 512 (drop off base)"
  let ?n = "normalize (c_string (take 100 ?p))" and ?d = "take (unat (tar_octal (drop 124 ?p) 12)) (drop (off + 512) base)"
  show ?case
  proof (cases "header_ok base off")
    case False
    then show ?thesis by (subst walk_eq) (intro exI [of _ "[]"], simp)
  next
    case ok: True
    have vis: "visitable base ?n ?d"
      using ok unfolding header_ok_def Let_def by (intro visitable_entry) linarith
    obtain b c where v: "visit_header cb base off ctx = (b, c)" by (meson surj_pair)
    have shape: "visit_all cb fs c = visit_all cb (if ?p ! 156 = 48 \<or> ?p ! 156 = 0 then (?n, ?d) # fs else fs) ctx" if "\<not> b" for fs
      using v that unfolding visit_header_def Let_def by (auto split: if_splits)
    show ?thesis
    proof (cases b)
      case True
      then have "cb ?n ?d ctx = (True, c)" using v unfolding visit_header_def Let_def by (auto split: if_splits)
      moreover have "tar_walk_from cb base off ctx = c" using ok v True by (subst walk_eq) simp
      ultimately have "tar_walk_from cb base off ctx = visit_all cb [(?n, ?d)] ctx" by simp
      then show ?thesis using vis by (intro exI [of _ "[(?n, ?d)]"]) simp
    next
      case False
      have "length base - next_header base off < length base - off"
        using ok unfolding header_ok_def next_header_def Let_def by linarith
      then obtain fs where fs: "\<forall>(n, d)\<in>set fs. visitable base n d"
          "tar_walk_from cb base (next_header base off) c = visit_all cb fs c" using less by meson
      have "tar_walk_from cb base off ctx = visit_all cb fs c" using ok v False fs(2) by (subst walk_eq) simp
      then show ?thesis unfolding shape [OF False]
        using fs(1) vis by (intro exI [of _ "if ?p ! 156 = 48 \<or> ?p ! 156 = 0 then (?n, ?d) # fs else fs"]) auto
    qed
  qed
qed

text \<open>A hostile archive is contained: the walk of any byte string comes back, and whatever the
  headers claim, all it ever hands to a visitor is names of at most 100 characters without NUL or
  leading slash, each with a slice that lies inside the archive.\<close>

theorem tar_walk_contained:
  "\<exists>fs. (\<forall>(n, d)\<in>set fs. length n \<le> 100 \<and> 0 \<notin> set n \<and> \<not> (n \<noteq> [] \<and> hd n = 47)
        \<and> (\<exists>off. off + length d \<le> length base \<and> d = take (length d) (drop off base)))
     \<and> tar_walk_mem cb base ctx = visit_all cb fs ctx"
  using walk_contained [of base cb 0 ctx] unfolding tar_walk_mem_def visitable_def slice_of_def by simp

theorem tar_walk_contained_witness:
  "\<exists>fs. concat (map snd fs) = [] \<and> tar_walk_mem count_cb [] (0, 0) = visit_all count_cb fs (0, 0)"
proof -
  obtain fs where fs: "\<forall>(n, d)\<in>set fs. length n \<le> 100 \<and> 0 \<notin> set n \<and> \<not> (n \<noteq> [] \<and> hd n = 47)
        \<and> (\<exists>off. off + length d \<le> length ([] :: bytes) \<and> d = take (length d) (drop off []))"
      "tar_walk_mem count_cb [] (0, 0) = visit_all count_cb fs (0, 0)"
    using tar_walk_contained [of "[]" count_cb "(0, 0)"] by blast
  have "concat (map snd fs) = []" using fs(1) by auto
  then show ?thesis using fs(2) by blast
qed

end
