(* ===== verification/Ramfs_Props.thy ===== *)
theory Ramfs_Props
  imports Ramfs Tar_Props
begin

text \<open>
  What the overlay promises: its invariant over every sequence of operations, the effect of each
  operation on the abstract store (a map from normalized names to contents), and the listing. The
  contract the disk restore relies on is the locale \<open>file_store\<close>, interpreted on the overlay.
\<close>

section \<open>The operations on the abstract store\<close>

text \<open>Every way the creation can fail.\<close>

definition create_refused :: "bytes option \<Rightarrow> bytes \<Rightarrow> ramfs \<Rightarrow> bool" where
  "create_refused alloc p files \<longleftrightarrow> normalize p = [] \<or> length (normalize p) > 100
     \<or> (normalize p \<notin> dom (ramfs_abs files) \<and> (alloc = None \<or> ramfs_count files = 16))"

lemma ramfs_count_full: "ramfs_count files = 16 \<longleftrightarrow> (\<forall>i<16. rused (files i))"
proof
  assume c: "ramfs_count files = 16"
  show "\<forall>i<16. rused (files i)"
  proof (rule ccontr)
    assume "\<not> ?thesis"
    then obtain i where i: "i < (16 :: nat)" "\<not> rused (files i)" by blast
    have "length (filter (\<lambda>i. rused (files i)) [0..<16]) < length [0..<16 :: nat]"
      by (rule length_filter_less [of i]) (use i in \<open>simp_all only: set_upt atLeastLessThan_iff, simp_all\<close>)
    then show False using c unfolding ramfs_count_def by simp
  qed
next
  assume "\<forall>i<16. rused (files i)"
  then have "filter (\<lambda>i. rused (files i)) [0..<16] = [0..<16 :: nat]" by (simp only: filter_id_conv set_upt) simp
  then show "ramfs_count files = 16" by (simp only: ramfs_count_def length_upt)
qed

lemma abs_dom: "n \<in> dom (ramfs_abs files) \<longleftrightarrow> find_by_name n files \<noteq> None"
  by (auto simp: ramfs_abs_def domIff)

lemma create_refused_branch:
  assumes "create_refused alloc p files"
  shows "ramfs_create alloc (Some p) files = (None, files)"
proof (cases "normalize p = [] \<or> length (normalize p) > 100")
  case True
  then show ?thesis by (auto simp: ramfs_create_def Let_def)
next
  case False
  then have n: "find_by_name (normalize p) files = None" "alloc = None \<or> (\<forall>i<16. rused (files i))"
    using assms unfolding create_refused_def abs_dom ramfs_count_full by blast+
  then have "alloc = None \<or> first_idx (\<lambda>i. \<not> rused (files i)) 0 16 = None" unfolding first_idx_None by simp
  then show ?thesis using n False by (auto simp: ramfs_create_def Let_def split: option.split)
qed

lemma create_admitted_branch:
  assumes inv: "ramfs_inv files" and a: "alloc_ok alloc" and nul: "0 \<notin> set p" and ok: "\<not> create_refused alloc p files"
  shows "\<exists>i files'. ramfs_create alloc (Some p) files = (Some i, files') \<and> ramfs_inv files' \<and> i < 16
     \<and> rused (files' i) \<and> rname (files' i) = normalize p \<and> rsize (files' i) = 0
     \<and> ramfs_abs files' = (ramfs_abs files)(normalize p \<mapsto> [])"
proof -
  let ?n = "normalize p"
  have n: "?n \<noteq> []" "length ?n \<le> 100" using ok by (auto simp: create_refused_def)
  have n': "hd ?n \<noteq> 47" "0 \<notin> set ?n" using normalize_props [of p] n nul by auto
  show ?thesis
  proof (cases "find_by_name ?n files")
    case (Some i)
    note i = find_by_name_Some [OF Some]
    let ?f = "(files i)\<lparr>rsize := 0\<rparr>"
    have c: "ramfs_create alloc (Some p) files = (Some i, files(i := ?f))" using n Some by (simp add: ramfs_create_def Let_def)
    have "file_ok ?f" using inv_file [OF inv, of i] i by (simp add: file_ok_def)
    then have inv': "ramfs_inv (files(i := ?f))" using i ramfs_inv_inj [OF inv] by (intro inv_replace [OF inv]) auto
    have "ramfs_abs (files(i := ?f)) = (ramfs_abs files)(?n \<mapsto> [])"
      using abs_replace [OF inv', of ] i inv by (auto simp: file_content_def fun_eq_iff restrict_map_def)
    then show ?thesis using c inv' i by (intro exI [of _ i] exI [of _ "files(i := ?f)"]) simp
  next
    case None
    then have "alloc \<noteq> None \<and> ramfs_count files \<noteq> 16" using ok unfolding create_refused_def abs_dom by (simp add: None)
    then have "alloc \<noteq> None" "ramfs_count files \<noteq> 16" by blast+
    then obtain buf where buf: "alloc = Some buf" "length buf = 65536" using a by (auto simp: alloc_ok_def)
    obtain i where i: "first_idx (\<lambda>i. \<not> rused (files i)) 0 16 = Some i"
      using \<open>ramfs_count files \<noteq> 16\<close> unfolding ramfs_count_full using first_idx_None [of "\<lambda>i. \<not> rused (files i)" 0 16]
      by (cases "first_idx (\<lambda>i. \<not> rused (files i)) 0 16") auto
    then have i': "i < 16" "\<not> rused (files i)" by (auto dest: first_idx_SomeD)
    let ?f = "\<lparr>rname = ?n, rdata = Some buf, rsize = 0, rused = True\<rparr>"
    have c: "ramfs_create alloc (Some p) files = (Some i, files(i := ?f))"
      using n None i buf by (simp add: ramfs_create_def Let_def)
    have "file_ok ?f" using n n' buf by (simp add: file_ok_def)
    then have inv': "ramfs_inv (files(i := ?f))"
      using i' None unfolding find_by_name_None by (intro inv_replace [OF inv]) auto
    have "ramfs_abs (files(i := ?f)) = (ramfs_abs files)(?n \<mapsto> [])"
      using abs_fresh [OF inv' i'(1) inv i'(2)] by (simp add: file_content_def)
    then show ?thesis using c inv' i' by (intro exI [of _ i] exI [of _ "files(i := ?f)"]) simp
  qed
qed

lemma append_branch:
  assumes inv: "ramfs_inv files" and i: "i < 16" "rused (files i)" and len: "unat len \<le> length d"
  shows "\<exists>files'. ramfs_append (int i) (Some d) len files = (Some (min len (65536 - rsize (files i))), files') \<and> ramfs_inv files'
     \<and> ramfs_abs files' = (ramfs_abs files)(rname (files i) \<mapsto> take 65536 (file_content (files i) @ take (unat len) d))"
proof -
  let ?f = "files i" and ?l = "min len (65536 - rsize (files i))"
  have ok: "file_ok ?f" using inv_file [OF inv i] .
  then obtain b where b: "rdata ?f = Some b" "length b = 65536" and sz: "unat (rsize ?f) \<le> 65536"
    by (auto simp: file_ok_def split: option.splits)
  have room: "unat (65536 - rsize ?f) = 65536 - unat (rsize ?f)"
    using sz by (subst unat_sub) (simp_all add: word_le_nat_alt)
  have l: "unat ?l = min (unat len) (65536 - unat (rsize ?f))" unfolding min_def word_le_nat_alt using room by simp
  have tot: "unat (rsize ?f + ?l) = unat (rsize ?f) + unat ?l" using l sz by (simp add: unat_word_ariths)
  let ?g = "?f\<lparr>rdata := Some (poke b (unat (rsize ?f)) (take (unat ?l) d)), rsize := rsize ?f + ?l\<rparr>"
  have c: "ramfs_append (int i) (Some d) len files = (Some ?l, files(i := ?g))"
    using i b unfolding ramfs_append_def Let_def min_def by (simp add: not_less [symmetric])
  have pl: "unat (rsize ?f) + length (take (unat ?l) d) \<le> length b" using l sz b by simp
  have g: "file_ok ?g" using ok tot l sz b pl unfolding file_ok_def by (simp add: min_def split: if_splits)
  then have inv': "ramfs_inv (files(i := ?g))" using i ramfs_inv_inj [OF inv] by (intro inv_replace [OF inv]) auto
  have "file_content ?g = take 65536 (file_content ?f @ take (unat len) d)"
  proof -
    have "take (unat (rsize ?f + ?l)) (poke b (unat (rsize ?f)) (take (unat ?l) d)) = take (unat (rsize ?f)) b @ take (unat ?l) d"
      unfolding tot using b l sz len by (simp add: poke_def min_def)
    moreover have "take (unat ?l) d = take (65536 - unat (rsize ?f)) (take (unat len) d)" unfolding l by (simp add: min.commute)
    ultimately show ?thesis unfolding file_content_def using b sz by simp
  qed
  then have "ramfs_abs (files(i := ?g)) = (ramfs_abs files)(rname ?f \<mapsto> take 65536 (file_content ?f @ take (unat len) d))"
    using abs_replace [OF inv' i(1) inv i(2)] i(2) by (auto simp: fun_eq_iff restrict_map_def)
  then show ?thesis using c inv' by blast
qed

lemma unlink_branch:
  assumes inv: "ramfs_inv files"
  shows "\<exists>files'. ramfs_unlink (Some p) files = (if normalize p \<in> dom (ramfs_abs files) then Some () else None, files')
     \<and> ramfs_inv files' \<and> ramfs_abs files' = ramfs_abs files |` (- {normalize p})"
proof (cases "find_by_name (normalize p) files")
  case None
  then have "normalize p \<notin> dom (ramfs_abs files)" unfolding abs_dom by simp
  then have "ramfs_abs files |` (- {normalize p}) = ramfs_abs files" by (auto simp: restrict_map_def fun_eq_iff domIff)
  then show ?thesis using None inv by (simp add: ramfs_unlink_def abs_dom)
next
  case (Some i)
  note i = find_by_name_Some [OF Some]
  let ?f = "\<lparr>rname = [], rdata = None, rsize = 0, rused = False\<rparr>"
  have inv': "ramfs_inv (files(i := ?f))" using i by (intro inv_replace [OF inv]) auto
  have "ramfs_abs (files(i := ?f)) = ramfs_abs files |` (- {normalize p})"
    using abs_replace [OF inv' _ inv] i by simp
  then show ?thesis using Some inv' by (simp add: ramfs_unlink_def abs_dom)
qed

section \<open>The invariant\<close>

inductive ramfs_step :: "ramfs \<Rightarrow> ramfs \<Rightarrow> bool" where
  step_create: "alloc_ok a \<Longrightarrow> 0 \<notin> set p \<Longrightarrow> ramfs_step st (snd (ramfs_create a (Some p) st))"
| step_append: "unat len \<le> length d \<Longrightarrow> ramfs_step st (snd (ramfs_append i (Some d) len st))"
| step_unlink: "ramfs_step st (snd (ramfs_unlink (Some p) st))"

inductive ramfs_reachable :: "ramfs \<Rightarrow> bool" where
  ram_boot: "ramfs_reachable ramfs_boot"
| ram_step: "ramfs_reachable st \<Longrightarrow> ramfs_step st st' \<Longrightarrow> ramfs_reachable st'"

lemma ramfs_step_inv: "ramfs_step st st' \<Longrightarrow> ramfs_inv st \<Longrightarrow> ramfs_inv st'"
proof (induction rule: ramfs_step.induct)
  case (step_create a p st)
  then show ?case using create_refused_branch [of a p st] create_admitted_branch [of st a p]
    by (cases "create_refused a p st") auto
next
  case (step_append len d st i)
  show ?case
  proof (cases "i < 0 \<or> i \<ge> 16 \<or> \<not> rused (st (nat i))")
    case True
    then have "ramfs_append i (Some d) len st = (None, st)" by (auto simp: ramfs_append_def Let_def)
    then show ?thesis using step_append.prems by simp
  next
    case False
    then have "nat i < 16" "rused (st (nat i))" "int (nat i) = i" by auto
    then show ?thesis using append_branch [OF step_append.prems, of "nat i" len d] step_append.hyps by auto
  qed
next
  case (step_unlink st p)
  then show ?case using unlink_branch [of st p] by auto
qed

lemma ramfs_reachable_inv: "ramfs_reachable st \<Longrightarrow> ramfs_inv st"
  by (induction rule: ramfs_reachable.induct) (auto intro: ramfs_inv_boot ramfs_step_inv)

section \<open>The abstract store\<close>

datatype ram_op =
  Op_create "bytes option" bytes
| Op_write bytes bytes
| Op_read bytes
| Op_unlink bytes

datatype ram_answer =
  Done bool
| Wrote "nat option"
| Bytes "bytes option"

text \<open>The operations as the system calls use them: a write finds the file, then appends.\<close>

fun ram_exec :: "ram_op \<Rightarrow> ramfs \<Rightarrow> ram_answer \<times> ramfs" where
  "ram_exec (Op_create a p) st = (case ramfs_create a (Some p) st of (r, st') \<Rightarrow> (Done (r \<noteq> None), st'))"
| "ram_exec (Op_write p d) st = (case ramfs_lookup (Some p) st of None \<Rightarrow> (Wrote None, st)
     | Some (i, _, _) \<Rightarrow> (case ramfs_append (int i) (Some d) (of_nat (length d)) st of (r, st') \<Rightarrow> (Wrote (map_option unat r), st')))"
| "ram_exec (Op_read p) st = (Bytes (map_option (\<lambda>(i, d, n). take (unat n) (the d)) (ramfs_lookup (Some p) st)), st)"
| "ram_exec (Op_unlink p) st = (case ramfs_unlink (Some p) st of (r, st') \<Rightarrow> (Done (r \<noteq> None), st'))"

fun store_exec :: "ram_op \<Rightarrow> (bytes \<rightharpoonup> bytes) \<Rightarrow> ram_answer \<times> (bytes \<rightharpoonup> bytes)" where
  "store_exec (Op_create a p) m = (let n = normalize p in
     if n = [] \<or> length n > 100 \<or> (n \<notin> dom m \<and> (a = None \<or> card (dom m) = 16)) then (Done False, m)
     else (Done True, m(n \<mapsto> [])))"
| "store_exec (Op_write p d) m = (case m (normalize p) of None \<Rightarrow> (Wrote None, m)
     | Some c \<Rightarrow> (Wrote (Some (min (length d) (65536 - length c))), m(normalize p \<mapsto> take 65536 (c @ d))))"
| "store_exec (Op_read p) m = (Bytes (m (normalize p)), m)"
| "store_exec (Op_unlink p) m = (Done (normalize p \<in> dom m), m |` (- {normalize p}))"

fun run_ops :: "(ram_op \<Rightarrow> 's \<Rightarrow> ram_answer \<times> 's) \<Rightarrow> ram_op list \<Rightarrow> 's \<Rightarrow> ram_answer list \<times> 's" where
  "run_ops ex [] s = ([], s)"
| "run_ops ex (op # ops) s = (case ex op s of (r, s') \<Rightarrow> case run_ops ex ops s' of (rs, s'') \<Rightarrow> (r # rs, s''))"

text \<open>The arguments C can pass: strings end at their first NUL, lengths are 32-bit, buffers have the size asked for.\<close>

fun op_ok :: "ram_op \<Rightarrow> bool" where
  "op_ok (Op_create a p) \<longleftrightarrow> alloc_ok a \<and> 0 \<notin> set p"
| "op_ok (Op_write p d) \<longleftrightarrow> length d < 4294967296"
| "op_ok (Op_read p) \<longleftrightarrow> True"
| "op_ok (Op_unlink p) \<longleftrightarrow> True"

lemma count_card_dom:
  assumes "ramfs_inv st"
  shows "ramfs_count st = card (dom (ramfs_abs st))"
proof -
  let ?U = "{i. i < 16 \<and> rused (st i)}"
  have "set (filter (\<lambda>i. rused (st i)) [0..<16]) = ?U" by auto
  then have "ramfs_count st = card ?U" unfolding ramfs_count_def using distinct_card [of "filter (\<lambda>i. rused (st i)) [0..<16]"] by simp
  also have "\<dots> = card ((\<lambda>i. rname (st i)) ` ?U)"
    by (rule card_image [symmetric]) (auto intro!: inj_onI dest: ramfs_inv_inj [OF assms])
  also have "(\<lambda>i. rname (st i)) ` ?U = dom (ramfs_abs st)"
  proof (intro equalityI subsetI)
    fix n assume "n \<in> (\<lambda>i. rname (st i)) ` ?U"
    then show "n \<in> dom (ramfs_abs st)" unfolding abs_dom using find_by_name_used [OF assms] by auto
  next
    fix n assume "n \<in> dom (ramfs_abs st)"
    then obtain i where "find_by_name n st = Some i" unfolding abs_dom by blast
    then show "n \<in> (\<lambda>i. rname (st i)) ` ?U" by (auto dest!: find_by_name_Some)
  qed
  finally show ?thesis .
qed

lemma create_refused_store:
  "ramfs_inv st \<Longrightarrow> create_refused a p st \<longleftrightarrow> normalize p = [] \<or> length (normalize p) > 100
     \<or> (normalize p \<notin> dom (ramfs_abs st) \<and> (a = None \<or> card (dom (ramfs_abs st)) = 16))"
  unfolding create_refused_def by (simp add: count_card_dom)

lemma abs_at: "find_by_name n st = Some i \<Longrightarrow> ramfs_abs st n = Some (file_content (st i))"
  by (simp add: ramfs_abs_def)

lemma length_content: "ramfs_inv st \<Longrightarrow> i < 16 \<Longrightarrow> rused (st i) \<Longrightarrow> length (file_content (st i)) = unat (rsize (st i))"
  using inv_file [of st i] by (auto simp: file_content_def file_ok_def split: option.splits)

lemma exec_refines:
  assumes inv: "ramfs_inv st" and ok: "op_ok op" and e: "ram_exec op st = (r, st')"
  shows "ramfs_inv st' \<and> store_exec op (ramfs_abs st) = (r, ramfs_abs st')"
proof (cases op)
  case (Op_create a p)
  show ?thesis
  proof (cases "create_refused a p st")
    case True
    then show ?thesis using e inv Op_create create_refused_branch [OF True] create_refused_store [OF inv, of a p]
      by (auto simp: Let_def)
  next
    case False
    then show ?thesis using e Op_create create_admitted_branch [OF inv _ _ False] ok create_refused_store [OF inv, of a p]
      by (auto simp: Let_def)
  qed
next
  case (Op_write p d)
  show ?thesis
  proof (cases "find_by_name (normalize p) st")
    case None
    then show ?thesis using e inv Op_write by (simp add: ramfs_lookup_def ramfs_abs_def)
  next
    case (Some i)
    note i = find_by_name_Some [OF Some]
    let ?s = "rsize (st i)" and ?l = "of_nat (length d) :: u32"
    have u: "unat ?l = length d" using ok Op_write by (simp add: unat_of_nat)
    have sz: "unat ?s \<le> 65536" using inv_file [OF inv, of i] i by (simp add: file_ok_def)
    have "unat (65536 - ?s) = 65536 - unat ?s" using sz by (subst unat_sub) (simp_all add: word_le_nat_alt)
    then have m: "unat (min ?l (65536 - ?s)) = min (length d) (65536 - unat ?s)"
      unfolding min_def word_le_nat_alt using u by simp
    obtain st1 where st1: "ramfs_append (int i) (Some d) ?l st = (Some (min ?l (65536 - ?s)), st1)" "ramfs_inv st1"
        "ramfs_abs st1 = (ramfs_abs st)(normalize p \<mapsto> take 65536 (file_content (st i) @ take (unat ?l) d))"
      using append_branch [OF inv, of i ?l d] i u by auto
    then show ?thesis using e Op_write Some abs_at [OF Some] length_content [OF inv, of i] i m u
      by (auto simp: ramfs_lookup_def)
  qed
next
  case (Op_read p)
  show ?thesis
  proof (cases "find_by_name (normalize p) st")
    case None
    then show ?thesis using e inv Op_read by (auto simp: ramfs_lookup_def ramfs_abs_def)
  next
    case (Some i)
    then have "rdata (st i) \<noteq> None" using inv_file [OF inv, of i] find_by_name_Some [OF Some]
      by (auto simp: file_ok_def split: option.splits)
    then show ?thesis using e inv Op_read Some by (auto simp: ramfs_lookup_def ramfs_abs_def file_content_def)
  qed
next
  case (Op_unlink p)
  then show ?thesis using e unlink_branch [OF inv, of p] by (auto split: if_splits)
qed

lemma run_refines:
  "ramfs_inv st \<Longrightarrow> \<forall>op\<in>set ops. op_ok op \<Longrightarrow> run_ops ram_exec ops st = (rs, st') \<Longrightarrow>
   run_ops store_exec ops (ramfs_abs st) = (rs, ramfs_abs st')"
proof (induction ops arbitrary: st rs st')
  case Nil
  then show ?case by simp
next
  case (Cons op ops)
  obtain r st1 where e: "ram_exec op st = (r, st1)" by (meson surj_pair)
  obtain rs2 st2 where e2: "run_ops ram_exec ops st1 = (rs2, st2)" by (meson surj_pair)
  have o: "ramfs_inv st1" "store_exec op (ramfs_abs st) = (r, ramfs_abs st1)"
    using exec_refines [OF Cons.prems(1) _ e] Cons.prems(2) by auto
  have "run_ops store_exec ops (ramfs_abs st1) = (rs2, ramfs_abs st2)"
    using Cons.IH [OF o(1) _ e2] Cons.prems(2) by simp
  then show ?case using Cons.prems(3) e e2 o(2) by simp
qed

lemma abs_boot: "ramfs_abs ramfs_boot = Map.empty"
proof
  fix n show "ramfs_abs ramfs_boot n = None"
    using find_by_name_None [of n ramfs_boot] by (simp add: ramfs_abs_def ramfs_boot_def)
qed

text \<open>C12. The overlay refines a finite map. On every sequence of creations, writes, reads and unlinks from
  boot, the sixteen-slot table answers what a map from normalized names to contents answers: creation
  empties or adds the file, and is refused exactly for an empty or over-long name, a full table or no
  memory; a write appends up to 64 KiB and reports how much; an unlinked file is gone.\<close>

theorem ramfs_refines_store:
  assumes "\<forall>op\<in>set ops. op_ok op"
  shows "run_ops store_exec ops Map.empty
    = (fst (run_ops ram_exec ops ramfs_boot), ramfs_abs (snd (run_ops ram_exec ops ramfs_boot)))"
  using run_refines [OF ramfs_inv_boot assms, of "fst (run_ops ram_exec ops ramfs_boot)"] unfolding abs_boot by simp

theorem ramfs_refines_store_witness:
  "fst (run_ops ram_exec [Op_create (Some (replicate 65536 0)) [46, 47, 97], Op_write [47, 97] [1, 2], Op_write [97] [3],
      Op_read [97], Op_create None [98], Op_unlink [97], Op_read [97]] ramfs_boot)
   = [Done True, Wrote (Some 2), Wrote (Some 1), Bytes (Some [1, 2, 3]), Done False, Done True, Bytes None]"
proof -
  let ?ops = "[Op_create (Some (replicate 65536 0)) [46, 47, 97], Op_write [47, 97] [1, 2], Op_write [97] [3],
      Op_read [97], Op_create None [98], Op_unlink [97], Op_read [97]]"
  have "\<forall>op\<in>set ?ops. op_ok op" by (simp add: alloc_ok_def)
  from ramfs_refines_store [OF this]
  have "fst (run_ops ram_exec ?ops ramfs_boot) = fst (run_ops store_exec ?ops Map.empty)" by simp
  also have "\<dots> = [Done True, Wrote (Some 2), Wrote (Some 1), Bytes (Some [1, 2, 3]), Done False, Done True, Bytes None]"
    by (simp add: normalize_def)
  finally show ?thesis .
qed

text \<open>The overlay stays well formed whatever the calls: live files have distinct, non-empty,
  NUL-free names of at most 100 characters without leading slash, an owned buffer of 64 KiB and a
  recorded size inside it.\<close>

theorem ramfs_sound:
  assumes "ramfs_reachable st" "i < 16" "rused (st i)"
  shows "rname (st i) \<noteq> [] \<and> length (rname (st i)) \<le> 100 \<and> hd (rname (st i)) \<noteq> 47 \<and> 0 \<notin> set (rname (st i))
    \<and> (\<exists>b. rdata (st i) = Some b \<and> length b = 65536 \<and> unat (rsize (st i)) \<le> length b)
    \<and> find_by_name (rname (st i)) st = Some i"
  using inv_file [OF ramfs_reachable_inv [OF assms(1)] assms(2,3)]
    find_by_name_used [OF ramfs_reachable_inv [OF assms(1)] assms(2,3)]
  by (auto simp: file_ok_def split: option.splits)

theorem ramfs_sound_witness:
  "find_by_name [97] (snd (ramfs_create (Some (replicate 65536 0)) (Some [97]) ramfs_boot)) = Some 0"
proof -
  let ?st = "snd (ramfs_create (Some (replicate 65536 0)) (Some [97]) ramfs_boot)"
  have c: "?st = ramfs_boot(0 := \<lparr>rname = [97], rdata = Some (replicate 65536 0), rsize = 0, rused = True\<rparr>)"
    by (simp add: ramfs_create_def Let_def normalize_def find_by_name_def ramfs_boot_def first_idx.simps)
  have "ramfs_reachable ?st"
    by (rule ram_step [OF ram_boot step_create]) (simp_all add: alloc_ok_def)
  from ramfs_sound [OF this, of 0] show ?thesis unfolding c by simp
qed

section \<open>The contract of the restore\<close>

text \<open>What the disk restore needs of the overlay: creation and append by their effect on the store.
  \<open>holds s i n\<close>: index \<open>i\<close> is the file named \<open>n\<close>.\<close>

locale file_store =
  fixes inv :: "'s \<Rightarrow> bool"
    and content :: "'s \<Rightarrow> bytes \<rightharpoonup> bytes"
    and holds :: "'s \<Rightarrow> nat \<Rightarrow> bytes \<Rightarrow> bool"
    and create :: "bytes option \<Rightarrow> bytes option \<Rightarrow> 's \<Rightarrow> nat option \<times> 's"
    and append :: "int \<Rightarrow> bytes option \<Rightarrow> u32 \<Rightarrow> 's \<Rightarrow> u32 option \<times> 's"
    and refused :: "bytes option \<Rightarrow> bytes \<Rightarrow> 's \<Rightarrow> bool"
  assumes refused_iff: "inv s \<Longrightarrow> refused a p s \<longleftrightarrow> normalize p = [] \<or> length (normalize p) > 100
      \<or> (normalize p \<notin> dom (content s) \<and> (a = None \<or> card (dom (content s)) = 16))"
    and create_refused: "refused a p s \<Longrightarrow> create a (Some p) s = (None, s)"
    and create_admitted: "inv s \<Longrightarrow> alloc_ok a \<Longrightarrow> 0 \<notin> set p \<Longrightarrow> \<not> refused a p s \<Longrightarrow>
      \<exists>i s'. create a (Some p) s = (Some i, s') \<and> inv s' \<and> holds s' i (normalize p)
        \<and> content s' = (content s)(normalize p \<mapsto> [])"
    and append_held: "inv s \<Longrightarrow> holds s i n \<Longrightarrow> content s n = Some c \<Longrightarrow> unat len \<le> length d \<Longrightarrow>
      \<exists>r s'. append (int i) (Some d) len s = (Some r, s') \<and> inv s'
        \<and> content s' = (content s)(n \<mapsto> take 65536 (c @ take (unat len) d))"
    and bounded: "inv s \<Longrightarrow> finite (dom (content s)) \<and> card (dom (content s)) \<le> 16"
begin

text \<open>One visited archive entry: create, append its bytes, count.\<close>

definition put :: "('s \<Rightarrow> bytes option) \<Rightarrow> (u32 \<times> 's) tar_visit" where
  "put mem n d cs = (case create (mem (snd cs)) (Some n) (snd cs) of
     (None, s) \<Rightarrow> (False, (fst cs, s))
   | (Some i, s) \<Rightarrow> (False, (fst cs + 1, snd (append (int i) (Some d) (of_nat (length d)) s))))"

lemma put_inv:
  assumes "inv s" "alloc_ok (mem s)" "0 \<notin> set n"
  shows "\<exists>c' s'. put mem n d (c, s) = (False, (c', s')) \<and> inv s'"
proof (cases "refused (mem s) n s")
  case True
  then show ?thesis using assms create_refused by (simp add: put_def)
next
  case False
  obtain i s1 where s1: "create (mem s) (Some n) s = (Some i, s1)" "inv s1" "holds s1 i (normalize n)"
      "content s1 = (content s)(normalize n \<mapsto> [])"
    using create_admitted [OF assms False] by blast
  have len: "unat (of_nat (length d) :: u32) \<le> length d" by (simp add: unat_of_nat)
  obtain r s2 where "append (int i) (Some d) (of_nat (length d)) s1 = (Some r, s2)" "inv s2"
    using append_held [OF s1(2,3) _ len, where c = "[]"] s1(4) by auto
  then show ?thesis using s1(1) by (simp add: put_def)
qed

lemma put_exact:
  assumes "inv s" "alloc_ok (mem s)" "0 \<notin> set n" "\<not> refused (mem s) n s" "length d \<le> 65536"
  shows "\<exists>s'. put mem n d (c, s) = (False, (c + 1, s')) \<and> inv s' \<and> content s' = (content s)(normalize n \<mapsto> d)"
proof -
  obtain i s1 where s1: "create (mem s) (Some n) s = (Some i, s1)" "inv s1" "holds s1 i (normalize n)"
      "content s1 = (content s)(normalize n \<mapsto> [])"
    using create_admitted [OF assms(1-4)] by blast
  have len: "unat (of_nat (length d) :: u32) = length d" using assms(5) by (simp add: unat_of_nat)
  have "content s1 (normalize n) = Some []" using s1(4) by simp
  from append_held [OF s1(2,3) this, where len = "of_nat (length d)" and d = d] obtain r s2 where
    "append (int i) (Some d) (of_nat (length d)) s1 = (Some r, s2)" "inv s2" "content s2 = (content s)(normalize n \<mapsto> d)"
    using len s1(4) assms(5) by auto
  then show ?thesis using s1(1) by (simp add: put_def)
qed

lemma restore_inv:
  assumes "inv s" "\<And>t. alloc_ok (mem t)" "\<forall>(n, d)\<in>set fs. 0 \<notin> set n"
  shows "inv (snd (visit_all (put mem) fs (c, s)))"
  using assms(1,3)
proof (induction fs arbitrary: c s)
  case (Cons f fs)
  obtain n d where f: "f = (n, d)" by (cases f)
  obtain c' s' where "put mem n d (c, s) = (False, (c', s'))" "inv s'"
    using put_inv [where s = s and mem = mem and n = n and c = c and d = d] Cons.prems assms(2) f by auto
  then show ?case using Cons f by simp
qed simp

text \<open>An archive of at most sixteen well-named files with distinct names restores to exactly its members.\<close>

lemma restore_exact:
  assumes "inv s" "\<And>t. mem t \<noteq> None" "\<And>t. alloc_ok (mem t)" "distinct (map fst fs)"
    "\<forall>(n, d)\<in>set fs. 0 \<notin> set n \<and> n \<noteq> [] \<and> normalize n = n \<and> length n \<le> 100 \<and> length d \<le> 65536"
    "dom (content s) \<inter> fst ` set fs = {}" "card (dom (content s)) + length fs \<le> 16"
  shows "\<exists>s'. visit_all (put mem) fs (c, s) = (c + of_nat (length fs), s') \<and> inv s' \<and> content s' = content s ++ map_of fs"
  using assms(1,4-7)
proof (induction fs arbitrary: c s)
  case (Cons f fs)
  obtain n d where f: "f = (n, d)" by (cases f)
  have n: "0 \<notin> set n" "n \<noteq> []" "normalize n = n" "length n \<le> 100" "length d \<le> 65536" "n \<notin> dom (content s)"
    using Cons.prems(3,4) f by auto
  have "\<not> refused (mem s) n s" unfolding refused_iff [OF Cons.prems(1)] using n assms(2) Cons.prems(5) by simp
  then obtain s1 where s1: "put mem n d (c, s) = (False, (c + 1, s1))" "inv s1" "content s1 = (content s)(n \<mapsto> d)"
    using put_exact [of s mem n, OF Cons.prems(1) assms(3) n(1) _ n(5), of c] unfolding n(3) by blast
  have "card (dom (content s1)) = Suc (card (dom (content s)))"
    unfolding s1(3) using bounded [OF Cons.prems(1)] n(6) by simp
  moreover have "dom (content s1) = insert n (dom (content s))" using s1(3) by auto
  ultimately have d: "dom (content s1) \<inter> fst ` set fs = {}" "card (dom (content s1)) + length fs \<le> 16"
    using Cons.prems(2,4,5) f by auto
  have fs: "distinct (map fst fs)"
    "\<forall>(n, d)\<in>set fs. 0 \<notin> set n \<and> n \<noteq> [] \<and> normalize n = n \<and> length n \<le> 100 \<and> length d \<le> 65536"
    using Cons.prems(2,3) by simp_all
  obtain s' where s': "visit_all (put mem) fs (c + 1, s1) = (c + 1 + of_nat (length fs), s')" "inv s'"
      "content s' = content s1 ++ map_of fs"
    using Cons.IH [OF s1(2) fs d, of "c + 1"] by blast
  have "content s1 ++ map_of fs = content s ++ map_of (f # fs)"
  proof
    fix m
    have "n \<notin> dom (map_of fs)" using Cons.prems(2) f by (auto simp: dom_map_of_conv_image_fst)
    then show "(content s1 ++ map_of fs) m = (content s ++ map_of (f # fs)) m"
      unfolding s1(3) f by (cases "map_of fs m") (auto simp: map_add_def)
  qed
  with s'(3) have "content s' = content s ++ map_of (f # fs)" by (rule trans)
  moreover have "visit_all (put mem) (f # fs) (c, s) = (c + of_nat (length (f # fs)), s')"
    using s1(1) s'(1) f by (simp add: ac_simps)
  ultimately show ?case using s'(2) by blast
qed simp

end

lemma content_bounded: "ramfs_inv st \<Longrightarrow> finite (dom (ramfs_abs st)) \<and> card (dom (ramfs_abs st)) \<le> 16"
proof
  assume inv: "ramfs_inv st"
  have "dom (ramfs_abs st) \<subseteq> (\<lambda>i. rname (st i)) ` {..<16}"
    unfolding subset_iff abs_dom by (auto dest!: find_by_name_Some)
  then show "finite (dom (ramfs_abs st))" by (rule finite_subset) simp
  show "card (dom (ramfs_abs st)) \<le> 16" using count_card_dom [OF inv] length_filter_le [of _ "[0..<16]"]
    by (metis ramfs_count_def length_upt diff_zero)
qed

interpretation overlay: file_store ramfs_inv ramfs_abs "\<lambda>st i n. find_by_name n st = Some i" ramfs_create ramfs_append create_refused
proof unfold_locales
  fix s :: ramfs and a p assume "ramfs_inv s"
  then show "create_refused a p s \<longleftrightarrow> normalize p = [] \<or> length (normalize p) > 100
      \<or> (normalize p \<notin> dom (ramfs_abs s) \<and> (a = None \<or> card (dom (ramfs_abs s)) = 16))" by (rule create_refused_store)
next
  fix s a p assume "create_refused a p s"
  then show "ramfs_create a (Some p) s = (None, s)" by (rule create_refused_branch)
next
  fix s a p assume "ramfs_inv s" "alloc_ok a" "0 \<notin> set p" "\<not> create_refused a p s"
  from create_admitted_branch [OF this] obtain i s' where c: "ramfs_create a (Some p) s = (Some i, s')" "ramfs_inv s'"
    "i < 16" "rused (s' i)" "rname (s' i) = normalize p" "ramfs_abs s' = (ramfs_abs s)(normalize p \<mapsto> [])" by blast
  then show "\<exists>i s'. ramfs_create a (Some p) s = (Some i, s') \<and> ramfs_inv s' \<and> find_by_name (normalize p) s' = Some i
      \<and> ramfs_abs s' = (ramfs_abs s)(normalize p \<mapsto> [])" using find_by_name_used [of s' i] by auto
next
  fix s i n c len and d :: bytes
  assume a: "ramfs_inv s" "find_by_name n s = Some i" "ramfs_abs s n = Some c" "unat (len :: u32) \<le> length d"
  then have "c = file_content (s i)" using abs_at by simp
  then show "\<exists>r s'. ramfs_append (int i) (Some d) len s = (Some r, s') \<and> ramfs_inv s'
      \<and> ramfs_abs s' = (ramfs_abs s)(n \<mapsto> take 65536 (c @ take (unat len) d))"
    using append_branch [OF a(1) _ _ a(4), of i] find_by_name_Some [OF a(2)] by blast
next
  fix s assume "ramfs_inv s"
  then show "finite (dom (ramfs_abs s)) \<and> card (dom (ramfs_abs s)) \<le> 16" by (rule content_bounded)
qed

section \<open>The listing\<close>

text \<open>The files the listing shows, and the number of bytes their rows take.\<close>

definition listed :: "bytes \<Rightarrow> ramfs \<Rightarrow> ramfile_t list" where
  "listed pref files = filter (\<lambda>f. rused f \<and> take (length pref) (rname f) = pref) (map files [0..<16])"

lemma ram_rows_prefix:
  "length buf < mx \<Longrightarrow> \<exists>k. ram_rows pref mx fs buf = buf @ concat (map ram_row (take k (filter (\<lambda>f. rused f \<and> take (length pref) (rname f) = pref) fs)))
     \<and> length (ram_rows pref mx fs buf) < mx
     \<and> (k < length (filter (\<lambda>f. rused f \<and> take (length pref) (rname f) = pref) fs) \<longrightarrow> mx - 128 \<le> length (ram_rows pref mx fs buf))"
proof (induction fs arbitrary: buf)
  case Nil
  then show ?case by simp
next
  case (Cons f fs)
  let ?p = "\<lambda>f. rused f \<and> take (length pref) (rname f) = pref"
  have row: "length (ram_row f) \<le> 127"
    using length_dec_chars_u32 [of "rsize f"] by (simp add: ram_row_def)
  show ?case
  proof (cases "?p f")
    case False
    then have "ram_rows pref mx (f # fs) buf = ram_rows pref mx fs buf" by (auto simp: str_starts_iff)
    then show ?thesis using Cons False by auto
  next
    case p: True
    show ?thesis
    proof (cases "length buf + length (ram_row f) + 1 > mx")
      case True
      then have "ram_rows pref mx (f # fs) buf = buf" using p by (auto simp: str_starts_iff)
      then show ?thesis using Cons.prems row True by (intro exI [of _ 0]) auto
    next
      case False
      then have s: "ram_rows pref mx (f # fs) buf = ram_rows pref mx fs (buf @ ram_row f)" using p by (auto simp: str_starts_iff)
      have "length (buf @ ram_row f) < mx" using False by simp
      from Cons.IH [OF this] obtain k where k:
        "ram_rows pref mx fs (buf @ ram_row f) = (buf @ ram_row f) @ concat (map ram_row (take k (filter ?p fs)))"
        "length (ram_rows pref mx fs (buf @ ram_row f)) < mx"
        "k < length (filter ?p fs) \<longrightarrow> mx - 128 \<le> length (ram_rows pref mx fs (buf @ ram_row f))" by blast
      have "ram_rows pref mx fs (buf @ ram_row f) = buf @ concat (map ram_row (take (Suc k) (filter ?p (f # fs))))"
        unfolding k(1) using p by simp
      moreover have "Suc k < length (filter ?p (f # fs)) \<longrightarrow> mx - 128 \<le> length (ram_rows pref mx fs (buf @ ram_row f))"
        using k(3) p by simp
      ultimately show ?thesis unfolding s using k(2) by blast
    qed
  qed
qed

text \<open>The listing appends whole rows, in table order, for a prefix of the files that match; it stays
  below the buffer's size and leaves files out only when fewer than 128 bytes are left.\<close>

theorem ramfs_list_whole_rows:
  assumes "length buf < mx"
  shows "\<exists>k. ramfs_format_list (Some p) mx files buf = buf @ concat (map ram_row (take k (listed (normalize p) files)))
    \<and> length (ramfs_format_list (Some p) mx files buf) < mx
    \<and> (k \<ge> length (listed (normalize p) files) \<or> mx - 128 \<le> length (ramfs_format_list (Some p) mx files buf))"
proof -
  obtain k where k: "ramfs_format_list (Some p) mx files buf = buf @ concat (map ram_row (take k (listed (normalize p) files)))"
      "length (ramfs_format_list (Some p) mx files buf) < mx"
      "k < length (listed (normalize p) files) \<longrightarrow> mx - 128 \<le> length (ramfs_format_list (Some p) mx files buf)"
    using ram_rows_prefix [OF assms, of "normalize p" "map files [0..<16]"]
    unfolding ramfs_format_list_def listed_def option.case by blast
  then have "k \<ge> length (listed (normalize p) files) \<or> mx - 128 \<le> length (ramfs_format_list (Some p) mx files buf)"
    by linarith
  then show ?thesis using k(1,2) by blast
qed

theorem ramfs_list_whole_rows_witness:
  "length (ramfs_format_list (Some [47]) 4096 ramfs_boot ''FS: init'') < 4096"
proof -
  have "length ''FS: init'' < (4096 :: nat)" by simp
  from ramfs_list_whole_rows [OF this, of "[47]" ramfs_boot] show ?thesis by blast
qed

end
