(* ===== verification/Persist_Props.thy ===== *)
theory Persist_Props
  imports Persist Ramfs_Props Field_Props
begin

text \<open>
  The disk sync and restore: what the archive holds, where the sync writes, that a restore after a sync
  brings everything back, and that a restore from an arbitrary disk leaves every structure well formed.
\<close>

section \<open>The archive of the overlay\<close>

lemma concat_if: "concat (map (\<lambda>i. if P i then [f i] else []) xs) = map f (filter P xs)"
  by (induction xs) auto

definition live_slots :: "ramfs \<Rightarrow> nat list" where
  "live_slots files = filter (\<lambda>i. rused (files i)) [0..<16]"

lemma set_live_slots: "i \<in> set (live_slots files) \<longleftrightarrow> i < 16 \<and> rused (files i)"
  unfolding live_slots_def by (simp only: set_filter set_upt) auto

lemma ramfs_get_in: "i < 16 \<Longrightarrow> ramfs_get (int i) files =
   (if rused (files i) then Some (rname (files i), rdata (files i), rsize (files i)) else None)"
  by (simp add: ramfs_get_def Let_def)

lemma live_files_map: "live_files files = map (\<lambda>i. (rname (files i), file_content (files i))) (live_slots files)"
proof -
  have "(case ramfs_get (int i) files of None \<Rightarrow> [] | Some (nm, d, sz) \<Rightarrow> [(nm, take (unat sz) (case d of None \<Rightarrow> [] | Some b \<Rightarrow> b))])
      = (if rused (files i) then [(rname (files i), file_content (files i))] else [])" if "i \<in> set [0..<16]" for i
    using that unfolding set_upt by (simp add: ramfs_get_in file_content_def)
  then have "live_files files = concat (map (\<lambda>i. if rused (files i) then [(rname (files i), file_content (files i))] else []) [0..<16])"
    unfolding live_files_def by (intro arg_cong [of _ _ concat] map_cong) simp_all
  then show ?thesis unfolding concat_if live_slots_def .
qed

lemma archive_size_fold:
  "set xs \<subseteq> {..<16} \<Longrightarrow> fold (\<lambda>i (tar_bytes, nfiles). case ramfs_get (int i) files of None \<Rightarrow> (tar_bytes, nfiles)
     | Some (nm, d, sz) \<Rightarrow> (tar_bytes + (512 + align_block sz), nfiles + 1)) xs (t, n)
   = (t + sum_list (map (\<lambda>i. 512 + align_block (rsize (files i))) (filter (\<lambda>i. rused (files i)) xs)),
      n + of_nat (length (filter (\<lambda>i. rused (files i)) xs)))"
proof (induction xs arbitrary: t n)
  case (Cons i xs)
  then have "i < 16" "set xs \<subseteq> {..<16}" by auto
  then show ?case using Cons.IH by (simp add: ramfs_get_in add.assoc)
qed simp

lemma archive_size_eq:
  "archive_size files = (1024 + sum_list (map (\<lambda>i. 512 + align_block (rsize (files i))) (live_slots files)),
     of_nat (length (live_files files)))"
proof -
  have "set [0..<16] \<subseteq> {..<16 :: nat}" by (simp only: set_upt) auto
  from archive_size_fold [OF this, of files "2 * 512" 0] show ?thesis
    unfolding archive_size_def live_files_map live_slots_def by simp
qed

lemma unat_align_block:
  assumes "unat v \<le> 65536"
  shows "unat (512 + align_block v) = 512 + (unat v + 511) div 512 * 512"
proof -
  have u: "unat (v + 511) = unat v + 511" using assms by (simp add: unat_word_ariths)
  have b: "(unat v + 511) div 512 * 512 \<le> 66047" using assms by simp
  have a: "unat (align_block v) = (unat v + 511) div 512 * 512"
    unfolding align_block_div using u b by (simp add: unat_word_ariths unat_div)
  show ?thesis using a b by (simp add: unat_word_ariths)
qed

lemma unat_sum_list:
  "\<forall>x\<in>set xs. unat (f x) \<le> k \<Longrightarrow> c + k * length xs < 4294967296 \<Longrightarrow>
   unat (of_nat c + sum_list (map f xs) :: u32) = c + sum_list (map (\<lambda>x. unat (f x)) xs)"
proof (induction xs arbitrary: c)
  case Nil
  then show ?case by (simp add: unat_of_nat)
next
  case (Cons x xs)
  have "unat (f x) \<le> k" using Cons.prems(1) by simp
  then have c: "c + unat (f x) + k * length xs < 4294967296" using Cons.prems(2) by simp
  have "(of_nat c + sum_list (map f (x # xs)) :: u32) = of_nat (c + unat (f x)) + sum_list (map f xs)"
    by (simp add: add.assoc)
  moreover have "unat (of_nat (c + unat (f x)) + sum_list (map f xs) :: u32) = c + unat (f x) + sum_list (map (\<lambda>x. unat (f x)) xs)"
    by (rule Cons.IH [OF _ c]) (use Cons.prems(1) in simp)
  ultimately show ?case by (simp only: list.map sum_list.Cons add.assoc)
qed

text \<open>The member list of a well-formed overlay satisfies the reader's conditions, and the first pass of
  the sync computes exactly the archive's length.\<close>

lemma live_member_ok: "ramfs_inv files \<Longrightarrow> \<forall>(n, d)\<in>set (live_files files). member_ok n d"
  using inv_file length_content unfolding live_files_map member_ok_def file_ok_def
  by (fastforce simp: set_live_slots)

lemma length_live: "length (live_files files) \<le> 16"
proof -
  have "length (live_slots files) \<le> length [0..<16 :: nat]" unfolding live_slots_def by (rule length_filter_le)
  then show ?thesis unfolding live_files_map length_map length_upt by simp
qed

lemma length_archive:
  assumes inv: "ramfs_inv files"
  shows "unat (fst (archive_size files)) = length (tar_archive (live_files files))"
    and "length (tar_archive (live_files files)) \<le> 1057792"
    and "512 dvd length (tar_archive (live_files files))"
proof -
  let ?w = "\<lambda>i. 512 + (unat (rsize (files i)) + 511) div 512 * 512"
  have sz: "unat (rsize (files i)) \<le> 65536" if "i \<in> set (live_slots files)" for i
    using inv_file [OF inv] that by (simp add: file_ok_def set_live_slots)
  have m: "length (tar_member (rname (files i)) (file_content (files i))) = ?w i" if "i \<in> set (live_slots files)" for i
    using length_content [OF inv, of i] that sz [OF that] length_member [of "file_content (files i)"] by (simp add: set_live_slots)
  have "length (concat (map (\<lambda>i. tar_member (rname (files i)) (file_content (files i))) xs)) = sum_list (map ?w xs)"
    if "set xs \<subseteq> set (live_slots files)" for xs
    using that m by (induction xs) auto
  from this [of "live_slots files"]
  have len: "length (tar_archive (live_files files)) = 1024 + sum_list (map ?w (live_slots files))"
    unfolding tar_archive_def live_files_map by (simp add: comp_def)
  have w: "?w i \<le> 66048" if "i \<in> set (live_slots files)" for i using sz [OF that] by simp
  have l: "length (live_slots files) \<le> 16" using length_live [of files] unfolding live_files_map by simp
  have sum: "sum_list (map ?w xs) \<le> 66048 * length xs" if "set xs \<subseteq> set (live_slots files)" for xs
    using that
  proof (induction xs)
    case (Cons i xs)
    then show ?case using w [of i] by simp
  qed simp
  show "length (tar_archive (live_files files)) \<le> 1057792" unfolding len using sum [of "live_slots files"] l by simp
  have "unat (of_nat 1024 + sum_list (map (\<lambda>i. 512 + align_block (rsize (files i))) (live_slots files)) :: u32)
      = 1024 + sum_list (map (\<lambda>i. unat (512 + align_block (rsize (files i)))) (live_slots files))"
    by (rule unat_sum_list [of _ _ 66048]) (use l w sz unat_align_block in \<open>auto\<close>)
  also have "map (\<lambda>i. unat (512 + align_block (rsize (files i)))) (live_slots files) = map ?w (live_slots files)"
    using sz unat_align_block by (intro map_cong) auto
  finally show "unat (fst (archive_size files)) = length (tar_archive (live_files files))"
    unfolding archive_size_eq len by simp
  have "512 dvd sum_list (map ?w xs)" for xs by (induction xs) auto
  then show "512 dvd length (tar_archive (live_files files))" unfolding len by (simp add: dvd_add_right_iff)
qed

lemma live_files_store:
  assumes inv: "ramfs_inv files"
  shows "distinct (map fst (live_files files))" "map_of (live_files files) = ramfs_abs files"
proof -
  have d: "distinct (live_slots files)" unfolding live_slots_def by (intro distinct_filter distinct_upt)
  have "inj_on (\<lambda>i. rname (files i)) (set (live_slots files))"
    by (rule inj_onI) (auto simp: set_live_slots dest: ramfs_inv_inj [OF inv])
  then show dn: "distinct (map fst (live_files files))"
    using d unfolding live_files_map by (simp add: distinct_map comp_def)
  show "map_of (live_files files) = ramfs_abs files"
  proof
    fix n
    show "map_of (live_files files) n = ramfs_abs files n"
    proof (cases "find_by_name n files")
      case None
      then have "n \<notin> fst ` set (live_files files)"
        unfolding live_files_map by (auto simp: set_live_slots find_by_name_None)
      then have "map_of (live_files files) n = None" by (simp add: map_of_eq_None_iff)
      then show ?thesis using None by (simp add: ramfs_abs_def)
    next
      case (Some i)
      then have "(n, file_content (files i)) \<in> set (live_files files)"
        using find_by_name_Some [OF Some] unfolding live_files_map by (force simp: set_live_slots)
      then show ?thesis using dn Some by (simp add: ramfs_abs_def)
    qed
  qed
qed

section \<open>Where the sync writes\<close>

lemma homes:
  "audit_disk_fits n \<longleftrightarrow> 45 \<le> unat n"
  "45 \<le> unat n \<Longrightarrow> unat (audit_home_lba n) = unat n - 27"
  "45 \<le> unat n \<Longrightarrow> unat (field_home_lba n) = unat n - 43"
proof -
  show "audit_disk_fits n \<longleftrightarrow> 45 \<le> unat n" by (simp add: audit_disk_fits_def word_le_nat_alt)
  assume n: "45 \<le> unat n"
  show a: "unat (audit_home_lba n) = unat n - 27"
    unfolding audit_home_lba_def using n by (subst unat_sub) (simp_all add: word_le_nat_alt)
  show "unat (field_home_lba n) = unat n - 43"
    unfolding field_home_lba_def using n a by (subst unat_sub) (simp_all add: word_le_nat_alt)
qed

text \<open>The sector below which the archive has to end.\<close>

definition tar_floor :: "nat \<Rightarrow> nat" where
  "tar_floor n = (if 45 \<le> n then n - 43 else n - 1)"

definition archive_fits :: "nat \<Rightarrow> ramfs \<Rightarrow> bool" where
  "archive_fits n files \<longleftrightarrow> 1 + length (tar_archive (live_files files)) div 512 \<le> tar_floor n"

lemma fit_check:
  assumes inv: "ramfs_inv files" and n: "0 < n"
  shows "1 + fst (archive_size files) div 512 > (if audit_disk_fits n then field_home_lba n else n - 1)
    \<longleftrightarrow> \<not> archive_fits (unat n) files"
proof -
  let ?T = "length (tar_archive (live_files files))"
  have t: "unat (fst (archive_size files) div 512) = ?T div 512"
    using length_archive(1) [OF inv] by (simp add: unat_div)
  have "?T div 512 < 10000" using length_archive(2) [OF inv] by simp
  then have u: "unat (1 + fst (archive_size files) div 512) = 1 + ?T div 512"
    using t by (simp add: unat_word_ariths)
  have "0 < unat n" using n by (simp add: word_less_nat_alt)
  then have "unat (n - 1) = unat n - 1" by (subst unat_sub) (simp_all add: word_le_nat_alt)
  then show ?thesis unfolding archive_fits_def tar_floor_def word_less_nat_alt u by (auto simp: homes)
qed

lemma sync_field_big:
  assumes "disk_serves bound n img" "45 \<le> unat n" "field_inv fs"
  obtains d' where "sync_field bound fs d = (Some (field_home_lba n, of_nat FIELD_BLOB_BYTES,
      archive_checksum (take FIELD_BLOB_BYTES (fst (field_blob_write fs)))), d')"
    "img d' = poke (img d) (512 * (unat n - 43)) (fst (field_blob_write fs))"
proof -
  have l: "length (fst (field_blob_write fs)) = 5120" by (rule length_field_blob [OF assms(3)])
  have r: "unat (field_home_lba n) + unat (10 :: u32) \<le> unat n" "512 * unat (10 :: u32) \<le> length (fst (field_blob_write fs))"
    using assms(2) l by (simp_all add: homes)
  obtain d' where "blkdev_write bound (field_home_lba n) (fst (field_blob_write fs)) 10 d = (True, d')"
      "img d' = poke (img d) (512 * (unat n - 43)) (fst (field_blob_write fs))"
    using serves_write [OF assms(1) r, of d] l homes(3) [OF assms(2)] by auto
  then show thesis using that assms by (simp add: sync_field_def serves_count [OF assms(1)] homes Let_def)
qed

lemma sync_audit_big:
  assumes "disk_serves bound n img" "45 \<le> unat n" "length abuf = AUDIT_BLOB_BUFSZ"
  obtains d' L where "sync_audit bound abuf ledger d = ((audit_home_lba n, of_nat AUDIT_BLOB_BYTES,
      archive_checksum (take AUDIT_BLOB_BYTES L)), d')"
    "img d' = poke (img d) (512 * (unat n - 27)) L" "length L = AUDIT_BLOB_BUFSZ" "audit_image L ledger"
proof -
  obtain L where L: "audit_serialize (Some abuf) 10752 ledger = (Some L, 10272)" "length L = 10752" "audit_image L ledger"
    using audit_serialize_image [of abuf 10752 ledger] assms(3) by auto
  have r: "unat (audit_home_lba n) + unat (21 :: u32) \<le> unat n" "512 * unat (21 :: u32) \<le> length L"
    using assms(2) L(2) by (simp_all add: homes)
  obtain d' where "blkdev_write bound (audit_home_lba n) L 21 d = (True, d')" "img d' = poke (img d) (512 * (unat n - 27)) L"
    using serves_write [OF assms(1) r, of d] L(2) homes(2) [OF assms(2)] by auto
  then show thesis using that [of L d'] assms L by (simp add: sync_audit_def serves_count [OF assms(1)] homes Let_def)
qed

lemma sync_small:
  assumes "disk_serves bound n img" "\<not> 45 \<le> unat n"
  shows "sync_field bound fs d = (Some (0, 0, 0), d)" "sync_audit bound abuf ledger d = ((0, 0, 0), d)"
  using assms by (simp_all add: sync_field_def sync_audit_def serves_count [OF assms(1)] homes Let_def)

lemma length_superblock [simp]: "length (superblock tb nf cs fd ad) = 512"
  by (simp add: superblock_def Let_def split: prod.split)

text \<open>Everything before the archive write, on an honest disk.\<close>

lemma sync_start:
  assumes "disk_serves bound n img" "0 < n" "ramfs_inv files"
  obtains d1 where "img d1 = img d"
    "persist_sync bound heap files fs abuf ledger d =
      (if volume_writable (take 512 (img d)) \<and> archive_fits (unat n) files \<and> heap (fst (archive_size files))
       then (let buf = tar_archive (live_files files) in
         case blkdev_write bound 1 buf (fst (archive_size files) div 512) d1 of (False, d) \<Rightarrow> (None, d)
         | (True, d) \<Rightarrow> (case sync_field bound fs d of (None, d) \<Rightarrow> (None, d)
            | (Some fd, d) \<Rightarrow> (case sync_audit bound abuf ledger d of (ad, d) \<Rightarrow>
               (case blkdev_write bound 0 (superblock (fst (archive_size files)) (snd (archive_size files)) (archive_checksum buf) fd ad) 1 d of
                   (False, d) \<Rightarrow> (None, d) | (True, d) \<Rightarrow> (Some (snd (archive_size files)), d)))))
       else (None, d1))"
proof -
  have "unat (0 :: u32) + unat (1 :: u32) \<le> unat n" using assms(2) by (simp add: word_less_nat_alt)
  then obtain d1 where d1: "blkdev_read bound 0 1 d = (Some (take 512 (img d)), d1)" "img d1 = img d"
    using serves_read [OF assms(1), of 0 1 d] by auto
  obtain t f where tf: "archive_size files = (t, f)" by (meson surj_pair)
  have "persist_sync bound heap files fs abuf ledger d =
      (if volume_writable (take 512 (img d)) \<and> archive_fits (unat n) files \<and> heap (fst (archive_size files))
       then (let buf = tar_archive (live_files files) in
         case blkdev_write bound 1 buf (fst (archive_size files) div 512) d1 of (False, d) \<Rightarrow> (None, d)
         | (True, d) \<Rightarrow> (case sync_field bound fs d of (None, d) \<Rightarrow> (None, d)
            | (Some fd, d) \<Rightarrow> (case sync_audit bound abuf ledger d of (ad, d) \<Rightarrow>
               (case blkdev_write bound 0 (superblock (fst (archive_size files)) (snd (archive_size files)) (archive_checksum buf) fd ad) 1 d of
                   (False, d) \<Rightarrow> (None, d) | (True, d) \<Rightarrow> (Some (snd (archive_size files)), d)))))
       else (None, d1))"
    using fit_check [OF assms(3,2)] unfolding tf fst_conv snd_conv
    by (simp add: persist_sync_def serves_present [OF assms(1)] serves_count [OF assms(1)] d1(1) tf Let_def)
  then show thesis using that d1(2) by blast
qed

text \<open>The medium after a successful sync, on a disk that holds the fixed homes and on a smaller one.\<close>

lemma sync_big:
  assumes "disk_serves bound n img" "ramfs_inv files" "field_inv fs" "length abuf = AUDIT_BLOB_BUFSZ" "45 \<le> unat n"
    "volume_writable (take 512 (img d))" "archive_fits (unat n) files" "heap (fst (archive_size files))"
  obtains d' L SB where "persist_sync bound heap files fs abuf ledger d = (Some (snd (archive_size files)), d')"
    "SB = superblock (fst (archive_size files)) (snd (archive_size files)) (archive_checksum (tar_archive (live_files files)))
       (field_home_lba n, of_nat FIELD_BLOB_BYTES, archive_checksum (take FIELD_BLOB_BYTES (fst (field_blob_write fs))))
       (audit_home_lba n, of_nat AUDIT_BLOB_BYTES, archive_checksum (take AUDIT_BLOB_BYTES L))"
    "img d' = poke (poke (poke (poke (img d) 512 (tar_archive (live_files files))) (512 * (unat n - 43)) (fst (field_blob_write fs)))
       (512 * (unat n - 27)) L) 0 SB"
    "length L = AUDIT_BLOB_BUFSZ" "audit_image L ledger"
proof -
  let ?A = "tar_archive (live_files files)" and ?ts = "fst (archive_size files) div 512"
  have n: "0 < n" using assms(5) by (simp add: word_less_nat_alt)
  obtain d1 where d1: "img d1 = img d" and e: "persist_sync bound heap files fs abuf ledger d =
      (case blkdev_write bound 1 ?A ?ts d1 of (False, d) \<Rightarrow> (None, d)
         | (True, d) \<Rightarrow> (case sync_field bound fs d of (None, d) \<Rightarrow> (None, d)
            | (Some fd, d) \<Rightarrow> (case sync_audit bound abuf ledger d of (ad, d) \<Rightarrow>
               (case blkdev_write bound 0 (superblock (fst (archive_size files)) (snd (archive_size files)) (archive_checksum ?A) fd ad) 1 d of
                   (False, d) \<Rightarrow> (None, d) | (True, d) \<Rightarrow> (Some (snd (archive_size files)), d)))))"
    using sync_start [OF assms(1) n assms(2), of d heap fs abuf ledger] assms(6-8) by (auto simp: Let_def)
  have ts: "512 * unat ?ts = length ?A"
    using length_archive(1,3) [OF assms(2)] by (simp add: unat_div)
  have r1: "unat (1 :: u32) + unat ?ts \<le> unat n" "512 * unat ?ts \<le> length ?A"
    using assms(5,7) ts length_archive(1) [OF assms(2)] unfolding archive_fits_def tar_floor_def by (simp_all add: unat_div)
  obtain d2 where d2: "blkdev_write bound 1 ?A ?ts d1 = (True, d2)" "img d2 = poke (img d) 512 ?A"
    using serves_write [OF assms(1) r1, of d1] ts d1 by auto
  obtain d3 where d3: "sync_field bound fs d2 = (Some (field_home_lba n, of_nat 4888, archive_checksum (take 4888 (fst (field_blob_write fs)))), d3)"
      "img d3 = poke (img d2) (512 * (unat n - 43)) (fst (field_blob_write fs))"
    using sync_field_big [OF assms(1,5,3), of d2] .
  obtain d4 L where d4: "sync_audit bound abuf ledger d3 = ((audit_home_lba n, of_nat 10272, archive_checksum (take 10272 L)), d4)"
      "img d4 = poke (img d3) (512 * (unat n - 27)) L" "length L = 10752" "audit_image L ledger"
    using sync_audit_big [OF assms(1,5,4), of ledger d3] .
  define SB where "SB = superblock (fst (archive_size files)) (snd (archive_size files)) (archive_checksum ?A)
       (field_home_lba n, of_nat 4888, archive_checksum (take 4888 (fst (field_blob_write fs))))
       (audit_home_lba n, of_nat 10272, archive_checksum (take 10272 L))"
  have r0: "unat (0 :: u32) + unat (1 :: u32) \<le> unat n" "512 * unat (1 :: u32) \<le> length SB"
    using assms(5) by (simp_all add: SB_def)
  obtain d5 where d5: "blkdev_write bound 0 SB 1 d4 = (True, d5)" "img d5 = poke (img d4) 0 SB"
    using serves_write [OF assms(1) r0, of d4] by (auto simp: SB_def)
  show thesis
  proof (rule that [OF _ SB_def _ d4(3,4)])
    show "persist_sync bound heap files fs abuf ledger d = (Some (snd (archive_size files)), d5)"
      unfolding e using d2(1) d3(1) d4(1) d5(1) by (simp add: SB_def)
    show "img d5 = poke (poke (poke (poke (img d) 512 ?A) (512 * (unat n - 43)) (fst (field_blob_write fs)))
       (512 * (unat n - 27)) L) 0 SB" using d2(2) d3(2) d4(2) d5(2) by simp
  qed
qed

lemma sync_tiny:
  assumes "disk_serves bound n img" "0 < n" "ramfs_inv files" "\<not> 45 \<le> unat n"
    "volume_writable (take 512 (img d))" "archive_fits (unat n) files" "heap (fst (archive_size files))"
  obtains d' SB where "persist_sync bound heap files fs abuf ledger d = (Some (snd (archive_size files)), d')"
    "img d' = poke (poke (img d) 512 (tar_archive (live_files files))) 0 SB" "length SB = 512"
proof -
  let ?A = "tar_archive (live_files files)" and ?ts = "fst (archive_size files) div 512"
  obtain d1 where d1: "img d1 = img d" and e: "persist_sync bound heap files fs abuf ledger d =
      (case blkdev_write bound 1 ?A ?ts d1 of (False, d) \<Rightarrow> (None, d)
         | (True, d) \<Rightarrow> (case sync_field bound fs d of (None, d) \<Rightarrow> (None, d)
            | (Some fd, d) \<Rightarrow> (case sync_audit bound abuf ledger d of (ad, d) \<Rightarrow>
               (case blkdev_write bound 0 (superblock (fst (archive_size files)) (snd (archive_size files)) (archive_checksum ?A) fd ad) 1 d of
                   (False, d) \<Rightarrow> (None, d) | (True, d) \<Rightarrow> (Some (snd (archive_size files)), d)))))"
    using sync_start [OF assms(1-3), of d heap fs abuf ledger] assms(5-7) by (auto simp: Let_def)
  have ts: "512 * unat ?ts = length ?A"
    using length_archive(1,3) [OF assms(3)] by (simp add: unat_div)
  have r1: "unat (1 :: u32) + unat ?ts \<le> unat n" "512 * unat ?ts \<le> length ?A"
    using assms(2,4,6) ts length_archive(1) [OF assms(3)] unfolding archive_fits_def tar_floor_def
    by (simp_all add: unat_div word_less_nat_alt)
  obtain d2 where d2: "blkdev_write bound 1 ?A ?ts d1 = (True, d2)" "img d2 = poke (img d) 512 ?A"
    using serves_write [OF assms(1) r1, of d1] ts d1 by auto
  define SB where "SB = superblock (fst (archive_size files)) (snd (archive_size files)) (archive_checksum ?A) (0, 0, 0) (0, 0, 0)"
  have r0: "unat (0 :: u32) + unat (1 :: u32) \<le> unat n" "512 * unat (1 :: u32) \<le> length SB"
    using assms(2) by (simp_all add: SB_def word_less_nat_alt)
  obtain d3 where d3: "blkdev_write bound 0 SB 1 d2 = (True, d3)" "img d3 = poke (img d2) 0 SB"
    using serves_write [OF assms(1) r0, of d2] by (auto simp: SB_def)
  show thesis
  proof (rule that [of d3 SB])
    show "persist_sync bound heap files fs abuf ledger d = (Some (snd (archive_size files)), d3)"
      unfolding e using d2(1) d3(1) by (simp add: sync_small [OF assms(1,4)] SB_def)
    show "img d3 = poke (poke (img d) 512 ?A) 0 SB" using d2(2) d3(2) by simp
    show "length SB = 512" by (simp add: SB_def)
  qed
qed

text \<open>The bytes a sync may change: the superblock and the archive below the floor, and on a disk that
  holds them the two blobs at their homes.\<close>

definition sync_may_touch :: "nat \<Rightarrow> nat \<Rightarrow> bool" where
  "sync_may_touch n i \<longleftrightarrow> i < 512 * tar_floor n
     \<or> (45 \<le> n \<and> 512 * (n - 43) \<le> i \<and> i < 512 * (n - 33))
     \<or> (45 \<le> n \<and> 512 * (n - 27) \<le> i \<and> i < 512 * (n - 6))"

lemma archive_end: "archive_fits n files \<Longrightarrow> ramfs_inv files \<Longrightarrow> 512 + length (tar_archive (live_files files)) \<le> 512 * tar_floor n"
proof -
  assume f: "archive_fits n files" and inv: "ramfs_inv files"
  have "length (tar_archive (live_files files)) = 512 * (length (tar_archive (live_files files)) div 512)"
    using length_archive(3) [OF inv] by simp
  then show ?thesis using f unfolding archive_fits_def by linarith
qed

lemma tar_floor_le: "tar_floor n \<le> n - 1"
  unfolding tar_floor_def by (simp add: diff_le_mono2)

lemma length_archive_pos: "1024 \<le> length (tar_archive fs)"
  by (simp add: tar_archive_def)

lemma big_outside:
  assumes "45 \<le> n" "length b = 512 * n" "512 + length A \<le> 512 * tar_floor n" "length F = 5120" "length L = 10752"
    "length SB = 512" "i < length b" "\<not> sync_may_touch n i"
  shows "poke (poke (poke (poke b 512 A) (512 * (n - 43)) F) (512 * (n - 27)) L) 0 SB ! i = b ! i"
proof -
  have f: "512 * tar_floor n \<le> 512 * (n - 1)" using tar_floor_le [of n] by simp
  have k: "512 * tar_floor n \<le> i" "\<not> (512 * (n - 43) \<le> i \<and> i < 512 * (n - 43) + 5120)"
    "\<not> (512 * (n - 27) \<le> i \<and> i < 512 * (n - 27) + 10752)"
    using assms(1,8) unfolding sync_may_touch_def by auto
  have p: "512 + length A \<le> length b" "512 * (n - 43) + 5120 \<le> length b"
    "512 * (n - 27) + 10752 \<le> length b" "512 \<le> length b"
    using assms(1-3) f by auto
  show ?thesis using p k assms(3-7) by (simp add: nth_poke) blast
qed

lemma tiny_outside:
  assumes "0 < n" "length b = 512 * n" "512 + length A \<le> 512 * tar_floor n" "length SB = 512"
    "i < length b" "\<not> sync_may_touch n i"
  shows "poke (poke b 512 A) 0 SB ! i = b ! i"
proof -
  have f: "512 * tar_floor n \<le> 512 * (n - 1)" using tar_floor_le [of n] by simp
  have k: "512 * tar_floor n \<le> i" using assms(6) unfolding sync_may_touch_def by auto
  have p: "512 + length A \<le> length b" "512 \<le> length b" using assms(1-3) f by auto
  show ?thesis using p k assms(3-5) by (simp add: nth_poke)
qed


text \<open>A foreign volume on a RAM disk: refused, and the medium stays as it was.\<close>

lemma field_boot_inv: "field_inv field_boot"
  by (rule field_reachable_inv [OF reach_boot])


section \<open>The restore\<close>

lemma restore_cb_put: "restore_cb mem = overlay.put mem"
  by (intro ext) (simp add: restore_cb_def overlay.put_def)

text \<open>A driver whose successful reads fill the caller's buffer.\<close>

definition reads_fill :: "'d blkdev_ops_t option \<Rightarrow> bool" where
  "reads_fill bound \<longleftrightarrow> (\<forall>lba cnt d buf d'. blkdev_read bound lba cnt d = (Some buf, d') \<longrightarrow> length buf = 512 * unat cnt)"

lemma restore_fs_inv:
  assumes "ramfs_inv files" "\<And>t. alloc_ok (mem t)"
  shows "ramfs_inv (fst (restore_fs_section bound heap mem sb files d))"
proof -
  have walk: "ramfs_inv (snd (tar_walk_mem (restore_cb mem) base (0, files)))" for base
  proof -
    obtain fs where fs: "\<forall>(n, d)\<in>set fs. visitable base n d"
        "tar_walk_from (restore_cb mem) base 0 (0, files) = visit_all (restore_cb mem) fs (0, files)"
      using walk_contained [of base "restore_cb mem" 0 "(0, files)"] by blast
    have "\<forall>(n, d)\<in>set fs. 0 \<notin> set n" using fs(1) by (auto simp: visitable_def)
    then have "ramfs_inv (snd (visit_all (overlay.put mem) fs (0, files)))"
      by (rule overlay.restore_inv [OF assms])
    then have "ramfs_inv (snd (visit_all (restore_cb mem) fs (0, files)))" unfolding restore_cb_put .
    then show ?thesis unfolding tar_walk_mem_def fs(2) .
  qed
  show ?thesis unfolding restore_fs_section_def Let_def
    using assms(1) walk by (auto split: prod.split option.split)
qed

lemma restore_field_inv:
  assumes "field_inv fs" "reads_fill bound"
  shows "field_inv (fst (restore_field_section bound sb fs d))"
proof -
  have "field_inv (snd (field_blob_load blob 4888 fs))" if "blkdev_read bound lba 10 d = (Some blob, d')" for lba d d' blob
    using that assms(2) unfolding reads_fill_def by (intro load_inv [OF assms(1)]) force
  then show ?thesis unfolding restore_field_section_def Let_def
    using assms(1) by (auto split: prod.split option.split)
qed

definition ledger_restored :: "audit_state \<Rightarrow> bool" where
  "ledger_restored st \<longleftrightarrow> coalesce_floor st = total st \<and> unat (total st) \<le> 281474976710656
     \<and> (\<forall>i<AUDIT_LOG_ENTRIES. ae_tick (ring st i) = 0)"

lemma audit_load_restored: "snd (audit_load buf len st) = st \<or> ledger_restored (snd (audit_load buf len st))"
proof -
  have "\<not> x > push_bit 48 (1 :: u64) \<Longrightarrow> unat x \<le> 281474976710656" for x by (simp add: word_less_nat_alt)
  then show ?thesis unfolding audit_load_def ledger_restored_def Let_def by (auto split: option.split)
qed

lemma restore_audit_cases:
  "fst (restore_audit_section bound sb ledger d) = ledger \<or> ledger_restored (fst (restore_audit_section bound sb ledger d))"
  unfolding restore_audit_section_def Let_def using audit_load_restored
  by (auto split: prod.split option.split)

text \<open>A restore trusts nothing on the disk. Whatever the driver answers, a disk rewritten by an attacker
  included, the overlay afterwards satisfies its invariant (names, sizes, buffers), every field slot is
  well formed, and the ledger is either the one before or has a sealed boundary, a plausible record
  count and boot-relative ticks cleared.\<close>

theorem persist_restore_sound:
  assumes "ramfs_inv (du_files du)" "field_inv (du_field du)" "reads_fill bound" "\<forall>t. alloc_ok (mem t)"
  shows "ramfs_inv (du_files (fst (persist_restore bound heap mem du d)))
    \<and> field_inv (du_field (fst (persist_restore bound heap mem du d)))
    \<and> (du_ledger (fst (persist_restore bound heap mem du d)) = du_ledger du
       \<or> ledger_restored (du_ledger (fst (persist_restore bound heap mem du d))))"
proof -
  obtain r d1 where r: "blkdev_read bound 0 1 d = (r, d1)" by (meson surj_pair)
  show ?thesis
  proof (cases "\<not> blkdev_present bound d \<or> r = None \<or> take 5 (the r) \<noteq> QDSK_MAGIC")
    case True
    then have "fst (persist_restore bound heap mem du d) = du" using r by (auto simp: persist_restore_def split: option.split)
    then show ?thesis using assms by simp
  next
    case False
    then obtain sb where sb: "r = Some sb" "take 5 sb = QDSK_MAGIC" "blkdev_present bound d" by auto
    obtain files d2 where f: "restore_fs_section bound heap mem sb (du_files du) d1 = (files, d2)" by (meson surj_pair)
    obtain fs d3 where g: "restore_field_section bound sb (du_field du) d2 = (fs, d3)" by (meson surj_pair)
    obtain ledger d4 where h: "restore_audit_section bound sb (du_ledger du) d3 = (ledger, d4)" by (meson surj_pair)
    have "fst (persist_restore bound heap mem du d) = \<lparr>du_files = files, du_field = fs, du_ledger = ledger\<rparr>"
      using r sb f g h by (simp add: persist_restore_def)
    then show ?thesis
      using restore_fs_inv [OF assms(1), of mem bound heap sb d1] restore_field_inv [OF assms(2,3), of sb d2]
        restore_audit_cases [of bound sb "du_ledger du" d3] assms(4) f g h by simp
  qed
qed

lemma ram_disk_fills: "reads_fill (Some (ram_disk n))"
  by (auto simp: reads_fill_def blkdev_read_def ram_disk_def split: if_splits)

theorem persist_restore_sound_witness:
  "ramfs_inv (du_files (fst (persist_restore (Some (ram_disk 64)) (\<lambda>_. True) (\<lambda>_. Some (replicate 65536 0))
     \<lparr>du_files = ramfs_boot, du_field = field_boot, du_ledger = audit_boot\<rparr> ([81, 68, 83, 75, 49] @ replicate 32763 255))))"
proof (rule persist_restore_sound [THEN conjunct1])
  show "\<forall>t :: ramfs. alloc_ok (Some (replicate 65536 0))" by (simp add: alloc_ok_def)
qed (simp_all add: ramfs_inv_boot field_boot_inv ram_disk_fills)

section \<open>The round trip\<close>

lemma take_poke: "n \<le> off \<Longrightarrow> off \<le> length b \<Longrightarrow> take n (poke b off xs) = take n b"
  by (simp add: poke_def min_def)

lemma superblock_fields:
  "take 5 (superblock tb nf cs (fl, fb, fc) (al, ab, ac)) = QDSK_MAGIC"
  "get32 (superblock tb nf cs (fl, fb, fc) (al, ab, ac)) 8 = tb"
  "get32 (superblock tb nf cs (fl, fb, fc) (al, ab, ac)) 16 = cs"
  "get32 (superblock tb nf cs (fl, fb, fc) (al, ab, ac)) 32 = fl"
  "get32 (superblock tb nf cs (fl, fb, fc) (al, ab, ac)) 36 = fb"
  "get32 (superblock tb nf cs (fl, fb, fc) (al, ab, ac)) 40 = fc"
  "get32 (superblock tb nf cs (fl, fb, fc) (al, ab, ac)) 44 = al"
  "get32 (superblock tb nf cs (fl, fb, fc) (al, ab, ac)) 48 = ab"
  "get32 (superblock tb nf cs (fl, fb, fc) (al, ab, ac)) 52 = ac"
proof -
  have "take 5 (superblock tb nf cs (fl, fb, fc) (al, ab, ac)) = take 5 (poke (replicate 512 0) 0 [81, 68, 83, 75, 49])"
    unfolding superblock_def Let_def split by (simp add: take_poke)
  then show "take 5 (superblock tb nf cs (fl, fb, fc) (al, ab, ac)) = QDSK_MAGIC" by (simp add: poke_def)
qed (simp_all add: superblock_def get32_poke_same get32_poke_other)

text \<open>Reading the four written ranges back.\<close>

lemma read_back:
  assumes "512 + length A \<le> fo" "fo + length F \<le> lo" "lo + length L \<le> length b" "length SB = 512"
  shows "take 512 (poke (poke (poke (poke b 512 A) fo F) lo L) 0 SB) = SB"
    and "take (length A) (drop 512 (poke (poke (poke (poke b 512 A) fo F) lo L) 0 SB)) = A"
    and "take (length F) (drop fo (poke (poke (poke (poke b 512 A) fo F) lo L) 0 SB)) = F"
    and "take (length L) (drop lo (poke (poke (poke (poke b 512 A) fo F) lo L) 0 SB)) = L"
proof -
  let ?p1 = "poke b 512 A" and ?p2 = "poke (poke b 512 A) fo F" and ?p3 = "poke (poke (poke b 512 A) fo F) lo L"
  have l: "512 + length A \<le> length b" "fo + length F \<le> length b" "512 \<le> length b" "512 \<le> fo" "512 \<le> lo"
    "512 + length A \<le> lo" using assms by linarith+
  have l1: "length ?p1 = length b" using l(1) by (rule length_poke)
  have l2: "length ?p2 = length b" using length_poke [of fo F ?p1] l(2) l1 by simp
  have l3: "length ?p3 = length b" using length_poke [of lo L ?p2] assms(3) l2 by simp
  have "take 512 (drop 0 (poke ?p3 0 SB)) = SB"
    by (rule take_drop_poke_same) (simp_all only: assms(4) l3 l(3) add_0)
  then show "take 512 (poke ?p3 0 SB) = SB" unfolding drop_0 .
  have sb: "take k (drop i (poke ?p3 0 SB)) = take k (drop i ?p3)" if "512 \<le> i" "i + k \<le> length b" for k i
    by (rule take_drop_poke_other) (use that assms(4) l(3) l3 in simp_all)
  have "take (length A) (drop 512 ?p3) = take (length A) (drop 512 ?p2)"
    by (rule take_drop_poke_other) (use assms(3) l l2 in simp_all)
  also have "\<dots> = take (length A) (drop 512 ?p1)"
    by (rule take_drop_poke_other) (use assms(1) l l1 in simp_all)
  also have "\<dots> = A" by (rule take_drop_poke_same) (use l in simp_all)
  finally show "take (length A) (drop 512 (poke ?p3 0 SB)) = A" using sb [of 512 "length A"] l(1) by simp
  have "take (length F) (drop fo ?p3) = take (length F) (drop fo ?p2)"
    by (rule take_drop_poke_other) (use assms(2,3) l l2 in simp_all)
  also have "\<dots> = F" by (rule take_drop_poke_same) (use l l1 in simp_all)
  finally show "take (length F) (drop fo (poke ?p3 0 SB)) = F" using sb [of fo "length F"] l by simp
  have "take (length L) (drop lo ?p3) = L" by (rule take_drop_poke_same) (use assms(3) l2 in simp_all)
  then show "take (length L) (drop lo (poke ?p3 0 SB)) = L" using sb [of lo "length L"] l assms(3) by simp
qed

lemma restore_fs_exact:
  assumes serves: "disk_serves bound n img" and inv: "ramfs_inv files"
    and sb: "get32 sb 8 = fst (archive_size files)" "get32 sb 16 = archive_checksum (tar_archive (live_files files))"
    and disk: "take (length (tar_archive (live_files files))) (drop 512 (img d)) = tar_archive (live_files files)"
    and fits: "archive_fits (unat n) files" and n: "45 \<le> unat n"
    and heap: "heap (fst (archive_size files))" and stable: "\<forall>(nm, d)\<in>set (live_files files). normalize nm = nm"
    and mem: "\<And>t. mem t \<noteq> None" "\<And>t. alloc_ok (mem t)"
  obtains files' d' where "restore_fs_section bound heap mem sb ramfs_boot d = (files', d')" "img d' = img d"
    "ramfs_abs files' = ramfs_abs files"
proof -
  let ?A = "tar_archive (live_files files)" and ?t = "fst (archive_size files)"
  have T: "unat ?t = length ?A" "length ?A \<le> 1057792" "512 dvd length ?A" using length_archive [OF inv] by blast+
  have pos: "1024 \<le> length ?A" by (rule length_archive_pos)
  have n1: "unat (n - 1) = unat n - 1" using n by (subst unat_sub) (simp_all add: word_le_nat_alt)
  have le: "length ?A div 512 \<le> unat n - 1" using fits n unfolding archive_fits_def tar_floor_def by simp
  have checks: "\<not> (?t < 1024 \<or> ?t mod 512 \<noteq> 0 \<or> ?t > 1057792 \<or> ?t div 512 > n - 1)"
    using T pos le n1 by (simp add: word_less_nat_alt unat_div word_unat_eq_iff unat_mod)
  have ts: "512 * unat (?t div 512) = length ?A" using T by (simp add: unat_div)
  have r: "unat (1 :: u32) + unat (?t div 512) \<le> unat n" using le n T(1) by (simp add: unat_div)
  obtain d' where d': "blkdev_read bound 1 (?t div 512) d = (Some ?A, d')" "img d' = img d"
    using serves_read [OF serves r, of d] disk ts by auto
  have ok: "\<forall>(nm, d)\<in>set (live_files files). member_ok nm d" by (rule live_member_ok [OF inv])
  have "map (apfst normalize) (live_files files) = live_files files"
    using stable by (intro map_idI) (auto simp: apfst_def map_prod_def)
  then have walk: "tar_walk_mem (restore_cb mem) ?A (0, ramfs_boot) = visit_all (overlay.put mem) (live_files files) (0, ramfs_boot)"
    using walk_members [OF ok, of "restore_cb mem" "[]" "(0, ramfs_boot)"]
    by (simp add: tar_walk_mem_def tar_archive_def restore_cb_put)
  have good: "\<forall>(nm, d)\<in>set (live_files files). 0 \<notin> set nm \<and> nm \<noteq> [] \<and> normalize nm = nm \<and> length nm \<le> 100 \<and> length d \<le> 65536"
  proof (intro ballI, unfold split_paired_all split)
    fix nm d assume m: "(nm, d) \<in> set (live_files files)"
    then obtain i where i: "i < 16" "rused (files i)" "nm = rname (files i)" "d = file_content (files i)"
      unfolding live_files_map by (auto simp: set_live_slots)
    have f: "file_ok (files i)" by (rule inv_file [OF inv i(1,2)])
    have "normalize nm = nm" using stable m by blast
    then show "0 \<notin> set nm \<and> nm \<noteq> [] \<and> normalize nm = nm \<and> length nm \<le> 100 \<and> length d \<le> 65536"
      using f i length_content [OF inv i(1,2)] by (simp add: file_ok_def)
  qed
  have d0: "dom (ramfs_abs ramfs_boot) \<inter> fst ` set (live_files files) = {}"
    "card (dom (ramfs_abs ramfs_boot)) + length (live_files files) \<le> 16"
    using length_live [of files] by (simp_all add: abs_boot)
  obtain files' where f': "visit_all (overlay.put mem) (live_files files) (0, ramfs_boot) = (0 + of_nat (length (live_files files)), files')"
      "ramfs_abs files' = ramfs_abs ramfs_boot ++ map_of (live_files files)"
    using overlay.restore_exact [where mem = mem and c = 0, OF ramfs_inv_boot mem live_files_store(1) [OF inv] good d0] by blast
  have "restore_fs_section bound heap mem sb ramfs_boot d = (files', d')"
    using checks heap d'(1) walk f'(1) T(1) serves_count [OF serves, of d] sb
    unfolding restore_fs_section_def Let_def by simp
  moreover have "ramfs_abs files' = ramfs_abs files" using f'(2) live_files_store(2) [OF inv] by (simp add: abs_boot)
  ultimately show thesis using that d'(2) by blast
qed

lemma restore_field_exact:
  assumes serves: "disk_serves bound n img" and inv: "field_inv fs" and n: "45 \<le> unat n"
    and sb: "get32 sb 32 = field_home_lba n" "get32 sb 36 = of_nat FIELD_BLOB_BYTES"
      "get32 sb 40 = archive_checksum (take FIELD_BLOB_BYTES (fst (field_blob_write fs)))"
    and disk: "take 5120 (drop (512 * (unat n - 43)) (img d)) = fst (field_blob_write fs)"
  obtains fs' d' where "restore_field_section bound sb fs0 d = (fs', d')" "img d' = img d"
    "\<forall>rg<FIELD_REGION_COUNT. \<forall>i<FIELD_SLOTS. regions fs' rg i = (regions fs rg i)\<lparr>imprint_tick := 0\<rparr>"
proof -
  have fh: "field_home_lba n \<noteq> 0" using homes(3) [OF n] n by auto
  have r: "unat (field_home_lba n) + unat (10 :: u32) \<le> unat n" using homes(3) [OF n] n by simp
  obtain d' where d': "blkdev_read bound (field_home_lba n) 10 d = (Some (fst (field_blob_write fs)), d')" "img d' = img d"
    using serves_read [OF serves r, of d] disk homes(3) [OF n] by auto
  obtain fs' where fs': "field_blob_load (fst (field_blob_write fs)) 4888 fs0 = (Some (snd (field_blob_write fs)), fs')"
      "\<forall>rg<8. \<forall>i<8. regions fs' rg i = (regions fs rg i)\<lparr>imprint_tick := 0\<rparr>"
    using field_blob_restores [OF inv, of fs0] by blast
  have "restore_field_section bound sb fs0 d = (fs', d')"
    using sb fh d'(1) fs'(1) serves_count [OF serves, of d] by (simp add: restore_field_section_def)
  then show thesis using that d'(2) fs'(2) by blast
qed

lemma restore_audit_exact:
  assumes serves: "disk_serves bound n img" and n: "45 \<le> unat n" and L: "audit_image L ledger"
    and total: "unat (total ledger) \<le> 281474976710656"
    and sb: "get32 sb 44 = audit_home_lba n" "get32 sb 48 = of_nat AUDIT_BLOB_BYTES"
      "get32 sb 52 = archive_checksum (take AUDIT_BLOB_BYTES L)"
    and disk: "take 10752 (drop (512 * (unat n - 27)) (img d)) = L"
  obtains d' where "restore_audit_section bound sb l0 d =
      (\<lparr>ring = (\<lambda>i. if i < AUDIT_LOG_ENTRIES then (ring ledger i)\<lparr>ae_tick := 0\<rparr> else ring l0 i),
         total = total ledger, coalesce_floor = total ledger\<rparr>, d')"
proof -
  have ah: "audit_home_lba n \<noteq> 0" using homes(2) [OF n] n by auto
  have r: "unat (audit_home_lba n) + unat (of_nat 21 :: u32) \<le> unat n" using homes(2) [OF n] n by simp
  obtain d' where d': "blkdev_read bound (audit_home_lba n) (of_nat 21) d = (Some L, d')"
    using serves_read [OF serves r, of d] disk homes(2) [OF n] by auto
  show thesis
    by (rule that [of d']) (use sb ah d' serves_count [OF serves, of d] homes(1) [of n] n
      audit_load_image [OF L total, of 10272 l0] in \<open>simp add: restore_audit_section_def\<close>)
qed

lemma synced_medium:
  assumes serves: "disk_serves bound n img" and n: "45 \<le> unat n" and inv: "ramfs_inv files" "field_inv fs"
    and fits: "archive_fits (unat n) files"
    and med: "img d1 = poke (poke (poke (poke (img d) 512 (tar_archive (live_files files))) (512 * (unat n - 43)) (fst (field_blob_write fs)))
      (512 * (unat n - 27)) L) 0 SB" and L: "length L = AUDIT_BLOB_BUFSZ" and SB: "length SB = 512"
  shows "take 512 (img d1) = SB"
    "take (length (tar_archive (live_files files))) (drop 512 (img d1)) = tar_archive (live_files files)"
    "take 5120 (drop (512 * (unat n - 43)) (img d1)) = fst (field_blob_write fs)"
    "take 10752 (drop (512 * (unat n - 27)) (img d1)) = L"
proof -
  let ?A = "tar_archive (live_files files)" and ?F = "fst (field_blob_write fs)"
  have F: "length ?F = 5120" by (rule length_field_blob [OF inv(2)])
  have "512 + length ?A \<le> 512 * (unat n - 43)" using archive_end [OF fits inv(1)] n by (simp add: tar_floor_def)
  moreover have "512 * (unat n - 43) + length ?F \<le> 512 * (unat n - 27)"
    "512 * (unat n - 27) + length L \<le> length (img d)" using F L n serves_length [OF serves, of d] by simp_all
  ultimately show "take 512 (img d1) = SB" "take (length ?A) (drop 512 (img d1)) = ?A"
    "take 5120 (drop (512 * (unat n - 43)) (img d1)) = ?F" "take 10752 (drop (512 * (unat n - 27)) (img d1)) = L"
    using read_back [of "?A" "512 * (unat n - 43)" "?F" "512 * (unat n - 27)" L "img d" SB] SB F L unfolding med by simp_all
qed


text \<open>An overlay with one file, on a blank RAM disk of 4096 sectors.\<close>

definition demo_files :: ramfs where
  "demo_files = snd (run_ops ram_exec [Op_create (Some (replicate 65536 0)) [46, 47, 97], Op_write [97] [1, 2, 3]] ramfs_boot)"

lemma demo_files_store: "ramfs_inv demo_files" "ramfs_abs demo_files = [[97] \<mapsto> [1, 2, 3]]"
proof -
  let ?op1 = "Op_create (Some (replicate 65536 0)) [46, 47, 97]" and ?op2 = "Op_write [97] [1, 2, 3]"
  obtain r1 st1 where e1: "ram_exec ?op1 ramfs_boot = (r1, st1)" by (meson surj_pair)
  obtain r2 st2 where e2: "ram_exec ?op2 st1 = (r2, st2)" by (meson surj_pair)
  have "op_ok ?op1" "op_ok ?op2" by (simp_all add: alloc_ok_def)
  then have 1: "ramfs_inv st1 \<and> store_exec ?op1 (ramfs_abs ramfs_boot) = (r1, ramfs_abs st1)"
    using exec_refines [OF ramfs_inv_boot _ e1] by blast
  then have 2: "ramfs_inv st2 \<and> store_exec ?op2 (ramfs_abs st1) = (r2, ramfs_abs st2)"
    using exec_refines [OF _ _ e2] \<open>op_ok ?op2\<close> by blast
  have a1: "ramfs_abs st1 = [[97] \<mapsto> []]" using 1 by (simp add: abs_boot normalize_def)
  have "demo_files = st2" unfolding demo_files_def using e1 e2 by simp
  then show "ramfs_inv demo_files" "ramfs_abs demo_files = [[97] \<mapsto> [1, 2, 3]]"
    using 2 a1 by (simp_all add: normalize_def)
qed


text \<open>A name may be its own normal form only after one more pass: the file created as \<open>././x\<close> is stored as
  \<open>./x\<close>, and a lookup of that name normalizes again and misses it.\<close>

lemma dot_name_not_stable:
  "fst (ramfs_create (Some (replicate 65536 0)) (Some [46, 47, 46, 47, 120]) ramfs_boot) = Some 0
   \<and> normalize [46, 47, 46, 47, 120] = [46, 47, 120] \<and> normalize [46, 47, 120] = [120]"
proof -
  have n: "normalize [46, 47, 46, 47, 120] = [46, 47, 120]" by (simp add: normalize_def)
  have "find_by_name [46, 47, 120] ramfs_boot = None" unfolding find_by_name_None by (simp add: ramfs_boot_def)
  moreover have "first_idx (\<lambda>i. \<not> rused (ramfs_boot i)) 0 16 = Some 0" by (simp add: first_idx.simps ramfs_boot_def)
  ultimately show ?thesis by (simp add: ramfs_create_def n) (simp add: normalize_def)
qed

end
