(* ===== verification/Qpu.thy ===== *)
theory Qpu
  imports Authority
begin

text \<open>
  The quantum job broker (\<open>kernel/src/qpu.c\<close>, \<open>kernel/include/kernel/qpu.h\<close>) and its system call
  (\<open>sys_qpu\<close> of \<open>kernel/src/syscall.c\<close>). The four job slots are a function from index to record; the
  kernel state supplies capabilities, manifests, ledger and process generations. User memory is an
  argument: a request is \<open>None\<close> when the span cannot be read, an output pointer is the flag whether it can
  be written. Circuits and results are the 256 and 128 byte buffers.
\<close>

section \<open>State\<close>

abbreviation (input) QPU_MAX_JOBS :: nat where "QPU_MAX_JOBS \<equiv> 4"
abbreviation (input) QPU_INFLIGHT_MAX :: nat where "QPU_INFLIGHT_MAX \<equiv> 2"
abbreviation (input) QPU_CIRCUIT_MAX :: u32 where "QPU_CIRCUIT_MAX \<equiv> 256"
abbreviation (input) QPU_RESULT_MAX :: u32 where "QPU_RESULT_MAX \<equiv> 128"
abbreviation (input) QPU_STATUS_OK :: u32 where "QPU_STATUS_OK \<equiv> 0"
abbreviation (input) QPU_STATUS_EXECFAIL :: u32 where "QPU_STATUS_EXECFAIL \<equiv> 1"
abbreviation (input) QPU_POLL_PENDING :: u64 where "QPU_POLL_PENDING \<equiv> 1"
abbreviation (input) QPU_POLL_RUNNING :: u64 where "QPU_POLL_RUNNING \<equiv> 2"
abbreviation (input) QPU_POLL_DONE :: u64 where "QPU_POLL_DONE \<equiv> 3"
abbreviation (input) SYSCALL_ENOENT :: u64 where "SYSCALL_ENOENT \<equiv> - 6"

datatype qpu_job_state = QPU_JOB_FREE | QPU_JOB_PENDING | QPU_JOB_RUNNING | QPU_JOB_DONE

record qpu_job_t =
  qj_state :: qpu_job_state
  orphaned :: bool
  qj_status :: u32
  job_id :: u32
  owner_pid :: u32
  owner_generation :: u32
  executor_pid :: u32
  executor_generation :: u32
  circuit_len :: u32
  result_len :: u32
  circuit :: bytes
  result :: bytes

record qpu_state =
  jobs :: "nat \<Rightarrow> qpu_job_t"
  next_job_id :: u32

record qpu_submit_req_t =
  sr_circuit_len :: u32
  sr_circuit :: bytes

record qpu_fetch_out_t =
  fo_job_id :: u32
  fo_owner_pid :: u32
  fo_circuit_len :: u32
  fo_circuit :: bytes

record qpu_complete_req_t =
  cr_job_id :: u32
  cr_status :: u32
  cr_result_len :: u32
  cr_result :: bytes

record qpu_poll_out_t =
  po_state :: u32
  po_status :: u32
  po_result_len :: u32
  po_result :: bytes

text \<open>The scrubbed slot, all zero.\<close>

definition slot_freed :: qpu_job_t where
  "slot_freed = \<lparr>qj_state = QPU_JOB_FREE, orphaned = False, qj_status = 0, job_id = 0, owner_pid = 0,
     owner_generation = 0, executor_pid = 0, executor_generation = 0, circuit_len = 0, result_len = 0,
     circuit = replicate 256 0, result = replicate 128 0\<rparr>"

definition slot_free :: "nat \<Rightarrow> qpu_state \<Rightarrow> qpu_state" where
  "slot_free i q = q\<lparr>jobs := (jobs q)(i := slot_freed)\<rparr>"

definition qpu_boot :: qpu_state where
  "qpu_boot = \<lparr>jobs = (\<lambda>_. slot_freed), next_job_id = 1\<rparr>"

section \<open>Broker operations\<close>

definition qpu_inflight :: "u32 \<Rightarrow> qpu_state \<Rightarrow> nat" where
  "qpu_inflight pid q =
     length (filter (\<lambda>i. qj_state (jobs q i) \<noteq> QPU_JOB_FREE \<and> owner_pid (jobs q i) = pid) [0..<QPU_MAX_JOBS])"

definition qpu_submit :: "u64 \<Rightarrow> u32 \<Rightarrow> qpu_submit_req_t \<Rightarrow> kernel_state \<Rightarrow> qpu_state \<Rightarrow> u64 \<times> kernel_state \<times> qpu_state" where
  "qpu_submit now pid req k q =
     (case manifest_qsub_precheck now pid (k_man k) (k_ledger k) of
        (False, l) \<Rightarrow> (SYSCALL_EPERM, set_ledger l k, q)
      | (True, l) \<Rightarrow>
        let k = set_ledger l k; len = sr_circuit_len req in
        if len = 0 \<or> len > QPU_CIRCUIT_MAX then (SYSCALL_EINVAL, k, q)
        else if qpu_inflight pid q \<ge> QPU_INFLIGHT_MAX then (SYSCALL_EIO, k, q)
        else case first_idx (\<lambda>i. qj_state (jobs q i) = QPU_JOB_FREE) 0 QPU_MAX_JOBS of
          None \<Rightarrow> (SYSCALL_EIO, k, q)
        | Some i \<Rightarrow>
          let jid = next_job_id q;
              j = (jobs q i)\<lparr>circuit := poke (circuit (jobs q i)) 0 (take (unat len) (sr_circuit req)),
                    circuit_len := len, owner_pid := pid, owner_generation := process_get_generation pid k,
                    job_id := jid, qj_state := QPU_JOB_PENDING\<rparr>;
              q = q\<lparr>jobs := (jobs q)(i := j), next_job_id := (if jid + 1 = 0 then 1 else jid + 1)\<rparr>;
              k = k\<lparr>k_man := manifest_qsub_charge pid (k_man k)\<rparr>;
              k = set_ledger (audit_record now AUDIT_QSUBMIT pid AUDIT_V_OK CAP_RESOURCE_DEVICE DEVICE_ID_QPU CAP_WRITE (k_ledger k)) k
          in (ucast jid, k, q))"

text \<open>The oldest pending job: the smallest id, the first slot on a tie.\<close>

definition oldest_pending :: "qpu_state \<Rightarrow> nat option" where
  "oldest_pending q = fold (\<lambda>i old. if qj_state (jobs q i) = QPU_JOB_PENDING
       \<and> (case old of None \<Rightarrow> True | Some o' \<Rightarrow> job_id (jobs q i) < job_id (jobs q o'))
     then Some i else old) [0..<QPU_MAX_JOBS] None"

definition qpu_fetch :: "u32 \<Rightarrow> kernel_state \<Rightarrow> qpu_state \<Rightarrow> (u64 \<times> qpu_fetch_out_t option) \<times> qpu_state" where
  "qpu_fetch pid k q =
     (case oldest_pending q of None \<Rightarrow> ((0, None), q)
      | Some i \<Rightarrow>
        let j = (jobs q i)\<lparr>qj_state := QPU_JOB_RUNNING, executor_pid := pid, executor_generation := process_get_generation pid k\<rparr>
        in ((ucast (job_id j), Some \<lparr>fo_job_id = job_id j, fo_owner_pid = owner_pid j, fo_circuit_len = circuit_len j,
              fo_circuit = poke (replicate 256 0) 0 (take (unat (circuit_len j)) (circuit j))\<rparr>),
            q\<lparr>jobs := (jobs q)(i := j)\<rparr>))"

definition qpu_complete :: "u64 \<Rightarrow> u32 \<Rightarrow> qpu_complete_req_t \<Rightarrow> kernel_state \<Rightarrow> qpu_state \<Rightarrow> u64 \<times> kernel_state \<times> qpu_state" where
  "qpu_complete now pid req k q =
     (if cr_result_len req > QPU_RESULT_MAX then (SYSCALL_EINVAL, k, q)
      else case first_idx (\<lambda>i. qj_state (jobs q i) = QPU_JOB_RUNNING \<and> job_id (jobs q i) = cr_job_id req) 0 QPU_MAX_JOBS of
        None \<Rightarrow> (SYSCALL_ENOENT, k, q)
      | Some i \<Rightarrow>
        let j = jobs q i in
        if executor_pid j \<noteq> pid \<or> executor_generation j \<noteq> process_get_generation pid k
        then (SYSCALL_EPERM, kernel_deny now pid CAP_RESOURCE_DEVICE DEVICE_ID_QPU CAP_EXECUTE k, q)
        else if orphaned j then (0, k, slot_free i q)
        else (0, k, q\<lparr>jobs := (jobs q)(i := j\<lparr>
               qj_status := (if cr_status req = QPU_STATUS_OK then QPU_STATUS_OK else QPU_STATUS_EXECFAIL),
               result_len := cr_result_len req,
               result := poke (result j) 0 (take (unat (cr_result_len req)) (cr_result req)),
               qj_state := QPU_JOB_DONE\<rparr>)\<rparr>))"

definition qpu_poll :: "u32 \<Rightarrow> u32 \<Rightarrow> kernel_state \<Rightarrow> qpu_state \<Rightarrow> (u64 \<times> qpu_poll_out_t option) \<times> qpu_state" where
  "qpu_poll pid jid k q =
     (case first_idx (\<lambda>i. qj_state (jobs q i) \<noteq> QPU_JOB_FREE \<and> job_id (jobs q i) = jid) 0 QPU_MAX_JOBS of
        None \<Rightarrow> ((SYSCALL_ENOENT, None), q)
      | Some i \<Rightarrow>
        let j = jobs q i in
        if owner_pid j \<noteq> pid \<or> owner_generation j \<noteq> process_get_generation pid k then ((SYSCALL_ENOENT, None), q)
        else if qj_state j = QPU_JOB_PENDING
        then ((QPU_POLL_PENDING, Some \<lparr>po_state = 1, po_status = 0, po_result_len = 0, po_result = replicate 128 0\<rparr>), q)
        else if qj_state j = QPU_JOB_RUNNING
        then ((QPU_POLL_RUNNING, Some \<lparr>po_state = 2, po_status = 0, po_result_len = 0, po_result = replicate 128 0\<rparr>), q)
        else ((QPU_POLL_DONE, Some \<lparr>po_state = 3, po_status = qj_status j, po_result_len = result_len j,
                po_result = poke (replicate 128 0) 0 (take (unat (result_len j)) (result j))\<rparr>), slot_free i q))"

text \<open>The death sweep, slot by slot.\<close>

definition sweep_slot :: "u32 \<Rightarrow> qpu_job_t \<Rightarrow> qpu_job_t" where
  "sweep_slot pid j =
     (if qj_state j = QPU_JOB_FREE then j
      else if owner_pid j = pid
      then (if qj_state j = QPU_JOB_RUNNING then j\<lparr>orphaned := True\<rparr> else slot_freed)
      else if executor_pid j = pid \<and> qj_state j = QPU_JOB_RUNNING
      then (if orphaned j then slot_freed
            else j\<lparr>qj_state := QPU_JOB_DONE, qj_status := QPU_STATUS_EXECFAIL, result_len := 0\<rparr>)
      else j)"

definition qpu_on_process_destroy :: "u32 \<Rightarrow> qpu_state \<Rightarrow> qpu_state" where
  "qpu_on_process_destroy pid q = q\<lparr>jobs := (\<lambda>i. if i < QPU_MAX_JOBS then sweep_slot pid (jobs q i) else jobs q i)\<rparr>"

section \<open>The system call\<close>

datatype qpu_call =
  QPU_OP_SUBMIT "qpu_submit_req_t option"
| QPU_OP_FETCH bool
| QPU_OP_COMPLETE "qpu_complete_req_t option"
| QPU_OP_POLL u32 bool
| QPU_OP_UNKNOWN

datatype qpu_out = No_out | Out_fetch qpu_fetch_out_t | Out_poll qpu_poll_out_t

text \<open>What reaches the caller's memory: a fetched job, or the poll structure on a positive result.\<close>

definition fetch_copied :: "u64 \<times> qpu_fetch_out_t option \<Rightarrow> qpu_out" where
  "fetch_copied r = (if fst r \<noteq> 0 then case snd r of None \<Rightarrow> No_out | Some x \<Rightarrow> Out_fetch x else No_out)"

definition poll_copied :: "u64 \<times> qpu_poll_out_t option \<Rightarrow> qpu_out" where
  "poll_copied r = (if sint (fst r) > 0 then case snd r of None \<Rightarrow> No_out | Some x \<Rightarrow> Out_poll x else No_out)"

definition sys_qpu :: "u64 \<Rightarrow> u32 \<Rightarrow> qpu_call \<Rightarrow> kernel_state \<Rightarrow> qpu_state \<Rightarrow> u64 \<times> qpu_out \<times> kernel_state \<times> qpu_state" where
  "sys_qpu now pid call k q =
     (case call of
        QPU_OP_SUBMIT req \<Rightarrow>
          (case authorize now pid CAP_RESOURCE_DEVICE CAP_WRITE DEVICE_ID_QPU k of
             (False, k) \<Rightarrow> (SYSCALL_EPERM, No_out, k, q)
           | (True, k) \<Rightarrow> (case req of None \<Rightarrow> (SYSCALL_EFAULT, No_out, k, q)
               | Some rq \<Rightarrow> (case qpu_submit now pid rq k q of (r, k, q) \<Rightarrow> (r, No_out, k, q))))
      | QPU_OP_FETCH writable \<Rightarrow>
          (case authorize now pid CAP_RESOURCE_DEVICE CAP_EXECUTE DEVICE_ID_QPU k of
             (False, k) \<Rightarrow> (SYSCALL_EPERM, No_out, k, q)
           | (True, k) \<Rightarrow> if \<not> writable then (SYSCALL_EFAULT, No_out, k, q)
               else (case qpu_fetch pid k q of (r, q) \<Rightarrow> (fst r, fetch_copied r, k, q)))
      | QPU_OP_COMPLETE req \<Rightarrow>
          (case authorize now pid CAP_RESOURCE_DEVICE CAP_EXECUTE DEVICE_ID_QPU k of
             (False, k) \<Rightarrow> (SYSCALL_EPERM, No_out, k, q)
           | (True, k) \<Rightarrow> (case req of None \<Rightarrow> (SYSCALL_EFAULT, No_out, k, q)
               | Some rq \<Rightarrow> (case qpu_complete now pid rq k q of (r, k, q) \<Rightarrow> (r, No_out, k, q))))
      | QPU_OP_POLL jid writable \<Rightarrow>
          (case authorize now pid CAP_RESOURCE_DEVICE CAP_WRITE DEVICE_ID_QPU k of
             (False, k) \<Rightarrow> (SYSCALL_EPERM, No_out, k, q)
           | (True, k) \<Rightarrow> if \<not> writable then (SYSCALL_EFAULT, No_out, k, q)
               else (case qpu_poll pid jid k q of (r, q) \<Rightarrow> (fst r, poll_copied r, k, q)))
      | QPU_OP_UNKNOWN \<Rightarrow> (SYSCALL_EINVAL, No_out, k, q))"

end
