(* ===== verification/Qpu_Props.thy ===== *)
theory Qpu_Props
  imports Qpu Authority_Props
begin

text \<open>
  What the job broker promises: every slot is well formed and scrubbed when free, no process holds more
  than two jobs, a slot changes only through the calls of the processes its stamps name, and the one
  case in which a slot is never given back.
\<close>

section \<open>The slot invariant\<close>

definition tail_zero :: "nat \<Rightarrow> bytes \<Rightarrow> bool" where
  "tail_zero n b \<longleftrightarrow> drop n b = replicate (length b - n) 0"

definition job_ok :: "qpu_job_t \<Rightarrow> bool" where
  "job_ok j \<longleftrightarrow> (if qj_state j = QPU_JOB_FREE then j = slot_freed
     else job_id j \<noteq> 0 \<and> 0 < circuit_len j \<and> unat (circuit_len j) \<le> 256 \<and> length (circuit j) = 256
       \<and> tail_zero (unat (circuit_len j)) (circuit j)
       \<and> unat (result_len j) \<le> 128 \<and> length (result j) = 128 \<and> tail_zero (unat (result_len j)) (result j)
       \<and> (qj_state j = QPU_JOB_DONE \<or> result_len j = 0) \<and> (orphaned j \<longrightarrow> qj_state j = QPU_JOB_RUNNING))"

definition qpu_inv :: "qpu_state \<Rightarrow> bool" where
  "qpu_inv q \<longleftrightarrow> (\<forall>i<4. job_ok (jobs q i)) \<and> next_job_id q \<noteq> 0 \<and> (\<forall>p. qpu_inflight p q \<le> 2)"

text \<open>The buffers of a request have their struct's size.\<close>

fun call_ok :: "qpu_call \<Rightarrow> bool" where
  "call_ok (QPU_OP_SUBMIT (Some rq)) \<longleftrightarrow> length (sr_circuit rq) = 256"
| "call_ok (QPU_OP_COMPLETE (Some rq)) \<longleftrightarrow> length (cr_result rq) = 128"
| "call_ok _ \<longleftrightarrow> True"

lemma job_ok_freed [simp]: "job_ok slot_freed"
  by (simp add: job_ok_def slot_freed_def)

lemma freed_state [simp]: "qj_state slot_freed = QPU_JOB_FREE"
  by (simp add: slot_freed_def)

text \<open>A job is held by a process when its slot is taken under the pid.\<close>

abbreviation held :: "u32 \<Rightarrow> qpu_job_t \<Rightarrow> bool" where
  "held p j \<equiv> qj_state j \<noteq> QPU_JOB_FREE \<and> owner_pid j = p"

lemma inflight_card: "qpu_inflight p q = card {i. i < 4 \<and> held p (jobs q i)}"
proof -
  let ?xs = "filter (\<lambda>i. held p (jobs q i)) [0..<4]"
  have "length ?xs = card (set ?xs)" by (rule distinct_card [symmetric]) (rule distinct_filter [OF distinct_upt])
  also have "set ?xs = {i. i < 4 \<and> held p (jobs q i)}" unfolding set_filter set_upt by auto
  finally show ?thesis unfolding qpu_inflight_def .
qed

lemma inflight_mono:
  assumes "\<And>i. i < 4 \<Longrightarrow> held p (jobs q' i) \<Longrightarrow> held p (jobs q i)"
  shows "qpu_inflight p q' \<le> qpu_inflight p q"
proof -
  have "{i. i < 4 \<and> held p (jobs q' i)} \<subseteq> {i. i < 4 \<and> held p (jobs q i)}" using assms by blast
  then show ?thesis unfolding inflight_card by (rule card_mono [rotated]) simp
qed

lemma inflight_add:
  assumes "i < 4" "\<not> held p (jobs q i)" "\<And>j. j < 4 \<Longrightarrow> j \<noteq> i \<Longrightarrow> jobs q' j = jobs q j"
  shows "qpu_inflight p q' \<le> Suc (qpu_inflight p q)"
proof -
  have "{i. i < 4 \<and> held p (jobs q' i)} \<subseteq> insert i {i. i < 4 \<and> held p (jobs q i)}" using assms(3) by auto
  from card_mono [OF _ this] have "card {i. i < 4 \<and> held p (jobs q' i)} \<le> card (insert i {i. i < 4 \<and> held p (jobs q i)})"
    by simp
  also have "\<dots> \<le> Suc (card {i. i < 4 \<and> held p (jobs q i)})" by (simp add: card_insert_if)
  finally show ?thesis unfolding inflight_card .
qed

text \<open>Changing one slot without taking a new one keeps the invariant.\<close>

lemma inv_update:
  assumes "qpu_inv q" "i < 4 \<Longrightarrow> job_ok j" "qj_state j = QPU_JOB_FREE \<or> (qj_state (jobs q i) \<noteq> QPU_JOB_FREE \<and> owner_pid j = owner_pid (jobs q i))"
  shows "qpu_inv (q\<lparr>jobs := (jobs q)(i := j)\<rparr>)"
proof -
  have "qpu_inflight p (q\<lparr>jobs := (jobs q)(i := j)\<rparr>) \<le> 2" for p
  proof -
    have "qpu_inflight p (q\<lparr>jobs := (jobs q)(i := j)\<rparr>) \<le> qpu_inflight p q"
      by (rule inflight_mono) (use assms(3) in \<open>auto split: if_splits\<close>)
    then show ?thesis using assms(1) unfolding qpu_inv_def by (meson order_trans)
  qed
  then show ?thesis using assms(1,2) unfolding qpu_inv_def by simp
qed

lemma tail_zero_poke:
  assumes "tail_zero 0 b" "n \<le> length b" "n \<le> length xs"
  shows "tail_zero n (poke b 0 (take n xs))"
proof -
  have "b = replicate (length b) 0" using assms(1) by (simp add: tail_zero_def)
  then obtain m where "b = replicate m 0" by blast
  then show ?thesis using assms(2,3) unfolding tail_zero_def poke_def by simp
qed

lemma submit_cases:
  assumes "qpu_submit now pid rq k q = (r, k', q')"
  obtains (same) "q' = q"
  | (taken) i k3 where "i < 4" "qj_state (jobs q i) = QPU_JOB_FREE" "sr_circuit_len rq \<noteq> 0" "unat (sr_circuit_len rq) \<le> 256"
      "\<not> qpu_inflight pid q \<ge> 2" "k_gen k3 = k_gen k" "r = ucast (next_job_id q)"
      "q' = q\<lparr>jobs := (jobs q)(i := (jobs q i)\<lparr>circuit := poke (circuit (jobs q i)) 0 (take (unat (sr_circuit_len rq)) (sr_circuit rq)),
              circuit_len := sr_circuit_len rq, owner_pid := pid, owner_generation := process_get_generation pid k3,
              job_id := next_job_id q, qj_state := QPU_JOB_PENDING\<rparr>),
            next_job_id := (if next_job_id q + 1 = 0 then 1 else next_job_id q + 1)\<rparr>"
proof -
  obtain ok l where m: "manifest_qsub_precheck now pid (k_man k) (k_ledger k) = (ok, l)" by (meson surj_pair)
  show thesis
  proof (cases "\<not> ok \<or> sr_circuit_len rq = 0 \<or> sr_circuit_len rq > 256 \<or> qpu_inflight pid q \<ge> 2
      \<or> first_idx (\<lambda>i. qj_state (jobs q i) = QPU_JOB_FREE) 0 4 = None")
    case True
    then have "q' = q" using assms m unfolding qpu_submit_def Let_def
      by (elim disjE; cases ok) (simp_all split: if_splits option.splits)
    then show thesis by (rule same)
  next
    case False
    then obtain i where c: "ok" "sr_circuit_len rq \<noteq> 0" "\<not> sr_circuit_len rq > 256" "\<not> qpu_inflight pid q \<ge> 2"
      "first_idx (\<lambda>i. qj_state (jobs q i) = QPU_JOB_FREE) 0 4 = Some i" by auto
    have i: "i < 4" "qj_state (jobs q i) = QPU_JOB_FREE" using first_idx_SomeD [OF c(5)] by auto
    have n: "unat (sr_circuit_len rq) \<le> 256" using c(3) by (simp add: word_less_nat_alt)
    show thesis
      by (rule taken [OF i c(2) n c(4), of "set_ledger l k"])
        (use assms m c in \<open>simp_all add: qpu_submit_def set_ledger_def Let_def\<close>)
  qed
qed

lemma submit_inv:
  assumes inv: "qpu_inv q" and len: "length (sr_circuit rq) = 256" and s: "qpu_submit now pid rq k q = (r, k', q')"
  shows "qpu_inv q'"
  using s
proof (cases rule: submit_cases)
  case same
  then show ?thesis using inv by simp
next
  case (taken i k3)
  let ?len = "sr_circuit_len rq"
  have f: "jobs q i = slot_freed" using inv taken(1,2) unfolding qpu_inv_def job_ok_def by metis
  have z: "tail_zero 0 (circuit slot_freed)" "length (circuit slot_freed) = 256" by (simp_all add: tail_zero_def slot_freed_def)
  have "tail_zero (unat ?len) (poke (circuit slot_freed) 0 (take (unat ?len) (sr_circuit rq)))"
    by (rule tail_zero_poke) (use z taken(4) len in simp_all)
  moreover have "length (poke (circuit slot_freed) 0 (take (unat ?len) (sr_circuit rq))) = 256"
    using z taken(4) len by (simp add: min_def)
  moreover have "length (result slot_freed) = 128" "tail_zero 0 (result slot_freed)" "result_len slot_freed = 0" "\<not> orphaned slot_freed"
    by (simp_all add: slot_freed_def tail_zero_def)
  moreover have "next_job_id q \<noteq> 0" using inv by (simp add: qpu_inv_def)
  ultimately have ok: "job_ok (jobs q' i)" unfolding taken(8) f using taken(3,4) by (simp add: job_ok_def word_gt_0)
  have other: "jobs q' j = jobs q j" if "j \<noteq> i" for j unfolding taken(8) using that by simp
  have own: "owner_pid (jobs q' i) = pid" unfolding taken(8) by simp
  have "qpu_inflight p q' \<le> 2" for p
  proof (cases "p = pid")
    case True
    have "qpu_inflight p q' \<le> Suc (qpu_inflight p q)" by (rule inflight_add [OF taken(1)]) (use taken(2) other in simp_all)
    then show ?thesis using True taken(5) by simp
  next
    case False
    have "qpu_inflight p q' \<le> qpu_inflight p q"
    proof (rule inflight_mono)
      fix j assume "j < (4 :: nat)" "held p (jobs q' j)"
      then show "held p (jobs q j)" using own other [of j] False by (cases "j = i") auto
    qed
    then show ?thesis using inv unfolding qpu_inv_def by (meson order_trans)
  qed
  moreover have "job_ok (jobs q' j)" if "j < 4" for j using ok other [of j] that inv by (cases "j = i") (auto simp: qpu_inv_def)
  moreover have "next_job_id q' \<noteq> 0" unfolding taken(8) by simp
  ultimately show ?thesis unfolding qpu_inv_def by blast
qed

lemma oldest_pending_spec:
  "(case oldest_pending q of None \<Rightarrow> \<forall>i<4. qj_state (jobs q i) \<noteq> QPU_JOB_PENDING
    | Some i \<Rightarrow> i < 4 \<and> qj_state (jobs q i) = QPU_JOB_PENDING
        \<and> (\<forall>j<4. qj_state (jobs q j) = QPU_JOB_PENDING \<longrightarrow> job_id (jobs q i) \<le> job_id (jobs q j)))"
proof -
  let ?f = "\<lambda>i old. if qj_state (jobs q i) = QPU_JOB_PENDING
       \<and> (case old of None \<Rightarrow> True | Some o' \<Rightarrow> job_id (jobs q i) < job_id (jobs q o')) then Some i else old"
  have "case fold ?f [0..<n] None of None \<Rightarrow> \<forall>i<n. qj_state (jobs q i) \<noteq> QPU_JOB_PENDING
    | Some i \<Rightarrow> i < n \<and> qj_state (jobs q i) = QPU_JOB_PENDING
        \<and> (\<forall>j<n. qj_state (jobs q j) = QPU_JOB_PENDING \<longrightarrow> job_id (jobs q i) \<le> job_id (jobs q j))" for n
  proof (induction n)
    case 0
    then show ?case by simp
  next
    case (Suc n)
    then show ?case by (cases "fold ?f [0..<n] None") (auto simp: less_Suc_eq)
  qed
  from this [of 4] show ?thesis unfolding oldest_pending_def .
qed

lemma fetch_cases:
  assumes "qpu_fetch pid k q = ((r, out), q')"
  obtains (none) "q' = q" "r = 0" "out = None"
  | (job) i where "i < 4" "qj_state (jobs q i) = QPU_JOB_PENDING"
      "\<forall>j<4. qj_state (jobs q j) = QPU_JOB_PENDING \<longrightarrow> job_id (jobs q i) \<le> job_id (jobs q j)"
      "q' = q\<lparr>jobs := (jobs q)(i := (jobs q i)\<lparr>qj_state := QPU_JOB_RUNNING, executor_pid := pid,
         executor_generation := process_get_generation pid k\<rparr>)\<rparr>"
      "r = ucast (job_id (jobs q i))"
      "out = Some \<lparr>fo_job_id = job_id (jobs q i), fo_owner_pid = owner_pid (jobs q i), fo_circuit_len = circuit_len (jobs q i),
         fo_circuit = poke (replicate 256 0) 0 (take (unat (circuit_len (jobs q i))) (circuit (jobs q i)))\<rparr>"
proof (cases "oldest_pending q")
  case None
  then show thesis using assms none by (simp add: qpu_fetch_def)
next
  case (Some i)
  then show thesis using assms job [of i] oldest_pending_spec [of q] by (simp add: qpu_fetch_def Let_def)
qed

lemma fetch_inv:
  assumes inv: "qpu_inv q" and f: "qpu_fetch pid k q = ((r, out), q')"
  shows "qpu_inv q'"
  using f
proof (cases rule: fetch_cases)
  case none
  then show ?thesis using inv by simp
next
  case (job i)
  have "job_ok (jobs q i)" using inv job(1) by (simp add: qpu_inv_def)
  then have "job_ok ((jobs q i)\<lparr>qj_state := QPU_JOB_RUNNING, executor_pid := pid, executor_generation := process_get_generation pid k\<rparr>)"
    using job(2) by (auto simp: job_ok_def)
  then show ?thesis unfolding job(4) using job(2) by (intro inv_update [OF inv]) simp_all
qed

lemma complete_cases:
  assumes "qpu_complete now pid req k q = (r, k', q')"
  obtains (same) "q' = q"
  | (gone) i where "i < 4" "qj_state (jobs q i) = QPU_JOB_RUNNING" "job_id (jobs q i) = cr_job_id req" "executor_pid (jobs q i) = pid"
      "executor_generation (jobs q i) = process_get_generation pid k" "orphaned (jobs q i)" "q' = slot_free i q"
  | (finished) i where "i < 4" "qj_state (jobs q i) = QPU_JOB_RUNNING" "job_id (jobs q i) = cr_job_id req" "executor_pid (jobs q i) = pid"
      "executor_generation (jobs q i) = process_get_generation pid k" "\<not> orphaned (jobs q i)" "unat (cr_result_len req) \<le> 128"
      "q' = q\<lparr>jobs := (jobs q)(i := (jobs q i)\<lparr>qj_status := (if cr_status req = QPU_STATUS_OK then QPU_STATUS_OK else QPU_STATUS_EXECFAIL),
               result_len := cr_result_len req,
               result := poke (result (jobs q i)) 0 (take (unat (cr_result_len req)) (cr_result req)),
               qj_state := QPU_JOB_DONE\<rparr>)\<rparr>"
proof (cases "cr_result_len req > 128")
  case True
  then show thesis using assms same by (simp add: qpu_complete_def)
next
  case len: False
  then have l: "unat (cr_result_len req) \<le> 128" by (simp add: word_less_nat_alt)
  show thesis
  proof (cases "first_idx (\<lambda>i. qj_state (jobs q i) = QPU_JOB_RUNNING \<and> job_id (jobs q i) = cr_job_id req) 0 4")
    case None
    then show thesis using assms len same by (simp add: qpu_complete_def)
  next
    case (Some i)
    have i: "i < 4" "qj_state (jobs q i) = QPU_JOB_RUNNING" "job_id (jobs q i) = cr_job_id req" using first_idx_SomeD [OF Some] by auto
    show thesis
    proof (cases "executor_pid (jobs q i) \<noteq> pid \<or> executor_generation (jobs q i) \<noteq> process_get_generation pid k")
      case True
      then show thesis using assms len Some same by (simp add: qpu_complete_def Let_def)
    next
      case False
      then show thesis using assms len Some gone [OF i] finished [OF i _ _ _ l] by (simp add: qpu_complete_def Let_def split: if_splits)
    qed
  qed
qed

lemma complete_inv:
  assumes inv: "qpu_inv q" and len: "length (cr_result req) = 128" and c: "qpu_complete now pid req k q = (r, k', q')"
  shows "qpu_inv q'"
  using c
proof (cases rule: complete_cases)
  case same
  then show ?thesis using inv by simp
next
  case (gone i)
  then show ?thesis unfolding gone(7) slot_free_def by (intro inv_update [OF inv]) simp_all
next
  case (finished i)
  have j: "job_ok (jobs q i)" using inv finished(1) by (simp add: qpu_inv_def)
  then have z: "result_len (jobs q i) = 0" "length (result (jobs q i)) = 128" "tail_zero 0 (result (jobs q i))"
    using finished(2) by (auto simp: job_ok_def)
  have "tail_zero (unat (cr_result_len req)) (poke (result (jobs q i)) 0 (take (unat (cr_result_len req)) (cr_result req)))"
    by (rule tail_zero_poke) (use z len finished(7) in simp_all)
  moreover have "length (poke (result (jobs q i)) 0 (take (unat (cr_result_len req)) (cr_result req))) = 128"
    using z len finished(7) by (simp add: min_def)
  ultimately show ?thesis unfolding finished(8) using j finished(2,6,7) by (intro inv_update [OF inv]) (simp_all add: job_ok_def)
qed

lemma poll_cases:
  assumes "qpu_poll pid jid k q = ((r, out), q')"
  obtains (same) "q' = q"
  | (taken) i where "i < 4" "qj_state (jobs q i) = QPU_JOB_DONE" "job_id (jobs q i) = jid" "owner_pid (jobs q i) = pid"
      "owner_generation (jobs q i) = process_get_generation pid k" "r = QPU_POLL_DONE"
      "out = Some \<lparr>po_state = 3, po_status = qj_status (jobs q i), po_result_len = result_len (jobs q i),
                po_result = poke (replicate 128 0) 0 (take (unat (result_len (jobs q i))) (result (jobs q i)))\<rparr>" "q' = slot_free i q"
proof (cases "first_idx (\<lambda>i. qj_state (jobs q i) \<noteq> QPU_JOB_FREE \<and> job_id (jobs q i) = jid) 0 4")
  case None
  then show thesis using assms same by (simp add: qpu_poll_def)
next
  case (Some i)
  have i: "i < 4" "qj_state (jobs q i) \<noteq> QPU_JOB_FREE" "job_id (jobs q i) = jid" using first_idx_SomeD [OF Some] by auto
  show thesis
  proof (cases "owner_pid (jobs q i) = pid \<and> owner_generation (jobs q i) = process_get_generation pid k \<and> qj_state (jobs q i) = QPU_JOB_DONE")
    case True
    then show thesis using assms Some taken [OF i(1) _ i(3)] by (simp add: qpu_poll_def Let_def)
  next
    case False
    then have "qj_state (jobs q i) = QPU_JOB_PENDING \<or> qj_state (jobs q i) = QPU_JOB_RUNNING
      \<or> owner_pid (jobs q i) \<noteq> pid \<or> owner_generation (jobs q i) \<noteq> process_get_generation pid k"
      using i(2) by (cases "qj_state (jobs q i)") auto
    then have "q' = q" using assms Some by (auto simp: qpu_poll_def Let_def split: if_splits)
    then show thesis by (rule same)
  qed
qed

lemma poll_inv:
  assumes inv: "qpu_inv q" and p: "qpu_poll pid jid k q = ((r, out), q')"
  shows "qpu_inv q'"
  using p
proof (cases rule: poll_cases)
  case same
  then show ?thesis using inv by simp
next
  case (taken i)
  show ?thesis unfolding taken(8) slot_free_def by (intro inv_update [OF inv]) simp_all
qed

lemma sweep_inv:
  assumes inv: "qpu_inv q"
  shows "qpu_inv (qpu_on_process_destroy pid q)"
proof -
  have ok: "job_ok (sweep_slot pid j)" if "job_ok j" for j
  proof -
    have "tail_zero 0 (result j)" if "result_len j = 0" "tail_zero (unat (result_len j)) (result j)" using that by simp
    then show ?thesis using \<open>job_ok j\<close> unfolding sweep_slot_def by (auto simp: job_ok_def)
  qed
  have h: "held p (sweep_slot pid j) \<Longrightarrow> held p j" for p j unfolding sweep_slot_def by (auto split: if_splits)
  have "qpu_inflight p (qpu_on_process_destroy pid q) \<le> qpu_inflight p q" for p
    by (rule inflight_mono) (simp add: qpu_on_process_destroy_def, use h in blast)
  then have "qpu_inflight p (qpu_on_process_destroy pid q) \<le> 2" for p using inv unfolding qpu_inv_def by (meson order_trans)
  then show ?thesis using inv ok unfolding qpu_inv_def by (simp add: qpu_on_process_destroy_def)
qed

section \<open>The broker as a step relation\<close>

text \<open>Any process may call at any time, under any kernel state; processes die.\<close>

inductive qpu_step :: "qpu_state \<Rightarrow> qpu_state \<Rightarrow> bool" where
  qpu_called: "call_ok call \<Longrightarrow> sys_qpu now pid call k q = (r, out, k', q') \<Longrightarrow> qpu_step q q'"
| qpu_died: "qpu_step q (qpu_on_process_destroy pid q)"

inductive qpu_reachable :: "qpu_state \<Rightarrow> bool" where
  qpu_start: "qpu_reachable qpu_boot"
| qpu_next: "qpu_reachable q \<Longrightarrow> qpu_step q q' \<Longrightarrow> qpu_reachable q'"

lemma qpu_boot_inv: "qpu_inv qpu_boot"
proof -
  have "{i. i < 4 \<and> held p (jobs qpu_boot i)} = {}" for p by (simp add: qpu_boot_def)
  then have "qpu_inflight p qpu_boot = 0" for p unfolding inflight_card by simp
  then show ?thesis by (simp add: qpu_inv_def) (simp add: qpu_boot_def)
qed

lemma authorize_generation:
  assumes "authorize now pid rt perm rid k = (ok, k1)"
  shows "process_get_generation p k1 = process_get_generation p k"
proof -
  have "k_gen k1 = k_gen k"
    using assms by (auto simp: authorize_def kernel_deny_def kernel_manifest_check_eq set_ledger_def split: sum.splits if_splits)
  then show ?thesis by (simp add: process_get_generation_def)
qed

text \<open>The gate strips off: what the call does to the slots is what the broker does, under the same generations.\<close>

lemma sys_qpu_broker:
  assumes "sys_qpu now pid call k q = (r, out, k', q')"
  obtains (refused) "q' = q"
  | (submit) rq k1 k2 where "call = QPU_OP_SUBMIT (Some rq)" "\<And>p. process_get_generation p k1 = process_get_generation p k"
      "qpu_submit now pid rq k1 q = (r, k2, q')"
  | (fetch) k1 ro where "call = QPU_OP_FETCH True" "\<And>p. process_get_generation p k1 = process_get_generation p k"
      "qpu_fetch pid k1 q = (ro, q')" "r = fst ro" "out = fetch_copied ro"
  | (complete) rq k1 k2 where "call = QPU_OP_COMPLETE (Some rq)" "\<And>p. process_get_generation p k1 = process_get_generation p k"
      "qpu_complete now pid rq k1 q = (r, k2, q')"
  | (poll) jid k1 ro where "call = QPU_OP_POLL jid True" "\<And>p. process_get_generation p k1 = process_get_generation p k"
      "qpu_poll pid jid k1 q = (ro, q')" "r = fst ro" "out = poll_copied ro"
proof (cases call)
  case (QPU_OP_SUBMIT req)
  obtain ok k1 where a: "authorize now pid CAP_RESOURCE_DEVICE CAP_WRITE DEVICE_ID_QPU k = (ok, k1)" by (meson surj_pair)
  show thesis
  proof (cases "ok \<and> req \<noteq> None")
    case True
    then obtain rq where rq: "req = Some rq" ok by blast
    obtain r2 k2 q2 where e: "qpu_submit now pid rq k1 q = (r2, k2, q2)"
      by (rule prod_cases3 [of "qpu_submit now pid rq k1 q"])
    then have "r2 = r" "q2 = q'" using assms a QPU_OP_SUBMIT rq by (simp_all add: sys_qpu_def)
    then show thesis using submit [of rq k1 k2] QPU_OP_SUBMIT rq authorize_generation [OF a] e by simp
  next
    case False
    then show thesis using assms a QPU_OP_SUBMIT refused by (cases ok) (auto simp: sys_qpu_def)
  qed
next
  case (QPU_OP_FETCH w)
  obtain ok k1 where a: "authorize now pid CAP_RESOURCE_DEVICE CAP_EXECUTE DEVICE_ID_QPU k = (ok, k1)" by (meson surj_pair)
  show thesis
  proof (cases "ok \<and> w")
    case True
    obtain ro q1 where "qpu_fetch pid k1 q = (ro, q1)" by (meson surj_pair)
    then show thesis using assms a True QPU_OP_FETCH fetch [of k1 ro] authorize_generation [OF a] by (simp add: sys_qpu_def)
  next
    case False
    then show thesis using assms a QPU_OP_FETCH refused by (cases ok) (auto simp: sys_qpu_def)
  qed
next
  case (QPU_OP_COMPLETE req)
  obtain ok k1 where a: "authorize now pid CAP_RESOURCE_DEVICE CAP_EXECUTE DEVICE_ID_QPU k = (ok, k1)" by (meson surj_pair)
  show thesis
  proof (cases "ok \<and> req \<noteq> None")
    case True
    then obtain rq where rq: "req = Some rq" ok by blast
    obtain r2 k2 q2 where e: "qpu_complete now pid rq k1 q = (r2, k2, q2)"
      by (rule prod_cases3 [of "qpu_complete now pid rq k1 q"])
    then have "r2 = r" "q2 = q'" using assms a QPU_OP_COMPLETE rq by (simp_all add: sys_qpu_def)
    then show thesis using complete [of rq k1 k2] QPU_OP_COMPLETE rq authorize_generation [OF a] e by simp
  next
    case False
    then show thesis using assms a QPU_OP_COMPLETE refused by (cases ok) (auto simp: sys_qpu_def)
  qed
next
  case (QPU_OP_POLL jid w)
  obtain ok k1 where a: "authorize now pid CAP_RESOURCE_DEVICE CAP_WRITE DEVICE_ID_QPU k = (ok, k1)" by (meson surj_pair)
  show thesis
  proof (cases "ok \<and> w")
    case True
    obtain ro q1 where "qpu_poll pid jid k1 q = (ro, q1)" by (meson surj_pair)
    then show thesis using assms a True QPU_OP_POLL poll [of jid k1 ro] authorize_generation [OF a] by (simp add: sys_qpu_def)
  next
    case False
    then show thesis using assms a QPU_OP_POLL refused by (cases ok) (auto simp: sys_qpu_def)
  qed
next
  case QPU_OP_UNKNOWN
  then show thesis using assms refused by (simp add: sys_qpu_def)
qed

lemma qpu_step_inv:
  assumes "qpu_step q q'" "qpu_inv q"
  shows "qpu_inv q'"
  using assms
proof (induction rule: qpu_step.induct)
  case (qpu_called call now pid k q r out k' q')
  from qpu_called(2) show ?case
  proof (cases rule: sys_qpu_broker)
    case refused then show ?thesis using qpu_called(3) by simp
  next
    case (submit rq k1 k2) then show ?thesis using submit_inv [OF qpu_called(3) _ submit(3)] qpu_called(1) by simp
  next
    case (fetch k1 ro) then show ?thesis using fetch_inv [OF qpu_called(3)] by (cases ro) simp
  next
    case (complete rq k1 k2) then show ?thesis using complete_inv [OF qpu_called(3) _ complete(3)] qpu_called(1) by simp
  next
    case (poll jid k1 ro) then show ?thesis using poll_inv [OF qpu_called(3)] by (cases ro) simp
  qed
next
  case (qpu_died q pid)
  then show ?case by (rule sweep_inv)
qed

lemma qpu_reachable_inv: "qpu_reachable q \<Longrightarrow> qpu_inv q"
  by (induction rule: qpu_reachable.induct) (auto intro: qpu_boot_inv qpu_step_inv)

section \<open>Properties\<close>

text \<open>The job table is sound after any sequence of calls by any processes and any deaths: a free slot is
  all zero, so nothing of a previous job can reach the next one; a taken slot has a non-zero id, a circuit
  of 1 to 256 bytes and a result of at most 128 with zeros behind them, a result only when it is done and
  the orphan mark only while it runs; and no process ever holds more than two of the four slots.\<close>

theorem qpu_table_sound:
  assumes "qpu_reachable q" and "i < QPU_MAX_JOBS"
  shows "qpu_inflight p q \<le> QPU_INFLIGHT_MAX
    \<and> (if qj_state (jobs q i) = QPU_JOB_FREE then jobs q i = slot_freed
       else job_id (jobs q i) \<noteq> 0 \<and> circuit_len (jobs q i) \<noteq> 0 \<and> unat (circuit_len (jobs q i)) \<le> 256
         \<and> drop (unat (circuit_len (jobs q i))) (circuit (jobs q i)) = replicate (256 - unat (circuit_len (jobs q i))) 0
         \<and> unat (result_len (jobs q i)) \<le> 128
         \<and> drop (unat (result_len (jobs q i))) (result (jobs q i)) = replicate (128 - unat (result_len (jobs q i))) 0
         \<and> (qj_state (jobs q i) = QPU_JOB_DONE \<or> result_len (jobs q i) = 0)
         \<and> \<not> (orphaned (jobs q i) \<and> qj_state (jobs q i) \<noteq> QPU_JOB_RUNNING))"
proof -
  have "qpu_inflight p q \<le> 2" "job_ok (jobs q i)" using qpu_reachable_inv [OF assms(1)] assms(2) by (simp_all add: qpu_inv_def)
  then show ?thesis unfolding job_ok_def tail_zero_def by (auto simp: word_gt_0)
qed

theorem qpu_table_sound_witness:
  "qpu_inflight 7 (qpu_on_process_destroy 7 qpu_boot) \<le> 2"
  using qpu_table_sound [OF qpu_next [OF qpu_start qpu_died], of 0 7 7] by simp

lemma slot_transitions:
  assumes "sys_qpu now pid call k q = (r, out, k', q')" and "i < QPU_MAX_JOBS" and "jobs q' i \<noteq> jobs q i"
  shows "(\<forall>j. j = i \<or> jobs q' j = jobs q j)
    \<and> (case qj_state (jobs q i) of
        QPU_JOB_FREE \<Rightarrow> (\<exists>rq. call = QPU_OP_SUBMIT (Some rq) \<and> qj_state (jobs q' i) = QPU_JOB_PENDING
            \<and> owner_pid (jobs q' i) = pid \<and> owner_generation (jobs q' i) = process_get_generation pid k
            \<and> job_id (jobs q' i) = next_job_id q \<and> r = ucast (next_job_id q) \<and> circuit_len (jobs q' i) = sr_circuit_len rq
            \<and> circuit (jobs q' i) = poke (circuit (jobs q i)) 0 (take (unat (sr_circuit_len rq)) (sr_circuit rq)))
      | QPU_JOB_PENDING \<Rightarrow> call = QPU_OP_FETCH True
            \<and> jobs q' i = (jobs q i)\<lparr>qj_state := QPU_JOB_RUNNING, executor_pid := pid, executor_generation := process_get_generation pid k\<rparr>
            \<and> (\<forall>j<QPU_MAX_JOBS. qj_state (jobs q j) = QPU_JOB_PENDING \<longrightarrow> job_id (jobs q i) \<le> job_id (jobs q j))
      | QPU_JOB_RUNNING \<Rightarrow> executor_pid (jobs q i) = pid \<and> executor_generation (jobs q i) = process_get_generation pid k
            \<and> (\<exists>rq. call = QPU_OP_COMPLETE (Some rq) \<and> cr_job_id rq = job_id (jobs q i)
               \<and> (if orphaned (jobs q i) then jobs q' i = slot_freed
                  else qj_state (jobs q' i) = QPU_JOB_DONE \<and> result_len (jobs q' i) = cr_result_len rq
                    \<and> result (jobs q' i) = poke (result (jobs q i)) 0 (take (unat (cr_result_len rq)) (cr_result rq))))
      | QPU_JOB_DONE \<Rightarrow> owner_pid (jobs q i) = pid \<and> owner_generation (jobs q i) = process_get_generation pid k
            \<and> call = QPU_OP_POLL (job_id (jobs q i)) True \<and> jobs q' i = slot_freed
            \<and> out = Out_poll \<lparr>po_state = 3, po_status = qj_status (jobs q i), po_result_len = result_len (jobs q i),
                po_result = poke (replicate 128 0) 0 (take (unat (result_len (jobs q i))) (result (jobs q i)))\<rparr>)"
  using assms(1)
proof (cases rule: sys_qpu_broker)
  case refused
  then show ?thesis using assms(3) by simp
next
  case (submit rq k1 k2)
  show ?thesis using submit(3)
  proof (cases rule: submit_cases)
    case same
    then show ?thesis using assms(3) by simp
  next
    case (taken i' k3)
    have i: "i' = i" using taken(8) assms(3) by (auto split: if_splits)
    have "process_get_generation pid k3 = process_get_generation pid k"
      using taken(6) submit(2) [of pid] by (simp add: process_get_generation_def split: if_splits)
    then show ?thesis using taken(2,7,8) submit(1) unfolding i by simp
  qed
next
  case (fetch k1 ro)
  obtain r1 o1 where "ro = (r1, o1)" by (cases ro)
  then have "qpu_fetch pid k1 q = ((r1, o1), q')" using fetch(3) by simp
  then show ?thesis
  proof (cases rule: fetch_cases)
    case none
    then show ?thesis using assms(3) by simp
  next
    case (job i')
    have i: "i' = i" using job(4) assms(3) by (auto split: if_splits)
    show ?thesis using job(2,3,4) fetch(1,2) unfolding i by simp
  qed
next
  case (complete rq k1 k2)
  show ?thesis using complete(3)
  proof (cases rule: complete_cases)
    case same
    then show ?thesis using assms(3) by simp
  next
    case (gone i')
    have i: "i' = i" using gone(7) assms(3) by (auto simp: slot_free_def split: if_splits)
    show ?thesis using gone(2-7) complete(1,2) unfolding i by (simp add: slot_free_def)
  next
    case (finished i')
    have i: "i' = i" using finished(8) assms(3) by (auto split: if_splits)
    show ?thesis using finished(2-8) complete(1,2) unfolding i by simp
  qed
next
  case (poll jid k1 ro)
  obtain r1 o1 where ro: "ro = (r1, o1)" by (cases ro)
  then have "qpu_poll pid jid k1 q = ((r1, o1), q')" using poll(3) by simp
  then show ?thesis
  proof (cases rule: poll_cases)
    case same
    then show ?thesis using assms(3) by simp
  next
    case (taken i')
    have i: "i' = i" using taken(8) assms(3) by (auto simp: slot_free_def split: if_splits)
    show ?thesis using taken(2-8) poll(1,2,5) ro unfolding i by (simp add: slot_free_def poll_copied_def)
  qed
qed


text \<open>A kernel in which pid 5 holds both rights over the device and is bound to no manifest, and a job it
  submitted and fetched itself.\<close>

definition demo_right :: capability_t where
  "demo_right = cap_zero\<lparr>cap_id := 1, owner_id := 5, resource_type := CAP_RESOURCE_DEVICE, resource_id := DEVICE_ID_QPU,
     permissions := CAP_WRITE OR CAP_EXECUTE\<rparr>"

definition demo_gate :: kernel_state where
  "demo_gate = \<lparr>k_caps = cap_boot\<lparr>cap_table := (\<lambda>_. slot_zero)(0 := \<lparr>cap = demo_right, generation = 0, in_use = True\<rparr>), cap_hwm := 1\<rparr>,
     k_man = (\<lambda>_. manifest_zero), k_procs = (\<lambda>_. \<lparr>pr_state = PROCESS_STATE_READY, pr_type = PROCESS_TYPE_USER, pr_magic_ok = True\<rparr>),
     k_gen = (\<lambda>_. 1), k_services = (\<lambda>_. \<lparr>sv_registered = False, sv_monitored = False, sv_state = SERVICE_STATE_STOPPED,
        sv_pid = 0, sv_pid_generation = 0\<rparr>)\<rparr>"

lemma demo_gate_opens:
  "authorize 0 5 CAP_RESOURCE_DEVICE CAP_WRITE DEVICE_ID_QPU demo_gate = (True, demo_gate)"
  "authorize 0 5 CAP_RESOURCE_DEVICE CAP_EXECUTE DEVICE_ID_QPU demo_gate = (True, demo_gate)"
proof -
  have m: "cap_matches 0 5 CAP_RESOURCE_DEVICE req DEVICE_ID_QPU (k_caps demo_gate) 0" if "req = CAP_WRITE \<or> req = CAP_EXECUTE" for req
    using that by (auto simp: cap_matches_def demo_gate_def demo_right_def is_expired_def cap_zero_def cap_boot_def)
  have "first_idx (cap_matches 0 5 CAP_RESOURCE_DEVICE req DEVICE_ID_QPU (k_caps demo_gate)) 0 (cap_hwm (k_caps demo_gate)) = Some 0"
    if "req = CAP_WRITE \<or> req = CAP_EXECUTE" for req
    using m [OF that] by (simp add: first_idx.simps demo_gate_def)
  then show "authorize 0 5 CAP_RESOURCE_DEVICE CAP_WRITE DEVICE_ID_QPU demo_gate = (True, demo_gate)"
    "authorize 0 5 CAP_RESOURCE_DEVICE CAP_EXECUTE DEVICE_ID_QPU demo_gate = (True, demo_gate)"
    by (simp_all add: authorize_def cap_find_resource_def kernel_manifest_check_eq) (simp_all add: demo_gate_def)
qed

definition demo_circuit :: qpu_submit_req_t where
  "demo_circuit = \<lparr>sr_circuit_len = 2, sr_circuit = [7, 9] @ replicate 254 0\<rparr>"

definition demo_submitted :: qpu_state where
  "demo_submitted = snd (snd (snd (sys_qpu 0 5 (QPU_OP_SUBMIT (Some demo_circuit)) demo_gate qpu_boot)))"

definition demo_fetched :: qpu_state where
  "demo_fetched = snd (snd (snd (sys_qpu 0 5 (QPU_OP_FETCH True) demo_gate demo_submitted)))"

lemma demo_submitted_slots:
  "jobs demo_submitted = (\<lambda>_. slot_freed)(0 := slot_freed\<lparr>circuit := [7, 9] @ replicate 254 0, circuit_len := 2, owner_pid := 5,
     owner_generation := 1, job_id := 1, qj_state := QPU_JOB_PENDING\<rparr>)"
  "fst (sys_qpu 0 5 (QPU_OP_SUBMIT (Some demo_circuit)) demo_gate qpu_boot) = 1"
proof -
  have "{i. i < 4 \<and> held 5 (jobs qpu_boot i)} = {}" by (simp add: qpu_boot_def)
  then have n: "qpu_inflight 5 qpu_boot = 0" unfolding inflight_card by simp
  have f: "first_idx (\<lambda>i. qj_state (jobs qpu_boot i) = QPU_JOB_FREE) 0 4 = Some 0" by (simp add: first_idx.simps qpu_boot_def)
  have m: "manifest_qsub_precheck 0 5 (k_man demo_gate) l = (True, l)" for l by (simp add: manifest_qsub_precheck_def demo_gate_def)
  have c: "poke (circuit slot_freed) 0 [7, 9] = [7, 9] @ replicate 254 0" by (simp add: slot_freed_def poke_def)
  have s: "sys_qpu 0 5 (QPU_OP_SUBMIT (Some demo_circuit)) demo_gate qpu_boot = (case qpu_submit 0 5 demo_circuit demo_gate qpu_boot of (r, k, q) \<Rightarrow> (r, No_out, k, q))"
    by (simp add: sys_qpu_def demo_gate_opens split: prod.split)
  have g: "process_get_generation 5 (set_ledger l demo_gate) = 1" for l by (simp add: process_get_generation_def set_ledger_def demo_gate_def)
  show "jobs demo_submitted = (\<lambda>_. slot_freed)(0 := slot_freed\<lparr>circuit := [7, 9] @ replicate 254 0, circuit_len := 2, owner_pid := 5,
     owner_generation := 1, job_id := 1, qj_state := QPU_JOB_PENDING\<rparr>)"
    unfolding demo_submitted_def s by (simp add: qpu_submit_def m n f g c Let_def demo_circuit_def) (simp add: qpu_boot_def c)
  show "fst (sys_qpu 0 5 (QPU_OP_SUBMIT (Some demo_circuit)) demo_gate qpu_boot) = 1"
    unfolding s by (simp add: qpu_submit_def m n f Let_def demo_circuit_def) (simp add: qpu_boot_def)
qed


section \<open>The slot that is never given back\<close>

text \<open>What happens to the table while no process with pid \<open>p\<close> runs as incarnation \<open>g\<close>: calls of other
  pids, calls of later tenants of \<open>p\<close>, and any deaths.\<close>

inductive later :: "u32 \<Rightarrow> u32 \<Rightarrow> qpu_state \<Rightarrow> qpu_state \<Rightarrow> bool" for p g where
  later_refl: "later p g q q"
| later_call: "later p g q q1 \<Longrightarrow> sys_qpu now pid call k q1 = (r, out, k', q2) \<Longrightarrow>
    \<not> (pid = p \<and> process_get_generation pid k = g) \<Longrightarrow> later p g q q2"
| later_death: "later p g q q1 \<Longrightarrow> later p g q (qpu_on_process_destroy pid q1)"

definition stuck :: "u32 \<Rightarrow> u32 \<Rightarrow> qpu_job_t \<Rightarrow> bool" where
  "stuck p g j \<longleftrightarrow> qj_state j = QPU_JOB_RUNNING \<and> orphaned j \<and> owner_pid j = p \<and> executor_pid j = p \<and> executor_generation j = g"

lemma sweep_stuck: "stuck p g j \<Longrightarrow> sweep_slot pid j = j"
  by (simp add: stuck_def sweep_slot_def)

lemma later_stuck:
  assumes "later p g q q'" "i < 4" "stuck p g (jobs q i)"
  shows "jobs q' i = jobs q i"
  using assms
proof (induction rule: later.induct)
  case (later_refl q)
  then show ?case by simp
next
  case (later_call q q1 now pid call k r out k' q2)
  then have s: "stuck p g (jobs q1 i)" "jobs q1 i = jobs q i" by simp_all
  have "jobs q2 i = jobs q1 i"
  proof (rule ccontr)
    assume c: "jobs q2 i \<noteq> jobs q1 i"
    have "executor_pid (jobs q1 i) = pid \<and> executor_generation (jobs q1 i) = process_get_generation pid k"
      using slot_transitions [OF later_call.hyps(2) later_call.prems(1) c] s(1) by (simp add: stuck_def)
    then show False using s(1) later_call.hyps(3) by (simp add: stuck_def)
  qed
  then show ?case using s(2) by simp
next
  case (later_death q q1 pid)
  then show ?case using sweep_stuck by (simp add: qpu_on_process_destroy_def)
qed

text \<open>C18. A job run by its own submitter is lost with it. When a process that fetched its own job dies while
  the job runs, the sweep only marks the slot as orphaned, since it matches the owner before it looks at
  the executor; nobody else may complete it, so whatever happens afterwards, deaths and later tenants of
  the pid included, the slot stays taken forever.\<close>

theorem qpu_self_executed_leaks:
  assumes "i < QPU_MAX_JOBS" and "qj_state (jobs q i) = QPU_JOB_RUNNING"
    and "owner_pid (jobs q i) = p" "executor_pid (jobs q i) = p"
    and "later p (executor_generation (jobs q i)) (qpu_on_process_destroy p q) q'"
  shows "qj_state (jobs q' i) = QPU_JOB_RUNNING \<and> orphaned (jobs q' i) \<and> job_id (jobs q' i) = job_id (jobs q i)"
proof -
  have j: "jobs (qpu_on_process_destroy p q) i = (jobs q i)\<lparr>orphaned := True\<rparr>"
    using assms(1-3) by (simp add: qpu_on_process_destroy_def sweep_slot_def)
  have "stuck p (executor_generation (jobs q i)) (jobs (qpu_on_process_destroy p q) i)"
    using assms(2-4) unfolding j by (simp add: stuck_def)
  from later_stuck [OF assms(5,1) this] show ?thesis using assms(2) unfolding j by simp
qed

theorem qpu_self_executed_leaks_witness:
  "qj_state (jobs (qpu_on_process_destroy 9 (qpu_on_process_destroy 5 demo_fetched)) 0) = QPU_JOB_RUNNING"
proof -
  obtain r out k' where e: "sys_qpu 0 5 (QPU_OP_FETCH True) demo_gate demo_submitted = (r, out, k', demo_fetched)"
    unfolding demo_fetched_def by (metis prod.collapse)
  have "oldest_pending demo_submitted = Some 0"
    using oldest_pending_spec [of demo_submitted] by (cases "oldest_pending demo_submitted") (auto simp: demo_submitted_slots split: if_splits)
  then have "jobs demo_fetched 0 = (jobs demo_submitted 0)\<lparr>qj_state := QPU_JOB_RUNNING, executor_pid := 5,
      executor_generation := process_get_generation 5 demo_gate\<rparr>"
    unfolding demo_fetched_def by (simp add: sys_qpu_def demo_gate_opens qpu_fetch_def Let_def)
  then have f: "qj_state (jobs demo_fetched 0) = QPU_JOB_RUNNING" "owner_pid (jobs demo_fetched 0) = 5" "executor_pid (jobs demo_fetched 0) = 5"
    by (simp_all add: demo_submitted_slots)
  show ?thesis using qpu_self_executed_leaks [OF _ f later_death [OF later_refl]] by simp
qed

end
