(* ===== verification/Elf.thy ===== *)
theory Elf
  imports Prelude
begin

text \<open>
  The ELF64 loader (\<open>kernel/src/elf.c\<close>, \<open>kernel/include/kernel/elf.h\<close>). The image is the kernel memory
  from the pointer \<open>img\<close> on, a function from offset to byte, together with \<open>size\<close>: C reads memory, not a
  list, so a read behind \<open>size\<close> has a value. What the frame allocator and \<open>vmspace_map_page\<close> answer is the
  argument \<open>env\<close>, indexed by the pages mapped so far; the address space is the list of the pages mapped, in
  order, with their contents and their writable flag.
\<close>

abbreviation (input) USER_VBASE :: u64 where "USER_VBASE \<equiv> 0x40000000"
abbreviation (input) USER_VEND :: u64 where "USER_VEND \<equiv> 0x80000000"
abbreviation (input) ELF_PT_LOAD :: u32 where "ELF_PT_LOAD \<equiv> 1"
abbreviation (input) ELF_PF_W :: u32 where "ELF_PF_W \<equiv> 2"

datatype elf_result_t = ELF_OK | ELF_ERR_MAGIC | ELF_ERR_CLASS | ELF_ERR_TYPE | ELF_ERR_RANGE | ELF_ERR_NOMEM

type_synonym image = "nat \<Rightarrow> u8"

record elf64_ehdr_t =
  e_ident :: bytes
  e_type :: u16
  e_entry :: u64
  e_phoff :: u64
  e_phentsize :: u16
  e_phnum :: u16

record elf64_phdr_t =
  p_type :: u32
  p_flags :: u32
  p_offset :: u64
  p_vaddr :: u64
  p_filesz :: u64
  p_memsz :: u64

record page_t =
  pg_vaddr :: u64
  pg_data :: bytes
  pg_writable :: bool

datatype frame_answer = No_frame | Map_refused | Mapped

section \<open>Reading the headers\<close>

definition img_bytes :: "image \<Rightarrow> nat \<Rightarrow> nat \<Rightarrow> bytes" where
  "img_bytes img off n = map (\<lambda>i. img (off + i)) [0..<n]"

text \<open>The packed structs of \<open>elf.h\<close>, field by field.\<close>

definition read_ehdr :: "image \<Rightarrow> elf64_ehdr_t" where
  "read_ehdr img = (let b = img_bytes img 0 64 in
     \<lparr>e_ident = take 16 b, e_type = get16 b 16, e_entry = get64 b 24, e_phoff = get64 b 32,
      e_phentsize = get16 b 54, e_phnum = get16 b 56\<rparr>)"

definition read_phdr :: "image \<Rightarrow> u64 \<Rightarrow> elf64_phdr_t" where
  "read_phdr img at = (let b = img_bytes img (unat at) 56 in
     \<lparr>p_type = get32 b 0, p_flags = get32 b 4, p_offset = get64 b 8, p_vaddr = get64 b 16,
      p_filesz = get64 b 32, p_memsz = get64 b 40\<rparr>)"

section \<open>Loading\<close>

definition align_down_page :: "u64 \<Rightarrow> u64" where
  "align_down_page v = v AND NOT 0xFFF"

text \<open>One frame: zeroed, the file bytes of the page copied in.\<close>

definition page_data :: "image \<Rightarrow> elf64_phdr_t \<Rightarrow> u64 \<Rightarrow> bytes" where
  "page_data img ph page = map (\<lambda>off. let va = page + of_nat off in
     if va < p_vaddr ph \<or> va \<ge> p_vaddr ph + p_memsz ph then 0
     else if va < p_vaddr ph + p_filesz ph then img (unat (p_offset ph + (va - p_vaddr ph)))
     else 0) [0..<4096]"

text \<open>The page loop. It may run forever for a segment that wraps, so it takes fuel; \<open>None\<close> is fuel run out.\<close>

fun load_pages :: "nat \<Rightarrow> (nat \<Rightarrow> frame_answer) \<Rightarrow> image \<Rightarrow> elf64_phdr_t \<Rightarrow> u64 \<Rightarrow> page_t list \<Rightarrow> (elf_result_t \<times> page_t list) option" where
  "load_pages 0 env img ph page as = None"
| "load_pages (Suc n) env img ph page as =
     (if page < p_vaddr ph + p_memsz ph then
        (case env (length as) of
           No_frame \<Rightarrow> Some (ELF_ERR_NOMEM, as)
         | Map_refused \<Rightarrow> Some (ELF_ERR_NOMEM, as)
         | Mapped \<Rightarrow> load_pages n env img ph (page + 4096)
             (as @ [\<lparr>pg_vaddr = page, pg_data = page_data img ph page, pg_writable = (p_flags ph AND ELF_PF_W \<noteq> 0)\<rparr>]))
      else Some (ELF_OK, as))"

text \<open>The fuel: one step more than the user half has pages.\<close>

abbreviation (input) PAGE_FUEL :: nat where "PAGE_FUEL \<equiv> 262146"

definition load_segment :: "(nat \<Rightarrow> frame_answer) \<Rightarrow> image \<Rightarrow> elf64_phdr_t \<Rightarrow> page_t list \<Rightarrow> (elf_result_t \<times> page_t list) option" where
  "load_segment env img ph as = load_pages PAGE_FUEL env img ph (align_down_page (p_vaddr ph)) as"

text \<open>The checks of one program header; \<open>False\<close> is the return of \<open>ELF_ERR_RANGE\<close>.\<close>

definition phdr_ok :: "u64 \<Rightarrow> elf64_phdr_t \<Rightarrow> bool" where
  "phdr_ok sz ph \<longleftrightarrow>
     (let seg_end = p_vaddr ph + p_memsz ph in
      \<not> (p_offset ph > sz \<or> p_filesz ph > sz - p_offset ph)
      \<and> \<not> (p_filesz ph > p_memsz ph \<or> p_vaddr ph < USER_VBASE \<or> seg_end > USER_VEND \<or> seg_end \<le> p_vaddr ph))"

fun load_phdrs :: "(nat \<Rightarrow> frame_answer) \<Rightarrow> image \<Rightarrow> u64 \<Rightarrow> elf64_ehdr_t \<Rightarrow> nat list \<Rightarrow> page_t list \<Rightarrow> (elf_result_t \<times> page_t list) option" where
  "load_phdrs env img sz eh [] as = Some (ELF_OK, as)"
| "load_phdrs env img sz eh (i # is') as =
     (let ph = read_phdr img (e_phoff eh + of_nat i * ucast (e_phentsize eh)) in
      if p_type ph \<noteq> ELF_PT_LOAD \<or> p_memsz ph = 0 then load_phdrs env img sz eh is' as
      else if \<not> phdr_ok sz ph then Some (ELF_ERR_RANGE, as)
      else case load_segment env img ph as of None \<Rightarrow> None
        | Some (ELF_OK, as) \<Rightarrow> load_phdrs env img sz eh is' as
        | Some (r, as) \<Rightarrow> Some (r, as))"

text \<open>The result, the pages mapped, and the entry point written on success.\<close>

definition elf_load :: "(nat \<Rightarrow> frame_answer) \<Rightarrow> image \<Rightarrow> u64 \<Rightarrow> page_t list \<Rightarrow> (elf_result_t \<times> page_t list \<times> u64 option) option" where
  "elf_load env img sz as =
     (if sz < 64 then Some (ELF_ERR_RANGE, as, None)
      else let eh = read_ehdr img in
        if e_ident eh ! 0 \<noteq> 0x7F \<or> e_ident eh ! 1 \<noteq> 69 \<or> e_ident eh ! 2 \<noteq> 76 \<or> e_ident eh ! 3 \<noteq> 70
        then Some (ELF_ERR_MAGIC, as, None)
        else if e_ident eh ! 4 \<noteq> 2 then Some (ELF_ERR_CLASS, as, None)
        else if e_type eh \<noteq> 2 then Some (ELF_ERR_TYPE, as, None)
        else if e_phoff eh > sz \<or> ucast (e_phnum eh) * ucast (e_phentsize eh) > sz - e_phoff eh
        then Some (ELF_ERR_RANGE, as, None)
        else case load_phdrs env img sz eh [0..<unat (e_phnum eh)] as of None \<Rightarrow> None
          | Some (ELF_OK, as) \<Rightarrow> Some (ELF_OK, as, Some (e_entry eh))
          | Some (r, as) \<Rightarrow> Some (r, as, None))"

end
