(* ===== verification/Elf_Props.thy ===== *)
theory Elf_Props
  imports Elf
begin

text \<open>
  What the program loader promises for arbitrary images: it always returns, it maps only pages of the
  private user half and fills them with zeros and bytes of the image, and on success every loadable
  segment is present in full. The last property says when its answer depends on the image alone.
\<close>

section \<open>Pages and segments\<close>

lemma unat_align_down_page: "unat (align_down_page v) = unat v div 4096 * 4096"
  by (simp only: align_down_page_def unat_page_base)

text \<open>What the checks leave of a segment: inside the user half, its file bytes inside the image.\<close>

lemma phdr_okD:
  assumes "phdr_ok sz ph"
  shows "unat (p_vaddr ph + p_memsz ph) = unat (p_vaddr ph) + unat (p_memsz ph)"
    and "0x40000000 \<le> unat (p_vaddr ph)" and "unat (p_vaddr ph) + unat (p_memsz ph) \<le> 0x80000000"
    and "unat (p_filesz ph) \<le> unat (p_memsz ph)" and "unat (p_offset ph) + unat (p_filesz ph) \<le> unat sz"
proof -
  note a = assms [unfolded phdr_ok_def Let_def not_le de_Morgan_disj not_less]
  have lo: "0x40000000 \<le> unat (p_vaddr ph)" using a by (simp add: word_le_nat_alt)
  show "0x40000000 \<le> unat (p_vaddr ph)" by (rule lo)
  have nw: "p_vaddr ph \<le> p_vaddr ph + p_memsz ph" using a by (blast intro: less_imp_le)
  then show s: "unat (p_vaddr ph + p_memsz ph) = unat (p_vaddr ph) + unat (p_memsz ph)"
    by (simp add: unat_plus_simple)
  show "unat (p_vaddr ph) + unat (p_memsz ph) \<le> 0x80000000"
    using a unfolding s [symmetric] by (simp add: word_le_nat_alt)
  show "unat (p_filesz ph) \<le> unat (p_memsz ph)" using a by (simp add: word_le_nat_alt)
  have "p_offset ph \<le> sz" "p_filesz ph \<le> sz - p_offset ph" using a by simp_all
  then show "unat (p_offset ph) + unat (p_filesz ph) \<le> unat sz"
    by (simp add: word_le_nat_alt unat_sub)
qed

text \<open>The address of the byte at offset \<open>off\<close> of a page inside the user half.\<close>

lemma unat_page_byte: "unat page + 4096 \<le> 0x80001000 \<Longrightarrow> off < 4096 \<Longrightarrow> unat (page + of_nat off :: u64) = unat page + off"
  by (simp add: unat_word_ariths unat_of_nat)

definition page_byte :: "image \<Rightarrow> elf64_phdr_t \<Rightarrow> nat \<Rightarrow> u8" where
  "page_byte img ph va = (if unat (p_vaddr ph) \<le> va \<and> va < unat (p_vaddr ph) + unat (p_filesz ph)
     then img (unat (p_offset ph) + (va - unat (p_vaddr ph))) else 0)"

lemma page_data_nth:
  assumes ok: "phdr_ok sz ph" and pg: "page < p_vaddr ph + p_memsz ph" and off: "off < 4096"
  shows "page_data img ph page ! off = page_byte img ph (unat page + off)"
proof -
  note f = phdr_okD [OF ok]
  define va where "va = page + of_nat off"
  have p: "unat page < 0x80000000" using pg f(1,3) by (simp add: word_less_nat_alt)
  have va: "unat va = unat page + off" unfolding va_def using p off by (intro unat_page_byte) auto
  have fe: "unat (p_vaddr ph + p_filesz ph) = unat (p_vaddr ph) + unat (p_filesz ph)"
    using f(3,4) by (simp add: unat_word_ariths)
  have idx: "unat (p_offset ph + (va - p_vaddr ph)) = unat (p_offset ph) + (unat va - unat (p_vaddr ph))"
    if "p_vaddr ph \<le> va" "unat va < unat (p_vaddr ph) + unat (p_filesz ph)"
  proof -
    have d: "unat (va - p_vaddr ph) = unat va - unat (p_vaddr ph)" using that(1) by (simp add: unat_sub word_le_nat_alt)
    have "unat (p_offset ph) + unat (va - p_vaddr ph) < 18446744073709551616"
      using that(2) f(5) unat_u64_less [of sz] unfolding d by linarith
    then show ?thesis unfolding d [symmetric] by (simp add: unat_word_ariths)
  qed
  have "page_data img ph page ! off = (if va < p_vaddr ph \<or> va \<ge> p_vaddr ph + p_memsz ph then 0
     else if va < p_vaddr ph + p_filesz ph then img (unat (p_offset ph + (va - p_vaddr ph))) else 0)"
    unfolding page_data_def va_def Let_def using off by simp
  also have "\<dots> = page_byte img ph (unat va)"
    using idx f(1,4) by (auto simp: page_byte_def word_less_nat_alt word_le_nat_alt fe not_less)
  finally show ?thesis unfolding va .
qed

lemma length_page_data [simp]: "length (page_data img ph page) = 4096"
  by (simp add: page_data_def)

text \<open>A page mapped for a segment: aligned, in the user half, its contents and its writable flag.\<close>

definition seg_page :: "image \<Rightarrow> elf64_phdr_t \<Rightarrow> page_t \<Rightarrow> bool" where
  "seg_page img ph pg \<longleftrightarrow> unat (pg_vaddr pg) mod 4096 = 0 \<and> 0x40000000 \<le> unat (pg_vaddr pg)
     \<and> unat (pg_vaddr pg) < unat (p_vaddr ph) + unat (p_memsz ph)
     \<and> pg_data pg = map (\<lambda>off. page_byte img ph (unat (pg_vaddr pg) + off)) [0..<4096]
     \<and> pg_writable pg = (p_flags ph AND ELF_PF_W \<noteq> 0)"

definition covers :: "page_t list \<Rightarrow> (page_t \<Rightarrow> bool) \<Rightarrow> nat \<Rightarrow> bool" where
  "covers as P va \<longleftrightarrow> (\<exists>pg\<in>set as. P pg \<and> unat (pg_vaddr pg) \<le> va \<and> va < unat (pg_vaddr pg) + 4096)"

lemma covers_append [simp]: "covers (as @ bs) P va \<longleftrightarrow> covers as P va \<or> covers bs P va"
  by (auto simp: covers_def)

lemma covers_mono: "covers as P va \<Longrightarrow> (\<And>pg. P pg \<Longrightarrow> Q pg) \<Longrightarrow> covers as Q va"
  by (auto simp: covers_def)

lemma load_pages_spec:
  assumes ok: "phdr_ok sz ph" and "unat page mod 4096 = 0" "0x40000000 \<le> unat page"
    and "unat (p_vaddr ph) + unat (p_memsz ph) \<le> unat page + 4096 * n"
  shows "\<exists>r new. load_pages (Suc n) env img ph page as = Some (r, as @ new) \<and> Ball (set new) (seg_page img ph)
    \<and> (r = ELF_OK \<longrightarrow> (\<forall>va. unat page \<le> va \<and> va < unat (p_vaddr ph) + unat (p_memsz ph) \<longrightarrow> covers new (seg_page img ph) va))"
  using assms(2-)
proof (induction n arbitrary: page as)
  case 0
  then have "\<not> page < p_vaddr ph + p_memsz ph" using phdr_okD(1) [OF ok] by (simp add: word_less_nat_alt)
  then have "load_pages (Suc 0) env img ph page as = Some (ELF_OK, as @ [])" by simp
  then show ?case using 0 by (intro exI [of _ ELF_OK] exI [of _ "[]"]) auto
next
  case (Suc n)
  note f = phdr_okD [OF ok]
  define pg where "pg = \<lparr>pg_vaddr = page, pg_data = page_data img ph page, pg_writable = (p_flags ph AND ELF_PF_W \<noteq> 0)\<rparr>"
  consider (past) "\<not> page < p_vaddr ph + p_memsz ph" | (refused) "page < p_vaddr ph + p_memsz ph" "env (length as) \<noteq> Mapped"
    | (mapped) "page < p_vaddr ph + p_memsz ph" "env (length as) = Mapped" by blast
  then show ?case
  proof cases
    case past
    then have "unat (p_vaddr ph) + unat (p_memsz ph) \<le> unat page" using f(1) by (simp add: word_less_nat_alt)
    moreover have "load_pages (Suc (Suc n)) env img ph page as = Some (ELF_OK, as @ [])" using past by simp
    ultimately show ?thesis by (intro exI [of _ ELF_OK] exI [of _ "[]"]) auto
  next
    case refused
    then show ?thesis by (cases "env (length as)") simp_all
  next
    case mapped
    then have lt: "unat page < unat (p_vaddr ph) + unat (p_memsz ph)" using f(1) by (simp add: word_less_nat_alt)
    then have nx: "unat (page + 4096) = unat page + 4096" using f(3) by (simp add: unat_word_ariths)
    have d: "page_data img ph page = map (\<lambda>off. page_byte img ph (unat page + off)) [0..<4096]"
      by (rule nth_equalityI) (simp_all add: page_data_nth [OF ok mapped(1)])
    have pg: "seg_page img ph pg" using Suc.prems(1,2) lt unfolding seg_page_def pg_def d by simp
    have "unat (page + 4096) mod 4096 = 0" "0x40000000 \<le> unat (page + 4096)"
      "unat (p_vaddr ph) + unat (p_memsz ph) \<le> unat (page + 4096) + 4096 * n" using Suc.prems unfolding nx by simp_all
    from Suc.IH [OF this, of "as @ [pg]"] obtain r new where
      l: "load_pages (Suc n) env img ph (page + 4096) (as @ [pg]) = Some (r, (as @ [pg]) @ new)" and g: "Ball (set new) (seg_page img ph)"
      and c: "r = ELF_OK \<longrightarrow> (\<forall>va. unat page + 4096 \<le> va \<and> va < unat (p_vaddr ph) + unat (p_memsz ph) \<longrightarrow> covers new (seg_page img ph) va)"
      unfolding nx by blast
    have "load_pages (Suc (Suc n)) env img ph page as = Some (r, as @ (pg # new))"
      using mapped l unfolding pg_def [symmetric] by (subst load_pages.simps) (simp add: pg_def)
    moreover have "covers (pg # new) (seg_page img ph) va"
      if "r = ELF_OK" "unat page \<le> va" "va < unat (p_vaddr ph) + unat (p_memsz ph)" for va
    proof (cases "va < unat page + 4096")
      case True
      then show ?thesis using pg that(2) by (auto simp: covers_def pg_def)
    next
      case False
      then show ?thesis using c that by (auto simp: covers_def)
    qed
    ultimately show ?thesis using pg g by (intro exI [of _ r] exI [of _ "pg # new"]) simp
  qed
qed

lemma load_segment_spec:
  assumes ok: "phdr_ok sz ph"
  obtains r new where "load_segment env img ph as = Some (r, as @ new)" "Ball (set new) (seg_page img ph)"
    "r = ELF_OK \<Longrightarrow> (\<And>va. unat (p_vaddr ph) \<le> va \<Longrightarrow> va < unat (p_vaddr ph) + unat (p_memsz ph) \<Longrightarrow> covers new (seg_page img ph) va)"
proof -
  note f = phdr_okD [OF ok]
  let ?p = "align_down_page (p_vaddr ph)"
  have "0x40000000 div 4096 \<le> unat (p_vaddr ph) div 4096" using f(2) by (rule div_le_mono)
  then have p: "unat ?p mod 4096 = 0" "0x40000000 \<le> unat ?p" "unat ?p \<le> unat (p_vaddr ph)"
    by (simp_all add: unat_align_down_page)
  have "unat (p_vaddr ph) + unat (p_memsz ph) \<le> unat ?p + 4096 * 262145" using f(3) p(2) by simp
  from load_pages_spec [OF ok p(1,2) this] obtain r new where
    l: "load_pages (Suc 262145) env img ph ?p as = Some (r, as @ new)" and g: "Ball (set new) (seg_page img ph)"
    and c: "r = ELF_OK \<Longrightarrow> unat ?p \<le> va \<Longrightarrow> va < unat (p_vaddr ph) + unat (p_memsz ph) \<Longrightarrow> covers new (seg_page img ph) va" for va
    by blast
  have "load_segment env img ph as = Some (r, as @ new)" using l by (simp add: load_segment_def)
  then show thesis using that g c p(3) by (meson le_trans)
qed

section \<open>The whole image\<close>

definition loadable :: "elf64_phdr_t \<Rightarrow> bool" where
  "loadable ph \<longleftrightarrow> p_type ph = ELF_PT_LOAD \<and> p_memsz ph \<noteq> 0"

definition nth_phdr :: "image \<Rightarrow> elf64_ehdr_t \<Rightarrow> nat \<Rightarrow> elf64_phdr_t" where
  "nth_phdr img eh i = read_phdr img (e_phoff eh + of_nat i * ucast (e_phentsize eh))"

text \<open>A page that belongs to a checked segment of the image.\<close>

definition image_page :: "u64 \<Rightarrow> image \<Rightarrow> elf64_ehdr_t \<Rightarrow> nat list \<Rightarrow> page_t \<Rightarrow> bool" where
  "image_page sz img eh is' pg \<longleftrightarrow> (\<exists>i\<in>set is'. loadable (nth_phdr img eh i) \<and> phdr_ok sz (nth_phdr img eh i) \<and> seg_page img (nth_phdr img eh i) pg)"

lemma image_page_mono: "image_page sz img eh is' pg \<Longrightarrow> image_page sz img eh (i # is') pg"
  by (auto simp: image_page_def)

lemma load_phdrs_spec:
  "\<exists>r new. load_phdrs env img sz eh is' as = Some (r, as @ new) \<and> Ball (set new) (image_page sz img eh is')
    \<and> (r = ELF_OK \<longrightarrow> (\<forall>i\<in>set is'. loadable (nth_phdr img eh i) \<longrightarrow> phdr_ok sz (nth_phdr img eh i)
        \<and> (\<forall>va. unat (p_vaddr (nth_phdr img eh i)) \<le> va \<and> va < unat (p_vaddr (nth_phdr img eh i)) + unat (p_memsz (nth_phdr img eh i))
            \<longrightarrow> covers new (seg_page img (nth_phdr img eh i)) va)))"
proof (induction is' arbitrary: as)
  case Nil
  then show ?case by simp
next
  case (Cons i is')
  define ph where "ph = nth_phdr img eh i"
  have s: "load_phdrs env img sz eh (i # is') as =
     (if \<not> loadable ph then load_phdrs env img sz eh is' as else if \<not> phdr_ok sz ph then Some (ELF_ERR_RANGE, as)
      else case load_segment env img ph as of None \<Rightarrow> None
        | Some (ELF_OK, as) \<Rightarrow> load_phdrs env img sz eh is' as | Some (r, as) \<Rightarrow> Some (r, as))"
    by (simp add: ph_def nth_phdr_def loadable_def Let_def)
  consider (skip) "\<not> loadable ph" | (bad) "loadable ph" "\<not> phdr_ok sz ph" | (seg) "loadable ph" "phdr_ok sz ph" by blast
  then show ?case
  proof cases
    case skip
    with s Cons.IH [of as] show ?thesis unfolding ph_def by (fastforce intro: image_page_mono)
  next
    case bad
    with s show ?thesis by simp
  next
    case seg
    from load_segment_spec [OF seg(2), of env img as] obtain r1 new1 where
      l: "load_segment env img ph as = Some (r1, as @ new1)" and g: "Ball (set new1) (seg_page img ph)"
      and c: "\<And>va. r1 = ELF_OK \<Longrightarrow> unat (p_vaddr ph) \<le> va \<Longrightarrow> va < unat (p_vaddr ph) + unat (p_memsz ph) \<Longrightarrow> covers new1 (seg_page img ph) va"
      by metis
    have g1: "Ball (set new1) (image_page sz img eh (i # is'))" using g seg by (auto simp: image_page_def ph_def)
    show ?thesis
    proof (cases "r1 = ELF_OK")
      case False
      then show ?thesis using s seg l g1 by (cases r1) auto
    next
      case True
      from Cons.IH [of "as @ new1"] obtain r new where
        l2: "load_phdrs env img sz eh is' (as @ new1) = Some (r, (as @ new1) @ new)" and g2: "Ball (set new) (image_page sz img eh is')"
        and c2: "r = ELF_OK \<longrightarrow> (\<forall>i\<in>set is'. loadable (nth_phdr img eh i) \<longrightarrow> phdr_ok sz (nth_phdr img eh i)
        \<and> (\<forall>va. unat (p_vaddr (nth_phdr img eh i)) \<le> va \<and> va < unat (p_vaddr (nth_phdr img eh i)) + unat (p_memsz (nth_phdr img eh i))
            \<longrightarrow> covers new (seg_page img (nth_phdr img eh i)) va))" by blast
      have "load_phdrs env img sz eh (i # is') as = Some (r, as @ (new1 @ new))" using s seg l True l2 by simp
      moreover have "Ball (set (new1 @ new)) (image_page sz img eh (i # is'))" using g1 g2 by (auto intro: image_page_mono)
      ultimately show ?thesis using c [OF True] c2 seg(2) unfolding ph_def by (intro exI [of _ r] exI [of _ "new1 @ new"]) auto
    qed
  qed
qed

lemma first_refusal:
  "a \<or> b \<or> c \<or> d \<or> e \<or> f \<Longrightarrow> \<exists>r. r \<noteq> ELF_OK \<and>
     (if a then Some (ELF_ERR_RANGE, as, None) else if b then Some (ELF_ERR_MAGIC, as, None) else if c then Some (ELF_ERR_CLASS, as, None)
      else if d then Some (ELF_ERR_TYPE, as, None) else if e \<or> f then Some (ELF_ERR_RANGE, as, None) else z) = Some (r, as, None)"
  by auto

lemma elf_load_spec:
  "\<exists>r new. elf_load env img sz as = Some (r, as @ new, (if r = ELF_OK then Some (e_entry (read_ehdr img)) else None))
    \<and> Ball (set new) (image_page sz img (read_ehdr img) [0..<unat (e_phnum (read_ehdr img))])
    \<and> (r = ELF_OK \<longrightarrow> (\<forall>i<unat (e_phnum (read_ehdr img)). loadable (nth_phdr img (read_ehdr img) i) \<longrightarrow> phdr_ok sz (nth_phdr img (read_ehdr img) i)
        \<and> (\<forall>va. unat (p_vaddr (nth_phdr img (read_ehdr img) i)) \<le> va
              \<and> va < unat (p_vaddr (nth_phdr img (read_ehdr img) i)) + unat (p_memsz (nth_phdr img (read_ehdr img) i))
            \<longrightarrow> covers new (seg_page img (nth_phdr img (read_ehdr img) i)) va)))"
proof -
  define eh where "eh = read_ehdr img"
  define bad where "bad \<longleftrightarrow> sz < 64 \<or> (e_ident eh ! 0 \<noteq> 0x7F \<or> e_ident eh ! 1 \<noteq> 69 \<or> e_ident eh ! 2 \<noteq> 76 \<or> e_ident eh ! 3 \<noteq> 70)
    \<or> e_ident eh ! 4 \<noteq> 2 \<or> e_type eh \<noteq> 2 \<or> e_phoff eh > sz \<or> ucast (e_phnum eh) * ucast (e_phentsize eh) > sz - e_phoff eh"
  show ?thesis
  proof (cases bad)
    case True
    then have "\<exists>r. r \<noteq> ELF_OK \<and> elf_load env img sz as = Some (r, as, None)"
      unfolding bad_def elf_load_def eh_def [symmetric] Let_def by (rule first_refusal)
    then obtain r where "r \<noteq> ELF_OK" "elf_load env img sz as = Some (r, as, None)" by blast
    then show ?thesis by (intro exI [of _ r] exI [of _ "[]"]) simp
  next
    case False
    then have e: "elf_load env img sz as = (case load_phdrs env img sz eh [0..<unat (e_phnum eh)] as of None \<Rightarrow> None
        | Some (ELF_OK, as) \<Rightarrow> Some (ELF_OK, as, Some (e_entry eh)) | Some (r, as) \<Rightarrow> Some (r, as, None))"
      unfolding bad_def elf_load_def eh_def [symmetric] Let_def by simp
    from load_phdrs_spec [of env img sz eh "[0..<unat (e_phnum eh)]" as] obtain r new where
      l: "load_phdrs env img sz eh [0..<unat (e_phnum eh)] as = Some (r, as @ new)"
      and g: "Ball (set new) (image_page sz img eh [0..<unat (e_phnum eh)])"
      and c: "r = ELF_OK \<longrightarrow> (\<forall>i<unat (e_phnum eh). loadable (nth_phdr img eh i) \<longrightarrow> phdr_ok sz (nth_phdr img eh i)
        \<and> (\<forall>va. unat (p_vaddr (nth_phdr img eh i)) \<le> va \<and> va < unat (p_vaddr (nth_phdr img eh i)) + unat (p_memsz (nth_phdr img eh i))
            \<longrightarrow> covers new (seg_page img (nth_phdr img eh i)) va))" unfolding set_upt atLeast0LessThan by auto
    have "elf_load env img sz as = Some (r, as @ new, (if r = ELF_OK then Some (e_entry eh) else None))"
      unfolding e l by (cases r) simp_all
    then show ?thesis using g c unfolding eh_def [symmetric] by blast
  qed
qed

section \<open>The loader's promises\<close>

lemma image_page_confined:
  assumes "image_page sz img eh is' pg"
  shows "unat (pg_vaddr pg) mod 4096 = 0 \<and> 0x40000000 \<le> unat (pg_vaddr pg) \<and> unat (pg_vaddr pg) + 4096 \<le> 0x80000000
    \<and> length (pg_data pg) = 4096 \<and> (\<forall>b\<in>set (pg_data pg). b = 0 \<or> (\<exists>k<unat sz. b = img k))"
proof -
  obtain ph where ph: "phdr_ok sz ph" and s: "seg_page img ph pg" using assms by (auto simp: image_page_def)
  note f = phdr_okD [OF ph]
  have b: "page_byte img ph va = 0 \<or> (\<exists>k<unat sz. page_byte img ph va = img k)" for va
  proof (cases "unat (p_vaddr ph) \<le> va \<and> va < unat (p_vaddr ph) + unat (p_filesz ph)")
    case True
    then have "unat (p_offset ph) + (va - unat (p_vaddr ph)) < unat sz" using f(5) by linarith
    then show ?thesis using True by (auto simp: page_byte_def)
  next
    case False
    then have "page_byte img ph va = 0" unfolding page_byte_def by (rule if_not_P)
    then show ?thesis ..
  qed
  have "unat (pg_vaddr pg) < 0x80000000" "unat (pg_vaddr pg) mod 4096 = 0" using s f(3) by (auto simp: seg_page_def)
  then obtain k where "unat (pg_vaddr pg) = 4096 * k" "4096 * k < 4096 * 524288" by (auto simp: mod_eq_0_iff_dvd dvd_def)
  then have e: "unat (pg_vaddr pg) + 4096 \<le> 0x80000000" by simp
  have "\<forall>x\<in>set (pg_data pg). x = 0 \<or> (\<exists>k<unat sz. x = img k)" using s b unfolding seg_page_def by auto
  then show ?thesis using s e unfolding seg_page_def by simp
qed

text \<open>C33. The loader returns on every image, for every behaviour of the frame allocator and the page mapper: the
  page loop never runs out of its fuel, and an entry point is written exactly on success. Whether the load
  succeeds or stops half way, every page it maps is aligned, lies in the private half from 0x40000000 to
  0x80000000, and holds nothing but zeros and bytes from inside the image: no kernel memory leaks into a
  user page.\<close>

theorem elf_load_confined:
  "\<exists>r new. elf_load env img sz as = Some (r, as @ new, (if r = ELF_OK then Some (e_entry (read_ehdr img)) else None))
    \<and> (\<forall>pg\<in>set new. unat (pg_vaddr pg) mod 4096 = 0 \<and> 0x40000000 \<le> unat (pg_vaddr pg) \<and> unat (pg_vaddr pg) + 4096 \<le> 0x80000000
        \<and> length (pg_data pg) = 4096 \<and> (\<forall>b\<in>set (pg_data pg). b = 0 \<or> (\<exists>k<unat sz. b = img k)))"
proof -
  from elf_load_spec [of env img sz as] obtain r new where
    l: "elf_load env img sz as = Some (r, as @ new, (if r = ELF_OK then Some (e_entry (read_ehdr img)) else None))"
    and g: "Ball (set new) (image_page sz img (read_ehdr img) [0..<unat (e_phnum (read_ehdr img))])" by (elim exE conjE)
  show ?thesis
    by (intro exI [of _ r] exI [of _ new] conjI [OF l] ballI) (rule image_page_confined [OF bspec [OF g]])
qed


section \<open>What the answer depends on\<close>

lemma nth_img_bytes [simp]: "i < n \<Longrightarrow> img_bytes img off n ! i = img (off + i)"
  by (simp add: img_bytes_def)

lemma img_bytes_cong: "(\<And>k. k < off + n \<Longrightarrow> img k = img' k) \<Longrightarrow> img_bytes img off n = img_bytes img' off n"
  by (simp add: img_bytes_def)

lemma load_pages_cong:
  assumes ok: "phdr_ok sz ph" and agree: "\<And>k. k < unat sz \<Longrightarrow> img k = img' k"
  shows "load_pages n env img ph page as = load_pages n env img' ph page as"
proof (induction n arbitrary: page as)
  case (Suc n)
  have b: "page_byte img ph va = page_byte img' ph va" for va
    using phdr_okD(5) [OF ok] agree by (auto simp: page_byte_def)
  have "page_data img ph page = page_data img' ph page" if "page < p_vaddr ph + p_memsz ph"
    by (rule nth_equalityI) (simp_all add: page_data_nth [OF ok that] b)
  then show ?case by (auto simp: Suc.IH split: frame_answer.split)
qed simp

lemma load_phdrs_cong:
  assumes agree: "\<And>k. k < unat sz \<Longrightarrow> img k = img' k" and "\<And>i. i \<in> set is' \<Longrightarrow> nth_phdr img eh i = nth_phdr img' eh i"
  shows "load_phdrs env img sz eh is' as = load_phdrs env img' sz eh is' as"
  using assms(2)
proof (induction is' arbitrary: as)
  case (Cons i is')
  define ph where "ph = nth_phdr img eh i"
  have s: "load_segment env img ph as = load_segment env img' ph as" if "phdr_ok sz ph"
    using load_pages_cong [OF that agree] by (simp add: load_segment_def)
  have r: "read_phdr img (e_phoff eh + of_nat i * ucast (e_phentsize eh)) = ph"
    "read_phdr img' (e_phoff eh + of_nat i * ucast (e_phentsize eh)) = ph"
    using Cons.prems [of i] by (simp_all add: ph_def nth_phdr_def)
  have ih: "load_phdrs env img sz eh is' as = load_phdrs env img' sz eh is' as" for as using Cons by simp
  show ?case by (cases "phdr_ok sz ph") (simp_all add: Let_def r ih s split: option.split elf_result_t.split)
qed simp

text \<open>With entries of full size every header read stays inside the image.\<close>

lemma nth_phdr_inside:
  assumes "e_phoff eh \<le> sz" "\<not> ucast (e_phnum eh) * ucast (e_phentsize eh) > sz - e_phoff eh"
    and "56 \<le> unat (e_phentsize eh)" "i < unat (e_phnum eh)"
  shows "unat (e_phoff eh + of_nat i * ucast (e_phentsize eh)) + 56 \<le> unat sz"
proof -
  let ?w = "unat (e_phentsize eh)" and ?n = "unat (e_phnum eh)"
  have c: "unat (ucast (v :: u16) :: u64) = unat v" for v
    using unat_u16_less [of v] by (simp add: unsigned_ucast_eq take_bit_nat_eq_self)
  have w: "?n * ?w \<le> 65535 * 65535" using unat_u16_less [of "e_phnum eh"] unat_u16_less [of "e_phentsize eh"]
    by (intro mult_le_mono) simp_all
  have "unat (ucast (e_phnum eh) * ucast (e_phentsize eh) :: u64) = ?n * ?w" using w by (simp add: unat_word_ariths c)
  then have t: "unat (e_phoff eh) + ?n * ?w \<le> unat sz" using assms(1,2) by (simp add: word_le_nat_alt not_less unat_sub)
  have "Suc i * ?w \<le> ?n * ?w" using assms(4) by (intro mult_le_mono1) simp
  then have le: "i * ?w + ?w \<le> ?n * ?w" by simp
  have i: "unat (of_nat i :: u64) = i" using assms(4) unat_u16_less [of "e_phnum eh"] by (simp add: unat_of_nat)
  have "unat (of_nat i * ucast (e_phentsize eh) :: u64) = i * ?w" using le w by (simp add: unat_word_ariths c i)
  moreover have "unat (e_phoff eh) + i * ?w < 18446744073709551616" using t le assms(3) unat_u64_less [of sz] by linarith
  ultimately have "unat (e_phoff eh + of_nat i * ucast (e_phentsize eh)) = unat (e_phoff eh) + i * ?w"
    by (simp add: unat_word_ariths)
  then show ?thesis using t le assms(3) by linarith
qed

text \<open>An executable of 122 bytes: one segment of two file bytes and two zero bytes at 0x40000000, readable and
  executable.\<close>

definition demo_ehdr :: image where
  "demo_ehdr = (\<lambda>_. 0)(0 := 0x7F, 1 := 69, 2 := 76, 3 := 70, 4 := 2, 16 := 2, 27 := 0x40, 32 := 64, 56 := 1)"

definition demo_exec :: image where
  "demo_exec = demo_ehdr(54 := 56, 64 := 1, 68 := 5, 72 := 120, 83 := 0x40, 96 := 2, 104 := 4, 120 := 0xEB, 121 := 0xFE)"

lemma demo_reads:
  "read_ehdr demo_exec = \<lparr>e_ident = img_bytes demo_exec 0 16, e_type = 2, e_entry = 0x40000000, e_phoff = 64, e_phentsize = 56, e_phnum = 1\<rparr>"
  "read_phdr demo_exec 64 = \<lparr>p_type = 1, p_flags = 5, p_offset = 120, p_vaddr = 0x40000000, p_filesz = 2, p_memsz = 4\<rparr>"
proof -
  have i: "take 16 (img_bytes demo_exec 0 64) = img_bytes demo_exec 0 16" by (simp add: img_bytes_def take_map)
  show "read_ehdr demo_exec = \<lparr>e_ident = img_bytes demo_exec 0 16, e_type = 2, e_entry = 0x40000000, e_phoff = 64, e_phentsize = 56, e_phnum = 1\<rparr>"
    unfolding read_ehdr_def Let_def i by (simp add: get16_def get32_def get64_def demo_exec_def demo_ehdr_def)
  show "read_phdr demo_exec 64 = \<lparr>p_type = 1, p_flags = 5, p_offset = 120, p_vaddr = 0x40000000, p_filesz = 2, p_memsz = 4\<rparr>"
    unfolding read_phdr_def Let_def by (simp add: get16_def get32_def get64_def demo_exec_def demo_ehdr_def)
qed

definition demo_page :: page_t where
  "demo_page = \<lparr>pg_vaddr = 0x40000000, pg_data = page_data demo_exec (read_phdr demo_exec 64) 0x40000000, pg_writable = False\<rparr>"

lemma demo_loads: "elf_load (\<lambda>_. Mapped) demo_exec 122 [] = Some (ELF_OK, [] @ [demo_page], Some 0x40000000)"
proof -
  have two: "load_pages (Suc (Suc 262144)) (\<lambda>_. Mapped) demo_exec (read_phdr demo_exec 64) 0x40000000 [] = Some (ELF_OK, [demo_page])"
    unfolding load_pages.simps demo_page_def by (simp add: demo_reads)
  have a: "align_down_page 0x40000000 = 0x40000000" by (simp add: align_down_page_def)
  have s: "load_segment (\<lambda>_. Mapped) demo_exec (read_phdr demo_exec 64) [] = Some (ELF_OK, [demo_page])"
    using two by (simp add: load_segment_def a demo_reads)
  have o: "phdr_ok 122 (read_phdr demo_exec 64)" by (simp add: phdr_ok_def demo_reads)
  have p: "load_phdrs (\<lambda>_. Mapped) demo_exec 122 (read_ehdr demo_exec) [0] [] = Some (ELF_OK, [demo_page])"
    using s o by (simp add: demo_reads(1)) (simp add: demo_reads)
  show ?thesis using p unfolding elf_load_def Let_def
    by (simp add: demo_reads(1)) (simp add: demo_exec_def demo_ehdr_def)
qed

theorem elf_load_confined_witness: "unat (pg_vaddr demo_page) + 4096 \<le> 0x80000000 \<and> length (pg_data demo_page) = 4096"
  using elf_load_confined [of "\<lambda>_. Mapped" demo_exec 122 "[]"] unfolding demo_loads by simp


lemma elf_load_cong:
  assumes a: "(\<forall>k<unat sz. img k = img' k) \<and> 56 \<le> unat (e_phentsize (read_ehdr img))"
  shows "elf_load env img sz as = elf_load env img' sz as"
proof (cases "sz < 64")
  case True
  then show ?thesis by (simp add: elf_load_def)
next
  case False
  then have sz: "64 \<le> unat sz" by (simp add: word_le_nat_alt not_less)
  have eh: "read_ehdr img' = read_ehdr img"
    using img_bytes_cong [of 0 64 img img'] a sz by (simp add: read_ehdr_def)
  have ph: "load_phdrs env img sz (read_ehdr img) [0..<unat (e_phnum (read_ehdr img))] as
      = load_phdrs env img' sz (read_ehdr img) [0..<unat (e_phnum (read_ehdr img))] as"
    if "\<not> (e_phoff (read_ehdr img) > sz \<or> ucast (e_phnum (read_ehdr img)) * ucast (e_phentsize (read_ehdr img)) > sz - e_phoff (read_ehdr img))"
  proof (rule load_phdrs_cong)
    fix i assume "i \<in> set [0..<unat (e_phnum (read_ehdr img))]"
    then have "unat (e_phoff (read_ehdr img) + of_nat i * ucast (e_phentsize (read_ehdr img))) + 56 \<le> unat sz"
      using that a by (intro nth_phdr_inside) (auto simp: not_less)
    then show "nth_phdr img (read_ehdr img) i = nth_phdr img' (read_ehdr img) i"
      using img_bytes_cong [of _ 56 img img'] a by (simp add: nth_phdr_def read_phdr_def)
  qed (use a in blast)
  show ?thesis unfolding elf_load_def eh Let_def by (intro if_cong refl) (drule ph, simp only:)
qed

text \<open>A header whose entry size is zero, with the first bytes behind it.\<close>

lemma behind_image_loads:
  "elf_load env (demo_ehdr(64 := t, 104 := m)) 64 as =
     (if t = 1 \<and> m \<noteq> 0 then Some (ELF_ERR_RANGE, as, None) else Some (ELF_OK, as, Some 0x40000000))"
proof -
  have e: "read_ehdr (demo_ehdr(64 := t, 104 := m)) =
      \<lparr>e_ident = img_bytes (demo_ehdr(64 := t, 104 := m)) 0 16, e_type = 2, e_entry = 0x40000000, e_phoff = 64, e_phentsize = 0, e_phnum = 1\<rparr>"
  proof -
    have i: "take 16 (img_bytes (demo_ehdr(64 := t, 104 := m)) 0 64) = img_bytes (demo_ehdr(64 := t, 104 := m)) 0 16"
      by (simp add: img_bytes_def take_map)
    show ?thesis unfolding read_ehdr_def Let_def i by (simp add: get16_def get32_def get64_def demo_ehdr_def)
  qed
  have p: "read_phdr (demo_ehdr(64 := t, 104 := m)) 64 = \<lparr>p_type = ucast t, p_flags = 0, p_offset = 0, p_vaddr = 0, p_filesz = 0, p_memsz = ucast m\<rparr>"
  proof -
    have "(ucast (ucast m :: u32) :: u64) = ucast m" by (rule bit_word_eqI) (auto simp: bit_simps dest: bit_imp_le_length)
    then show ?thesis unfolding read_phdr_def Let_def by (simp add: get16_def get32_def get64_def demo_ehdr_def)
  qed
  have "load_phdrs env (demo_ehdr(64 := t, 104 := m)) 64 (read_ehdr (demo_ehdr(64 := t, 104 := m))) [0] as =
      (if t = 1 \<and> m \<noteq> 0 then Some (ELF_ERR_RANGE, as) else Some (ELF_OK, as))"
  proof -
    have "unat (ucast m :: u64) = unat m" using unat_u8_less [of m] by (simp add: unsigned_ucast_eq take_bit_nat_eq_self)
    then have "(ucast t :: u32) = 1 \<longleftrightarrow> t = 1" "(ucast m :: u64) = 0 \<longleftrightarrow> m = 0" by (simp_all add: word_unat_eq_iff)
    then show ?thesis by (simp add: e p Let_def phdr_ok_def)
  qed
  moreover have "e_ident (read_ehdr (demo_ehdr(64 := t, 104 := m))) ! j = demo_ehdr j" if "j < 16" for j
    using that by (simp add: read_ehdr_def Let_def)
  then have "e_ident (read_ehdr (demo_ehdr(64 := t, 104 := m))) ! 0 = 0x7F" "e_ident (read_ehdr (demo_ehdr(64 := t, 104 := m))) ! 1 = 69"
    "e_ident (read_ehdr (demo_ehdr(64 := t, 104 := m))) ! 2 = 76" "e_ident (read_ehdr (demo_ehdr(64 := t, 104 := m))) ! 3 = 70"
    "e_ident (read_ehdr (demo_ehdr(64 := t, 104 := m))) ! 4 = 2" by (simp_all add: demo_ehdr_def)
  moreover have "e_type (read_ehdr (demo_ehdr(64 := t, 104 := m))) = 2" "e_phoff (read_ehdr (demo_ehdr(64 := t, 104 := m))) = 64"
    "e_phentsize (read_ehdr (demo_ehdr(64 := t, 104 := m))) = 0" "unat (e_phnum (read_ehdr (demo_ehdr(64 := t, 104 := m)))) = 1"
    "e_entry (read_ehdr (demo_ehdr(64 := t, 104 := m))) = 0x40000000" unfolding e by simp_all
  ultimately show ?thesis unfolding elf_load_def Let_def by (simp del: load_phdrs.simps)
qed

text \<open>C35. With program header entries of at least the size of the structure, the result depends only on the
  image; but the entry size comes from the file and is never compared with the structure, so the 56 bytes
  of a header can be read from behind the image: two memories that agree on the whole image load
  differently.\<close>

theorem elf_header_overread:
  "(\<forall>env img img' sz as. (\<forall>k<unat sz. img k = img' k) \<and> 56 \<le> unat (e_phentsize (read_ehdr img)) \<longrightarrow>
      elf_load env img sz as = elf_load env img' sz as)
    \<and> (\<exists>img img'. (\<forall>k<64. img k = img' k) \<and> (\<forall>env as. elf_load env img 64 as = Some (ELF_OK, as, Some 0x40000000)
        \<and> elf_load env img' 64 as = Some (ELF_ERR_RANGE, as, None)))"
proof (intro conjI allI impI)
  show "\<exists>img img'. (\<forall>k<64. img k = img' k) \<and> (\<forall>env as. elf_load env img 64 as = Some (ELF_OK, as, Some 0x40000000)
        \<and> elf_load env img' 64 as = Some (ELF_ERR_RANGE, as, None))"
    by (intro exI [of _ "demo_ehdr(64 := 0, 104 := 0)"] exI [of _ "demo_ehdr(64 := 1, 104 := 1)"]) (simp add: behind_image_loads)
qed (rule elf_load_cong)

theorem elf_header_overread_witness:
  "elf_load (\<lambda>_. Mapped) (demo_exec(122 := 9)) 122 [] = Some (ELF_OK, [demo_page], Some 0x40000000)"
proof -
  have "elf_load (\<lambda>_. Mapped) demo_exec 122 [] = elf_load (\<lambda>_. Mapped) (demo_exec(122 := 9)) 122 []"
    by (rule elf_header_overread [THEN conjunct1, rule_format]) (simp add: demo_reads)
  then show ?thesis using demo_loads by simp
qed

end
