(* ===== verification/Kheap.thy ===== *)
theory Kheap
  imports Prelude
begin

text \<open>
  The kernel heap of \<open>kernel/src/memory.c\<close>: a first-fit allocator over one region, its blocks in a doubly
  linked list in address order. Block headers are the values of a store indexed by address, a pointer is
  a 64-bit address and 0 is NULL. Payload bytes belong to the clients; \<open>krealloc\<close> reports the copy it makes.
  The list walks take the region's size as fuel, more than it can hold headers; \<open>None\<close> is fuel run out.
\<close>

section \<open>State and operations\<close>

abbreviation (input) KBLOCK_MAGIC :: u32 where "KBLOCK_MAGIC \<equiv> 0x4B424C4B"
abbreviation (input) KHDR :: u64 where "KHDR \<equiv> 32"

record kblock_t =
  kb_size :: u64
  kb_next :: u64
  kb_prev :: u64
  kb_magic :: u32
  kb_free :: bool

record kheap_t =
  heap_head :: u64
  kblk :: "u64 \<Rightarrow> kblock_t"
  kh_total :: u64

definition set_blk :: "u64 \<Rightarrow> (kblock_t \<Rightarrow> kblock_t) \<Rightarrow> kheap_t \<Rightarrow> kheap_t" where
  "set_blk b f st = st\<lparr>kblk := (kblk st)(b := f (kblk st b))\<rparr>"

text \<open>\<open>ALIGN_UP(x, 16)\<close>.\<close>

definition align16 :: "u64 \<Rightarrow> u64" where
  "align16 x = (x + 16 - 1) AND NOT (16 - 1)"

definition walk_fuel :: "kheap_t \<Rightarrow> nat" where
  "walk_fuel st = Suc (unat (kh_total st))"

definition kheap_init :: "u64 \<Rightarrow> u64 \<Rightarrow> kheap_t \<Rightarrow> kheap_t" where
  "kheap_init lo hi st = st\<lparr>kh_total := hi - lo, heap_head := lo,
     kblk := (kblk st)(lo := \<lparr>kb_size = hi - lo - KHDR, kb_next = 0, kb_prev = 0, kb_magic = KBLOCK_MAGIC, kb_free = True\<rparr>)\<rparr>"

text \<open>The split of a block that is large enough.\<close>

definition split_block :: "u64 \<Rightarrow> u64 \<Rightarrow> kheap_t \<Rightarrow> kheap_t" where
  "split_block b sz st =
     (let nb = b + KHDR + sz; h = kblk st b;
          st = set_blk nb (\<lambda>_. \<lparr>kb_size = kb_size h - sz - KHDR, kb_next = kb_next h, kb_prev = b, kb_magic = KBLOCK_MAGIC, kb_free = True\<rparr>) st;
          st = (if kb_next h \<noteq> 0 then set_blk (kb_next h) (\<lambda>k. k\<lparr>kb_prev := nb\<rparr>) st else st)
      in set_blk b (\<lambda>k. k\<lparr>kb_next := nb, kb_size := sz\<rparr>) st)"

definition carve :: "u64 \<Rightarrow> u64 \<Rightarrow> kheap_t \<Rightarrow> kheap_t" where
  "carve b sz st = set_blk b (\<lambda>k. k\<lparr>kb_free := False\<rparr>) (if kb_size (kblk st b) \<ge> sz + KHDR + 16 then split_block b sz st else st)"

fun kmalloc_walk :: "nat \<Rightarrow> u64 \<Rightarrow> u64 \<Rightarrow> kheap_t \<Rightarrow> (u64 \<times> kheap_t) option" where
  "kmalloc_walk 0 b sz st = None"
| "kmalloc_walk (Suc n) b sz st =
     (if b = 0 then Some (0, st)
      else if \<not> kb_free (kblk st b) \<or> kb_size (kblk st b) < sz then kmalloc_walk n (kb_next (kblk st b)) sz st
      else Some (b + KHDR, carve b sz st))"

definition kmalloc :: "u64 \<Rightarrow> kheap_t \<Rightarrow> (u64 \<times> kheap_t) option" where
  "kmalloc sz st = (if sz = 0 then Some (0, st) else kmalloc_walk (walk_fuel st) (heap_head st) (align16 sz) st)"

text \<open>The two coalescing steps of \<open>kfree\<close>, with the following and with the preceding block.\<close>

definition merge_next :: "u64 \<Rightarrow> kheap_t \<Rightarrow> kheap_t" where
  "merge_next b st =
     (let nx = kb_next (kblk st b) in
      if nx \<noteq> 0 \<and> kb_free (kblk st nx)
      then let st = set_blk b (\<lambda>k. k\<lparr>kb_size := kb_size k + (KHDR + kb_size (kblk st nx)), kb_next := kb_next (kblk st nx)\<rparr>) st;
               n2 = kb_next (kblk st b)
           in if n2 \<noteq> 0 then set_blk n2 (\<lambda>k. k\<lparr>kb_prev := b\<rparr>) st else st
      else st)"

definition merge_prev :: "u64 \<Rightarrow> kheap_t \<Rightarrow> kheap_t" where
  "merge_prev b st =
     (let pv = kb_prev (kblk st b) in
      if pv \<noteq> 0 \<and> kb_free (kblk st pv)
      then let st = set_blk pv (\<lambda>k. k\<lparr>kb_size := kb_size k + (KHDR + kb_size (kblk st b)), kb_next := kb_next (kblk st b)\<rparr>) st;
               n2 = kb_next (kblk st b)
           in if n2 \<noteq> 0 then set_blk n2 (\<lambda>k. k\<lparr>kb_prev := kb_prev (kblk st b)\<rparr>) st else st
      else st)"

definition kfree :: "u64 \<Rightarrow> kheap_t \<Rightarrow> kheap_t" where
  "kfree ptr st =
     (if ptr = 0 then st
      else let b = ptr - KHDR in
        if kb_magic (kblk st b) \<noteq> KBLOCK_MAGIC \<or> kb_free (kblk st b) then st
        else merge_prev b (merge_next b (set_blk b (\<lambda>k. k\<lparr>kb_free := True\<rparr>) st)))"

text \<open>The new pointer, the copy made (destination, source, length) and the heap.\<close>

definition krealloc :: "u64 \<Rightarrow> u64 \<Rightarrow> kheap_t \<Rightarrow> (u64 \<times> (u64 \<times> u64 \<times> u64) option \<times> kheap_t) option" where
  "krealloc ptr new_size st =
     (if ptr = 0 then map_option (\<lambda>(p, st). (p, None, st)) (kmalloc new_size st)
      else if new_size = 0 then Some (0, None, kfree ptr st)
      else let b = ptr - KHDR in
        if kb_magic (kblk st b) \<noteq> KBLOCK_MAGIC then Some (0, None, st)
        else if kb_size (kblk st b) \<ge> new_size then Some (ptr, None, st)
        else map_option (\<lambda>(np, st'). if np \<noteq> 0 then (np, Some (np, ptr, kb_size (kblk st' b)), kfree ptr st') else (0, None, st'))
               (kmalloc new_size st))"

fun free_walk :: "nat \<Rightarrow> u64 \<Rightarrow> kheap_t \<Rightarrow> u64 \<Rightarrow> u64 option" where
  "free_walk 0 b st acc = None"
| "free_walk (Suc n) b st acc =
     (if b = 0 then Some acc
      else free_walk n (kb_next (kblk st b)) st (if kb_free (kblk st b) then acc + kb_size (kblk st b) else acc))"

definition kheap_free_bytes :: "kheap_t \<Rightarrow> u64 option" where
  "kheap_free_bytes st = free_walk (walk_fuel st) (heap_head st) st 0"

section \<open>The block list\<close>

text \<open>A block is its payload size and whether it is free; blocks follow each other without gaps.\<close>

type_synonym blocks = "(nat \<times> bool) list"

definition span :: "blocks \<Rightarrow> nat" where
  "span bs = (\<Sum>(s, f)\<leftarrow>bs. 32 + s)"

lemma span_simps [simp]: "span [] = 0" "span ((s, f) # bs) = 32 + s + span bs" "span (bs @ cs) = span bs + span cs"
  by (simp_all add: span_def)

text \<open>The headers of \<open>bs\<close> lie from address \<open>a\<close> on; \<open>pv\<close> and \<open>nx\<close> are the outer links.\<close>

fun chain :: "(u64 \<Rightarrow> kblock_t) \<Rightarrow> u64 \<Rightarrow> nat \<Rightarrow> blocks \<Rightarrow> u64 \<Rightarrow> bool" where
  "chain m pv a [] nx \<longleftrightarrow> True"
| "chain m pv a ((s, f) # bs) nx \<longleftrightarrow>
     m (of_nat a) = \<lparr>kb_size = of_nat s, kb_next = (if bs = [] then nx else of_nat (a + 32 + s)), kb_prev = pv, kb_magic = KBLOCK_MAGIC, kb_free = f\<rparr>
     \<and> chain m (of_nat a) (a + 32 + s) bs nx"

definition last_addr :: "u64 \<Rightarrow> nat \<Rightarrow> blocks \<Rightarrow> u64" where
  "last_addr pv a bs = (if bs = [] then pv else of_nat (a + span (butlast bs)))"

lemma last_addr_simps [simp]: "last_addr pv a [] = pv" "last_addr pv a ((s, f) # bs) = last_addr (of_nat a) (a + 32 + s) bs"
  by (auto simp: last_addr_def add.assoc)

lemma last_addr_snoc [simp]: "last_addr pv a (bs @ [b]) = of_nat (a + span bs)"
  by (simp add: last_addr_def)

lemma chain_append:
  "chain m pv a (bs @ cs) nx \<longleftrightarrow> chain m pv a bs (if cs = [] then nx else of_nat (a + span bs)) \<and> chain m (last_addr pv a bs) (a + span bs) cs nx"
proof (induction bs arbitrary: pv a)
  case (Cons b bs)
  obtain s f where b: "b = (s, f)" by (cases b)
  show ?case unfolding b using Cons.IH [of "of_nat a" "a + 32 + s"] by (auto simp: add.assoc)
qed simp

lemma word_nat_eq: "x < 2 ^ 63 \<Longrightarrow> y < 2 ^ 63 \<Longrightarrow> (of_nat x :: u64) = of_nat y \<longleftrightarrow> x = y"
  by (auto simp: word_unat_eq_iff unat_of_nat)

text \<open>A store outside the region leaves the chain.\<close>

lemma chain_frame:
  "chain m pv a bs nx \<Longrightarrow> (\<And>x. a \<le> x \<Longrightarrow> x < a + span bs \<Longrightarrow> m' (of_nat x) = m (of_nat x)) \<Longrightarrow> chain m' pv a bs nx"
proof (induction bs arbitrary: pv a)
  case (Cons b bs)
  obtain s f where b: "b = (s, f)" by (cases b)
  have "m' (of_nat a) = m (of_nat a)" using Cons.prems(2) [of a] unfolding b by simp
  then show ?case using Cons unfolding b by simp
qed simp

lemma chain_update:
  "chain m pv a bs nx \<Longrightarrow> x < a \<or> a + span bs \<le> x \<Longrightarrow> x < 2 ^ 63 \<Longrightarrow> a + span bs < 2 ^ 63 \<Longrightarrow> chain (m(of_nat x := h)) pv a bs nx"
  by (rule chain_frame) (auto simp: word_nat_eq)

lemma chain_set_prev:
  "chain m pv a bs nx \<Longrightarrow> bs \<noteq> [] \<Longrightarrow> a + span bs < 2 ^ 63 \<Longrightarrow> chain (m(of_nat a := (m (of_nat a))\<lparr>kb_prev := pv'\<rparr>)) pv' a bs nx"
proof (cases bs)
  case (Cons b cs)
  assume c: "chain m pv a bs nx" "a + span bs < 2 ^ 63"
  obtain s f where b: "b = (s, f)" by (cases b)
  have "chain (m(of_nat a := (m (of_nat a))\<lparr>kb_prev := pv'\<rparr>)) (of_nat a) (a + 32 + s) cs nx"
    using c unfolding Cons b by (intro chain_update) simp_all
  then show ?thesis using c unfolding Cons b by simp
qed simp

text \<open>A block in the middle: its header, and what may be written around it.\<close>

lemma chain_mid:
  assumes "chain m pv a (xs @ (s, f) # ys) nx"
  shows "m (of_nat (a + span xs)) = \<lparr>kb_size = of_nat s, kb_next = (if ys = [] then nx else of_nat (a + span xs + 32 + s)),
      kb_prev = last_addr pv a xs, kb_magic = KBLOCK_MAGIC, kb_free = f\<rparr>"
    and "chain m pv a xs (of_nat (a + span xs))" and "chain m (of_nat (a + span xs)) (a + span xs + 32 + s) ys nx"
  using assms by (simp_all add: chain_append)

lemma chain_midI:
  assumes "chain m pv a xs (of_nat (a + span xs))" "chain m (of_nat (a + span xs)) (a + span xs + 32 + s) ys nx"
    and "m (of_nat (a + span xs)) = \<lparr>kb_size = of_nat s, kb_next = (if ys = [] then nx else of_nat (a + span xs + 32 + s)),
      kb_prev = last_addr pv a xs, kb_magic = KBLOCK_MAGIC, kb_free = f\<rparr>"
  shows "chain m pv a (xs @ (s, f) # ys) nx"
  using assms by (simp add: chain_append)

lemma set_blk_sel [simp]:
  "kblk (set_blk b f st) = (kblk st)(b := f (kblk st b))" "heap_head (set_blk b f st) = heap_head st" "kh_total (set_blk b f st) = kh_total st"
  by (simp_all add: set_blk_def)

lemma of_nat_nonzero: "0 < x \<Longrightarrow> x < 2 ^ 63 \<Longrightarrow> (of_nat x :: u64) \<noteq> 0"
  using word_nat_eq [of x 0] by simp

lemma unat_nat63: "x < 2 ^ 63 \<Longrightarrow> unat (of_nat x :: u64) = x"
  by (simp add: unat_of_nat)

section \<open>Allocation\<close>

definition pieces :: "nat \<Rightarrow> nat \<Rightarrow> blocks" where
  "pieces n s = (if n + 48 \<le> s then [(n, False), (s - n - 32, True)] else [(s, False)])"

text \<open>First fit on the block list: the offset of the header and the new blocks.\<close>

definition alloc_blocks :: "nat \<Rightarrow> blocks \<Rightarrow> (nat \<times> blocks) option" where
  "alloc_blocks n bs = (case List.extract (\<lambda>(s, f). f \<and> n \<le> s) bs of None \<Rightarrow> None
     | Some (xs, (s, f), ys) \<Rightarrow> Some (span xs, xs @ pieces n s @ ys))"

lemma span_pieces: "n \<le> s \<Longrightarrow> span (pieces n s) = 32 + s"
  by (simp add: pieces_def)

lemma carve_plain:
  assumes "chain (kblk st) pv a (xs @ (s, f) # ys) nx" "a + span (xs @ (s, f) # ys) < 2 ^ 63"
  shows "chain ((kblk st)(of_nat (a + span xs) := (kblk st (of_nat (a + span xs)))\<lparr>kb_free := g\<rparr>)) pv a (xs @ (s, g) # ys) nx"
proof -
  define B where "B = a + span xs"
  define h where "h = (kblk st (of_nat B))\<lparr>kb_free := g\<rparr>"
  note c = chain_mid [OF assms(1), folded B_def]
  have b: "B + 32 + s + span ys < 2 ^ 63" using assms(2) by (simp add: B_def)
  have "chain ((kblk st)(of_nat B := h)) pv a xs (of_nat B)" by (rule chain_update [OF c(2)]) (use b in \<open>auto simp: B_def\<close>)
  moreover have "chain ((kblk st)(of_nat B := h)) (of_nat B) (B + 32 + s) ys nx" by (rule chain_update [OF c(3)]) (use b in auto)
  moreover have "((kblk st)(of_nat B := h)) (of_nat B) = \<lparr>kb_size = of_nat s, kb_next = (if ys = [] then nx else of_nat (B + 32 + s)),
      kb_prev = last_addr pv a xs, kb_magic = KBLOCK_MAGIC, kb_free = g\<rparr>" by (simp add: h_def c(1))
  ultimately show ?thesis unfolding B_def [symmetric] h_def [symmetric] by (intro chain_midI) (simp_all add: B_def)
qed

lemma split_chain:
  assumes ch: "chain (kblk st) pv a (xs @ (s, f) # ys) 0" and b: "a + span (xs @ (s, f) # ys) < 2 ^ 63" "0 < a"
    and sz: "unat sz + 48 \<le> s"
  shows "chain (kblk (split_block (of_nat (a + span xs)) sz st)) pv a (xs @ (unat sz, f) # (s - unat sz - 32, True) # ys) 0"
proof -
  define B where "B = a + span xs"
  define N where "N = B + 32 + unat sz"
  define Y where "Y = B + 32 + s"
  note c = chain_mid [OF ch, folded B_def]
  have ys: "Y + span ys < 2 ^ 63" using b(1) by (simp add: Y_def B_def)
  have lt: "B < N" "N + 48 \<le> Y" "0 < B" using sz b(2) by (simp_all add: N_def Y_def B_def)
  have nb: "of_nat B + KHDR + sz = (of_nat N :: u64)" by (simp add: N_def)
  have Yn: "Y = N + 32 + (s - unat sz - 32)" using sz by (simp add: N_def Y_def)
  have left: "of_nat s - sz - KHDR = (of_nat (s - unat sz - 32) :: u64)" using sz by (simp add: of_nat_diff)
  have ne: "(of_nat N :: u64) \<noteq> of_nat B" "(of_nat Y :: u64) \<noteq> of_nat B" "(of_nat Y :: u64) \<noteq> of_nat N" "(of_nat Y :: u64) \<noteq> 0"
    using lt ys by (simp_all add: word_nat_eq of_nat_nonzero)
  define m1 where "m1 = (kblk st)(of_nat N := \<lparr>kb_size = of_nat (s - unat sz - 32), kb_next = (if ys = [] then 0 else of_nat Y),
     kb_prev = of_nat B, kb_magic = KBLOCK_MAGIC, kb_free = True\<rparr>)"
  define m2 where "m2 = (if ys = [] then m1 else m1(of_nat Y := (m1 (of_nat Y))\<lparr>kb_prev := of_nat N\<rparr>))"
  define m3 where "m3 = m2(of_nat B := \<lparr>kb_size = sz, kb_next = of_nat N, kb_prev = last_addr pv a xs, kb_magic = KBLOCK_MAGIC, kb_free = f\<rparr>)"
  have m: "kblk (split_block (of_nat B) sz st) = m3"
    using c(1) ne unfolding split_block_def Let_def nb m3_def m2_def m1_def Y_def [symmetric] by (auto simp: left fun_eq_iff)
  have y: "chain m2 (of_nat N) Y ys 0"
  proof (cases "ys = []")
    case False
    have "chain m1 (of_nat B) Y ys 0" unfolding m1_def using c(3) lt ys by (intro chain_update) (simp_all add: Y_def)
    from chain_set_prev [OF this False ys] show ?thesis using False by (simp add: m2_def)
  qed simp
  have x: "chain m2 pv a xs (of_nat B)"
  proof -
    have "chain m1 pv a xs (of_nat B)" unfolding m1_def using c(2) lt ys by (intro chain_update) (auto simp: B_def)
    then have "chain (m1(of_nat Y := h)) pv a xs (of_nat B)" for h using lt ys by (intro chain_update) (auto simp: B_def)
    then show ?thesis using \<open>chain m1 pv a xs (of_nat B)\<close> by (simp add: m2_def)
  qed
  have x3: "chain m3 pv a xs (of_nat B)" unfolding m3_def using x lt ys by (intro chain_update) (auto simp: B_def)
  have y3: "chain m3 (of_nat N) Y ys 0" unfolding m3_def using y lt ys by (intro chain_update) auto
  have "chain m3 (of_nat B) N ((s - unat sz - 32, True) # ys) 0"
    using y3 ne unfolding Yn by (simp add: m3_def m2_def m1_def Yn)
  then show ?thesis unfolding B_def [symmetric] m
    by (intro chain_midI) (use x3 in \<open>simp_all add: B_def [symmetric] N_def [symmetric] m3_def\<close>)
qed

lemma carve_chain:
  assumes ch: "chain (kblk st) pv a (xs @ (s, True) # ys) 0" and b: "a + span (xs @ (s, True) # ys) < 2 ^ 63" "0 < a" and sz: "unat sz \<le> s"
  shows "chain (kblk (carve (of_nat (a + span xs)) sz st)) pv a (xs @ pieces (unat sz) s @ ys) 0"
proof -
  let ?B = "of_nat (a + span xs) :: u64"
  have h: "kb_size (kblk st ?B) = of_nat s" using chain_mid(1) [OF ch] by simp
  have s: "s < 2 ^ 63" "unat sz < 2 ^ 63" using b(1) sz by simp_all
  have e: "sz + KHDR + 16 = (of_nat (unat sz + 48) :: u64)" by simp
  have "unat (of_nat (unat sz + 48) :: u64) = unat sz + 48" using s unfolding unat_of_nat by (intro mod_less) simp
  moreover have "unat (of_nat s :: u64) = s" by (rule unat_nat63 [OF s(1)])
  ultimately have le: "kb_size (kblk st ?B) \<ge> sz + KHDR + 16 \<longleftrightarrow> unat sz + 48 \<le> s"
    unfolding h word_le_nat_alt e by simp
  show ?thesis
  proof (cases "unat sz + 48 \<le> s")
    case True
    have "chain (kblk (split_block ?B sz st)) pv a (xs @ (unat sz, True) # (s - unat sz - 32, True) # ys) 0"
      by (rule split_chain [OF ch b True])
    from carve_plain [OF this, of False] show ?thesis
      using b(1) True le by (simp add: carve_def pieces_def)
  next
    case False
    then show ?thesis using carve_plain [OF ch b(1), of False] le by (simp add: carve_def pieces_def)
  qed
qed

lemma walk_spec:
  "chain (kblk st) pv a bs 0 \<Longrightarrow> 0 < a \<Longrightarrow> a + span bs < 2 ^ 63 \<Longrightarrow> length bs < n \<Longrightarrow>
   kmalloc_walk n (if bs = [] then 0 else of_nat a) sz st =
     (case List.extract (\<lambda>(s, f). f \<and> unat sz \<le> s) bs of None \<Rightarrow> Some (0, st)
      | Some (xs, _, _) \<Rightarrow> Some (of_nat (a + span xs) + KHDR, carve (of_nat (a + span xs)) sz st))"
proof (induction bs arbitrary: pv a n)
  case Nil
  then show ?case by (cases n) (simp_all add: extract_Nil_code)
next
  case (Cons b bs)
  obtain s f where b: "b = (s, f)" by (cases b)
  obtain k where n: "n = Suc k" using Cons.prems(4) by (cases n) simp_all
  have h: "kblk st (of_nat a) = \<lparr>kb_size = of_nat s, kb_next = (if bs = [] then 0 else of_nat (a + 32 + s)), kb_prev = pv, kb_magic = KBLOCK_MAGIC, kb_free = f\<rparr>"
    and c: "chain (kblk st) (of_nat a) (a + 32 + s) bs 0" using Cons.prems(1) unfolding b by simp_all
  have nz: "(of_nat a :: u64) \<noteq> 0" using Cons.prems by (intro of_nat_nonzero) simp_all
  have lt: "(of_nat s :: u64) < sz \<longleftrightarrow> s < unat sz" using Cons.prems(3) unfolding b by (simp add: word_less_nat_alt unat_of_nat)
  show ?case
  proof (cases "f \<and> unat sz \<le> s")
    case True
    then show ?thesis unfolding n b using nz h lt by (simp add: extract_Cons_code)
  next
    case False
    have "kmalloc_walk n (of_nat a) sz st = kmalloc_walk k (if bs = [] then 0 else of_nat (a + 32 + s)) sz st"
      unfolding n using nz h lt False by auto
    then show ?thesis using Cons.IH [OF c, of k] Cons.prems(2-4) False unfolding b n
      by (auto simp: extract_Cons_code add.assoc split: option.splits)
  qed
qed

end
