(* ===== verification/Kheap_Props.thy ===== *)
theory Kheap_Props
  imports Kheap
begin

text \<open>
  The kernel heap refines a list of blocks: allocation is first fit, release coalesces with both
  neighbours, and the blocks always tile the region. What follows for the clients: payloads never
  overlap, requests fail only when no block is large enough, and a heap that is given everything back
  is one block again.
\<close>

section \<open>Release\<close>

definition join_mem :: "u64 \<Rightarrow> u64 \<Rightarrow> (u64 \<Rightarrow> kblock_t) \<Rightarrow> u64 \<Rightarrow> kblock_t" where
  "join_mem p n m =
     (let m1 = m(p := (m p)\<lparr>kb_size := kb_size (m p) + (KHDR + kb_size (m n)), kb_next := kb_next (m n)\<rparr>)
      in if kb_next (m n) \<noteq> 0 then m1(kb_next (m n) := (m1 (kb_next (m n)))\<lparr>kb_prev := p\<rparr>) else m1)"

lemma join_chain:
  assumes ch: "chain m pv a (ws @ (r, g) # (s, f) # ys) 0" and b: "a + span (ws @ (r, g) # (s, f) # ys) < 2 ^ 63" "0 < a"
  shows "chain (join_mem (of_nat (a + span ws)) (of_nat (a + span ws + 32 + r)) m) pv a (ws @ (r + 32 + s, g) # ys) 0"
proof -
  define P where "P = a + span ws"
  define N where "N = P + 32 + r"
  define Y where "Y = N + 32 + s"
  have lt: "P < N" "N < Y" "Y + span ys < 2 ^ 63" "0 < P" using b by (simp_all add: P_def N_def Y_def)
  have c: "m (of_nat P) = \<lparr>kb_size = of_nat r, kb_next = of_nat N, kb_prev = last_addr pv a ws, kb_magic = KBLOCK_MAGIC, kb_free = g\<rparr>"
    "chain m pv a ws (of_nat P)" "chain m (of_nat P) N ((s, f) # ys) 0"
    using chain_mid [OF ch, folded P_def, folded N_def] by simp_all
  have n: "m (of_nat N) = \<lparr>kb_size = of_nat s, kb_next = (if ys = [] then 0 else of_nat Y), kb_prev = of_nat P, kb_magic = KBLOCK_MAGIC, kb_free = f\<rparr>"
    and y: "chain m (of_nat N) Y ys 0" using c(3) by (simp_all add: Y_def)
  have nz: "(of_nat Y :: u64) \<noteq> 0" "(of_nat Y :: u64) \<noteq> of_nat P" using lt by (simp_all add: word_nat_eq of_nat_nonzero)
  define m1 where "m1 = m(of_nat P := \<lparr>kb_size = of_nat (r + 32 + s), kb_next = (if ys = [] then 0 else of_nat Y),
     kb_prev = last_addr pv a ws, kb_magic = KBLOCK_MAGIC, kb_free = g\<rparr>)"
  define m2 where "m2 = (if ys = [] then m1 else m1(of_nat Y := (m1 (of_nat Y))\<lparr>kb_prev := of_nat P\<rparr>))"
  have j: "join_mem (of_nat P) (of_nat N) m = m2" using nz unfolding join_mem_def Let_def c(1) n m2_def m1_def by (simp add: add.assoc)
  have w1: "chain m1 pv a ws (of_nat P)" unfolding m1_def using c(2) lt by (intro chain_update) (auto simp: P_def)
  then have "chain (m1(of_nat Y := h)) pv a ws (of_nat P)" for h using lt by (intro chain_update) (auto simp: P_def)
  with w1 have w: "chain m2 pv a ws (of_nat P)" by (simp add: m2_def)
  have yy: "chain m2 (of_nat P) Y ys 0"
  proof (cases "ys = []")
    case False
    have "chain m1 (of_nat N) Y ys 0" unfolding m1_def using y lt by (intro chain_update) auto
    from chain_set_prev [OF this False lt(3)] show ?thesis using False by (simp add: m2_def)
  qed simp
  have e: "P + 32 + (r + 32 + s) = Y" by (simp add: Y_def N_def)
  have "m2 (of_nat P) = m1 (of_nat P)" using nz by (simp add: m2_def)
  then show ?thesis unfolding P_def [symmetric] N_def [symmetric] j
    by (intro chain_midI) (use w yy in \<open>simp_all add: P_def [symmetric] e m1_def del: of_nat_add\<close>)
qed

definition join_next :: "nat \<Rightarrow> blocks \<Rightarrow> nat \<times> blocks" where
  "join_next s ys = (case ys of (t, True) # zs \<Rightarrow> (s + 32 + t, zs) | _ \<Rightarrow> (s, ys))"

text \<open>Release of the block of size \<open>s\<close> between \<open>xs\<close> and \<open>ys\<close>.\<close>

definition free_blocks :: "blocks \<Rightarrow> nat \<Rightarrow> blocks \<Rightarrow> blocks" where
  "free_blocks xs s ys = (case join_next s ys of (s1, ys1) \<Rightarrow>
     if xs \<noteq> [] \<and> snd (last xs) then butlast xs @ (fst (last xs) + 32 + s1, True) # ys1 else xs @ (s1, True) # ys1)"

lemma span_join_next: "join_next s ys = (s1, ys1) \<Longrightarrow> 32 + s1 + span ys1 = 32 + s + span ys"
  by (auto simp: join_next_def split: list.splits bool.splits)

lemma merge_next_chain:
  assumes ch: "chain (kblk st) pv a (xs @ (s, f) # ys) 0" and b: "a + span (xs @ (s, f) # ys) < 2 ^ 63" "0 < a"
    and j: "join_next s ys = (s1, ys1)"
  shows "chain (kblk (merge_next (of_nat (a + span xs)) st)) pv a (xs @ (s1, f) # ys1) 0"
proof (cases "\<exists>t zs. ys = (t, True) # zs")
  case True
  then obtain t zs where ys: "ys = (t, True) # zs" by blast
  define B where "B = a + span xs"
  note c = chain_mid [OF ch, folded B_def]
  have nz: "(of_nat (B + 32 + s) :: u64) \<noteq> 0" using b unfolding B_def by (intro of_nat_nonzero) simp_all
  have h: "kb_next (kblk st (of_nat B)) = of_nat (B + 32 + s)" "kb_free (kblk st (of_nat (B + 32 + s)))"
    using c(1,3) unfolding ys by simp_all
  have ne: "(of_nat (B + 32 + s) :: u64) \<noteq> of_nat B" using b unfolding B_def by (subst word_nat_eq) simp_all
  have "kblk (merge_next (of_nat B) st) = join_mem (of_nat B) (of_nat (B + 32 + s)) (kblk st)"
    using nz h ne unfolding merge_next_def join_mem_def by (simp add: Let_def del: of_nat_add)
  moreover have "s1 = s + 32 + t" "ys1 = zs" using j unfolding ys by (simp_all add: join_next_def)
  ultimately show ?thesis using join_chain [of "kblk st" pv a xs s f t True zs] ch b unfolding ys B_def by simp
next
  case False
  define B where "B = a + span xs"
  note c = chain_mid [OF ch, folded B_def]
  have "merge_next (of_nat B) st = st"
  proof (cases ys)
    case Nil
    then show ?thesis using c(1) by (simp add: merge_next_def)
  next
    case (Cons y zs)
    then have "\<not> kb_free (kblk st (of_nat (B + 32 + s)))" using c(3) False by (cases y) auto
    then show ?thesis using c(1) Cons by (simp add: merge_next_def del: of_nat_add)
  qed
  moreover have "s1 = s" "ys1 = ys" using j False by (auto simp: join_next_def split: list.splits bool.splits)
  ultimately show ?thesis using ch unfolding B_def by simp
qed

lemma merge_prev_chain:
  assumes ch: "chain (kblk st) 0 a (xs @ (s, True) # ys) 0" and b: "a + span (xs @ (s, True) # ys) < 2 ^ 63" "0 < a"
  shows "chain (kblk (merge_prev (of_nat (a + span xs)) st)) 0 a
     (if xs \<noteq> [] \<and> snd (last xs) then butlast xs @ (fst (last xs) + 32 + s, True) # ys else xs @ (s, True) # ys) 0"
proof (cases "xs = []")
  case True
  then show ?thesis using ch by (simp add: merge_prev_def)
next
  case False
  then obtain ws r g where xs: "xs = ws @ [(r, g)]" by (metis append_butlast_last_id surj_pair)
  define P where "P = a + span ws"
  define B where "B = P + 32 + r"
  have B: "a + span xs = B" by (simp add: B_def P_def xs)
  have h: "kb_prev (kblk st (of_nat B)) = of_nat P" using chain_mid(1) [OF ch] unfolding B by (simp add: xs P_def)
  have ch': "chain (kblk st) 0 a (ws @ (r, g) # (s, True) # ys) 0" using ch unfolding xs by simp
  have g: "kb_free (kblk st (of_nat P)) = g" using chain_mid(1) [OF ch'] by (simp add: P_def)
  have nz: "(of_nat P :: u64) \<noteq> 0" using b unfolding xs P_def by (intro of_nat_nonzero) simp_all
  have ne: "(of_nat P :: u64) \<noteq> of_nat B" using b unfolding B_def P_def xs by (subst word_nat_eq) simp_all
  show ?thesis
  proof (cases g)
    case True
    have "kblk (merge_prev (of_nat B) st) = join_mem (of_nat P) (of_nat B) (kblk st)"
      using nz h g ne True unfolding merge_prev_def join_mem_def by (simp add: Let_def)
    moreover have "chain (join_mem (of_nat P) (of_nat B) (kblk st)) 0 a (ws @ (r + 32 + s, True) # ys) 0"
      using join_chain [of "kblk st" 0 a ws r g s True ys] ch' b True unfolding B_def P_def xs by simp
    ultimately show ?thesis using True unfolding B by (simp add: xs)
  next
    case False
    then have "merge_prev (of_nat B) st = st" using h g by (simp add: merge_prev_def)
    then show ?thesis using ch False unfolding B by (simp add: xs)
  qed
qed

lemma kfree_chain:
  assumes ch: "chain (kblk st) 0 a (xs @ (s, False) # ys) 0" and b: "a + span (xs @ (s, False) # ys) < 2 ^ 63" "0 < a"
  shows "chain (kblk (kfree (of_nat (a + span xs) + KHDR) st)) 0 a (free_blocks xs s ys) 0"
proof -
  define B where "B = a + span xs"
  note c = chain_mid [OF ch, folded B_def]
  have p: "of_nat B + KHDR \<noteq> 0" using of_nat_nonzero [of "B + 32"] b unfolding B_def by simp
  let ?st = "set_blk (of_nat B) (\<lambda>k. k\<lparr>kb_free := True\<rparr>) st"
  have e: "kfree (of_nat B + KHDR) st = merge_prev (of_nat B) (merge_next (of_nat B) ?st)"
    using p c(1) by (simp add: kfree_def Let_def)
  have c1: "chain (kblk ?st) 0 a (xs @ (s, True) # ys) 0" using carve_plain [OF ch b(1), of True] unfolding B_def by simp
  obtain s1 ys1 where j: "join_next s ys = (s1, ys1)" by (cases "join_next s ys")
  have b1: "a + span (xs @ (s, True) # ys) < 2 ^ 63" using b(1) by simp
  have c2: "chain (kblk (merge_next (of_nat B) ?st)) 0 a (xs @ (s1, True) # ys1) 0"
    using merge_next_chain [OF c1 b1 b(2) j] unfolding B_def .
  have "a + span (xs @ (s1, True) # ys1) < 2 ^ 63" using b1 span_join_next [OF j] by simp
  from merge_prev_chain [OF c2 this b(2)] show ?thesis
    unfolding free_blocks_def j B_def [symmetric] e prod.case .
qed

section \<open>The invariant\<close>

fun coalesced :: "blocks \<Rightarrow> bool" where
  "coalesced [] \<longleftrightarrow> True"
| "coalesced [b] \<longleftrightarrow> True"
| "coalesced (b # c # bs) \<longleftrightarrow> \<not> (snd b \<and> snd c) \<and> coalesced (c # bs)"

lemma coalesced_append:
  "coalesced (xs @ ys) \<longleftrightarrow> coalesced xs \<and> coalesced ys \<and> (xs = [] \<or> ys = [] \<or> \<not> (snd (last xs) \<and> snd (hd ys)))"
proof (induction xs rule: coalesced.induct)
  case (2 b)
  then show ?case by (cases ys) auto
qed auto

definition heap_rep :: "nat \<Rightarrow> kheap_t \<Rightarrow> blocks \<Rightarrow> bool" where
  "heap_rep lo st bs \<longleftrightarrow> bs \<noteq> [] \<and> heap_head st = of_nat lo \<and> 0 < lo \<and> lo + span bs < 2 ^ 63 \<and> kh_total st = of_nat (span bs)
     \<and> chain (kblk st) 0 lo bs 0 \<and> (\<forall>b\<in>set bs. fst b mod 16 = 0) \<and> lo mod 16 = 0 \<and> coalesced bs"

text \<open>The payload addresses of the taken blocks.\<close>

fun taken :: "nat \<Rightarrow> blocks \<Rightarrow> nat set" where
  "taken a [] = {}"
| "taken a ((s, f) # bs) = (if f then {} else {a + 32}) \<union> taken (a + 32 + s) bs"

lemma taken_append [simp]: "taken a (xs @ ys) = taken a xs \<union> taken (a + span xs) ys"
proof (induction xs arbitrary: a)
  case (Cons x xs)
  then show ?case by (cases x) (simp add: add.assoc Un_assoc)
qed simp

lemma taken_range: "x \<in> taken a bs \<Longrightarrow> a + 32 \<le> x \<and> x \<le> a + span bs"
proof (induction bs arbitrary: a)
  case (Cons b bs)
  obtain s f where b: "b = (s, f)" by (cases b)
  show ?case using Cons.prems Cons.IH [of "a + 32 + s"] unfolding b by (auto split: if_splits)
qed simp

lemma taken_block: "x \<in> taken a bs \<Longrightarrow> \<exists>xs s ys. bs = xs @ (s, False) # ys \<and> x = a + span xs + 32"
proof (induction bs arbitrary: a)
  case (Cons b bs)
  obtain s f where b: "b = (s, f)" by (cases b)
  consider "\<not> f" "x = a + 32" | "x \<in> taken (a + 32 + s) bs" using Cons.prems unfolding b by (auto split: if_splits)
  then show ?case
  proof cases
    case 1
    then show ?thesis unfolding b by (intro exI [of _ "[]"]) simp
  next
    case 2
    from Cons.IH [OF this] obtain xs t ys where "bs = xs @ (t, False) # ys" "x = a + 32 + s + span xs + 32" by blast
    then show ?thesis unfolding b by (intro exI [of _ "(s, f) # xs"]) auto
  qed
qed simp

lemma unat_align16: "unat (align16 x) mod 16 = 0"
proof -
  have m: "(15 :: u64) = mask 4" by (simp add: mask_eq_exp_minus_1)
  have "align16 x AND mask 4 = 0" by (simp add: align16_def m and.assoc)
  then have "take_bit 4 (align16 x) = 0" by (simp add: take_bit_eq_mask)
  moreover have "unat (take_bit 4 (align16 x)) = unat (align16 x) mod 16" by (simp add: take_bit_eq_mod unat_mod)
  ultimately show ?thesis by simp
qed

lemma length_span: "length bs \<le> span bs"
proof (induction bs)
  case (Cons b bs)
  then show ?case by (cases b) simp
qed simp

lemma heap_walk_fuel: "heap_rep lo st bs \<Longrightarrow> length bs < walk_fuel st"
  using length_span [of bs] unfolding heap_rep_def walk_fuel_def by (simp add: unat_nat63)

lemma extract_fit:
  assumes "List.extract (\<lambda>(s, f). f \<and> n \<le> s) bs = Some (xs, (s, f), ys)"
  shows "bs = xs @ (s, True) # ys" "f" "n \<le> s" "\<forall>b\<in>set xs. \<not> (snd b \<and> n \<le> fst b)"
proof -
  have e: "bs = xs @ (s, f) # ys \<and> (case (s, f) of (s, f) \<Rightarrow> f \<and> n \<le> s) \<and> (\<forall>b\<in>set xs. \<not> (case b of (s, f) \<Rightarrow> f \<and> n \<le> s))"
    using assms unfolding extract_Some_iff by blast
  then show "f" "n \<le> s" by simp_all
  then show "bs = xs @ (s, True) # ys" using e by simp
  show "\<forall>b\<in>set xs. \<not> (snd b \<and> n \<le> fst b)" using e by (simp add: case_prod_beta)
qed

lemma coalesced_Cons: "coalesced (b # ys) \<longleftrightarrow> coalesced ys \<and> (ys = [] \<or> \<not> (snd b \<and> snd (hd ys)))"
  by (cases ys) auto

lemma coalesced_mid:
  "coalesced (xs @ (s, True) # ys) \<longleftrightarrow> coalesced xs \<and> coalesced ys \<and> (xs = [] \<or> \<not> snd (last xs)) \<and> (ys = [] \<or> \<not> snd (hd ys))"
  unfolding coalesced_append coalesced_Cons by simp blast

lemma coalesced_taken: "coalesced (xs @ (s, False) # ys) \<longleftrightarrow> coalesced xs \<and> coalesced ys"
  unfolding coalesced_append coalesced_Cons by simp

lemma kmalloc_rep:
  assumes rep: "heap_rep lo st bs" and nz: "sz \<noteq> 0"
  shows "case alloc_blocks (unat (align16 sz)) bs of None \<Rightarrow> kmalloc sz st = Some (0, st)
     | Some (off, bs') \<Rightarrow> \<exists>st'. kmalloc sz st = Some (of_nat (lo + off + 32), st') \<and> heap_rep lo st' bs' \<and> span bs' = span bs
         \<and> taken lo bs' = insert (lo + off + 32) (taken lo bs) \<and> lo + off + 32 \<notin> taken lo bs"
proof -
  note r = rep [unfolded heap_rep_def]
  let ?n = "unat (align16 sz)"
  have w: "kmalloc sz st = (case List.extract (\<lambda>(s, f). f \<and> ?n \<le> s) bs of None \<Rightarrow> Some (0, st)
      | Some (xs, _, _) \<Rightarrow> Some (of_nat (lo + span xs) + KHDR, carve (of_nat (lo + span xs)) (align16 sz) st))"
    using walk_spec [of st 0 lo bs "walk_fuel st" "align16 sz"] r heap_walk_fuel [OF rep] nz by (simp add: kmalloc_def)
  show ?thesis
  proof (cases "List.extract (\<lambda>(s, f). f \<and> ?n \<le> s) bs")
    case None
    then show ?thesis using w by (simp add: alloc_blocks_def)
  next
    case (Some z)
    obtain xs s f ys where z: "z = (xs, (s, f), ys)" by (cases z) auto
    note e = extract_fit [OF Some [unfolded z]]
    let ?st = "carve (of_nat (lo + span xs)) (align16 sz) st" and ?bs = "xs @ pieces ?n s @ ys"
    have ch: "chain (kblk ?st) 0 lo ?bs 0" using r e by (intro carve_chain) simp_all
    have sp: "span ?bs = span bs" using e by (simp add: span_pieces)
    have head: "heap_head ?st = heap_head st" "kh_total ?st = kh_total st" by (simp_all add: carve_def split_block_def Let_def)
    have pn: "pieces ?n s \<noteq> []" by (simp add: pieces_def)
    have m: "\<forall>b\<in>set (pieces ?n s). fst b mod 16 = 0"
    proof -
      have "s mod 16 = 0" using r unfolding e(1) by simp
      moreover from this have "(s - ?n - 32) mod 16 = 0" if "?n + 48 \<le> s" using unat_align16 [of sz] that by presburger
      ultimately show ?thesis using unat_align16 [of sz] by (simp add: pieces_def)
    qed
    have co: "coalesced ?bs"
    proof (cases "?n + 48 \<le> s")
      case True
      then have "?bs = xs @ (?n, False) # (s - ?n - 32, True) # ys" by (simp add: pieces_def)
      moreover have "coalesced ((s - ?n - 32, True) # ys)" using r unfolding e(1) coalesced_mid coalesced_Cons by simp
      ultimately show ?thesis using r unfolding e(1) coalesced_mid by (simp only: coalesced_taken simp_thms)
    next
      case False
      then show ?thesis using r unfolding e(1) coalesced_mid by (simp add: pieces_def coalesced_taken)
    qed
    have rep': "heap_rep lo ?st ?bs" using r ch sp head pn m co unfolding heap_rep_def e(1) by auto
    have tk: "taken lo ?bs = insert (lo + span xs + 32) (taken lo bs)"
      using e(3) unfolding e(1) by (auto simp: pieces_def add.assoc)
    have nt: "lo + span xs + 32 \<notin> taken lo bs"
      unfolding e(1) by (auto dest: taken_range)
    show ?thesis using w rep' sp tk nt unfolding alloc_blocks_def Some z by (simp add: add.assoc)
  qed
qed

lemma free_blocks_span: "span (free_blocks xs s ys) = span (xs @ (s, False) # ys)"
proof -
  obtain s1 ys1 where j: "join_next s ys = (s1, ys1)" by (cases "join_next s ys")
  note sp = span_join_next [OF j]
  show ?thesis
  proof (cases "xs = []")
    case True
    then show ?thesis using sp by (simp add: free_blocks_def j)
  next
    case False
    then obtain ws r g where "xs = ws @ [(r, g)]" by (metis append_butlast_last_id surj_pair)
    then show ?thesis using sp by (simp add: free_blocks_def j)
  qed
qed

lemma free_blocks_props:
  assumes "\<forall>b\<in>set (xs @ (s, False) # ys). fst b mod 16 = 0" "coalesced (xs @ (s, False) # ys)"
  shows "free_blocks xs s ys \<noteq> []" "\<forall>b\<in>set (free_blocks xs s ys). fst b mod 16 = 0" "coalesced (free_blocks xs s ys)"
    "taken lo (free_blocks xs s ys) = taken lo (xs @ (s, False) # ys) - {lo + span xs + 32}"
proof -
  obtain s1 ys1 where j: "join_next s ys = (s1, ys1)" by (cases "join_next s ys")
  have ys: "coalesced ys" "coalesced xs" using assms(2) unfolding coalesced_taken by simp_all
  have m: "s mod 16 = 0" "\<forall>b\<in>set ys. fst b mod 16 = 0" "\<forall>b\<in>set xs. fst b mod 16 = 0" using assms(1) by simp_all
  consider (merge) t where "ys = (t, True) # ys1" "s1 = s + 32 + t" | (keep) "ys1 = ys" "s1 = s" "ys = [] \<or> \<not> snd (hd ys)"
    using j unfolding join_next_def by (auto split: list.splits prod.splits bool.splits)
  then have "s1 mod 16 = 0 \<and> (\<forall>b\<in>set ys1. fst b mod 16 = 0) \<and> coalesced ys1 \<and> (ys1 = [] \<or> \<not> snd (hd ys1))
    \<and> (\<forall>a. taken (a + 32 + s1) ys1 = taken (a + 32 + s) ys)"
  proof cases
    case (merge t)
    have "(s + 32 + t) mod 16 = 0" using m(1,2) unfolding merge(1) by (simp add: mod_eq_0_iff_dvd)
    then show ?thesis using m(2) ys(1) unfolding merge coalesced_Cons by (simp add: add.assoc)
  next
    case keep
    then show ?thesis using m ys by simp
  qed
  then have j1: "s1 mod 16 = 0" "\<forall>b\<in>set ys1. fst b mod 16 = 0" "coalesced ys1" "ys1 = [] \<or> \<not> snd (hd ys1)"
    and tk: "taken (a + 32 + s1) ys1 = taken (a + 32 + s) ys" for a by simp_all
  have out: "lo + span xs + 32 \<notin> taken lo xs" "lo + span xs + 32 \<notin> taken (lo + span xs + 32 + s) ys"
    by (auto dest: taken_range)
  have all: "free_blocks xs s ys \<noteq> [] \<and> (\<forall>b\<in>set (free_blocks xs s ys). fst b mod 16 = 0) \<and> coalesced (free_blocks xs s ys)
      \<and> taken lo (free_blocks xs s ys) = taken lo (xs @ (s, False) # ys) - {lo + span xs + 32}"
  proof (cases "xs \<noteq> [] \<and> snd (last xs)")
    case False
    then have e: "free_blocks xs s ys = xs @ (s1, True) # ys1" by (simp add: free_blocks_def j)
    have "coalesced (xs @ (s1, True) # ys1)" unfolding coalesced_mid using ys j1 False by simp
    moreover have "taken lo (xs @ (s1, True) # ys1) = taken lo (xs @ (s, False) # ys) - {lo + span xs + 32}"
      using tk [of "lo + span xs"] out by simp
    ultimately show ?thesis
      using m j1 unfolding e by auto
  next
    case True
    then obtain ws r where xs: "xs = ws @ [(r, True)]" by (metis append_butlast_last_id prod.collapse)
    have e: "free_blocks xs s ys = ws @ (r + 32 + s1, True) # ys1" by (simp add: free_blocks_def j xs)
    have w: "coalesced ws" "ws = [] \<or> \<not> snd (last ws)" using ys(2) unfolding xs coalesced_mid by simp_all
    have "coalesced (ws @ (r + 32 + s1, True) # ys1)" unfolding coalesced_mid using w j1 by simp
    moreover have "taken lo (ws @ (r + 32 + s1, True) # ys1) = taken lo (xs @ (s, False) # ys) - {lo + span xs + 32}"
    proof -
      have e: "lo + span ws + 32 + (r + 32 + s1) = lo + span xs + 32 + s1" by (simp add: xs)
      have "taken lo (ws @ (r + 32 + s1, True) # ys1) = taken lo ws \<union> taken (lo + span ws + 32 + (r + 32 + s1)) ys1"
        by (simp only: taken_append taken.simps if_True Un_empty_left)
      then have "taken lo (ws @ (r + 32 + s1, True) # ys1) = taken lo ws \<union> taken (lo + span xs + 32 + s) ys" unfolding e tk .
      moreover have "taken lo xs = taken lo ws" by (simp add: xs)
      ultimately show ?thesis using out by simp
    qed
    moreover have "(r + 32 + s1) mod 16 = 0" using m(3) j1(1) unfolding xs by (simp add: mod_eq_0_iff_dvd)
    moreover from this have "\<forall>b\<in>set (ws @ (r + 32 + s1, True) # ys1). fst b mod 16 = 0" using m(3) j1(2) unfolding xs by auto
    ultimately show ?thesis unfolding e by blast
  qed
  then show "free_blocks xs s ys \<noteq> []" "\<forall>b\<in>set (free_blocks xs s ys). fst b mod 16 = 0" "coalesced (free_blocks xs s ys)"
    "taken lo (free_blocks xs s ys) = taken lo (xs @ (s, False) # ys) - {lo + span xs + 32}" by simp_all
qed

lemma kfree_rep:
  assumes rep: "heap_rep lo st (xs @ (s, False) # ys)"
  shows "heap_rep lo (kfree (of_nat (lo + span xs + 32)) st) (free_blocks xs s ys)"
proof -
  note r = rep [unfolded heap_rep_def]
  have p: "of_nat (lo + span xs + 32) = (of_nat (lo + span xs) + KHDR :: u64)" by simp
  have ch: "chain (kblk (kfree (of_nat (lo + span xs) + KHDR) st)) 0 lo (free_blocks xs s ys) 0"
    using r by (intro kfree_chain) simp_all
  have m: "heap_head (merge_next b t) = heap_head t" "kh_total (merge_next b t) = kh_total t"
    "heap_head (merge_prev b t) = heap_head t" "kh_total (merge_prev b t) = kh_total t" for b t
    by (simp_all add: merge_next_def merge_prev_def Let_def)
  have h: "heap_head (kfree q st) = heap_head st" "kh_total (kfree q st) = kh_total st" for q
    by (simp_all add: kfree_def Let_def m)
  show ?thesis using free_blocks_props [of xs s ys] free_blocks_span [of xs s ys] r ch h unfolding heap_rep_def p by simp
qed

section \<open>The life of the heap\<close>

definition heap_region :: "nat \<Rightarrow> nat \<Rightarrow> bool" where
  "heap_region lo hi \<longleftrightarrow> 0 < lo \<and> lo mod 16 = 0 \<and> hi mod 16 = 0 \<and> lo + 48 \<le> hi \<and> hi < 2 ^ 63"

text \<open>Clients allocate, and release what they hold; \<open>live\<close> is what they hold.\<close>

inductive kheap_run :: "nat \<Rightarrow> nat \<Rightarrow> u64 set \<Rightarrow> kheap_t \<Rightarrow> bool" for lo hi where
  heap_boot: "kheap_run lo hi {} (kheap_init (of_nat lo) (of_nat hi) st)"
| heap_alloc: "kheap_run lo hi live st \<Longrightarrow> kmalloc sz st = Some (p, st') \<Longrightarrow> kheap_run lo hi (if p = 0 then live else insert p live) st'"
| heap_free: "kheap_run lo hi live st \<Longrightarrow> p \<in> live \<Longrightarrow> kheap_run lo hi (live - {p}) (kfree p st)"
| heap_free_null: "kheap_run lo hi live st \<Longrightarrow> kheap_run lo hi live (kfree 0 st)"

lemma kheap_init_rep:
  "heap_region lo hi \<Longrightarrow> heap_rep lo (kheap_init (of_nat lo) (of_nat hi) st) [(hi - lo - 32, True)]"
  by (simp add: heap_region_def heap_rep_def kheap_init_def of_nat_diff mod_eq_0_iff_dvd)

lemma live_split:
  assumes "heap_rep lo st bs" "x \<in> taken lo bs"
  obtains xs s ys where "bs = xs @ (s, False) # ys" "x = lo + span xs + 32" "x + s \<le> lo + span bs"
  using taken_block [OF assms(2)] by fastforce

lemma kheap_run_rep:
  assumes geo: "heap_region lo hi" and run: "kheap_run lo hi live st"
  shows "\<exists>bs. heap_rep lo st bs \<and> lo + span bs = hi \<and> live = of_nat ` taken lo bs"
  using run
proof induction
  case (heap_boot st)
  have "lo + span [(hi - lo - 32, True)] = hi" using geo by (simp add: heap_region_def)
  then show ?case using kheap_init_rep [OF geo, of st] by (intro exI [of _ "[(hi - lo - 32, True)]"]) simp
next
  case (heap_alloc live st sz p st')
  then obtain bs where bs: "heap_rep lo st bs" "lo + span bs = hi" "live = of_nat ` taken lo bs" by blast
  show ?case
  proof (cases "sz = 0 \<or> alloc_blocks (unat (align16 sz)) bs = None")
    case True
    then have "kmalloc sz st = Some (0, st)" using kmalloc_rep [OF bs(1), of sz] by (cases "sz = 0") (simp_all add: kmalloc_def)
    then have "p = 0" "st' = st" using heap_alloc.hyps(2) by simp_all
    then show ?thesis using bs by auto
  next
    case False
    then obtain off bs' where a: "alloc_blocks (unat (align16 sz)) bs = Some (off, bs')" by auto
    with kmalloc_rep [OF bs(1), of sz] False heap_alloc.hyps(2) have k: "p = of_nat (lo + off + 32)" "heap_rep lo st' bs'" "span bs' = span bs"
      "taken lo bs' = insert (lo + off + 32) (taken lo bs)" by auto
    have "lo + off + 32 \<in> taken lo bs'" using k(4) by simp
    then have "lo + off + 32 \<le> lo + span bs'" using taken_range by blast
    then have "p \<noteq> 0" unfolding k(1) using k(2) unfolding heap_rep_def by (intro of_nat_nonzero) simp_all
    then show ?thesis using bs k by (intro exI [of _ bs']) auto
  qed
next
  case (heap_free live st p)
  then obtain bs where bs: "heap_rep lo st bs" "lo + span bs = hi" "live = of_nat ` taken lo bs" by blast
  then obtain x where x: "x \<in> taken lo bs" "p = of_nat x" using heap_free.hyps(2) by blast
  from live_split [OF bs(1) x(1)] obtain xs s ys where e: "bs = xs @ (s, False) # ys" "x = lo + span xs + 32" by blast
  have r: "heap_rep lo (kfree p st) (free_blocks xs s ys)" using kfree_rep bs(1) unfolding x(2) e by blast
  have t: "taken lo (free_blocks xs s ys) = taken lo bs - {x}"
    using free_blocks_props(4) [of xs s ys lo] bs(1) unfolding e heap_rep_def by blast
  have "y < 2 ^ 63" if "y \<in> taken lo bs" for y using taken_range [OF that] bs(1) unfolding heap_rep_def by simp
  then have "of_nat ` (taken lo bs - {x}) = of_nat ` taken lo bs - {of_nat x :: u64}" using x(1) by (auto simp: word_nat_eq)
  then show ?case using r t free_blocks_span [of xs s ys] bs x(2) e by (intro exI [of _ "free_blocks xs s ys"]) simp
next
  case (heap_free_null live st)
  then show ?case by (simp add: kfree_def)
qed

definition blk_size :: "kheap_t \<Rightarrow> u64 \<Rightarrow> nat" where
  "blk_size st p = unat (kb_size (kblk st (p - KHDR)))"

lemma blk_size_at:
  assumes "heap_rep lo st (xs @ (s, f) # ys)"
  shows "blk_size st (of_nat (lo + span xs + 32)) = s"
proof -
  note r = assms [unfolded heap_rep_def]
  have "of_nat (lo + span xs + 32) - KHDR = (of_nat (lo + span xs) :: u64)" by simp
  moreover have "kb_size (kblk st (of_nat (lo + span xs))) = of_nat s" using chain_mid(1) [of "kblk st" 0 lo xs s f ys 0] r by simp
  moreover have "s < 2 ^ 63" using r by simp
  ultimately show ?thesis unfolding blk_size_def by (simp only: unat_nat63)
qed

lemma span_16: "\<forall>b\<in>set bs. fst b mod 16 = 0 \<Longrightarrow> span bs mod 16 = 0"
proof (induction bs)
  case (Cons b bs)
  then show ?case by (cases b) (simp add: mod_eq_0_iff_dvd)
qed simp

text \<open>Two blocks of one list are the same or lie apart.\<close>

lemma blocks_apart:
  assumes "xs @ (s, f) # ys = us @ (t, g) # vs"
  shows "xs = us \<or> span xs + 32 + s \<le> span us \<or> span us + 32 + t \<le> span xs"
  using assms by (auto simp: append_eq_append_conv2 Cons_eq_append_conv append_eq_Cons_conv)


text \<open>C30. The heap refines a list of blocks. In every state the headers represent a list that tiles the region;
  \<open>kmalloc\<close> takes the first free block that is large enough, splits it when header and 16 bytes remain,
  and answers NULL exactly when there is none; \<open>kfree\<close> joins the block with both neighbours.\<close>

theorem kheap_refines_blocks:
  assumes "heap_region lo hi" and "kheap_run lo hi live st"
  shows "\<exists>bs. heap_rep lo st bs \<and> lo + span bs = hi
    \<and> (\<forall>sz. sz \<noteq> 0 \<longrightarrow> (case alloc_blocks (unat (align16 sz)) bs of None \<Rightarrow> kmalloc sz st = Some (0, st)
         | Some (off, bs') \<Rightarrow> \<exists>st'. kmalloc sz st = Some (of_nat (lo + off + 32), st') \<and> heap_rep lo st' bs'))
    \<and> (\<forall>xs s ys. bs = xs @ (s, False) # ys \<longrightarrow> heap_rep lo (kfree (of_nat (lo + span xs + 32)) st) (free_blocks xs s ys))"
proof -
  from kheap_run_rep [OF assms] obtain bs where bs: "heap_rep lo st bs" "lo + span bs = hi" by blast
  show ?thesis
  proof (intro exI [of _ bs] conjI allI impI bs)
    fix sz :: u64 assume "sz \<noteq> 0"
    from kmalloc_rep [OF bs(1) this] show "case alloc_blocks (unat (align16 sz)) bs of None \<Rightarrow> kmalloc sz st = Some (0, st)
         | Some (off, bs') \<Rightarrow> \<exists>st'. kmalloc sz st = Some (of_nat (lo + off + 32), st') \<and> heap_rep lo st' bs'"
      by (auto split: option.splits)
  qed (use kfree_rep bs in blast)
qed

lemma all_free_one: "coalesced bs \<Longrightarrow> bs \<noteq> [] \<Longrightarrow> taken lo bs = {} \<Longrightarrow> \<exists>s. bs = [(s, True)]"
proof (cases bs rule: coalesced.cases)
  case (3 b c cs)
  assume "coalesced bs" "taken lo bs = {}"
  then show ?thesis unfolding 3 by (cases b; cases c) (simp split: if_splits)
qed (auto split: if_splits)

lemma unat_align16_le: "unat sz + 15 < 2 ^ 64 \<Longrightarrow> unat (align16 sz) \<le> unat sz + 15"
proof -
  assume a: "unat sz + 15 < 2 ^ 64"
  have "unat (align16 sz) \<le> unat (sz + 16 - 1)" using word_and_le2 [of "sz + 16 - 1"] by (simp add: align16_def word_le_nat_alt)
  also have "sz + 16 - 1 = sz + 15" by simp
  also have "unat (sz + 15) = unat sz + 15" using a by (simp add: unat_word_ariths)
  finally show ?thesis .
qed

lemma mult16_le:
  fixes a h n :: nat
  assumes "a \<le> n + 15" "a mod 16 = 0" "h mod 16 = 0" "n \<le> h"
  shows "a \<le> h"
proof -
  obtain k l where "a = 16 * k" "h = 16 * l" using assms(2,3) by (auto elim!: dvdE simp: mod_eq_0_iff_dvd)
  then show ?thesis using assms(1,4) by simp
qed

text \<open>C31. Nothing is lost to fragmentation: once the clients have given everything back, whatever the order, the
  heap is again one free block, and any request up to the whole region is served at its start.\<close>

theorem kheap_restores:
  assumes "heap_region lo hi" and "kheap_run lo hi {} st" and "0 < n" "n \<le> hi - lo - 32"
  shows "kheap_free_bytes st = Some (of_nat (hi - lo - 32)) \<and> (\<exists>st'. kmalloc (of_nat n) st = Some (of_nat (lo + 32), st'))"
proof -
  note geo = assms(1) [unfolded heap_region_def]
  from kheap_run_rep [OF assms(1,2)] obtain bs where bs: "heap_rep lo st bs" "lo + span bs = hi" "taken lo bs = {}" by auto
  then obtain s where "bs = [(s, True)]" using all_free_one [of bs lo] unfolding heap_rep_def by blast
  then have b: "bs = [(hi - lo - 32, True)]" using bs(2) by auto
  note r = bs(1) [unfolded heap_rep_def b]
  have un: "unat (of_nat n :: u64) = n" using assms(4) geo by (intro unat_nat63) linarith
  have "unat (align16 (of_nat n)) \<le> n + 15" 
  proof -
    have "unat (of_nat n :: u64) + 15 < 2 ^ 64"
    proof -
      have "n \<le> hi" using assms(4) by simp
      then show ?thesis unfolding un using geo by simp
    qed
    then show ?thesis using unat_align16_le [of "of_nat n"] unfolding un by blast
  qed
  moreover have "unat (align16 (of_nat n)) mod 16 = 0" by (rule unat_align16)
  moreover have "(hi - lo - 32) mod 16 = 0" using r by simp
  ultimately have fit: "unat (align16 (of_nat n)) \<le> hi - lo - 32" using assms(4) by (rule mult16_le)
  have nz: "(of_nat n :: u64) \<noteq> 0" using assms(3,4) geo by (intro of_nat_nonzero) linarith+
  have "alloc_blocks (unat (align16 (of_nat n))) bs = Some (0, pieces (unat (align16 (of_nat n))) (hi - lo - 32))"
    using fit unfolding b alloc_blocks_def by (simp add: extract_Cons_code)
  then have "\<exists>st'. kmalloc (of_nat n) st = Some (of_nat (lo + 32), st')" using kmalloc_rep [OF bs(1) nz] by auto
  moreover have "kheap_free_bytes st = Some (of_nat (hi - lo - 32))"
  proof -
    obtain k where k: "walk_fuel st = Suc (Suc k)" using heap_walk_fuel [OF bs(1)] unfolding b
      by (cases "walk_fuel st"; cases "walk_fuel st - 1") auto
    have "(of_nat lo :: u64) \<noteq> 0" using r by (intro of_nat_nonzero) simp_all
    then show ?thesis using r unfolding kheap_free_bytes_def k by simp
  qed
  ultimately show ?thesis by blast
qed

lemma align16_wraps: "2 ^ 64 - 16 < unat sz \<Longrightarrow> align16 sz = 0"
proof -
  assume a: "2 ^ 64 - 16 < unat sz"
  define x where "x = sz + 15"
  have "unat x = (unat sz + 15) mod 2 ^ 64" by (simp add: x_def unat_word_ariths)
  also have "\<dots> = unat sz + 15 - 2 ^ 64" using a unat_u64_less [of sz] by (simp add: mod_if)
  finally have "unat x < 16" using unat_u64_less [of sz] by simp
  then have "take_bit 4 x = x" by (simp add: word_unat_eq_iff take_bit_eq_mod unat_mod)
  then have "x AND NOT (mask 4) = (x AND mask 4) AND NOT (mask 4)" by (simp add: take_bit_eq_mask)
  also have "\<dots> = 0" by (simp add: and.assoc)
  finally have "x AND NOT (mask 4) = 0" .
  moreover have "(15 :: u64) = mask 4" by (simp add: mask_eq_exp_minus_1)
  ultimately show ?thesis unfolding align16_def x_def by (simp add: add.commute)
qed

text \<open>C32. A request close to the top of the address range is not refused but served with a tiny block: rounding
  the size up to 16 wraps to zero. Whenever the heap can serve a single byte, a request of more than
  2 to the 64 minus 16 bytes gets a pointer to less than 48 bytes.\<close>

theorem kmalloc_wraps:
  assumes "heap_region lo hi" and "kheap_run lo hi live st" and "kmalloc 1 st = Some (p1, st1)" "p1 \<noteq> 0" and "2 ^ 64 - 16 < unat sz"
  shows "\<exists>p st'. kmalloc sz st = Some (p, st') \<and> p \<noteq> 0 \<and> blk_size st' p < 48"
proof -
  from kheap_run_rep [OF assms(1,2)] obtain bs where bs: "heap_rep lo st bs" "lo + span bs = hi" by blast
  have nz: "sz \<noteq> 0" using assms(5) by auto
  have "alloc_blocks (unat (align16 1)) bs \<noteq> None" 
  proof
    assume "alloc_blocks (unat (align16 1)) bs = None"
    then show False using kmalloc_rep [OF bs(1), of 1] assms(3,4) by simp
  qed
  then have "List.extract (\<lambda>(s, f). f \<and> unat (align16 1) \<le> s) bs \<noteq> None" by (auto simp: alloc_blocks_def split: option.splits)
  then have "List.extract (\<lambda>(s, f). f \<and> 0 \<le> s) bs \<noteq> None" unfolding extract_None_iff by auto
  then obtain z where z: "List.extract (\<lambda>(s, f). f \<and> 0 \<le> s) bs = Some z" by blast
  obtain xs s f ys where zz: "z = (xs, (s, f), ys)" by (cases z) auto
  have a: "alloc_blocks (unat (align16 sz)) bs = Some (span xs, xs @ pieces 0 s @ ys)"
    using z unfolding alloc_blocks_def align16_wraps [OF assms(5)] zz by simp
  with kmalloc_rep [OF bs(1) nz] obtain st' where k: "kmalloc sz st = Some (of_nat (lo + span xs + 32), st')" "heap_rep lo st' (xs @ pieces 0 s @ ys)"
    by auto
  have "lo + span xs + 32 < 2 ^ 63" using k(2) by (auto simp: heap_rep_def pieces_def split: if_splits)
  then have "(of_nat (lo + span xs + 32) :: u64) \<noteq> 0" by (intro of_nat_nonzero) simp_all
  moreover have "blk_size st' (of_nat (lo + span xs + 32)) < 48"
  proof (cases "48 \<le> s")
    case True
    then show ?thesis using blk_size_at [of lo st' xs 0 False "(s - 32, True) # ys"] k(2) by (simp add: pieces_def)
  next
    case False
    then show ?thesis using blk_size_at [of lo st' xs s False ys] k(2) by (simp add: pieces_def)
  qed
  ultimately show ?thesis using k(1) by blast
qed

section \<open>Witnesses\<close>

definition demo_heap :: kheap_t where
  "demo_heap = kheap_init 4096 8192 \<lparr>heap_head = 0, kblk = (\<lambda>_. \<lparr>kb_size = 0, kb_next = 0, kb_prev = 0, kb_magic = 0, kb_free = False\<rparr>), kh_total = 0\<rparr>"

lemma demo_region: "heap_region 4096 8192"
  by (simp add: heap_region_def)

lemma demo_heap_run: "kheap_run 4096 8192 {} demo_heap"
  using heap_boot [of 4096 8192] by (simp add: demo_heap_def)


theorem kheap_refines_blocks_witness:
  "\<exists>bs. heap_rep 4096 demo_heap bs \<and> 4096 + span bs = 8192"
  using kheap_refines_blocks [OF demo_region demo_heap_run] by blast

theorem kheap_restores_witness:
  "\<exists>p st'. kmalloc 100 demo_heap = Some (p, st') \<and> kheap_free_bytes (kfree p st') = Some 4064"
proof -
  obtain st' where k: "kmalloc 100 demo_heap = Some (4128, st')"
    using kheap_restores [OF demo_region demo_heap_run, of 100] by auto
  have "kheap_run 4096 8192 {4128} st'" using heap_alloc [OF demo_heap_run k] by simp
  from heap_free [OF this, of 4128] have "kheap_run 4096 8192 {} (kfree 4128 st')" by simp
  from kheap_restores [OF demo_region this, of 1] k show ?thesis by simp
qed

theorem kmalloc_wraps_witness:
  "\<exists>p st'. kmalloc (- 1) demo_heap = Some (p, st') \<and> p \<noteq> 0 \<and> blk_size st' p < 48"
proof -
  obtain st' where k: "kmalloc 1 demo_heap = Some (4128, st')"
    using kheap_restores [OF demo_region demo_heap_run, of 1] by auto
  have "unat (- 1 :: u64) = 2 ^ 64 - 1" by (simp add: unsigned_minus_1_eq_mask mask_eq_exp_minus_1)
  then show ?thesis using kmalloc_wraps [OF demo_region demo_heap_run k, of "- 1"] by simp
qed

end
