(* ===== verification/Pmm.thy ===== *)
theory Pmm
  imports Prelude
begin

text \<open>
  The physical frame allocator of \<open>kernel/src/memory.c\<close> (\<open>kernel/include/kernel/memory.h\<close>): a bitmap with
  a search rover. The bitmap is a function from byte index to byte; a frame is handed out as its
  physical address, and 0 is NULL. The linker symbols that fix the kernel's layout are the record
  \<open>layout_t\<close>; a boot panic is \<open>Inl\<close>. Every operation runs with interrupts off and is one step.
\<close>

section \<open>State and operations\<close>

abbreviation (input) PAGE_SIZE :: u64 where "PAGE_SIZE \<equiv> 4096"
abbreviation (input) PMM_MAX_FRAMES :: u64 where "PMM_MAX_FRAMES \<equiv> 262144"

datatype mem_result_t = MEM_SUCCESS | MEM_ERROR_OUT_OF_MEMORY | MEM_ERROR_INVALID_ADDRESS
  | MEM_ERROR_ALIGNMENT | MEM_ERROR_PERMISSION | MEM_ERROR_ALREADY_MAPPED

datatype mem_panic = ZERO_USABLE_RAM | BELOW_LAYOUT_FLOOR | BITMAP_OVERRUN

record pmm_t =
  total_frames :: u32
  free_frames :: u32
  used_frames :: u32
  frame_bitmap :: "nat \<Rightarrow> u8"
  highest_frame :: u64
  pmm_alloc_hint :: u32

record layout_t =
  lay_end :: u64
  lay_heap_start :: u64
  lay_heap_end :: u64

definition frame_bit :: "(nat \<Rightarrow> u8) \<Rightarrow> nat \<Rightarrow> bool" where
  "frame_bit bm i \<longleftrightarrow> bm (i div 8) AND push_bit (i mod 8) 1 \<noteq> 0"

definition set_frame_bit :: "nat \<Rightarrow> (nat \<Rightarrow> u8) \<Rightarrow> nat \<Rightarrow> u8" where
  "set_frame_bit i bm = bm(i div 8 := bm (i div 8) OR push_bit (i mod 8) 1)"

definition clear_frame_bit :: "nat \<Rightarrow> (nat \<Rightarrow> u8) \<Rightarrow> nat \<Rightarrow> u8" where
  "clear_frame_bit i bm = bm(i div 8 := bm (i div 8) AND NOT (push_bit (i mod 8) 1))"

text \<open>The \<open>n\<close>th frame examined, with the single wrap.\<close>

definition rover :: "pmm_t \<Rightarrow> nat \<Rightarrow> u32" where
  "rover p n = (let i = pmm_alloc_hint p + of_nat n in if i \<ge> total_frames p then i - total_frames p else i)"

definition take_frame :: "u32 \<Rightarrow> pmm_t \<Rightarrow> pmm_t" where
  "take_frame i p = p\<lparr>frame_bitmap := set_frame_bit (unat i) (frame_bitmap p),
     free_frames := free_frames p - 1, used_frames := used_frames p + 1\<rparr>"

definition pmm_alloc_frame :: "pmm_t \<Rightarrow> u64 \<times> pmm_t" where
  "pmm_alloc_frame p =
     (case first_idx (\<lambda>n. \<not> frame_bit (frame_bitmap p) (unat (rover p n))) 0 (unat (total_frames p)) of
        None \<Rightarrow> (0, p)
      | Some n \<Rightarrow> let i = rover p n in
          (ucast i * PAGE_SIZE, (take_frame i p)\<lparr>pmm_alloc_hint := (if i + 1 < total_frames p then i + 1 else 0)\<rparr>))"

definition pmm_free_frame :: "u64 \<Rightarrow> pmm_t \<Rightarrow> mem_result_t \<times> pmm_t" where
  "pmm_free_frame addr p =
     (let n = addr div PAGE_SIZE in
      if n \<ge> ucast (total_frames p) then (MEM_ERROR_INVALID_ADDRESS, p)
      else if \<not> frame_bit (frame_bitmap p) (unat n) then (MEM_ERROR_INVALID_ADDRESS, p)
      else (MEM_SUCCESS, p\<lparr>frame_bitmap := clear_frame_bit (unat n) (frame_bitmap p),
             free_frames := free_frames p + 1, used_frames := used_frames p - 1,
             pmm_alloc_hint := (if ucast n < pmm_alloc_hint p then ucast n else pmm_alloc_hint p)\<rparr>))"

definition pmm_clamp_frames :: "u64 \<Rightarrow> u64" where
  "pmm_clamp_frames n = (if n > PMM_MAX_FRAMES then PMM_MAX_FRAMES else n)"

text \<open>The reservation loops of \<open>pmm_init\<close>; the second one tests the bit first.\<close>

definition reserve_kernel :: "nat \<Rightarrow> pmm_t \<Rightarrow> pmm_t" where
  "reserve_kernel n p = fold (\<lambda>i p. take_frame (of_nat i) p) [0..<n] p"

definition reserve_range :: "nat \<Rightarrow> nat \<Rightarrow> pmm_t \<Rightarrow> pmm_t" where
  "reserve_range lo hi p = fold (\<lambda>i p. if frame_bit (frame_bitmap p) i then p else take_frame (of_nat i) p) [lo..<hi] p"

definition align_up_page :: "u64 \<Rightarrow> u64" where
  "align_up_page x = (x + PAGE_SIZE - 1) AND NOT (PAGE_SIZE - 1)"

definition pmm_init :: "layout_t \<Rightarrow> u64 \<Rightarrow> mem_panic + pmm_t" where
  "pmm_init lay total_memory =
     (let n0 = total_memory div PAGE_SIZE in
      if n0 = 0 then Inl ZERO_USABLE_RAM
      else let total = pmm_clamp_frames n0 in
        if total < (lay_heap_end lay + PAGE_SIZE - 1) div PAGE_SIZE then Inl BELOW_LAYOUT_FLOOR
        else let bitmap = align_up_page (lay_end lay); bitmap_size = (PMM_MAX_FRAMES + 7) div 8 in
          if bitmap + bitmap_size > 0x01100000 then Inl BITMAP_OVERRUN
          else let p = \<lparr>total_frames = ucast total, free_frames = ucast total, used_frames = 0, frame_bitmap = (\<lambda>_. 0),
                        highest_frame = total - 1, pmm_alloc_hint = 0\<rparr>;
                   kernel_frames = (bitmap + bitmap_size + PAGE_SIZE - 1) div PAGE_SIZE;
                   heap_lo = lay_heap_start lay div PAGE_SIZE; heap_hi = (lay_heap_end lay + PAGE_SIZE - 1) div PAGE_SIZE
            in Inr (reserve_range (unat heap_lo) (min (unat heap_hi) (unat total)) (reserve_kernel (min (unat kernel_frames) (unat total)) p)))"

section \<open>The allocator's sets\<close>

definition frames_of :: "pmm_t \<Rightarrow> nat set" where
  "frames_of p = {i. i < unat (total_frames p) \<and> frame_bit (frame_bitmap p) i}"

text \<open>The physical addresses in use.\<close>

definition in_use :: "pmm_t \<Rightarrow> u64 set" where
  "in_use p = (\<lambda>i. of_nat i * PAGE_SIZE) ` frames_of p"

text \<open>The counters agree with the bitmap, the rover is in range, frame 0 is taken.\<close>

definition pmm_inv :: "pmm_t \<Rightarrow> bool" where
  "pmm_inv p \<longleftrightarrow> 0 < unat (total_frames p) \<and> unat (total_frames p) \<le> 262144 \<and> pmm_alloc_hint p < total_frames p
     \<and> unat (used_frames p) = card (frames_of p) \<and> unat (free_frames p) = unat (total_frames p) - card (frames_of p)
     \<and> frame_bit (frame_bitmap p) 0"

lemma frame_bit_iff: "frame_bit bm i \<longleftrightarrow> bit (bm (i div 8)) (i mod 8)"
  unfolding frame_bit_def bit_iff_and_push_bit_not_eq_0 ..

lemma frame_bit_set: "frame_bit (set_frame_bit i bm) j \<longleftrightarrow> j = i \<or> frame_bit bm j"
proof -
  have "j div 8 = i div 8 \<and> j mod 8 = i mod 8 \<longleftrightarrow> j = i" by (metis div_mult_mod_eq)
  then show ?thesis unfolding frame_bit_iff set_frame_bit_def by (auto simp: bit_simps)
qed

lemma frame_bit_clear: "frame_bit (clear_frame_bit i bm) j \<longleftrightarrow> j \<noteq> i \<and> frame_bit bm j"
proof -
  have "j div 8 = i div 8 \<and> j mod 8 = i mod 8 \<longleftrightarrow> j = i" by (metis div_mult_mod_eq)
  then show ?thesis unfolding frame_bit_iff clear_frame_bit_def by (auto simp: bit_simps)
qed

lemma frames_bound: "finite (frames_of p)" "card (frames_of p) \<le> unat (total_frames p)"
proof -
  have s: "frames_of p \<subseteq> {..<unat (total_frames p)}" by (auto simp: frames_of_def)
  then show "finite (frames_of p)" by (rule finite_subset) simp
  show "card (frames_of p) \<le> unat (total_frames p)" using card_mono [OF _ s] by simp
qed

lemma frames_not_all: "i < unat (total_frames p) \<Longrightarrow> i \<notin> frames_of p \<Longrightarrow> card (frames_of p) < unat (total_frames p)"
proof -
  assume a: "i < unat (total_frames p)" "i \<notin> frames_of p"
  then have "frames_of p \<subset> {..<unat (total_frames p)}" by (auto simp: frames_of_def)
  then show ?thesis using psubset_card_mono [of "{..<unat (total_frames p)}" "frames_of p"] by simp
qed

lemma pmm_inv_hint: "pmm_inv p \<Longrightarrow> unat (pmm_alloc_hint p) < unat (total_frames p)"
  by (simp add: pmm_inv_def word_less_nat_alt)

text \<open>The rover visits every frame once, cyclically from the hint.\<close>

lemma unat_rover:
  assumes inv: "pmm_inv p" and n: "n < unat (total_frames p)"
  shows "unat (rover p n) = (unat (pmm_alloc_hint p) + n) mod unat (total_frames p)"
proof -
  let ?h = "unat (pmm_alloc_hint p)" and ?t = "unat (total_frames p)"
  have t: "?t \<le> 262144" "?h < ?t" using inv pmm_inv_hint [OF inv] by (simp_all add: pmm_inv_def)
  have s: "unat (pmm_alloc_hint p + of_nat n) = ?h + n" using t n by (simp add: unat_word_ariths unat_of_nat)
  show ?thesis
  proof (cases "?t \<le> ?h + n")
    case True
    then have g: "pmm_alloc_hint p + of_nat n \<ge> total_frames p" by (simp add: word_le_nat_alt s)
    have "unat (rover p n) = ?h + n - ?t" using g by (simp add: rover_def Let_def unat_sub word_le_nat_alt s)
    also have "\<dots> = (?h + n) mod ?t" using True t(2) n by (subst le_mod_geq) simp_all
    finally show ?thesis .
  next
    case False
    then have "\<not> pmm_alloc_hint p + of_nat n \<ge> total_frames p" by (simp add: word_le_nat_alt s)
    then show ?thesis using False by (simp add: rover_def Let_def s)
  qed
qed

lemma rover_covers:
  assumes inv: "pmm_inv p" and i: "i < unat (total_frames p)"
  obtains n where "n < unat (total_frames p)" "unat (rover p n) = i"
proof -
  let ?h = "unat (pmm_alloc_hint p)" and ?t = "unat (total_frames p)"
  have h: "?h < ?t" by (rule pmm_inv_hint [OF inv])
  define n where "n = (i + (?t - ?h)) mod ?t"
  have "n < ?t" using h unfolding n_def by simp
  moreover have "(?h + n) mod ?t = i"
  proof -
    have "(?h + n) mod ?t = (?h + (i + (?t - ?h))) mod ?t" unfolding n_def by (simp add: mod_add_right_eq)
    also have "?h + (i + (?t - ?h)) = i + ?t" using h by simp
    finally show ?thesis using i by simp
  qed
  ultimately show thesis using that unat_rover [OF inv] by metis
qed

lemma frames_take: "unat i < unat (total_frames p) \<Longrightarrow> frames_of (take_frame i p) = insert (unat i) (frames_of p)"
  by (auto simp: frames_of_def take_frame_def frame_bit_set)

lemma unat_Suc_u32: "unat (x :: u32) < 4294967295 \<Longrightarrow> unat (x + 1) = unat x + 1"
  by (simp add: unat_word_ariths)

lemma unat_pred_u32: "0 < unat (x :: u32) \<Longrightarrow> unat (x - 1) = unat x - 1"
  by (simp add: unat_minus_one word_gt_0 unat_gt_0)

text \<open>Taking a free frame keeps the counters.\<close>

lemma take_frame_counts:
  assumes "unat (used_frames p) = card (frames_of p)" "unat (free_frames p) = unat (total_frames p) - card (frames_of p)"
    and "unat (total_frames p) \<le> 262144" "unat i < unat (total_frames p)" "unat i \<notin> frames_of p"
  shows "unat (used_frames (take_frame i p)) = card (frames_of (take_frame i p))"
    and "unat (free_frames (take_frame i p)) = unat (total_frames p) - card (frames_of (take_frame i p))"
proof -
  have c: "card (insert (unat i) (frames_of p)) = Suc (card (frames_of p))" using assms(5) frames_bound(1) by simp
  have l: "card (frames_of p) < unat (total_frames p)" by (rule frames_not_all [OF assms(4,5)])
  show "unat (used_frames (take_frame i p)) = card (frames_of (take_frame i p))"
    unfolding frames_take [OF assms(4)] c using l assms(1,3) by (simp add: take_frame_def unat_Suc_u32)
  show "unat (free_frames (take_frame i p)) = unat (total_frames p) - card (frames_of (take_frame i p))"
    unfolding frames_take [OF assms(4)] c using l assms(2) by (simp add: take_frame_def unat_pred_u32)
qed

lemma alloc_cases:
  assumes inv: "pmm_inv p" and e: "pmm_alloc_frame p = (a, p')"
  obtains (full) "frames_of p = {..<unat (total_frames p)}" "a = 0" "p' = p"
  | (got) i n where "i < unat (total_frames p)" "i \<notin> frames_of p" "i \<noteq> 0" "a = of_nat i * PAGE_SIZE"
      "frames_of p' = insert i (frames_of p)" "total_frames p' = total_frames p" "pmm_inv p'"
      "n < unat (total_frames p)" "i = (unat (pmm_alloc_hint p) + n) mod unat (total_frames p)"
      "\<And>m. m < n \<Longrightarrow> (unat (pmm_alloc_hint p) + m) mod unat (total_frames p) \<in> frames_of p"
proof (cases "first_idx (\<lambda>n. \<not> frame_bit (frame_bitmap p) (unat (rover p n))) 0 (unat (total_frames p))")
  case None
  have "i \<in> frames_of p" if i: "i < unat (total_frames p)" for i
  proof -
    from rover_covers [OF inv i] obtain n where "n < unat (total_frames p)" "unat (rover p n) = i" .
    then show ?thesis using None i by (auto simp: first_idx_None frames_of_def)
  qed
  then have "frames_of p = {..<unat (total_frames p)}" by (auto simp: frames_of_def)
  then show thesis using full e None by (simp add: pmm_alloc_frame_def)
next
  case (Some n)
  let ?t = "unat (total_frames p)"
  define i where "i = rover p n"
  note s = first_idx_SomeD [OF Some]
  have n: "n < ?t" and free: "\<not> frame_bit (frame_bitmap p) (unat i)" using s unfolding i_def by simp_all
  have m: "unat (rover p k) \<in> frames_of p" if "k < n" for k
  proof -
    have "frame_bit (frame_bitmap p) (unat (rover p k))" using s(4) [of k] that by simp
    moreover have "unat (rover p k) < ?t" using unat_rover [OF inv, of k] that n by simp
    ultimately show ?thesis by (simp add: frames_of_def)
  qed
  have ui: "unat i = (unat (pmm_alloc_hint p) + n) mod ?t" unfolding i_def by (rule unat_rover [OF inv n])
  then have it: "unat i < ?t" using n by simp
  have fi: "unat i \<notin> frames_of p" using free by (simp add: frames_of_def)
  have t: "?t \<le> 262144" and cu: "unat (used_frames p) = card (frames_of p)" "unat (free_frames p) = ?t - card (frames_of p)"
    using inv by (simp_all add: pmm_inv_def)
  have i0: "unat i \<noteq> 0" using free inv unfolding pmm_inv_def by metis
  have e': "a = ucast i * PAGE_SIZE" "p' = (take_frame i p)\<lparr>pmm_alloc_hint := (if i + 1 < total_frames p then i + 1 else 0)\<rparr>"
    using e Some unfolding pmm_alloc_frame_def i_def by (simp_all add: Let_def)
  have f: "frames_of p' = frames_of (take_frame i p)" unfolding e' by (simp add: frames_of_def take_frame_def)
  have tt: "total_frames p' = total_frames p" unfolding e' by (simp add: take_frame_def)
  have "0 < total_frames p" using it by (simp add: word_less_nat_alt)
  then have "pmm_inv p'" unfolding pmm_inv_def f tt
    using take_frame_counts [OF cu t it fi] t it inv
    unfolding e' by (simp add: take_frame_def frame_bit_set pmm_inv_def)
  moreover have "a = of_nat (unat i) * PAGE_SIZE" unfolding e' by simp
  ultimately show thesis
    using it fi i0 f tt n ui m unat_rover [OF inv] by (intro got [of "unat i" n]) (auto simp: frames_take)
qed

end
