(* ===== verification/Pmm_Props.thy ===== *)
theory Pmm_Props
  imports Pmm
begin

text \<open>
  What the frame allocator promises. The locale \<open>frame_pool\<close> is the contract its clients rely on (the
  page tables, the loader, the stacks); it is interpreted on the bitmap allocator of \<open>memory.c\<close>.
\<close>

section \<open>The contract\<close>

locale frame_pool =
  fixes alloc :: "'s \<Rightarrow> u64 \<times> 's" and release :: "u64 \<Rightarrow> 's \<Rightarrow> 's" and used :: "'s \<Rightarrow> u64 set" and inv :: "'s \<Rightarrow> bool"
  assumes alloc_null: "inv s \<Longrightarrow> alloc s = (0, s') \<Longrightarrow> s' = s"
    and alloc_fresh: "inv s \<Longrightarrow> alloc s = (a, s') \<Longrightarrow> a \<noteq> 0 \<Longrightarrow> a \<notin> used s \<and> used s' = insert a (used s) \<and> inv s'"
    and release_used: "inv s \<Longrightarrow> a \<in> used s \<Longrightarrow> a \<noteq> 0 \<Longrightarrow> used (release a s) = used s - {a} \<and> inv (release a s)"
begin

lemma alloc_inv: "inv s \<Longrightarrow> alloc s = (a, s') \<Longrightarrow> inv s'"
  using alloc_null alloc_fresh by metis

lemma alloc_used_mono: "inv s \<Longrightarrow> alloc s = (a, s') \<Longrightarrow> used s \<subseteq> used s'"
  using alloc_null alloc_fresh by (cases "a = 0") blast+

text \<open>Frames released in any order, each once.\<close>

lemma release_all:
  "inv s \<Longrightarrow> distinct as \<Longrightarrow> set as \<subseteq> used s \<Longrightarrow> 0 \<notin> set as \<Longrightarrow> used (fold release as s) = used s - set as \<and> inv (fold release as s)"
proof (induction as arbitrary: s)
  case (Cons a as)
  then have r: "used (release a s) = used s - {a}" "inv (release a s)" using release_used [of s a] by simp_all
  from Cons.IH [OF r(2)] r Cons.prems have "used (fold release as (release a s)) = used s - {a} - set as \<and> inv (fold release as (release a s))"
    by auto
  then show ?case by auto
qed simp

text \<open>A batch of allocations, up to the first NULL.\<close>

primrec take_many :: "nat \<Rightarrow> 's \<Rightarrow> u64 list \<times> 's" where
  "take_many 0 s = ([], s)"
| "take_many (Suc n) s = (let (a, s') = alloc s in if a = 0 then ([], s') else let (as, s'') = take_many n s' in (a # as, s''))"

lemma take_many_fresh:
  "inv s \<Longrightarrow> take_many n s = (as, s') \<Longrightarrow> distinct as \<and> set as \<inter> used s = {} \<and> 0 \<notin> set as \<and> used s' = used s \<union> set as \<and> inv s'"
proof (induction n arbitrary: s as s')
  case (Suc n)
  obtain a s1 where a: "alloc s = (a, s1)" by (cases "alloc s")
  show ?case
  proof (cases "a = 0")
    case True
    then show ?thesis using Suc.prems a alloc_null [of s s1] by simp
  next
    case False
    obtain bs s2 where b: "take_many n s1 = (bs, s2)" by (cases "take_many n s1")
    have f: "a \<notin> used s" "used s1 = insert a (used s)" "inv s1" using alloc_fresh [OF Suc.prems(1) a False] by simp_all
    from Suc.IH [OF f(3) b] Suc.prems(2) a b False f show ?thesis by auto
  qed
qed simp

text \<open>A batch given back leaves the pool as it was.\<close>

lemma batch_restores: "inv s \<Longrightarrow> take_many n s = (as, s') \<Longrightarrow> used (fold release as s') = used s \<and> inv (fold release as s')"
  using take_many_fresh [of s n as s'] release_all [of s' as] by auto

end

section \<open>Release and start\<close>

lemma frame_addr_inj: "i < 262144 \<Longrightarrow> j < 262144 \<Longrightarrow> of_nat i * PAGE_SIZE = (of_nat j * PAGE_SIZE :: u64) \<Longrightarrow> i = j"
proof -
  assume a: "i < 262144" "j < 262144" "of_nat i * PAGE_SIZE = (of_nat j * PAGE_SIZE :: u64)"
  have "unat (of_nat i * PAGE_SIZE :: u64) = i * 4096" "unat (of_nat j * PAGE_SIZE :: u64) = j * 4096"
    using a(1,2) by (simp_all add: unat_word_ariths unat_of_nat)
  then have "i * 4096 = j * 4096" unfolding a(3) by (rule trans [OF sym])
  then show ?thesis by simp
qed

lemma frame_addr_div: "i < 262144 \<Longrightarrow> of_nat i * PAGE_SIZE div PAGE_SIZE = (of_nat i :: u64)"
  by (simp add: word_unat_eq_iff unat_div unat_word_ariths unat_of_nat)

text \<open>Every branch of \<open>pmm_free_frame\<close>, by frame number.\<close>

lemma free_cases:
  assumes inv: "pmm_inv p" and e: "pmm_free_frame a p = (r, p')"
  defines "n \<equiv> unat a div 4096"
  obtains (refused) "r = MEM_ERROR_INVALID_ADDRESS" "p' = p" "n \<notin> frames_of p"
  | (freed) "r = MEM_SUCCESS" "n \<in> frames_of p" "frames_of p' = frames_of p - {n}" "total_frames p' = total_frames p"
      "n \<noteq> 0 \<Longrightarrow> pmm_inv p'" "unat (pmm_alloc_hint p') = min n (unat (pmm_alloc_hint p))"
proof -
  have un: "unat (a div PAGE_SIZE) = n" by (simp add: n_def unat_div)
  have lt: "a div PAGE_SIZE \<ge> ucast (total_frames p) \<longleftrightarrow> unat (total_frames p) \<le> n"
    by (simp add: word_le_nat_alt un)
  show thesis
  proof (cases "n \<in> frames_of p")
    case False
    then have "unat (total_frames p) \<le> n \<or> \<not> frame_bit (frame_bitmap p) n" by (auto simp: frames_of_def)
    then have "pmm_free_frame a p = (MEM_ERROR_INVALID_ADDRESS, p)"
      unfolding pmm_free_frame_def Let_def lt un by (elim disjE) simp_all
    then show thesis using refused False e by simp
  next
    case True
    let ?t = "unat (total_frames p)"
    have nt: "n < ?t" "frame_bit (frame_bitmap p) n" using True by (simp_all add: frames_of_def)
    have t: "?t \<le> 262144" and cu: "unat (used_frames p) = card (frames_of p)" "unat (free_frames p) = ?t - card (frames_of p)"
      using inv by (simp_all add: pmm_inv_def)
    have u32: "unat (ucast (a div PAGE_SIZE) :: u32) = n"
      using nt t unfolding un [symmetric] by (simp add: unsigned_ucast_eq take_bit_nat_eq_self)
    have e': "r = MEM_SUCCESS" "p' = p\<lparr>frame_bitmap := clear_frame_bit n (frame_bitmap p), free_frames := free_frames p + 1,
        used_frames := used_frames p - 1,
        pmm_alloc_hint := (if ucast (a div PAGE_SIZE) < pmm_alloc_hint p then ucast (a div PAGE_SIZE) else pmm_alloc_hint p)\<rparr>"
      using e nt unfolding pmm_free_frame_def Let_def lt un by simp_all
    have f: "frames_of p' = frames_of p - {n}" by (auto simp: e' frames_of_def frame_bit_clear)
    have h: "unat (pmm_alloc_hint p') = min n (unat (pmm_alloc_hint p))" by (auto simp: e' word_less_nat_alt u32)
    have c: "card (frames_of p') = card (frames_of p) - 1" "0 < card (frames_of p)" "card (frames_of p) \<le> ?t"
      using True frames_bound unfolding f by (auto simp: card_gt_0_iff)
    have "pmm_inv p'" if "n \<noteq> 0"
    proof -
      have "pmm_alloc_hint p' < total_frames p'" using h nt(1) by (simp add: word_less_nat_alt e')
      moreover have "unat (used_frames p') = card (frames_of p')" using c cu by (simp add: e' unat_pred_u32)
      moreover have "unat (free_frames p') = ?t - card (frames_of p')"
        using c cu t by (simp add: e'(2) unat_Suc_u32)
      ultimately show ?thesis using inv that by (simp add: pmm_inv_def e' frame_bit_clear)
    qed
    then show thesis using freed e'(1) True f h by (simp add: e')
  qed
qed

lemma in_use_iff: "pmm_inv p \<Longrightarrow> a \<in> in_use p \<longleftrightarrow> (\<exists>i\<in>frames_of p. a = of_nat i * PAGE_SIZE)"
  by (auto simp: in_use_def)

lemma in_use_insert:
  "frames_of p' = insert i (frames_of p) \<Longrightarrow> in_use p' = insert (of_nat i * PAGE_SIZE) (in_use p)"
  by (simp add: in_use_def)

lemma frames_small: "pmm_inv p \<Longrightarrow> i \<in> frames_of p \<Longrightarrow> i < 262144"
  by (simp add: pmm_inv_def frames_of_def)

lemma in_use_fresh: "pmm_inv p \<Longrightarrow> i < unat (total_frames p) \<Longrightarrow> i \<notin> frames_of p \<Longrightarrow> of_nat i * PAGE_SIZE \<notin> in_use p"
  using frame_addr_inj [of i] frames_small [of p] by (force simp: in_use_def pmm_inv_def)

interpretation pool: frame_pool pmm_alloc_frame "\<lambda>a p. snd (pmm_free_frame a p)" in_use pmm_inv
proof unfold_locales
  fix p p' assume a: "pmm_inv p" "pmm_alloc_frame p = (0, p')"
  from a show "p' = p"
  proof (cases rule: alloc_cases)
    case (got i n)
    have "i < 262144" using got(1) a(1) unfolding pmm_inv_def by linarith
    then have "i = 0" using frame_addr_inj [of i 0] got(4) by simp
    then show ?thesis using got(3) by simp
  qed simp
next
  fix p p' a assume a: "pmm_inv p" "pmm_alloc_frame p = (a, p')" "a \<noteq> 0"
  from a(1,2) show "a \<notin> in_use p \<and> in_use p' = insert a (in_use p) \<and> pmm_inv p'"
  proof (cases rule: alloc_cases)
    case (got i n)
    then show ?thesis using in_use_fresh [OF a(1)] in_use_insert [OF got(5)] by simp
  qed (use a in simp)
next
  fix p a assume a: "pmm_inv p" "a \<in> in_use p" "a \<noteq> 0"
  then obtain i where i: "i \<in> frames_of p" "a = of_nat i * PAGE_SIZE" by (auto simp: in_use_def)
  then have s: "i < 262144" using frames_small [OF a(1)] by simp
  then have "unat a = i * 4096" unfolding i(2) by (simp add: unat_word_ariths unat_of_nat)
  then have n: "unat a div 4096 = i" "i \<noteq> 0" using a(3) i(2) by (simp, metis mult_zero_left of_nat_0)
  obtain r p' where e: "pmm_free_frame a p = (r, p')" by (cases "pmm_free_frame a p")
  from a(1) e show "in_use (snd (pmm_free_frame a p)) = in_use p - {a} \<and> pmm_inv (snd (pmm_free_frame a p))"
  proof (cases rule: free_cases)
    case freed
    have "in_use p' = in_use p - {a}" using freed(3) n i frame_addr_inj frames_small [OF a(1)]
      unfolding in_use_def by auto
    then show ?thesis using freed(5) n e by simp
  qed (use i n in simp)
qed

section \<open>Start-up\<close>

definition counted :: "pmm_t \<Rightarrow> bool" where
  "counted p \<longleftrightarrow> unat (total_frames p) \<le> 262144 \<and> unat (used_frames p) = card (frames_of p)
     \<and> unat (free_frames p) = unat (total_frames p) - card (frames_of p)"

lemma counted_take: "counted p \<Longrightarrow> i < unat (total_frames p) \<Longrightarrow> i \<notin> frames_of p \<Longrightarrow>
  counted (take_frame (of_nat i) p) \<and> frames_of (take_frame (of_nat i) p) = insert i (frames_of p)"
proof -
  assume a: "counted p" "i < unat (total_frames p)" "i \<notin> frames_of p"
  then have u: "unat (of_nat i :: u32) = i" by (simp add: counted_def unat_of_nat)
  have "total_frames (take_frame (of_nat i) p) = total_frames p" by (simp add: take_frame_def)
  then show ?thesis using a take_frame_counts [of p "of_nat i"] frames_take [of "of_nat i" p] unfolding u counted_def by simp
qed

lemma take_frame_keeps [simp]:
  "total_frames (take_frame i p) = total_frames p" "pmm_alloc_hint (take_frame i p) = pmm_alloc_hint p"
  "highest_frame (take_frame i p) = highest_frame p"
  by (simp_all add: take_frame_def)

lemma reserve_kernel_spec:
  "counted p \<Longrightarrow> frames_of p = {} \<Longrightarrow> n \<le> unat (total_frames p) \<Longrightarrow>
   counted (reserve_kernel n p) \<and> frames_of (reserve_kernel n p) = {..<n} \<and> total_frames (reserve_kernel n p) = total_frames p
   \<and> pmm_alloc_hint (reserve_kernel n p) = pmm_alloc_hint p"
proof (induction n)
  case 0
  then show ?case by (simp add: reserve_kernel_def)
next
  case (Suc n)
  have "reserve_kernel (Suc n) p = take_frame (of_nat n) (reserve_kernel n p)" by (simp add: reserve_kernel_def)
  then show ?case using Suc counted_take [of "reserve_kernel n p" n] by (simp add: lessThan_Suc)
qed

lemma reserve_range_spec:
  "counted p \<Longrightarrow> hi \<le> unat (total_frames p) \<Longrightarrow>
   counted (reserve_range lo hi p) \<and> frames_of (reserve_range lo hi p) = frames_of p \<union> {lo..<hi}
   \<and> total_frames (reserve_range lo hi p) = total_frames p \<and> pmm_alloc_hint (reserve_range lo hi p) = pmm_alloc_hint p"
proof (induction hi)
  case 0
  then show ?case by (simp add: reserve_range_def)
next
  case (Suc hi)
  show ?case
  proof (cases "lo \<le> hi")
    case False
    then show ?thesis using Suc.prems by (simp add: reserve_range_def)
  next
    case True
    let ?q = "reserve_range lo hi p"
    have q: "counted ?q" "frames_of ?q = frames_of p \<union> {lo..<hi}" "total_frames ?q = total_frames p" "pmm_alloc_hint ?q = pmm_alloc_hint p"
      using Suc by simp_all
    have s: "reserve_range lo (Suc hi) p = (if frame_bit (frame_bitmap ?q) hi then ?q else take_frame (of_nat hi) ?q)"
      using True by (simp add: reserve_range_def)
    have b: "frame_bit (frame_bitmap ?q) hi \<longleftrightarrow> hi \<in> frames_of ?q" using Suc.prems q(3) by (simp add: frames_of_def)
    have e: "{lo..<Suc hi} = insert hi {lo..<hi}" using True by auto
    show ?thesis
    proof (cases "hi \<in> frames_of ?q")
      case True
      then show ?thesis using q s b unfolding e by auto
    next
      case False
      then show ?thesis using q s b counted_take [of ?q hi] Suc.prems unfolding e by simp
    qed
  qed
qed

text \<open>The linker places the kernel in the low half of the address space.\<close>

definition layout_ok :: "layout_t \<Rightarrow> bool" where
  "layout_ok lay \<longleftrightarrow> unat (lay_end lay) < 2 ^ 63 \<and> unat (lay_heap_end lay) < 2 ^ 63"

text \<open>The frames of the image with its bitmap, and of the kernel heap.\<close>

definition reserved :: "layout_t \<Rightarrow> nat set" where
  "reserved lay = {..<(unat (align_up_page (lay_end lay)) + 32768 + 4095) div 4096}
     \<union> {unat (lay_heap_start lay) div 4096..<(unat (lay_heap_end lay) + 4095) div 4096}"

lemma pmm_init_spec:
  assumes lay: "layout_ok lay" and e: "pmm_init lay m = Inr p"
  shows "pmm_inv p \<and> unat (total_frames p) = min (unat m div 4096) 262144 \<and> frames_of p = reserved lay \<inter> {..<unat (total_frames p)}"
proof -
  define total where "total = pmm_clamp_frames (m div PAGE_SIZE)"
  define bm where "bm = align_up_page (lay_end lay)"
  define kf where "kf = (bm + (PMM_MAX_FRAMES + 7) div 8 + PAGE_SIZE - 1) div PAGE_SIZE"
  define p0 where "p0 = \<lparr>total_frames = ucast total, free_frames = ucast total, used_frames = 0, frame_bitmap = (\<lambda>_. 0),
                        highest_frame = total - 1, pmm_alloc_hint = 0\<rparr>"
  have ut: "unat total = min (unat m div 4096) 262144"
    by (auto simp: total_def pmm_clamp_frames_def unat_div word_less_nat_alt min_def)
  have nz: "m div PAGE_SIZE \<noteq> 0" and fit: "\<not> bm + (PMM_MAX_FRAMES + 7) div 8 > 0x01100000"
    and p: "p = reserve_range (unat (lay_heap_start lay div PAGE_SIZE)) (min (unat ((lay_heap_end lay + PAGE_SIZE - 1) div PAGE_SIZE)) (unat total))
        (reserve_kernel (min (unat kf) (unat total)) p0)"
    using e by (auto simp: pmm_init_def Let_def total_def bm_def kf_def p0_def split: if_splits)
  have t0: "0 < unat total" using nz unfolding ut by (simp add: unat_div flip: unat_gt_0)
  have tt: "unat (total_frames p0) = unat total" using ut by (simp add: p0_def unsigned_ucast_eq take_bit_nat_eq_self)
  have f0: "frames_of p0 = {}" by (simp add: frames_of_def p0_def frame_bit_def)
  have c0: "counted p0" using tt ut unfolding counted_def f0 by (simp add: p0_def)
  have ubm: "unat bm < 2 ^ 63 + 4096"
  proof -
    have "unat bm \<le> unat (lay_end lay + PAGE_SIZE - 1)" unfolding bm_def align_up_page_def
      using word_and_le2 [of "lay_end lay + PAGE_SIZE - 1"] by (simp add: word_le_nat_alt)
    also have "\<dots> = unat (lay_end lay) + 4095" using lay by (simp add: layout_ok_def unat_word_ariths)
    finally show ?thesis using lay by (simp add: layout_ok_def)
  qed
  have ukf: "unat kf = (unat bm + 32768 + 4095) div 4096" using ubm by (simp add: kf_def unat_div unat_word_ariths)
  have uhi: "unat ((lay_heap_end lay + PAGE_SIZE - 1) div PAGE_SIZE) = (unat (lay_heap_end lay) + 4095) div 4096"
    using lay by (simp add: layout_ok_def unat_div unat_word_ariths)
  have ulo: "unat (lay_heap_start lay div PAGE_SIZE) = unat (lay_heap_start lay) div 4096" by (simp add: unat_div)
  let ?k = "reserve_kernel (min (unat kf) (unat total)) p0"
  have k: "counted ?k" "frames_of ?k = {..<min (unat kf) (unat total)}" "total_frames ?k = total_frames p0" "pmm_alloc_hint ?k = 0"
    using reserve_kernel_spec [OF c0 f0, of "min (unat kf) (unat total)"] tt by (simp_all add: p0_def)
  have r: "counted p" "frames_of p = frames_of ?k \<union> {unat (lay_heap_start lay) div 4096..<min ((unat (lay_heap_end lay) + 4095) div 4096) (unat total)}"
    "total_frames p = total_frames p0" "pmm_alloc_hint p = 0"
    using reserve_range_spec [OF k(1)] k(3,4) tt unfolding p ulo uhi by simp_all
  have fr: "frames_of p = reserved lay \<inter> {..<unat total}"
  proof -
    have "{..<min K T} \<union> {L..<min H T} = ({..<K} \<union> {L..<H}) \<inter> {..<T}" for K L H T :: nat by auto
    then show ?thesis unfolding r(2) k(2) reserved_def bm_def [symmetric] ukf [symmetric] .
  qed
  have "0 < (unat bm + 32768 + 4095) div 4096" by (simp add: div_greater_zero_iff)
  then have "0 \<in> frames_of p" using t0 unfolding fr reserved_def bm_def [symmetric] by simp
  then have "frame_bit (frame_bitmap p) 0" by (simp add: frames_of_def)
  moreover have "pmm_alloc_hint p < total_frames p" using t0 tt r(3,4) by (simp add: word_less_nat_alt)
  ultimately show ?thesis using r(1,3) t0 tt fr ut unfolding pmm_inv_def counted_def by simp
qed

section \<open>Properties\<close>

text \<open>The life of the allocator after boot; \<open>held\<close> is what its clients hold. They release only frames they
  hold; any other address they try is answered with an error or is one of the kernel's own.\<close>

inductive pmm_run :: "layout_t \<Rightarrow> u64 \<Rightarrow> u64 set \<Rightarrow> pmm_t \<Rightarrow> bool" for lay m where
  run_boot: "pmm_init lay m = Inr p \<Longrightarrow> pmm_run lay m {} p"
| run_alloc: "pmm_run lay m held p \<Longrightarrow> pmm_alloc_frame p = (a, p') \<Longrightarrow> pmm_run lay m (if a = 0 then held else insert a held) p'"
| run_free: "pmm_run lay m held p \<Longrightarrow> a \<in> held \<Longrightarrow> pmm_free_frame a p = (r, p') \<Longrightarrow> pmm_run lay m (held - {a}) p'"
| run_stale: "pmm_run lay m held p \<Longrightarrow> unat a div 4096 \<notin> frames_of p \<Longrightarrow> pmm_free_frame a p = (r, p') \<Longrightarrow> pmm_run lay m held p'"

definition reserved_addrs :: "layout_t \<Rightarrow> pmm_t \<Rightarrow> u64 set" where
  "reserved_addrs lay p = (\<lambda>i. of_nat i * PAGE_SIZE) ` (reserved lay \<inter> {..<unat (total_frames p)})"

lemma pmm_run_inv:
  assumes lay: "layout_ok lay" and run: "pmm_run lay m held p"
  shows "pmm_inv p \<and> in_use p = reserved_addrs lay p \<union> held \<and> reserved_addrs lay p \<inter> held = {} \<and> 0 \<notin> held"
  using run
proof induction
  case (run_boot p)
  then show ?case using pmm_init_spec [OF lay, of m p] by (simp add: in_use_def reserved_addrs_def)
next
  case (run_alloc held p a p')
  show ?case
  proof (cases "a = 0")
    case True
    then show ?thesis using run_alloc pool.alloc_null [of p p'] by simp
  next
    case False
    have "pmm_inv p" using run_alloc.IH by simp
    then have "total_frames p' = total_frames p" using run_alloc.hyps(2) by (cases rule: alloc_cases) simp_all
    then have "reserved_addrs lay p' = reserved_addrs lay p" by (simp add: reserved_addrs_def)
    then show ?thesis using run_alloc pool.alloc_fresh [of p a p'] False by auto
  qed
next
  case (run_free held p a r p')
  then have a: "pmm_inv p" "a \<in> in_use p" "a \<noteq> 0" by auto
  have "total_frames p' = total_frames p" using a(1) run_free.hyps(3) by (cases rule: free_cases) simp_all
  then have "reserved_addrs lay p' = reserved_addrs lay p" by (simp add: reserved_addrs_def)
  then show ?case using pool.release_used [OF a] run_free by auto
next
  case (run_stale held p a r p')
  then have i: "pmm_inv p" by simp
  then have "p' = p" using run_stale.hyps(3) by (cases rule: free_cases) (use run_stale.hyps(2) in simp_all)
  then show ?case using run_stale.IH by simp
qed

lemma frame_addr_aligned: "i < 262144 \<Longrightarrow> unat (of_nat i * PAGE_SIZE :: u64) = i * 4096"
  by (simp add: unat_word_ariths unat_of_nat)

text \<open>C28. No frame is handed out twice, and no reserved frame ever: at every moment after boot the bitmap holds
  exactly the kernel's reservations (image, bitmap, heap) and the frames held by clients, and an
  allocation returns a page-aligned frame below the 1 GB identity map that is neither; it answers NULL
  only when every frame is taken. The counters agree with the bitmap.\<close>

theorem pmm_no_double_hand:
  assumes "layout_ok lay" and "pmm_run lay m held p" and "pmm_alloc_frame p = (a, p')"
  shows "in_use p = reserved_addrs lay p \<union> held \<and> reserved_addrs lay p \<inter> held = {}
    \<and> (if a = 0 then frames_of p = {..<unat (total_frames p)} \<and> p' = p
       else a \<notin> held \<and> a \<notin> reserved_addrs lay p \<and> unat a mod 4096 = 0 \<and> unat a < 2 ^ 30)
    \<and> unat (used_frames p') = card (frames_of p') \<and> unat (free_frames p') = unat (total_frames p') - card (frames_of p')"
proof -
  note i = pmm_run_inv [OF assms(1,2)]
  then have inv: "pmm_inv p" by simp
  have inv': "pmm_inv p'" by (rule pool.alloc_inv [OF inv assms(3)])
  from inv assms(3) show ?thesis
  proof (cases rule: alloc_cases)
    case full
    then show ?thesis using i inv' by (simp add: pmm_inv_def)
  next
    case (got j n)
    have j: "j < 262144" using got(1) inv unfolding pmm_inv_def by linarith
    have a0: "a \<noteq> 0" using frame_addr_inj [of j 0] j got(3,4) by auto
    have ua: "unat a = j * 4096" using frame_addr_aligned [OF j] got(4) by simp
    have "a \<notin> in_use p" using pool.alloc_fresh [OF inv assms(3) a0] by simp
    then show ?thesis using i inv' a0 ua j by (auto simp: pmm_inv_def)
  qed
qed

text \<open>A machine of 128 MB with the kernel below 2 MB and its heap from 17 MB to 25 MB.\<close>

definition demo_layout :: layout_t where
  "demo_layout = \<lparr>lay_end = 0x200000, lay_heap_start = 0x1100000, lay_heap_end = 0x1900000\<rparr>"

lemma demo_layout_boots: "\<exists>p. pmm_init demo_layout 0x8000000 = Inr p"
proof -
  have a: "align_up_page 0x200000 = 0x200000" by (simp add: align_up_page_def)
  show ?thesis by (simp add: pmm_init_def Let_def demo_layout_def a pmm_clamp_frames_def)
qed

theorem pmm_no_double_hand_witness:
  "\<exists>p a p'. pmm_init demo_layout 0x8000000 = Inr p \<and> pmm_alloc_frame p = (a, p') \<and> in_use p = reserved_addrs demo_layout p
     \<and> unat (used_frames p') = card (frames_of p')"
proof -
  obtain p where p: "pmm_init demo_layout 0x8000000 = Inr p" using demo_layout_boots by blast
  obtain a p' where a: "pmm_alloc_frame p = (a, p')" by (cases "pmm_alloc_frame p")
  have l: "layout_ok demo_layout" by (simp add: layout_ok_def demo_layout_def)
  show ?thesis using pmm_no_double_hand [OF l run_boot [OF p] a] p a by auto
qed

text \<open>The allocator returns the first free frame at or after the rover, cyclically, and moves the rover
  behind it; a release of a frame in use clears its bit and rewinds the rover to it when it lies below;
  any other release is refused and changes nothing.\<close>

theorem pmm_rover_exact:
  assumes "pmm_inv p" and "pmm_alloc_frame p = (a, p')" "a \<noteq> 0" and "pmm_free_frame b p = (r, p'')"
  shows "(\<exists>n<unat (total_frames p). \<exists>i. i = (unat (pmm_alloc_hint p) + n) mod unat (total_frames p) \<and> a = of_nat i * PAGE_SIZE
            \<and> i \<notin> frames_of p \<and> (\<forall>m<n. (unat (pmm_alloc_hint p) + m) mod unat (total_frames p) \<in> frames_of p)
            \<and> frames_of p' = insert i (frames_of p))
    \<and> (if unat b div 4096 \<in> frames_of p
       then r = MEM_SUCCESS \<and> frames_of p'' = frames_of p - {unat b div 4096}
          \<and> unat (pmm_alloc_hint p'') = min (unat b div 4096) (unat (pmm_alloc_hint p))
       else r = MEM_ERROR_INVALID_ADDRESS \<and> p'' = p)"
proof
  from assms(1,2) show "\<exists>n<unat (total_frames p). \<exists>i. i = (unat (pmm_alloc_hint p) + n) mod unat (total_frames p) \<and> a = of_nat i * PAGE_SIZE
            \<and> i \<notin> frames_of p \<and> (\<forall>m<n. (unat (pmm_alloc_hint p) + m) mod unat (total_frames p) \<in> frames_of p)
            \<and> frames_of p' = insert i (frames_of p)"
  proof (cases rule: alloc_cases)
    case (got i n)
    then show ?thesis by blast
  qed (use assms(3) in simp)
  from assms(1,4) show "if unat b div 4096 \<in> frames_of p
       then r = MEM_SUCCESS \<and> frames_of p'' = frames_of p - {unat b div 4096}
          \<and> unat (pmm_alloc_hint p'') = min (unat b div 4096) (unat (pmm_alloc_hint p))
       else r = MEM_ERROR_INVALID_ADDRESS \<and> p'' = p"
    by (cases rule: free_cases) simp_all
qed

definition demo_pool :: pmm_t where
  "demo_pool = \<lparr>total_frames = 4, free_frames = 3, used_frames = 1, frame_bitmap = (\<lambda>_. 0)(0 := 1), highest_frame = 3, pmm_alloc_hint = 0\<rparr>"

theorem pmm_rover_exact_witness:
  "fst (pmm_alloc_frame demo_pool) = 4096 \<and> fst (pmm_free_frame 8192 demo_pool) = MEM_ERROR_INVALID_ADDRESS
     \<and> frames_of (snd (pmm_alloc_frame demo_pool)) = {0, 1}"
proof -
  have b: "frame_bit (frame_bitmap demo_pool) i \<longleftrightarrow> i = 0" if "i < 8" for i
    using that by (auto simp: frame_bit_iff demo_pool_def bit_1_iff)
  have f: "frames_of demo_pool = {0}" using b by (auto simp: frames_of_def demo_pool_def)
  have inv: "pmm_inv demo_pool" unfolding pmm_inv_def f using b [of 0] by (simp add: demo_pool_def)
  have a: "pmm_alloc_frame demo_pool = (4096, snd (pmm_alloc_frame demo_pool))"
  proof -
    obtain a p' where e: "pmm_alloc_frame demo_pool = (a, p')" by (cases "pmm_alloc_frame demo_pool")
    from inv e show ?thesis
    proof (cases rule: alloc_cases)
      case full
      have "1 \<notin> frames_of demo_pool" "unat (total_frames demo_pool) = 4" using f by (simp_all add: demo_pool_def)
      then show ?thesis using full(1) by auto
    next
      case (got i n)
      have z: "unat (pmm_alloc_hint demo_pool) = 0" "unat (total_frames demo_pool) = 4" by (simp_all add: demo_pool_def)
      have "\<not> 1 < n" using got(10) [of 1] z f by auto
      moreover have "n \<noteq> 0" using got(3,9) z by auto
      ultimately have "n = 1" by simp
      then have "i = 1" using got(9) z by simp
      then show ?thesis using got(4) e by simp
    qed
  qed
  have r: "pmm_free_frame 8192 demo_pool = (fst (pmm_free_frame 8192 demo_pool), snd (pmm_free_frame 8192 demo_pool))" by simp
  obtain i where "(4096 :: u64) = of_nat i * PAGE_SIZE" "i < 4" "frames_of (snd (pmm_alloc_frame demo_pool)) = insert i {0}"
    using pmm_rover_exact [OF inv a _ r] unfolding f by (auto simp: demo_pool_def)
  moreover from this have "i = 1" using frame_addr_inj [of i 1] by simp
  moreover have "fst (pmm_alloc_frame demo_pool) = 4096" using a by (metis fst_conv)
  moreover have "fst (pmm_free_frame 8192 demo_pool) = MEM_ERROR_INVALID_ADDRESS"
    using pmm_rover_exact [OF inv a _ r] unfolding f by simp
  ultimately show ?thesis by (simp add: insert_commute)
qed

end
