(* ===== verification/Vmspace.thy ===== *)
theory Vmspace
  imports Pmm_Props
begin

text \<open>
  The per-process address spaces of \<open>kernel/src/vmspace.c\<close>. Physical memory is seen as 4 KB tables of 512
  entries: \<open>tab f k\<close> is entry \<open>k\<close> of the table in the frame with physical address \<open>f\<close>, which the identity
  map also makes its kernel address. The boot tables are part of that memory, at the addresses of the
  record \<open>boot_t\<close>. Frames come from the allocator of \<open>Pmm\<close>.
\<close>

section \<open>State and operations\<close>

abbreviation (input) PG_PRESENT :: u64 where "PG_PRESENT \<equiv> 1"
abbreviation (input) PG_RW :: u64 where "PG_RW \<equiv> 2"
abbreviation (input) PG_USER :: u64 where "PG_USER \<equiv> 4"
abbreviation (input) PG_ADDR :: u64 where "PG_ADDR \<equiv> 0x000FFFFFFFFFF000"
abbreviation (input) USER_VBASE :: u64 where "USER_VBASE \<equiv> 0x40000000"

record vm_t =
  vm_pmm :: pmm_t
  tab :: "u64 \<Rightarrow> nat \<Rightarrow> u64"
  created_count :: int

record boot_t =
  boot_pml4 :: u64
  boot_pdpt :: u64
  boot_pd :: u64

record address_space_t =
  as_pml4 :: u64
  as_cr3 :: u64

definition pg_has :: "u64 \<Rightarrow> u64 \<Rightarrow> bool" where
  "pg_has flag e \<longleftrightarrow> e AND flag \<noteq> 0"

definition set_tab_entry :: "u64 \<Rightarrow> nat \<Rightarrow> u64 \<Rightarrow> vm_t \<Rightarrow> vm_t" where
  "set_tab_entry t k e vm = vm\<lparr>tab := (tab vm)(t := (tab vm t)(k := e))\<rparr>"

text \<open>A zeroed frame; 0 is NULL.\<close>

definition alloc_table :: "vm_t \<Rightarrow> u64 \<times> vm_t" where
  "alloc_table vm = (case pmm_alloc_frame (vm_pmm vm) of (f, p) \<Rightarrow>
     if f = 0 then (0, vm\<lparr>vm_pmm := p\<rparr>) else (f, vm\<lparr>vm_pmm := p, tab := (tab vm)(f := (\<lambda>_. 0))\<rparr>))"

definition table_ref :: "u64 \<Rightarrow> u64" where
  "table_ref t = (t AND PG_ADDR) OR PG_PRESENT OR PG_RW OR PG_USER"

text \<open>The shared device windows: entries of a boot table copied without the user bit.\<close>

definition share_windows :: "u64 \<Rightarrow> nat \<Rightarrow> nat \<Rightarrow> u64 \<Rightarrow> vm_t \<Rightarrow> vm_t" where
  "share_windows src lo hi t vm = vm\<lparr>tab := (tab vm)(t := (\<lambda>i. if lo \<le> i \<and> i < hi \<and> pg_has PG_PRESENT (tab vm src i)
     then tab vm src i AND NOT PG_USER else tab vm t i))\<rparr>"

definition vmspace_create :: "boot_t \<Rightarrow> vm_t \<Rightarrow> address_space_t \<times> vm_t" where
  "vmspace_create bt vm =
     (case alloc_table vm of (pml4, vm) \<Rightarrow>
        if pml4 = 0 then (\<lparr>as_pml4 = 0, as_cr3 = 0\<rparr>, vm)
        else case alloc_table vm of (pdpt, vm) \<Rightarrow>
          if pdpt = 0 then (\<lparr>as_pml4 = 0, as_cr3 = 0\<rparr>, vm)
          else let vm = set_tab_entry pml4 0 (table_ref pdpt) vm;
                   vm = set_tab_entry pdpt 0 (table_ref (boot_pd bt)) vm;
                   vm = share_windows (boot_pdpt bt) 2 512 pdpt vm;
                   vm = share_windows (boot_pml4 bt) 1 256 pml4 vm
            in (\<lparr>as_pml4 = pml4, as_cr3 = pml4\<rparr>, vm\<lparr>created_count := created_count vm + 1\<rparr>))"

text \<open>The table behind entry \<open>k\<close> of \<open>t\<close>, allocated when absent; \<open>False\<close> when there is no frame.\<close>

definition ensure_table :: "u64 \<Rightarrow> nat \<Rightarrow> vm_t \<Rightarrow> bool \<times> vm_t" where
  "ensure_table t k vm =
     (if \<not> pg_has PG_PRESENT (tab vm t k)
      then (case alloc_table vm of (f, vm) \<Rightarrow> if f = 0 then (False, vm) else (True, set_tab_entry t k (table_ref f) vm))
      else (True, vm))"

definition va_index :: "nat \<Rightarrow> u64 \<Rightarrow> nat" where
  "va_index shift va = unat (drop_bit shift va AND 0x1FF)"

definition vmspace_map_page :: "u64 \<Rightarrow> u64 \<Rightarrow> u64 \<Rightarrow> bool \<Rightarrow> vm_t \<Rightarrow> bool \<times> vm_t" where
  "vmspace_map_page root uvaddr paddr writable vm =
     (if root = 0 then (False, vm)
      else let pdpt = tab vm root 0 AND PG_ADDR in
        case ensure_table pdpt (va_index 30 uvaddr) vm of (ok, vm) \<Rightarrow>
        if \<not> ok then (False, vm)
        else let pd = tab vm pdpt (va_index 30 uvaddr) AND PG_ADDR in
          case ensure_table pd (va_index 21 uvaddr) vm of (ok, vm) \<Rightarrow>
          if \<not> ok then (False, vm)
          else let pt = tab vm pd (va_index 21 uvaddr) AND PG_ADDR in
            (True, set_tab_entry pt (va_index 12 uvaddr) ((paddr AND PG_ADDR) OR PG_PRESENT OR PG_USER OR (if writable then PG_RW else 0)) vm))"

text \<open>A zeroed frame of its own behind a page; the frame, or 0.\<close>

definition map_fresh_page :: "u64 \<Rightarrow> u64 \<Rightarrow> bool \<Rightarrow> vm_t \<Rightarrow> u64 \<times> vm_t" where
  "map_fresh_page root uvaddr writable vm =
     (case alloc_table vm of (frame, vm) \<Rightarrow>
        if frame = 0 then (0, vm)
        else case vmspace_map_page root uvaddr frame writable vm of (ok, vm) \<Rightarrow>
          if \<not> ok then (0, vm\<lparr>vm_pmm := snd (pmm_free_frame frame (vm_pmm vm))\<rparr>) else (frame, vm))"

text \<open>The check of one page, and the loop over the pages of the span.\<close>

definition user_page_ok :: "(u64 \<Rightarrow> nat \<Rightarrow> u64) \<Rightarrow> u64 \<Rightarrow> bool \<Rightarrow> u64 \<Rightarrow> bool" where
  "user_page_ok tb root need_write p \<longleftrightarrow>
     (let e4 = tb root 0; e3 = tb (e4 AND PG_ADDR) (va_index 30 p); e2 = tb (e3 AND PG_ADDR) (va_index 21 p);
          pte = tb (e2 AND PG_ADDR) (va_index 12 p)
      in pg_has PG_PRESENT e4 \<and> pg_has PG_PRESENT e3 \<and> pg_has PG_PRESENT e2
         \<and> pte AND (PG_PRESENT OR PG_USER) = (PG_PRESENT OR PG_USER) \<and> \<not> (need_write \<and> \<not> pg_has PG_RW pte))"

definition vmspace_user_ok :: "(u64 \<Rightarrow> nat \<Rightarrow> u64) \<Rightarrow> u64 \<Rightarrow> u64 \<Rightarrow> u64 \<Rightarrow> bool \<Rightarrow> bool" where
  "vmspace_user_ok tb root uvaddr len need_write \<longleftrightarrow>
     (if len = 0 then True
      else if uvaddr + len < uvaddr then False
      else if uvaddr < USER_VBASE \<or> uvaddr + len > 0x80000000 then False
      else if root = 0 then False
      else let first = uvaddr AND NOT 0xFFF; last = (uvaddr + len - 1) AND NOT 0xFFF in
        list_all (\<lambda>k. user_page_ok tb root need_write (first + of_nat k * 0x1000)) [0..<Suc (unat (last - first) div 0x1000)])"

text \<open>The frames in the order in which \<open>vmspace_destroy\<close> frees them. It reads the tables while it frees;
  a free only touches the bitmap, so the walk and the frees can be told apart.\<close>

definition table_frames :: "(u64 \<Rightarrow> nat \<Rightarrow> u64) \<Rightarrow> u64 \<Rightarrow> u64 list" where
  "table_frames tb pt = map (\<lambda>ti. tb pt ti AND PG_ADDR) (filter (\<lambda>ti. pg_has PG_PRESENT (tb pt ti)) [0..<512])"

definition directory_frames :: "(u64 \<Rightarrow> nat \<Rightarrow> u64) \<Rightarrow> u64 \<Rightarrow> u64 list" where
  "directory_frames tb pd = concat (map (\<lambda>di. if \<not> pg_has PG_PRESENT (tb pd di) then []
     else table_frames tb (tb pd di AND PG_ADDR) @ [tb pd di AND PG_ADDR]) [0..<512])"

definition destroy_frames :: "(u64 \<Rightarrow> nat \<Rightarrow> u64) \<Rightarrow> u64 \<Rightarrow> u64 list" where
  "destroy_frames tb root =
     (let pdpt = tb root 0 AND PG_ADDR in
      (if pdpt \<noteq> 0 then concat (map (\<lambda>pi. if \<not> pg_has PG_PRESENT (tb pdpt pi) then []
          else if \<not> pg_has PG_USER (tb pdpt pi) then []
          else directory_frames tb (tb pdpt pi AND PG_ADDR) @ [tb pdpt pi AND PG_ADDR]) [1..<512]) @ [pdpt]
       else []) @ [root])"

definition vmspace_destroy :: "u64 \<Rightarrow> vm_t \<Rightarrow> vm_t" where
  "vmspace_destroy root vm = (if root = 0 then vm
     else vm\<lparr>vm_pmm := fold (\<lambda>f p. snd (pmm_free_frame f p)) (destroy_frames (tab vm) root) (vm_pmm vm)\<rparr>)"

section \<open>The structure of a space\<close>

text \<open>Every frame of a space has a position: the two top tables, the directory of the user half, its page
  tables, and the user pages, numbered from 0x40000000.\<close>

datatype position = Root | Pdpt | Pd | Pt nat | is_Leaf: Leaf nat

definition pd_entry :: "(u64 \<Rightarrow> nat \<Rightarrow> u64) \<Rightarrow> u64 \<Rightarrow> u64" where
  "pd_entry tb root = tb (tb root 0 AND PG_ADDR) 1"

definition pt_entry :: "(u64 \<Rightarrow> nat \<Rightarrow> u64) \<Rightarrow> u64 \<Rightarrow> nat \<Rightarrow> u64" where
  "pt_entry tb root di = tb (pd_entry tb root AND PG_ADDR) di"

definition pte :: "(u64 \<Rightarrow> nat \<Rightarrow> u64) \<Rightarrow> u64 \<Rightarrow> nat \<Rightarrow> u64" where
  "pte tb root n = tb (pt_entry tb root (n div 512) AND PG_ADDR) (n mod 512)"

fun present_at :: "(u64 \<Rightarrow> nat \<Rightarrow> u64) \<Rightarrow> u64 \<Rightarrow> position \<Rightarrow> bool" where
  "present_at tb root Root \<longleftrightarrow> True"
| "present_at tb root Pdpt \<longleftrightarrow> True"
| "present_at tb root Pd \<longleftrightarrow> pg_has PG_PRESENT (pd_entry tb root)"
| "present_at tb root (Pt di) \<longleftrightarrow> di < 512 \<and> pg_has PG_PRESENT (pd_entry tb root) \<and> pg_has PG_PRESENT (pt_entry tb root di)"
| "present_at tb root (Leaf n) \<longleftrightarrow> n < 262144 \<and> pg_has PG_PRESENT (pd_entry tb root) \<and> pg_has PG_PRESENT (pt_entry tb root (n div 512))
     \<and> pg_has PG_PRESENT (pte tb root n)"

fun frame_at :: "(u64 \<Rightarrow> nat \<Rightarrow> u64) \<Rightarrow> u64 \<Rightarrow> position \<Rightarrow> u64" where
  "frame_at tb root Root = root"
| "frame_at tb root Pdpt = tb root 0 AND PG_ADDR"
| "frame_at tb root Pd = pd_entry tb root AND PG_ADDR"
| "frame_at tb root (Pt di) = pt_entry tb root di AND PG_ADDR"
| "frame_at tb root (Leaf n) = pte tb root n AND PG_ADDR"

definition owned :: "(u64 \<Rightarrow> nat \<Rightarrow> u64) \<Rightarrow> u64 \<Rightarrow> u64 set" where
  "owned tb root = frame_at tb root ` {pos. present_at tb root pos}"

text \<open>The tables among them; the rest are user pages, whose contents belong to the program.\<close>

definition tables :: "(u64 \<Rightarrow> nat \<Rightarrow> u64) \<Rightarrow> u64 \<Rightarrow> u64 set" where
  "tables tb root = frame_at tb root ` {pos. present_at tb root pos \<and> \<not> is_Leaf pos}"

text \<open>What a user page maps to: its frame and whether it is writable.\<close>

definition space_abs :: "(u64 \<Rightarrow> nat \<Rightarrow> u64) \<Rightarrow> u64 \<Rightarrow> nat \<Rightarrow> (u64 \<times> bool) option" where
  "space_abs tb root n = (if present_at tb root (Leaf n) then Some (pte tb root n AND PG_ADDR, pg_has PG_RW (pte tb root n)) else None)"

text \<open>A frame that the allocator can hand out.\<close>

definition frame_ok :: "u64 \<Rightarrow> bool" where
  "frame_ok f \<longleftrightarrow> f \<noteq> 0 \<and> f AND PG_ADDR = f"

definition space_ok :: "boot_t \<Rightarrow> (u64 \<Rightarrow> nat \<Rightarrow> u64) \<Rightarrow> u64 \<Rightarrow> bool" where
  "space_ok bt tb root \<longleftrightarrow>
     inj_on (frame_at tb root) {pos. present_at tb root pos} \<and> (\<forall>f\<in>owned tb root. frame_ok f)
     \<and> tb root 0 = table_ref (tb root 0 AND PG_ADDR) \<and> (\<forall>i. 1 \<le> i \<and> i < 512 \<longrightarrow> \<not> pg_has PG_USER (tb root i))
     \<and> tb (tb root 0 AND PG_ADDR) 0 = table_ref (boot_pd bt)
     \<and> (\<forall>i. 2 \<le> i \<and> i < 512 \<longrightarrow> \<not> pg_has PG_USER (tb (tb root 0 AND PG_ADDR) i))
     \<and> (pg_has PG_PRESENT (pd_entry tb root) \<longrightarrow> pd_entry tb root = table_ref (pd_entry tb root AND PG_ADDR))
     \<and> (\<forall>di<512. present_at tb root (Pt di) \<longrightarrow> pt_entry tb root di = table_ref (pt_entry tb root di AND PG_ADDR))
     \<and> (\<forall>n<262144. present_at tb root (Leaf n) \<longrightarrow> pg_has PG_USER (pte tb root n))"

end
