(* ===== verification/Vmspace_Props.thy ===== *)
theory Vmspace_Props
  imports Vmspace
begin

text \<open>
  What the address spaces promise: every space is a tree of its own frames, spaces never share one, a
  mapping changes one page of one space, the span check agrees with the hardware's walk, and destroying
  a space gives back exactly its frames.
\<close>

section \<open>Entries and indices\<close>

lemma table_ref_bits [simp]:
  "table_ref t AND PG_ADDR = t AND PG_ADDR" "pg_has PG_PRESENT (table_ref t)" "pg_has PG_RW (table_ref t)" "pg_has PG_USER (table_ref t)"
  by (simp_all add: table_ref_def pg_has_def bit.conj_disj_distrib2 and.assoc)

lemma table_ref_addr [simp]: "table_ref (t AND PG_ADDR) = table_ref t"
  by (simp add: table_ref_def and.assoc)

lemma table_ref_idem [simp]: "table_ref (table_ref t) = table_ref t"
  by (metis table_ref_addr table_ref_bits(1))

lemma pg_has_zero [simp]: "\<not> pg_has f 0"
  by (simp add: pg_has_def)

lemma va_index_nat: "va_index s va = unat va div 2 ^ s mod 512"
proof -
  have m: "(0x1FF :: u64) = mask 9" by (simp add: mask_eq_exp_minus_1)
  have "va_index s va = unat (take_bit 9 (drop_bit s va))" unfolding va_index_def m by (simp add: take_bit_eq_mask)
  also have "\<dots> = unat (drop_bit s va) mod 512" unfolding unsigned_take_bit_eq by (simp add: take_bit_eq_mod)
  also have "unat (drop_bit s va) = drop_bit s (take_bit 64 (unat va))" using unsigned_drop_bit_eq [of s va, where ?'a = nat] by simp
  also have "\<dots> = unat va div 2 ^ s" using unat_u64_less [of va] by (simp add: take_bit_nat_eq_self drop_bit_eq_div)
  finally show ?thesis .
qed

definition user_va :: "u64 \<Rightarrow> bool" where
  "user_va va \<longleftrightarrow> 0x40000000 \<le> unat va \<and> unat va < 0x80000000"

definition page_no :: "u64 \<Rightarrow> nat" where
  "page_no va = (unat va - 0x40000000) div 4096"

lemma user_index:
  assumes "user_va va"
  shows "va_index 30 va = 1" "va_index 21 va = page_no va div 512" "va_index 12 va = page_no va mod 512" "va_index 39 va = 0" "page_no va < 262144"
proof -
  define k where "k = unat va - 0x40000000"
  have k: "unat va = 0x40000000 + k" "k < 0x40000000" using assms unfolding user_va_def k_def by linarith+
  have p: "page_no va = k div 4096" by (simp add: page_no_def k_def)
  have kd: "k div 4096 < 262144" using k(2) by (intro div_less_iff_less_mult [THEN iffD2]) simp_all
  show "page_no va < 262144" unfolding p by (rule kd)
  have "(0x40000000 + k) div 2 ^ 30 = 1" using k(2) by (intro div_nat_eqI) simp_all
  then show "va_index 30 va = 1" unfolding va_index_nat k(1) by (simp only:) simp
  have "(0x40000000 + k) div 2 ^ 39 = 0" using k(2) by (intro div_less) simp
  then show "va_index 39 va = 0" unfolding va_index_nat k(1) by (simp only:)
  have sh: "(b * c + x) div b = c + x div b" if "0 < b" for b c x :: nat
    using div_mult_self3 [of b c x] that by (simp add: mult.commute)
  have r: "(0x40000000 + k) div 2 ^ 12 = 262144 + k div 4096" using sh [of 4096 262144 k] by simp
  have md: "(262144 + m) mod 512 = m mod 512" for m :: nat using mod_mult_self3 [of 512 512 m] by simp
  show "va_index 12 va = page_no va mod 512" unfolding va_index_nat k(1) r md p by (rule refl)
  have r2: "(0x40000000 + k) div 2 ^ 21 = 512 + k div 2097152" using sh [of 2097152 512 k] by simp
  have k2: "k div 2097152 < 512" using k(2) by (intro div_less_iff_less_mult [THEN iffD2]) simp_all
  have "(512 + k div 2097152) mod 512 = k div 2097152" using k2 by simp
  moreover have "k div 4096 div 512 = k div 2097152" using div_mult2_eq [of k 4096 512] by simp
  ultimately show "va_index 21 va = page_no va div 512" unfolding va_index_nat k(1) r2 p by (simp only:)
qed

section \<open>Frames of a space\<close>

lemma owned_iff: "f \<in> owned tb root \<longleftrightarrow> (\<exists>pos. present_at tb root pos \<and> f = frame_at tb root pos)"
  by (auto simp: owned_def)

lemma present_owned: "present_at tb root pos \<Longrightarrow> frame_at tb root pos \<in> owned tb root"
  by (auto simp: owned_def)

lemma space_okD:
  assumes "space_ok bt tb root"
  shows "present_at tb root p \<Longrightarrow> present_at tb root q \<Longrightarrow> frame_at tb root p = frame_at tb root q \<Longrightarrow> p = q"
    and "f \<in> owned tb root \<Longrightarrow> f \<noteq> 0 \<and> f AND PG_ADDR = f"
    and "tb root 0 = table_ref (tb root 0)" "1 \<le> i \<Longrightarrow> i < 512 \<Longrightarrow> \<not> pg_has PG_USER (tb root i)" "tb (tb root 0 AND PG_ADDR) 0 = table_ref (boot_pd bt)"
    and "2 \<le> i \<Longrightarrow> i < 512 \<Longrightarrow> \<not> pg_has PG_USER (tb (tb root 0 AND PG_ADDR) i)"
    and "pg_has PG_PRESENT (pd_entry tb root) \<Longrightarrow> pd_entry tb root = table_ref (pd_entry tb root)"
    and "present_at tb root (Pt di) \<Longrightarrow> pt_entry tb root di = table_ref (pt_entry tb root di)"
    and "present_at tb root (Leaf n) \<Longrightarrow> pg_has PG_USER (pte tb root n)"
  using assms unfolding space_ok_def inj_on_def frame_ok_def by (auto simp del: frame_at.simps)

text \<open>The frame rule: stores outside the tables of the space leave it alone.\<close>

lemma space_frame:
  assumes "\<forall>f\<in>tables tb root. tb' f = tb f"
  shows "present_at tb' root pos = present_at tb root pos" "present_at tb root pos \<Longrightarrow> frame_at tb' root pos = frame_at tb root pos"
    "tb' root = tb root" "tb' (tb root 0 AND PG_ADDR) = tb (tb root 0 AND PG_ADDR)" "pd_entry tb' root = pd_entry tb root"
    "present_at tb root (Pt di) \<Longrightarrow> pt_entry tb' root di = pt_entry tb root di"
    "present_at tb root (Leaf n) \<Longrightarrow> pte tb' root n = pte tb root n"
proof -
  have tI: "tb' (frame_at tb root pos) = tb (frame_at tb root pos)" if "present_at tb root pos" "\<not> is_Leaf pos" for pos
    using assms that unfolding tables_def by blast
  show r: "tb' root = tb root" using tI [of Root] by simp
  show d: "tb' (tb root 0 AND PG_ADDR) = tb (tb root 0 AND PG_ADDR)" using tI [of Pdpt] by simp
  show pd: "pd_entry tb' root = pd_entry tb root" using r d by (simp add: pd_entry_def)
  have pt: "pt_entry tb' root di = pt_entry tb root di" if "pg_has PG_PRESENT (pd_entry tb root)" for di
    using tI [of Pd] that pd by (simp add: pt_entry_def)
  then show "present_at tb root (Pt di) \<Longrightarrow> pt_entry tb' root di = pt_entry tb root di" by simp
  have pe: "pte tb' root n = pte tb root n" if "present_at tb root (Pt (n div 512))" for n
    using tI [of "Pt (n div 512)"] that pt by (simp add: pte_def)
  have n512: "n < 262144 \<Longrightarrow> n div 512 < 512" for n :: nat by simp
  show "present_at tb root (Leaf n) \<Longrightarrow> pte tb' root n = pte tb root n" using pe n512 by simp
  show "present_at tb' root pos = present_at tb root pos" for pos
    using pd pt pe n512 by (cases pos) auto
  show "frame_at tb' root pos = frame_at tb root pos" if "present_at tb root pos"
    using that r pd pt pe n512 by (cases pos) auto
qed

lemma tables_owned: "tables tb root \<subseteq> owned tb root"
  by (auto simp: tables_def owned_def)

lemma space_frame_ok:
  assumes "\<forall>f\<in>tables tb root. tb' f = tb f"
  shows "owned tb' root = owned tb root" "tables tb' root = tables tb root" "space_abs tb' root = space_abs tb root"
    "space_ok bt tb root \<Longrightarrow> space_ok bt tb' root"
proof -
  note s = space_frame [OF assms]
  show o: "owned tb' root = owned tb root" unfolding owned_def using s(1,2) by (auto simp: image_iff)
  show "tables tb' root = tables tb root" unfolding tables_def using s(1,2) by (auto simp: image_iff)
  show "space_abs tb' root = space_abs tb root" unfolding space_abs_def fun_eq_iff using s(1,7) by (simp del: present_at.simps)
  have "inj_on (frame_at tb' root) {pos. present_at tb' root pos} = inj_on (frame_at tb root) {pos. present_at tb root pos}"
    unfolding s(1) by (intro inj_on_cong) (simp add: s(2))
  moreover have "{pos. present_at tb' root pos} = {pos. present_at tb root pos}" using s(1) by simp
  ultimately show "space_ok bt tb' root" if "space_ok bt tb root"
    using that s(3-7) s(1) [of "Pt _"] s(1) [of "Leaf _"] o unfolding space_ok_def by (simp del: present_at.simps)
qed

section \<open>Growing a space\<close>

definition put_tab :: "(u64 \<Rightarrow> nat \<Rightarrow> u64) \<Rightarrow> u64 \<Rightarrow> nat \<Rightarrow> u64 \<Rightarrow> u64 \<Rightarrow> nat \<Rightarrow> u64" where
  "put_tab tb t k e = tb(t := (tb t)(k := e))"

lemma put_tab_apply: "put_tab tb t k e f i = (if f = t \<and> i = k then e else tb f i)"
  by (simp add: put_tab_def)

lemma put_tab_other: "f \<noteq> t \<Longrightarrow> put_tab tb t k e f = tb f"
  by (simp add: put_tab_def)

text \<open>The table \<open>tb'\<close> has one position more, or one that now holds \<open>f\<close>.\<close>

definition extends :: "(u64 \<Rightarrow> nat \<Rightarrow> u64) \<Rightarrow> (u64 \<Rightarrow> nat \<Rightarrow> u64) \<Rightarrow> u64 \<Rightarrow> position \<Rightarrow> u64 \<Rightarrow> bool" where
  "extends tb tb' root pos0 f \<longleftrightarrow> (\<forall>pos. present_at tb' root pos \<longleftrightarrow> pos = pos0 \<or> present_at tb root pos)
     \<and> frame_at tb' root pos0 = f \<and> (\<forall>pos. pos \<noteq> pos0 \<and> present_at tb root pos \<longrightarrow> frame_at tb' root pos = frame_at tb root pos)"

lemma extends_owned:
  assumes "extends tb tb' root pos0 f"
  shows "f \<in> owned tb' root" "owned tb' root \<subseteq> insert f (owned tb root)"
    "\<not> present_at tb root pos0 \<Longrightarrow> owned tb' root = insert f (owned tb root)"
  using assms unfolding extends_def owned_def by (auto simp: image_iff) metis+

lemma extends_inj:
  assumes "extends tb tb' root pos0 f" "inj_on (frame_at tb root) {pos. present_at tb root pos}" "f \<notin> owned tb root"
  shows "inj_on (frame_at tb' root) {pos. present_at tb' root pos}"
proof (rule inj_onI, clarify)
  fix p q assume a: "present_at tb' root p" "present_at tb' root q" "frame_at tb' root p = frame_at tb' root q"
  have o: "x \<noteq> pos0 \<Longrightarrow> present_at tb' root x \<Longrightarrow> present_at tb root x \<and> frame_at tb' root x = frame_at tb root x \<and> frame_at tb' root x \<noteq> f" for x
    using assms(1,3) present_owned [of tb root x] unfolding extends_def by metis
  have f: "frame_at tb' root pos0 = f" using assms(1) unfolding extends_def by blast
  show "p = q"
  proof (cases "p = pos0 \<or> q = pos0")
    case True
    then show ?thesis using a o [of p] o [of q] f by metis
  next
    case False
    then show ?thesis using a o [of p] o [of q] assms(2) unfolding inj_on_def by auto
  qed
qed

lemma space_okI:
  assumes "space_ok bt tb root" "extends tb tb' root pos0 f" "f \<notin> owned tb root" "frame_ok f"
    and "tb' root = tb root" "\<And>i. i \<noteq> 1 \<Longrightarrow> tb' (tb root 0 AND PG_ADDR) i = tb (tb root 0 AND PG_ADDR) i"
    and "pg_has PG_PRESENT (pd_entry tb' root) \<Longrightarrow> pd_entry tb' root = table_ref (pd_entry tb' root)"
    and "\<And>di. present_at tb' root (Pt di) \<Longrightarrow> pt_entry tb' root di = table_ref (pt_entry tb' root di)"
    and "\<And>n. present_at tb' root (Leaf n) \<Longrightarrow> pg_has PG_USER (pte tb' root n)"
  shows "space_ok bt tb' root"
proof -
  note s = assms(1) [unfolded space_ok_def]
  have "\<forall>x\<in>owned tb' root. frame_ok x" using s extends_owned(2) [OF assms(2)] assms(4) by blast
  moreover have "inj_on (frame_at tb' root) {pos. present_at tb' root pos}"
    using extends_inj [OF assms(2) _ assms(3)] s by blast
  ultimately show ?thesis using s assms(5-9) unfolding space_ok_def by (simp del: present_at.simps frame_at.simps)
qed

lemma new_directory:
  assumes ok: "space_ok bt tb root" and np: "\<not> pg_has PG_PRESENT (pd_entry tb root)" and f: "f \<notin> owned tb root" "frame_ok f"
  defines "tb' \<equiv> put_tab (tb(f := (\<lambda>_. 0))) (tb root 0 AND PG_ADDR) 1 (table_ref f)"
  shows "extends tb tb' root Pd f" "space_ok bt tb' root" "space_abs tb' root = space_abs tb root"
proof -
  note s = space_okD [OF ok]
  let ?D = "tb root 0 AND PG_ADDR"
  have ne: "f \<noteq> root" "f \<noteq> ?D" "root \<noteq> ?D"
    using f(1) present_owned [of tb root Root] present_owned [of tb root Pdpt] s(1) [of Root Pdpt] by auto
  have fa: "f AND PG_ADDR = f" using f(2) by (simp add: frame_ok_def)
  have r: "tb' root = tb root" using ne by (simp add: tb'_def put_tab_def)
  have pd: "pd_entry tb' root = table_ref f" unfolding pd_entry_def r by (simp add: tb'_def put_tab_def)
  have pt: "pt_entry tb' root di = 0" for di unfolding pt_entry_def pd using ne fa by (simp add: tb'_def put_tab_def)
  have pr: "present_at tb' root pos \<longleftrightarrow> pos = Pd \<or> present_at tb root pos" for pos
    using np pd pt by (cases pos) auto
  have fr: "pos \<noteq> Pd \<and> present_at tb root pos \<Longrightarrow> frame_at tb' root pos = frame_at tb root pos" for pos
    using np r by (cases pos) auto
  show ex: "extends tb tb' root Pd f" unfolding extends_def using pr fr pd fa by simp
  show "space_ok bt tb' root"
  proof (rule space_okI [OF ok ex f])
    show "tb' ?D i = tb ?D i" if "i \<noteq> 1" for i using that ne by (simp add: tb'_def put_tab_def)
  qed (use r pd pt np pr in auto)
  show "space_abs tb' root = space_abs tb root" using np pt by (auto simp: space_abs_def fun_eq_iff)
qed

lemma new_table:
  assumes ok: "space_ok bt tb root" and p: "pg_has PG_PRESENT (pd_entry tb root)" "di < 512"
    and np: "\<not> pg_has PG_PRESENT (pt_entry tb root di)" and f: "f \<notin> owned tb root" "frame_ok f"
  defines "tb' \<equiv> put_tab (tb(f := (\<lambda>_. 0))) (pd_entry tb root AND PG_ADDR) di (table_ref f)"
  shows "extends tb tb' root (Pt di) f" "space_ok bt tb' root" "space_abs tb' root = space_abs tb root" "pd_entry tb' root = pd_entry tb root"
proof -
  note s = space_okD [OF ok]
  let ?D = "tb root 0 AND PG_ADDR" and ?P = "pd_entry tb root AND PG_ADDR"
  have ne: "f \<noteq> root" "f \<noteq> ?D" "f \<noteq> ?P" "root \<noteq> ?P" "?D \<noteq> ?P"
    using f(1) p(1) present_owned [of tb root Root] present_owned [of tb root Pdpt] present_owned [of tb root Pd] s(1) [of Root Pd] s(1) [of Pdpt Pd] by auto
  have fa: "f AND PG_ADDR = f" using f(2) by (simp add: frame_ok_def)
  have r: "tb' root = tb root" using ne by (simp add: tb'_def put_tab_def)
  show pd: "pd_entry tb' root = pd_entry tb root" unfolding pd_entry_def r using ne by (simp add: tb'_def put_tab_def pd_entry_def)
  have pt: "pt_entry tb' root d = (if d = di then table_ref f else pt_entry tb root d)" for d
    unfolding pt_entry_def pd using ne by (simp add: tb'_def put_tab_def pt_entry_def)
  have pe: "pte tb' root n = (if n div 512 = di then 0 else pte tb root n)" if "present_at tb root (Pt (n div 512)) \<or> n div 512 = di" for n
  proof -
    have "pt_entry tb root (n div 512) AND PG_ADDR \<noteq> f \<and> pt_entry tb root (n div 512) AND PG_ADDR \<noteq> ?P" if "present_at tb root (Pt (n div 512))"
      using that f(1) p(1) present_owned [OF that] s(1) [OF that, of Pd] by auto
    then show ?thesis using that ne fa unfolding pte_def pt by (auto simp: tb'_def put_tab_def)
  qed
  have pr: "present_at tb' root pos \<longleftrightarrow> pos = Pt di \<or> present_at tb root pos" for pos
  proof (cases pos)
    case (Leaf n)
    show ?thesis unfolding Leaf using pd pt pe [of n] np p by (cases "n div 512 = di") auto
  qed (use pd pt p np in auto)
  have fr: "pos \<noteq> Pt di \<and> present_at tb root pos \<Longrightarrow> frame_at tb' root pos = frame_at tb root pos" for pos
  proof (cases pos)
    case (Leaf n)
    assume "pos \<noteq> Pt di \<and> present_at tb root pos"
    then show ?thesis unfolding Leaf using pe [of n] np by (cases "n div 512 = di") auto
  qed (use r pd pt in auto)
  show ex: "extends tb tb' root (Pt di) f" unfolding extends_def using pr fr pt [of di] fa by simp
  show "space_ok bt tb' root"
  proof (rule space_okI [OF ok ex f])
    show "tb' ?D i = tb ?D i" if "i \<noteq> 1" for i using ne by (simp add: tb'_def put_tab_def)
    show "pt_entry tb' root d = table_ref (pt_entry tb' root d)" if "present_at tb' root (Pt d)" for d
      using that s(8) [of d] pr [of "Pt d"] pt [of d] by (cases "d = di") (auto simp del: present_at.simps simp: table_ref_def and.assoc bit.conj_disj_distrib2)
    show "pg_has PG_USER (pte tb' root n)" if "present_at tb' root (Leaf n)" for n
      using that pr [of "Leaf n"] s(9) [of n] pe [of n] np by (cases "n div 512 = di") auto
  qed (use r pd s in \<open>auto simp del: present_at.simps\<close>)
  show "space_abs tb' root = space_abs tb root"
  proof
    fix n
    show "space_abs tb' root n = space_abs tb root n"
      using pr [of "Leaf n"] pe [of n] np unfolding space_abs_def by (cases "n div 512 = di") auto
  qed
qed

definition page_entry :: "u64 \<Rightarrow> bool \<Rightarrow> u64" where
  "page_entry paddr writable = (paddr AND PG_ADDR) OR PG_PRESENT OR PG_USER OR (if writable then PG_RW else 0)"

lemma page_entry_bits [simp]:
  "page_entry f w AND PG_ADDR = f AND PG_ADDR" "pg_has PG_PRESENT (page_entry f w)" "pg_has PG_USER (page_entry f w)"
  "pg_has PG_RW (page_entry f w) = w"
  by (cases w; simp add: page_entry_def pg_has_def bit.conj_disj_distrib2 and.assoc)+

lemma new_leaf:
  fixes w :: bool
  assumes ok: "space_ok bt tb root" and p: "present_at tb root (Pt (n div 512))" "n < 262144" and f: "f \<notin> owned tb root" "frame_ok f"
  defines "tb' \<equiv> put_tab tb (pt_entry tb root (n div 512) AND PG_ADDR) (n mod 512) (page_entry f w)"
  shows "extends tb tb' root (Leaf n) f" "space_ok bt tb' root" "space_abs tb' root = (space_abs tb root)(n \<mapsto> (f, w))"
proof -
  note s = space_okD [OF ok]
  let ?D = "tb root 0 AND PG_ADDR" and ?P = "pd_entry tb root AND PG_ADDR" and ?T = "pt_entry tb root (n div 512) AND PG_ADDR"
  have pp: "present_at tb root Pd" using p by simp
  have ne: "root \<noteq> ?T" "?D \<noteq> ?T" "?P \<noteq> ?T"
    using s(1) [OF _ p(1), of Root] s(1) [OF _ p(1), of Pdpt] s(1) [OF pp p(1)] by auto
  have fa: "f AND PG_ADDR = f" using f(2) by (simp add: frame_ok_def)
  have r: "tb' root = tb root" using ne by (simp add: tb'_def put_tab_def)
  have pd: "pd_entry tb' root = pd_entry tb root" unfolding pd_entry_def r using ne by (simp add: tb'_def put_tab_def pd_entry_def)
  have pt: "pt_entry tb' root d = pt_entry tb root d" for d
    unfolding pt_entry_def pd using ne by (simp add: tb'_def put_tab_def pt_entry_def)
  have pe: "pte tb' root m = (if m = n then page_entry f w else pte tb root m)" if "present_at tb root (Pt (m div 512))" for m
  proof (cases "m div 512 = n div 512")
    case True
    then have "m mod 512 = n mod 512 \<longleftrightarrow> m = n" by (metis div_mult_mod_eq)
    then show ?thesis using True unfolding pte_def pt by (simp add: tb'_def put_tab_def)
  next
    case False
    then have "pt_entry tb root (m div 512) AND PG_ADDR \<noteq> ?T" using s(1) [OF that p(1)] by auto
    then show ?thesis using False unfolding pte_def pt by (auto simp: tb'_def put_tab_def)
  qed
  have pr: "present_at tb' root pos \<longleftrightarrow> pos = Leaf n \<or> present_at tb root pos" for pos
  proof (cases pos)
    case (Leaf m)
    show ?thesis unfolding Leaf using pd pt pe [of m] p by (cases "m = n") auto
  qed (use pd pt in auto)
  have fr: "pos \<noteq> Leaf n \<and> present_at tb root pos \<Longrightarrow> frame_at tb' root pos = frame_at tb root pos" for pos
    using r pd pt pe by (cases pos) auto
  show ex: "extends tb tb' root (Leaf n) f" unfolding extends_def using pr fr pe [OF p(1)] fa by simp
  show "space_ok bt tb' root"
  proof (rule space_okI [OF ok ex f])
    show "tb' ?D i = tb ?D i" if "i \<noteq> 1" for i using ne by (simp add: tb'_def put_tab_def)
    show "pt_entry tb' root d = table_ref (pt_entry tb' root d)" if "present_at tb' root (Pt d)" for d
      using that s(8) [of d] pr [of "Pt d"] pt by simp
    show "pg_has PG_USER (pte tb' root m)" if "present_at tb' root (Leaf m)" for m
      using that pr [of "Leaf m"] s(9) [of m] pe [of m] p by (cases "m = n") auto
  qed (use r pd s in \<open>auto simp del: present_at.simps\<close>)
  show "space_abs tb' root = (space_abs tb root)(n \<mapsto> (f, w))"
  proof
    fix m
    show "space_abs tb' root m = ((space_abs tb root)(n \<mapsto> (f, w))) m"
      using pr [of "Leaf m"] pe [of m] p fa unfolding space_abs_def by (cases "m = n") auto
  qed
qed

section \<open>All spaces together\<close>

definition boot_frames :: "boot_t \<Rightarrow> u64 set" where
  "boot_frames bt = {boot_pml4 bt, boot_pdpt bt, boot_pd bt}"

text \<open>The invariant over the live roots. The kernel half behind \<open>boot_pd\<close> is supervisor-only, as boot.S
  builds it.\<close>

definition vm_ok :: "boot_t \<Rightarrow> u64 set \<Rightarrow> vm_t \<Rightarrow> bool" where
  "vm_ok bt roots vm \<longleftrightarrow> pmm_inv (vm_pmm vm) \<and> boot_frames bt \<subseteq> in_use (vm_pmm vm) \<and> frame_ok (boot_pd bt)
     \<and> (\<forall>i. \<not> pg_has PG_USER (tab vm (boot_pd bt) i))
     \<and> (\<forall>r\<in>roots. space_ok bt (tab vm) r \<and> owned (tab vm) r \<subseteq> in_use (vm_pmm vm) \<and> owned (tab vm) r \<inter> boot_frames bt = {})
     \<and> (\<forall>r\<in>roots. \<forall>r'\<in>roots. r \<noteq> r' \<longrightarrow> owned (tab vm) r \<inter> owned (tab vm) r' = {})"

lemma vm_okD:
  assumes "vm_ok bt roots vm"
  shows "pmm_inv (vm_pmm vm)" "boot_frames bt \<subseteq> in_use (vm_pmm vm)" "frame_ok (boot_pd bt)" "\<not> pg_has PG_USER (tab vm (boot_pd bt) i)"
    "r \<in> roots \<Longrightarrow> space_ok bt (tab vm) r" "r \<in> roots \<Longrightarrow> owned (tab vm) r \<subseteq> in_use (vm_pmm vm)"
    "r \<in> roots \<Longrightarrow> owned (tab vm) r \<inter> boot_frames bt = {}"
    "r \<in> roots \<Longrightarrow> r' \<in> roots \<Longrightarrow> r \<noteq> r' \<Longrightarrow> owned (tab vm) r \<inter> owned (tab vm) r' = {}"
  using assms unfolding vm_ok_def by blast+

text \<open>Frames are aligned and nonzero.\<close>

lemma frame_addr_pg: "i < 262144 \<Longrightarrow> of_nat i * PAGE_SIZE AND PG_ADDR = (of_nat i * PAGE_SIZE :: u64)"
proof -
  assume i: "i < 262144"
  have m: "(PG_ADDR :: u64) = push_bit 12 (mask 40)" by (simp add: mask_eq_exp_minus_1 push_bit_eq_mult)
  have x: "of_nat i * PAGE_SIZE = push_bit 12 (of_nat i :: u64)" by (simp add: push_bit_eq_mult)
  have "unat (of_nat i :: u64) < 2 ^ 40" using i by (simp add: unat_of_nat)
  then have "take_bit 40 (of_nat i :: u64) = of_nat i"
    by (simp add: word_unat_eq_iff unsigned_take_bit_eq take_bit_nat_eq_self del: unsigned_of_nat)
  then show ?thesis unfolding m x push_bit_and [symmetric] by (simp add: take_bit_eq_mask [symmetric])
qed

lemma in_use_frame_ok: "pmm_inv p \<Longrightarrow> a \<in> in_use p \<Longrightarrow> a \<noteq> 0 \<Longrightarrow> frame_ok a"
  using frame_addr_pg frames_small [of p] by (auto simp: in_use_iff frame_ok_def)

text \<open>What an allocation of a table gives.\<close>

lemma alloc_table_cases:
  assumes "pmm_inv (vm_pmm vm)" "alloc_table vm = (f, vm')"
  obtains (null) "f = 0" "vm' = vm" "fst (pmm_alloc_frame (vm_pmm vm)) = 0"
  | (frame) "frame_ok f" "f \<notin> in_use (vm_pmm vm)" "pmm_inv (vm_pmm vm')" "in_use (vm_pmm vm') = insert f (in_use (vm_pmm vm))"
      "tab vm' = (tab vm)(f := (\<lambda>_. 0))" "created_count vm' = created_count vm"
proof -
  obtain a p where a: "pmm_alloc_frame (vm_pmm vm) = (a, p)" by (cases "pmm_alloc_frame (vm_pmm vm)")
  show thesis
  proof (cases "a = 0")
    case True
    then have "p = vm_pmm vm" using pool.alloc_null [OF assms(1)] a by simp
    then show thesis using null assms(2) a True by (simp add: alloc_table_def)
  next
    case False
    note fr = pool.alloc_fresh [OF assms(1) a False]
    have "f = a" "vm' = vm\<lparr>vm_pmm := p, tab := (tab vm)(a := (\<lambda>_. 0))\<rparr>" using assms(2) a False by (auto simp: alloc_table_def)
    then show thesis using frame fr in_use_frame_ok [of p a] False by simp
  qed
qed

text \<open>One space may grow into a frame that nothing owns; the others keep what they have.\<close>

lemma vm_ok_grow:
  assumes ok: "vm_ok bt roots vm" and r: "root \<in> roots"
    and g: "space_ok bt (tab vm') root" "owned (tab vm') root \<subseteq> insert f (owned (tab vm) root)"
    and u: "pmm_inv (vm_pmm vm')" "in_use (vm_pmm vm') = insert f (in_use (vm_pmm vm))"
    and f: "f \<notin> boot_frames bt" "\<forall>r'\<in>roots. f \<notin> owned (tab vm) r'"
    and t: "\<forall>x. x \<noteq> f \<longrightarrow> x \<notin> owned (tab vm) root \<longrightarrow> tab vm' x = tab vm x"
  shows "vm_ok bt roots vm'"
    "\<And>r'. r' \<in> roots \<Longrightarrow> r' \<noteq> root \<Longrightarrow> space_abs (tab vm') r' = space_abs (tab vm) r' \<and> owned (tab vm') r' = owned (tab vm) r'"
proof -
  note v = vm_okD [OF ok]
  have bd: "boot_pd bt \<in> boot_frames bt" by (simp add: boot_frames_def)
  have keep: "\<forall>x\<in>tables (tab vm) r'. tab vm' x = tab vm x" if "r' \<in> roots" "r' \<noteq> root" for r'
  proof
    fix x assume "x \<in> tables (tab vm) r'"
    then have x: "x \<in> owned (tab vm) r'" using tables_owned by blast
    show "tab vm' x = tab vm x"
    proof (rule t [rule_format])
      show "x \<noteq> f" using x f(2) [rule_format, OF that(1)] by metis
      show "x \<notin> owned (tab vm) root" using x v(8) [OF that(1) r that(2)] by (simp only: disjoint_iff) blast
    qed
  qed
  note fr = space_frame_ok [OF keep]
  show "space_abs (tab vm') r' = space_abs (tab vm) r' \<and> owned (tab vm') r' = owned (tab vm) r'" if "r' \<in> roots" "r' \<noteq> root" for r'
    using fr(1,3) [OF that] by blast
  have o: "owned (tab vm') r' = owned (tab vm) r' \<and> space_ok bt (tab vm') r'" if "r' \<in> roots" "r' \<noteq> root" for r'
    using fr(1,4) [OF that] v(5) [OF that(1)] by blast
  have each: "space_ok bt (tab vm') r' \<and> owned (tab vm') r' \<subseteq> in_use (vm_pmm vm') \<and> owned (tab vm') r' \<inter> boot_frames bt = {}"
    if "r' \<in> roots" for r'
  proof (cases "r' = root")
    case True
    then show ?thesis using g u v(6,7) [OF r] f(1) by blast
  next
    case False
    then show ?thesis using o [OF that False] u v(6,7) [OF that] by blast
  qed
  have apart: "owned (tab vm') a \<inter> owned (tab vm') b = {}" if "a \<in> roots" "b \<in> roots" "a \<noteq> b" for a b
  proof -
    have sub: "owned (tab vm') c \<subseteq> (if c = root then insert f (owned (tab vm) c) else owned (tab vm) c)" if "c \<in> roots" for c
      using o [OF that] g(2) by (cases "c = root") simp_all
    show ?thesis using sub [OF that(1)] sub [OF that(2)] f(2) [rule_format, OF that(1)] f(2) [rule_format, OF that(2)] v(8) [OF that] that(3)
      by (cases "a = root"; cases "b = root") (simp_all, blast+)
  qed
  have "tab vm' (boot_pd bt) = tab vm (boot_pd bt)" using t [rule_format, of "boot_pd bt"] bd f(1) v(7) [OF r] by blast
  then show "vm_ok bt roots vm'" using v(2,3,4) u each apart unfolding vm_ok_def by auto
qed

text \<open>A step that only takes frames for one space.\<close>

definition adds :: "u64 \<Rightarrow> vm_t \<Rightarrow> vm_t \<Rightarrow> bool" where
  "adds root vm vm' \<longleftrightarrow> owned (tab vm) root \<subseteq> owned (tab vm') root
     \<and> in_use (vm_pmm vm') \<subseteq> in_use (vm_pmm vm) \<union> owned (tab vm') root"

lemma adds_trans: "adds root vm vm1 \<Longrightarrow> adds root vm1 vm2 \<Longrightarrow> adds root vm vm2"
  unfolding adds_def by blast

text \<open>A step that adds tables but maps nothing.\<close>

definition grown :: "boot_t \<Rightarrow> u64 set \<Rightarrow> u64 \<Rightarrow> vm_t \<Rightarrow> vm_t \<Rightarrow> bool" where
  "grown bt roots root vm vm' \<longleftrightarrow> vm_ok bt roots vm' \<and> in_use (vm_pmm vm) \<subseteq> in_use (vm_pmm vm') \<and> adds root vm vm'
     \<and> (\<forall>r\<in>roots. space_abs (tab vm') r = space_abs (tab vm) r \<and> owned (tab vm') r \<inter> in_use (vm_pmm vm) \<subseteq> owned (tab vm) r)"

lemma grown_refl: "vm_ok bt roots vm \<Longrightarrow> grown bt roots root vm vm"
  by (simp add: grown_def adds_def)

lemma grown_trans: "grown bt roots root vm vm1 \<Longrightarrow> grown bt roots root vm1 vm2 \<Longrightarrow> grown bt roots root vm vm2"
  unfolding grown_def using adds_trans [of root vm vm1 vm2] by (simp add: Ball_def) blast

text \<open>A fresh table linked into a space.\<close>

lemma grown_link:
  assumes ok: "vm_ok bt roots vm" and r: "root \<in> roots" and a: "alloc_table vm = (f, vm1)" "f \<noteq> 0"
    and vm': "vm_pmm vm' = vm_pmm vm1" "tab vm' = put_tab (tab vm1) t k e" and t: "t \<in> owned (tab vm) root"
    and g: "extends (tab vm) (tab vm') root pos f" "space_ok bt (tab vm') root" "space_abs (tab vm') root = space_abs (tab vm) root"
    and np: "\<not> present_at (tab vm) root pos"
  shows "grown bt roots root vm vm'"
  using vm_okD(1) [OF ok] a(1)
proof (cases rule: alloc_table_cases)
  case frame
  note v = vm_okD [OF ok]
  have fresh: "\<forall>r'\<in>roots. f \<notin> owned (tab vm) r'" using v(6) frame(2) by blast
  have same: "\<forall>x. x \<noteq> f \<longrightarrow> x \<notin> owned (tab vm) root \<longrightarrow> tab vm' x = tab vm x"
    using t by (auto simp: vm'(2) frame(5) put_tab_def)
  have fb: "f \<notin> boot_frames bt" using v(2) frame(2) by blast
  note G = vm_ok_grow [OF ok r g(2) extends_owned(2) [OF g(1)], unfolded vm'(1), OF frame(3,4) fb fresh same]
  have o: "owned (tab vm') r' = (if r' = root then insert f (owned (tab vm) r') else owned (tab vm) r')" if "r' \<in> roots" for r'
    using G(2) [OF that] extends_owned(3) [OF g(1) np] by (cases "r' = root") auto
  have "owned (tab vm') r' \<inter> in_use (vm_pmm vm) \<subseteq> owned (tab vm) r'" if "r' \<in> roots" for r'
    using o [OF that] frame(2) by auto
  moreover have "space_abs (tab vm') r' = space_abs (tab vm) r'" if "r' \<in> roots" for r'
    using G(2) [OF that] g(3) by (cases "r' = root") auto
  moreover have "adds root vm vm'"
    unfolding adds_def vm'(1) frame(4) using o r extends_owned(1) [OF g(1)] by auto
  ultimately show ?thesis using G(1) frame(4) unfolding grown_def vm'(1) by blast
qed (use a in simp)

lemma set_tab_entry_simps [simp]: "tab (set_tab_entry t k e vm) = put_tab (tab vm) t k e" "vm_pmm (set_tab_entry t k e vm) = vm_pmm vm"
  by (simp_all add: set_tab_entry_def put_tab_def)

text \<open>\<open>ensure_table\<close> on the two levels of the user half.\<close>

lemma ensure_directory:
  assumes ok: "vm_ok bt roots vm" and r: "root \<in> roots" and e: "ensure_table (tab vm root 0 AND PG_ADDR) 1 vm = (b, vm')"
  shows "grown bt roots root vm vm'" "b \<Longrightarrow> pg_has PG_PRESENT (pd_entry (tab vm') root)" "tab vm' root = tab vm root"
    "\<not> b \<Longrightarrow> fst (pmm_alloc_frame (vm_pmm vm')) = 0 \<and> vm' = vm"
proof -
  let ?D = "tab vm root 0 AND PG_ADDR"
  have p: "tab vm ?D 1 = pd_entry (tab vm) root" by (simp add: pd_entry_def)
  note e' = e [unfolded ensure_table_def p]
  note v = vm_okD [OF ok]
  have D: "?D \<in> owned (tab vm) root" "root \<in> owned (tab vm) root" "root \<noteq> ?D"
    using present_owned [of "tab vm" root Pdpt] present_owned [of "tab vm" root Root] space_okD(1) [OF v(5) [OF r], of Root Pdpt] by auto
  have "grown bt roots root vm vm' \<and> (b \<longrightarrow> pg_has PG_PRESENT (pd_entry (tab vm') root)) \<and> tab vm' root = tab vm root
    \<and> (\<not> b \<longrightarrow> fst (pmm_alloc_frame (vm_pmm vm')) = 0 \<and> vm' = vm)"
  proof (cases "pg_has PG_PRESENT (pd_entry (tab vm) root)")
    case True
    then show ?thesis using e' grown_refl [OF ok] by (auto split: prod.splits)
  next
    case False
    obtain f vm1 where a: "alloc_table vm = (f, vm1)" by (cases "alloc_table vm")
    show ?thesis using v(1) a
    proof (cases rule: alloc_table_cases)
      case null
      then show ?thesis using e' a False grown_refl [OF ok] by (auto split: prod.splits)
    next
      case frame
      have f0: "f \<noteq> 0" using frame(1) by (simp add: frame_ok_def)
      have b: "b" "vm' = set_tab_entry ?D 1 (table_ref f) vm1" using e' a False f0 by (auto split: prod.splits)
      have fresh: "f \<notin> owned (tab vm) root" using v(6) [OF r] frame(2) by blast
      note nd = new_directory [OF v(5) [OF r] False fresh frame(1)]
      have tv: "tab vm' = put_tab ((tab vm)(f := (\<lambda>_. 0))) ?D 1 (table_ref f)" by (simp add: b(2) frame(5))
      have g: "grown bt roots root vm vm'"
        by (rule grown_link [OF ok r a f0 _ _ D(1) nd [folded tv]]) (use False in \<open>simp_all add: b(2)\<close>)
      have "present_at (tab vm') root Pd" using nd(1) unfolding tv [symmetric] extends_def by blast
      moreover have "tab vm' root = tab vm root" using D fresh unfolding tv by (auto simp: put_tab_def)
      ultimately show ?thesis using g b(1) by simp
    qed
  qed
  then show "grown bt roots root vm vm'" "b \<Longrightarrow> pg_has PG_PRESENT (pd_entry (tab vm') root)" "tab vm' root = tab vm root"
    "\<not> b \<Longrightarrow> fst (pmm_alloc_frame (vm_pmm vm')) = 0 \<and> vm' = vm" by blast+
qed

lemma ensure_page_table:
  assumes ok: "vm_ok bt roots vm" and r: "root \<in> roots" and pr: "pg_has PG_PRESENT (pd_entry (tab vm) root)" and di: "di < 512"
    and e: "ensure_table (pd_entry (tab vm) root AND PG_ADDR) di vm = (b, vm')"
  shows "grown bt roots root vm vm'" "b \<Longrightarrow> present_at (tab vm') root (Pt di)" "pd_entry (tab vm') root = pd_entry (tab vm) root"
    "\<not> b \<Longrightarrow> fst (pmm_alloc_frame (vm_pmm vm')) = 0 \<and> vm' = vm"
proof -
  let ?D = "pd_entry (tab vm) root AND PG_ADDR"
  have p: "tab vm ?D di = pt_entry (tab vm) root di" by (simp add: pt_entry_def)
  note e' = e [unfolded ensure_table_def p]
  note v = vm_okD [OF ok]
  have D: "?D \<in> owned (tab vm) root" using present_owned [of "tab vm" root Pd] pr by simp
  have "grown bt roots root vm vm' \<and> (b \<longrightarrow> present_at (tab vm') root (Pt di)) \<and> pd_entry (tab vm') root = pd_entry (tab vm) root
    \<and> (\<not> b \<longrightarrow> fst (pmm_alloc_frame (vm_pmm vm')) = 0 \<and> vm' = vm)"
  proof (cases "pg_has PG_PRESENT (pt_entry (tab vm) root di)")
    case True
    then show ?thesis using e' pr di grown_refl [OF ok] by (auto split: prod.splits)
  next
    case False
    obtain f vm1 where a: "alloc_table vm = (f, vm1)" by (cases "alloc_table vm")
    show ?thesis using v(1) a
    proof (cases rule: alloc_table_cases)
      case null
      then show ?thesis using e' a False grown_refl [OF ok] by (auto split: prod.splits)
    next
      case frame
      have f0: "f \<noteq> 0" using frame(1) by (simp add: frame_ok_def)
      have b: "b" "vm' = set_tab_entry ?D di (table_ref f) vm1" using e' a False f0 by (auto split: prod.splits)
      have fresh: "f \<notin> owned (tab vm) root" using v(6) [OF r] frame(2) by blast
      note nd = new_table [OF v(5) [OF r] pr di False fresh frame(1)]
      have tv: "tab vm' = put_tab ((tab vm)(f := (\<lambda>_. 0))) ?D di (table_ref f)" by (simp add: b(2) frame(5))
      have g: "grown bt roots root vm vm'"
        by (rule grown_link [OF ok r a f0 _ _ D nd(1-3) [folded tv]]) (use False in \<open>simp_all add: b(2)\<close>)
      have "present_at (tab vm') root (Pt di)" using nd(1) unfolding tv [symmetric] extends_def by blast
      then show ?thesis using g b(1) nd(4) tv by simp
    qed
  qed
  then show "grown bt roots root vm vm'" "b \<Longrightarrow> present_at (tab vm') root (Pt di)" "pd_entry (tab vm') root = pd_entry (tab vm) root"
    "\<not> b \<Longrightarrow> fst (pmm_alloc_frame (vm_pmm vm')) = 0 \<and> vm' = vm" by blast+
qed

text \<open>The mapping itself: one page of one space changes.\<close>

lemma map_leaf:
  assumes ok: "vm_ok bt roots vm" and r: "root \<in> roots" and n: "n < 262144" and p: "present_at (tab vm) root (Pt (n div 512))"
    and pa: "pa \<in> in_use (vm_pmm vm)" "pa \<noteq> 0" "pa \<notin> boot_frames bt" "\<forall>r\<in>roots. pa \<notin> owned (tab vm) r"
    and vm': "vm' = set_tab_entry (pt_entry (tab vm) root (n div 512) AND PG_ADDR) (n mod 512) (page_entry pa w) vm"
  shows "vm_ok bt roots vm'" "space_abs (tab vm') root = (space_abs (tab vm) root)(n \<mapsto> (pa, w))"
    "\<And>r. r \<in> roots \<Longrightarrow> r \<noteq> root \<Longrightarrow> space_abs (tab vm') r = space_abs (tab vm) r"
    "pa \<in> owned (tab vm') root" "owned (tab vm') root \<subseteq> insert pa (owned (tab vm) root)" "space_abs (tab vm) root n = None \<Longrightarrow> adds root vm vm'"
proof -
  note v = vm_okD [OF ok]
  note nl = new_leaf [OF v(5) [OF r] p n bspec [OF pa(4) r] in_use_frame_ok [OF v(1) pa(1,2)], where w = w]
  have tv: "tab vm' = put_tab (tab vm) (pt_entry (tab vm) root (n div 512) AND PG_ADDR) (n mod 512) (page_entry pa w)"
    by (simp add: vm')
  have T: "pt_entry (tab vm) root (n div 512) AND PG_ADDR \<in> owned (tab vm) root" using present_owned [OF p] by simp
  have same: "\<forall>x. x \<noteq> pa \<longrightarrow> x \<notin> owned (tab vm) root \<longrightarrow> tab vm' x = tab vm x" using T by (auto simp: tv put_tab_def)
  have i: "in_use (vm_pmm vm') = insert pa (in_use (vm_pmm vm))" "pmm_inv (vm_pmm vm')" using pa(1) v(1) by (auto simp: vm')
  note G = vm_ok_grow [OF ok r nl(2) [folded tv] extends_owned(2) [OF nl(1) [folded tv]] i(2,1) pa(3,4) same]
  show "vm_ok bt roots vm'" by (rule G(1))
  show "space_abs (tab vm') root = (space_abs (tab vm) root)(n \<mapsto> (pa, w))" using nl(3) by (simp add: tv)
  show "space_abs (tab vm') r = space_abs (tab vm) r" if "r \<in> roots" "r \<noteq> root" for r using G(2) [OF that] by simp
  show "pa \<in> owned (tab vm') root" using extends_owned(1) [OF nl(1)] by (simp add: tv)
  show "owned (tab vm') root \<subseteq> insert pa (owned (tab vm) root)" using extends_owned(2) [OF nl(1)] by (simp add: tv)
  show "adds root vm vm'" if "space_abs (tab vm) root n = None"
  proof -
    have np: "\<not> present_at (tab vm) root (Leaf n)" using that by (simp add: space_abs_def split: if_splits)
    have "owned (tab vm') root = insert pa (owned (tab vm) root)" by (rule extends_owned(3) [OF nl(1) [folded tv] np])
    then show ?thesis unfolding adds_def i(1) using pa(1) by auto
  qed
qed

lemma map_page_effect:
  assumes ok: "vm_ok bt roots vm" and r: "root \<in> roots" and va: "user_va va"
    and pa: "pa \<in> in_use (vm_pmm vm)" "pa \<noteq> 0" "pa \<notin> boot_frames bt" "\<forall>r\<in>roots. pa \<notin> owned (tab vm) r"
    and e: "vmspace_map_page root va pa w vm = (b, vm')"
  shows "vm_ok bt roots vm' \<and> space_abs (tab vm') root = (if b then (space_abs (tab vm) root)(page_no va \<mapsto> (pa, w)) else space_abs (tab vm) root)
    \<and> (\<forall>r\<in>roots. r \<noteq> root \<longrightarrow> space_abs (tab vm') r = space_abs (tab vm) r)
    \<and> (\<not> b \<longrightarrow> fst (pmm_alloc_frame (vm_pmm vm')) = 0) \<and> in_use (vm_pmm vm) \<subseteq> in_use (vm_pmm vm')
    \<and> (\<not> b \<longrightarrow> (\<forall>r\<in>roots. pa \<notin> owned (tab vm') r)) \<and> (b \<longrightarrow> pa \<in> owned (tab vm') root)
    \<and> owned (tab vm') root \<inter> in_use (vm_pmm vm) \<subseteq> insert pa (owned (tab vm) root)
    \<and> (\<not> b \<or> space_abs (tab vm) root (page_no va) = None \<longrightarrow> adds root vm vm')"
proof -
  note v = vm_okD [OF ok] and ix = user_index [OF va]
  have r0: "root \<noteq> 0" using space_okD(2) [OF v(5) [OF r] present_owned [of _ _ Root]] by simp
  have still: "\<forall>r\<in>roots. pa \<notin> owned (tab vm1) r" if "grown bt roots root vm vm1" for vm1
    using that pa(1,4) unfolding grown_def by blast
  obtain b1 vm1 where e1: "ensure_table (tab vm root 0 AND PG_ADDR) 1 vm = (b1, vm1)" by (metis surj_pair)
  note E1 = ensure_directory [OF ok r e1]
  show ?thesis
  proof (cases b1)
    case False
    then have "\<not> b" "vm' = vm1" using e e1 r0 unfolding vmspace_map_page_def ix by (simp_all add: Let_def)
    then show ?thesis using E1(1) E1(4) [OF False] still [OF E1(1)] unfolding grown_def by auto
  next
    case True
    have pd: "pg_has PG_PRESENT (pd_entry (tab vm1) root)" by (rule E1(2) [OF True])
    have pe: "tab vm1 (tab vm root 0 AND PG_ADDR) 1 = pd_entry (tab vm1) root" by (simp add: pd_entry_def E1(3))
    have ok1: "vm_ok bt roots vm1" using E1(1) by (simp add: grown_def)
    have d: "page_no va div 512 < 512" using ix(5) by simp
    obtain b2 vm2 where e2: "ensure_table (pd_entry (tab vm1) root AND PG_ADDR) (page_no va div 512) vm1 = (b2, vm2)" by (metis surj_pair)
    note E2 = ensure_page_table [OF ok1 r pd d e2]
    note g = grown_trans [OF E1(1) E2(1)]
    show ?thesis
    proof (cases b2)
      case False
      then have "\<not> b" "vm' = vm2" using e e1 True r0 e2 unfolding vmspace_map_page_def ix by (simp_all add: Let_def pe [simplified])
      then show ?thesis using g E2(4) [OF False] still [OF g] r unfolding grown_def by auto
    next
      case b2: True
      have te: "tab vm2 (pd_entry (tab vm1) root AND PG_ADDR) (page_no va div 512) = pt_entry (tab vm2) root (page_no va div 512)"
        by (simp add: pt_entry_def E2(3))
      have "b \<and> vm' = set_tab_entry (pt_entry (tab vm2) root (page_no va div 512) AND PG_ADDR) (page_no va mod 512) (page_entry pa w) vm2"
        using e e1 True r0 e2 b2 unfolding vmspace_map_page_def ix by (auto simp: Let_def pe [simplified] te page_entry_def)
      then have bv: b "vm' = set_tab_entry (pt_entry (tab vm2) root (page_no va div 512) AND PG_ADDR) (page_no va mod 512) (page_entry pa w) vm2"
        by simp_all
      have g2: "vm_ok bt roots vm2" "in_use (vm_pmm vm) \<subseteq> in_use (vm_pmm vm2)"
        "\<And>r. r \<in> roots \<Longrightarrow> space_abs (tab vm2) r = space_abs (tab vm) r" using g unfolding grown_def by blast+
      note L = map_leaf [OF g2(1) r ix(5) E2(2) [OF b2] subsetD [OF g2(2) pa(1)] pa(2,3) still [OF g] bv(2)]
      have "adds root vm vm2" using g by (simp add: grown_def)
      then have "space_abs (tab vm) root (page_no va) = None \<Longrightarrow> adds root vm vm'"
        using adds_trans [of root vm vm2 vm'] L(6) g2(3) [OF r] by simp
      moreover have "owned (tab vm') root \<inter> in_use (vm_pmm vm) \<subseteq> insert pa (owned (tab vm) root)"
        using L(5) g r unfolding grown_def by blast
      moreover have "vm_pmm vm' = vm_pmm vm2" by (simp add: bv(2))
      ultimately show ?thesis using L bv(1) g2(2,3) r by simp
    qed
  qed
qed

end
