(* ===== verification/Vmspace_Access.thy ===== *)
theory Vmspace_Access
  imports Vmspace_Props
begin

text \<open>
  The access check of the system calls against the memory management unit: an independent model of the
  four-level walk in user mode, and the proof that \<open>vmspace_user_ok\<close> accepts a span exactly when every
  byte of it is accessible. Then creation and destruction of spaces, and stores by user programs.
\<close>

section \<open>The hardware walk in user mode\<close>

abbreviation (input) PG_PS :: u64 where "PG_PS \<equiv> 0x80"

definition canonical :: "u64 \<Rightarrow> bool" where
  "canonical va \<longleftrightarrow> unat va < 2 ^ 47 \<or> 2 ^ 64 - 2 ^ 47 \<le> unat va"

definition entry_user :: "bool \<Rightarrow> u64 \<Rightarrow> bool" where
  "entry_user wr e \<longleftrightarrow> pg_has PG_PRESENT e \<and> pg_has PG_USER e \<and> (wr \<longrightarrow> pg_has PG_RW e)"

text \<open>The permission bits of every level count, as the processor combines them; a large page ends the walk.\<close>

definition mmu_user :: "(u64 \<Rightarrow> nat \<Rightarrow> u64) \<Rightarrow> u64 \<Rightarrow> bool \<Rightarrow> u64 \<Rightarrow> bool" where
  "mmu_user tb root wr va \<longleftrightarrow> canonical va \<and>
     (let e4 = tb root (va_index 39 va); e3 = tb (e4 AND PG_ADDR) (va_index 30 va); e2 = tb (e3 AND PG_ADDR) (va_index 21 va)
      in entry_user wr e4 \<and> entry_user wr e3 \<and> (\<not> pg_has PG_PS e3 \<longrightarrow> entry_user wr e2
         \<and> (\<not> pg_has PG_PS e2 \<longrightarrow> entry_user wr (tb (e2 AND PG_ADDR) (va_index 12 va)))))"

lemma table_ref_ps [simp]: "\<not> pg_has PG_PS (table_ref t)"
proof -
  have "PG_ADDR AND PG_PS = (0 :: u64)" by simp
  then show ?thesis by (simp add: table_ref_def pg_has_def bit.conj_disj_distrib2 and.assoc)
qed

lemma entry_user_table [simp]: "entry_user wr (table_ref t)"
  by (simp add: entry_user_def)

lemma space_entries:
  assumes "space_ok bt tb root"
  shows "entry_user wr (tb root 0)" "pg_has PG_PRESENT (pd_entry tb root) \<Longrightarrow> entry_user wr (pd_entry tb root) \<and> \<not> pg_has PG_PS (pd_entry tb root)"
    "present_at tb root (Pt di) \<Longrightarrow> entry_user wr (pt_entry tb root di) \<and> \<not> pg_has PG_PS (pt_entry tb root di)"
proof -
  note s = space_okD [OF assms]
  show "entry_user wr (tb root 0)" using s(3) by (metis entry_user_table)
  show "pg_has PG_PRESENT (pd_entry tb root) \<Longrightarrow> entry_user wr (pd_entry tb root) \<and> \<not> pg_has PG_PS (pd_entry tb root)"
    using s(7) by (metis entry_user_table table_ref_ps)
  show "present_at tb root (Pt di) \<Longrightarrow> entry_user wr (pt_entry tb root di) \<and> \<not> pg_has PG_PS (pt_entry tb root di)"
    using s(8) by (metis entry_user_table table_ref_ps)
qed

lemma va_index_less: "va_index s va < 512"
  unfolding va_index_nat by simp

text \<open>The two upper indices of a canonical address tell the user half.\<close>

lemma user_va_walk:
  assumes "canonical va" "va_index 39 va = 0" "va_index 30 va = 1"
  shows "user_va va"
proof -
  define u where "u = unat va"
  have c: "u < 2 ^ 47 \<or> 2 ^ 64 - 2 ^ 47 \<le> u" using assms(1) by (simp add: canonical_def u_def)
  have u: "u < 2 ^ 64" using unat_u64_less [of va] by (simp add: u_def)
  have i: "u div 2 ^ 39 mod 512 = 0" "u div 2 ^ 30 mod 512 = 1" using assms(2,3) by (simp_all only: va_index_nat u_def)
  define h where "h = u div 2 ^ 39"
  have low: "u < 2 ^ 47"
  proof (rule ccontr)
    assume "\<not> u < 2 ^ 47"
    then have big: "2 ^ 64 - 2 ^ 47 \<le> u" using c by blast
    have "33554432 - 256 \<le> h" unfolding h_def using big by (intro less_eq_div_iff_mult_less_eq [THEN iffD2]) simp_all
    moreover have "h < 33554432" unfolding h_def using u by (intro div_less_iff_less_mult [THEN iffD2]) simp_all
    ultimately have "h div 512 = 65535" by (intro div_nat_eqI) simp_all
    moreover have "512 * (h div 512) = h" using i(1) unfolding h_def by (metis mult_div_mod_eq add_0_right)
    ultimately show False using \<open>33554432 - 256 \<le> h\<close> by simp
  qed
  have "h < 256" unfolding h_def using low by (intro div_less_iff_less_mult [THEN iffD2]) simp_all
  then have "h = 0" using i(1) unfolding h_def by simp
  then have u39: "u < 2 ^ 39" unfolding h_def by (simp add: div_eq_0_iff)
  have "u div 2 ^ 30 < 512" using u39 by (intro div_less_iff_less_mult [THEN iffD2]) simp_all
  then have one: "u div 2 ^ 30 = 1" using i(2) by simp
  have "1 * 2 ^ 30 \<le> u" using one div_times_less_eq_dividend [of u "2 ^ 30"] by (simp only:)
  moreover have "u < Suc 1 * 2 ^ 30" using one dividend_less_div_times [of "2 ^ 30" u] by simp
  ultimately show ?thesis by (simp add: user_va_def u_def)
qed

text \<open>In a well-formed space the walk reaches a user page exactly at the mapped addresses of the user half.\<close>

lemma mmu_user_iff:
  assumes ok: "space_ok bt tb root" and bd: "frame_ok (boot_pd bt)" "\<And>i. \<not> pg_has PG_USER (tb (boot_pd bt) i)"
  shows "mmu_user tb root wr va \<longleftrightarrow> user_va va \<and> (\<exists>f rw. space_abs tb root (page_no va) = Some (f, rw) \<and> (wr \<longrightarrow> rw))"
proof (cases "user_va va")
  case True
  note ix = user_index [OF True]
  have c: "canonical va" using True by (simp add: canonical_def user_va_def)
  have e3: "tb (tb root 0 AND PG_ADDR) 1 = pd_entry tb root" by (simp add: pd_entry_def)
  have e2: "tb (pd_entry tb root AND PG_ADDR) (page_no va div 512) = pt_entry tb root (page_no va div 512)" by (simp add: pt_entry_def)
  have e1: "tb (pt_entry tb root (page_no va div 512) AND PG_ADDR) (page_no va mod 512) = pte tb root (page_no va)" by (simp add: pte_def)
  have d: "page_no va div 512 < 512" using ix(5) by simp
  have "mmu_user tb root wr va \<longleftrightarrow> entry_user wr (pd_entry tb root) \<and> (\<not> pg_has PG_PS (pd_entry tb root) \<longrightarrow>
      entry_user wr (pt_entry tb root (page_no va div 512)) \<and> (\<not> pg_has PG_PS (pt_entry tb root (page_no va div 512)) \<longrightarrow>
      entry_user wr (pte tb root (page_no va))))"
    unfolding mmu_user_def ix Let_def e3 e2 e1 using c space_entries(1) [OF ok] by blast
  also have "\<dots> \<longleftrightarrow> present_at tb root (Leaf (page_no va)) \<and> (wr \<longrightarrow> pg_has PG_RW (pte tb root (page_no va)))"
  proof (cases "present_at tb root (Pt (page_no va div 512))")
    case True
    then have "pg_has PG_PRESENT (pd_entry tb root)" by simp
    then show ?thesis using space_entries(2,3) [OF ok] True ix(5) space_okD(9) [OF ok, of "page_no va"]
      by (auto simp: entry_user_def)
  next
    case False
    then show ?thesis using space_entries(2) [OF ok] d by (auto simp: entry_user_def)
  qed
  also have "\<dots> \<longleftrightarrow> (\<exists>f rw. space_abs tb root (page_no va) = Some (f, rw) \<and> (wr \<longrightarrow> rw))"
    by (auto simp: space_abs_def)
  finally show ?thesis using True by simp
next
  case False
  note s = space_okD [OF ok]
  have "\<not> mmu_user tb root wr va"
  proof (cases "va_index 39 va = 0")
    case True
    show ?thesis
    proof (cases "va_index 30 va = 0")
      case e3: True
      have "tb (tb (tb root 0 AND PG_ADDR) 0 AND PG_ADDR) = tb (boot_pd bt)" using s(5) bd(1) by (simp add: frame_ok_def)
      then show ?thesis unfolding mmu_user_def True e3 Let_def s(5) using bd(2) by (simp add: entry_user_def)
    next
      case e3: False
      have "va_index 30 va \<noteq> 1 \<or> \<not> canonical va" using user_va_walk True False by blast
      then show ?thesis using e3 s(6) [of "va_index 30 va"] va_index_less [of 30 va] True
        unfolding mmu_user_def Let_def entry_user_def by force
    qed
  next
    case False
    then show ?thesis using s(4) [of "va_index 39 va"] va_index_less [of 39 va] unfolding mmu_user_def Let_def entry_user_def by force
  qed
  then show ?thesis using False by simp
qed

section \<open>The span check\<close>

definition page_grants :: "(u64 \<Rightarrow> nat \<Rightarrow> u64) \<Rightarrow> u64 \<Rightarrow> bool \<Rightarrow> nat \<Rightarrow> bool" where
  "page_grants tb root wr n \<longleftrightarrow> (\<exists>f rw. space_abs tb root n = Some (f, rw) \<and> (wr \<longrightarrow> rw))"

lemma present_user: "e AND (PG_PRESENT OR PG_USER) = (PG_PRESENT OR PG_USER) \<longleftrightarrow> pg_has PG_PRESENT e \<and> pg_has PG_USER e"
proof -
  have b: "pg_has (push_bit i 1) e = bit e i" if "i < 64" for i
    using that by (simp add: pg_has_def push_bit_eq_mult and_exp_eq_0_iff_not_bit)
  have p: "pg_has PG_PRESENT e = bit e 0" "pg_has PG_USER e = bit e 2" using b [of 0] b [of 2] by (simp_all add: push_bit_eq_mult)
  have "(PG_PRESENT OR PG_USER :: u64) = push_bit 0 1 OR push_bit 2 1" by (simp add: push_bit_eq_mult)
  then have m: "bit (PG_PRESENT OR PG_USER :: u64) i \<longleftrightarrow> i = 0 \<or> i = 2" for i by (auto simp only: bit_simps) (auto simp: bit_1_iff)
  show ?thesis unfolding p bit_eq_iff [where 'a = "64 word"] bit_and_iff m by (auto dest: spec [of _ 0] spec [of _ 2])
qed

lemma user_page_ok_iff:
  assumes ok: "space_ok bt tb root" and va: "user_va p"
  shows "user_page_ok tb root wr p \<longleftrightarrow> page_grants tb root wr (page_no p)"
proof -
  note ix = user_index [OF va]
  have e3: "tb (tb root 0 AND PG_ADDR) 1 = pd_entry tb root" by (simp add: pd_entry_def)
  have e2: "tb (pd_entry tb root AND PG_ADDR) (page_no p div 512) = pt_entry tb root (page_no p div 512)" by (simp add: pt_entry_def)
  have e1: "tb (pt_entry tb root (page_no p div 512) AND PG_ADDR) (page_no p mod 512) = pte tb root (page_no p)" by (simp add: pte_def)
  have e4: "pg_has PG_PRESENT (tb root 0)" using space_entries(1) [OF ok] by (simp add: entry_user_def)
  show ?thesis
    unfolding user_page_ok_def Let_def ix e3 e2 e1 present_user page_grants_def space_abs_def
    using e4 ix(5) space_okD(9) [OF ok, of "page_no p"] by auto
qed

text \<open>The pages of a span of bytes.\<close>

lemma span_pages:
  fixes v L :: nat
  assumes "0 < L"
  shows "(\<forall>b. v \<le> b \<and> b < v + L \<longrightarrow> P (b div 4096)) \<longleftrightarrow> (\<forall>k \<le> (v + L - 1) div 4096 - v div 4096. P (v div 4096 + k))"
proof (intro iffI allI impI)
  fix k assume a: "\<forall>b. v \<le> b \<and> b < v + L \<longrightarrow> P (b div 4096)" "k \<le> (v + L - 1) div 4096 - v div 4096"
  show "P (v div 4096 + k)"
  proof (cases "k = 0")
    case False
    let ?b = "(v div 4096 + k) * 4096"
    have "v div 4096 + k \<le> (v + L - 1) div 4096" using a(2) False by simp
    then have "?b \<le> v + L - 1" by (simp only: less_eq_div_iff_mult_less_eq zero_less_numeral)
    moreover have "v \<le> ?b" using False div_mult_mod_eq [of v 4096] mod_less_divisor [of 4096 v] by (cases k) simp_all
    ultimately have "P (?b div 4096)" using a(1) assms by fastforce
    then show ?thesis by simp
  qed (use a(1) assms in simp)
next
  fix b assume a: "\<forall>k \<le> (v + L - 1) div 4096 - v div 4096. P (v div 4096 + k)" "v \<le> b \<and> b < v + L"
  have "v div 4096 \<le> b div 4096" "b div 4096 \<le> (v + L - 1) div 4096" using a(2) by (auto intro!: div_le_mono)
  then show "P (b div 4096)" using a(1) [rule_format, of "b div 4096 - v div 4096"] diff_le_mono by simp
qed

lemma list_all_upto: "list_all Q [0..<Suc m] \<longleftrightarrow> (\<forall>k\<le>m. Q k)"
  by (auto simp: list_all_iff less_Suc_eq_le simp del: upt_Suc)

lemma unat_of_nat64: "b < 2 ^ 64 \<Longrightarrow> unat (of_nat b :: u64) = b"
  by (simp add: unat_of_nat)

lemma page_no_nat: "0x40000000 \<le> unat va \<Longrightarrow> page_no va = unat va div 4096 - 262144"
proof -
  assume "0x40000000 \<le> unat va"
  then have "unat va = (unat va - 0x40000000) + 262144 * 4096" by simp
  then have "unat va div 4096 = (unat va - 0x40000000) div 4096 + 262144" by (metis div_mult_self1 numeral_neq_zero add.commute)
  then show ?thesis by (simp add: page_no_def)
qed

lemma user_ok_correct:
  assumes ok: "vm_ok bt roots vm" and r: "root \<in> roots"
  shows "vmspace_user_ok (tab vm) root va len wr \<longleftrightarrow>
    (\<forall>b. unat va \<le> b \<and> b < unat va + unat len \<longrightarrow> b < 2 ^ 64 \<and> mmu_user (tab vm) root wr (of_nat b))"
proof -
  note v = vm_okD [OF ok]
  note sp = v(5) [OF r]
  define V L where "V = unat va" and "L = unat len"
  have bound: "V < 2 ^ 64" "L < 2 ^ 64" using unat_u64_less [of va] unat_u64_less [of len] by (simp_all add: V_def L_def)
  have r0: "root \<noteq> 0" using space_okD(2) [OF sp present_owned [of _ _ Root]] by simp
  note mmu = mmu_user_iff [OF sp v(3) v(4), folded page_grants_def]
  let ?G = "page_grants (tab vm) root wr"
  show ?thesis
  proof (cases "L = 0")
    case True
    then have "len = 0" by (simp add: L_def unat_eq_zero)
    then show ?thesis unfolding vmspace_user_ok_def by (auto simp: not_less [symmetric])
  next
    case False
    then have l0: "len \<noteq> 0" by (auto simp: L_def)
    have sum: "unat (va + len) = (V + L) mod 2 ^ 64" by (simp add: unat_word_ariths V_def L_def)
    have wrap: "va + len < va \<longleftrightarrow> 2 ^ 64 \<le> V + L"
    proof (cases "V + L < 2 ^ 64")
      case False
      then have "(V + L) mod 2 ^ 64 = V + L - 2 ^ 64" using bound by (simp add: mod_if)
      then show ?thesis using False bound unfolding word_less_nat_alt sum V_def [symmetric] by linarith
    qed (simp add: word_less_nat_alt sum V_def [symmetric])
    show ?thesis
    proof (cases "V + L < 2 ^ 64 \<and> 0x40000000 \<le> V \<and> V + L \<le> 0x80000000")
      case True
      let ?m = "(V + L - 1) div 4096 - V div 4096"
      have s: "unat (va + len) = V + L" using True sum by simp
      have nw: "\<not> va + len < va" "\<not> (va < 0x40000000 \<or> va + len > 0x80000000)"
        using True wrap by (simp_all add: word_less_nat_alt s V_def [symmetric] not_less)
      have last: "unat (va + len - 1) = V + L - 1" using s False by (subst unat_minus_one) (auto simp: word_unat_eq_iff)
      have lf: "unat ((va + len - 1 AND NOT 0xFFF) - (va AND NOT 0xFFF)) div 4096 = ?m"
      proof -
        have le: "(va AND NOT 0xFFF) \<le> (va + len - 1 AND NOT 0xFFF)" unfolding word_le_nat_alt unat_page_base last V_def [symmetric]
          using False by (intro mult_le_mono1 div_le_mono) simp
        show ?thesis unfolding unat_sub [OF le] unat_page_base last V_def [symmetric] by (simp add: diff_mult_distrib [symmetric])
      qed
      have pg: "user_page_ok (tab vm) root wr ((va AND NOT 0xFFF) + of_nat k * 0x1000) \<longleftrightarrow> ?G (V div 4096 + k - 262144)"
        if "k \<le> ?m" for k
      proof -
        let ?p = "(va AND NOT 0xFFF) + of_nat k * 0x1000"
        have b: "V div 4096 + k \<le> (V + L - 1) div 4096" using that div_le_mono [of V "V + L - 1" 4096] False by simp
        then have hi: "(V div 4096 + k) * 4096 \<le> V + L - 1" by (simp only: less_eq_div_iff_mult_less_eq zero_less_numeral)
        have "262144 \<le> V div 4096" using True by (simp add: less_eq_div_iff_mult_less_eq)
        then have lo: "0x40000000 \<le> (V div 4096 + k) * 4096" by (simp add: add_mult_distrib)
        have "V + L \<le> 0x80000000" using True by blast
        then have "V + L - 1 \<le> 0x80000000" by (rule le_trans [OF diff_le_self])
        with hi have "(V div 4096 + k) * 4096 \<le> 0x80000000" by (rule order_trans)
        then have small: "V div 4096 * 4096 + k * 4096 \<le> 0x80000000" by (simp only: add_mult_distrib)
        have k: "k * 4096 < 2 ^ 64" "V div 4096 * 4096 + k * 4096 < 2 ^ 64"
          by (rule le_less_trans [OF le_trans [OF le_add2 small]], simp) (rule le_less_trans [OF small], simp)
        define B where "B = va AND NOT 0xFFF"
        have B: "unat B = V div 4096 * 4096" unfolding B_def unat_page_base V_def ..
        have "unat (B + of_nat k * 0x1000) = (V div 4096 + k) * 4096"
          using k by (simp add: unat_word_ariths unat_of_nat B add_mult_distrib)
        then have "unat ?p = (V div 4096 + k) * 4096" unfolding B_def .
        moreover have "V + L - 1 < V + L" using False by simp
        then have "V + L - 1 < 0x80000000" by (rule less_le_trans) (use True in blast)
        with hi have "(V div 4096 + k) * 4096 < 0x80000000" by (rule le_less_trans)
        ultimately have u: "user_va ?p" "page_no ?p = V div 4096 + k - 262144"
          using lo by (simp_all only: user_va_def page_no_nat) simp_all
        show ?thesis using user_page_ok_iff [OF sp u(1)] u(2) by simp
      qed
      have "vmspace_user_ok (tab vm) root va len wr \<longleftrightarrow> (\<forall>k\<le>?m. ?G (V div 4096 + k - 262144))"
        unfolding vmspace_user_ok_def Let_def lf list_all_upto using l0 nw r0 pg by simp
      also have "\<dots> \<longleftrightarrow> (\<forall>b. V \<le> b \<and> b < V + L \<longrightarrow> ?G (b div 4096 - 262144))"
        using span_pages [of L V "\<lambda>n. ?G (n - 262144)"] False by simp
      also have "\<dots> \<longleftrightarrow> (\<forall>b. V \<le> b \<and> b < V + L \<longrightarrow> b < 2 ^ 64 \<and> mmu_user (tab vm) root wr (of_nat b))"
      proof -
        have "?G (b div 4096 - 262144) \<longleftrightarrow> b < 2 ^ 64 \<and> mmu_user (tab vm) root wr (of_nat b)" if "V \<le> b \<and> b < V + L" for b
        proof -
          have b: "b < 2 ^ 64" "unat (of_nat b :: u64) = b" using that True unat_of_nat64 [of b] by simp_all
          have "user_va (of_nat b)" "page_no (of_nat b) = b div 4096 - 262144" using that True b(2) by (simp_all add: user_va_def page_no_nat)
          then show ?thesis using b(1) unfolding mmu by (simp add: page_grants_def)
        qed
        then show ?thesis by blast
      qed
      finally show ?thesis unfolding V_def L_def .
    next
      case out: False
      have "\<not> vmspace_user_ok (tab vm) root va len wr"
      proof (cases "V + L < 2 ^ 64")
        case True
        then have "unat (va + len) = V + L" using sum by simp
        then show ?thesis using out l0 True by (auto simp: vmspace_user_ok_def word_less_nat_alt V_def)
      qed (use wrap l0 in \<open>simp add: vmspace_user_ok_def\<close>)
      moreover have "\<exists>b. V \<le> b \<and> b < V + L \<and> \<not> (b < 2 ^ 64 \<and> mmu_user (tab vm) root wr (of_nat b))"
      proof (cases "0x40000000 \<le> V")
        case True
        have "\<not> (V + L - 1 < 2 ^ 64 \<and> mmu_user (tab vm) root wr (of_nat (V + L - 1)))"
        proof
          assume a: "V + L - 1 < 2 ^ 64 \<and> mmu_user (tab vm) root wr (of_nat (V + L - 1))"
          then have "user_va (of_nat (V + L - 1))" unfolding mmu by blast
          then have "V + L - 1 < 0x80000000" using a unat_of_nat64 [of "V + L - 1"] unfolding user_va_def by metis
          then have "V + L \<le> 0x80000000" by linarith
          then show False using out True by simp
        qed
        then show ?thesis using False by (intro exI [of _ "V + L - 1"]) simp
      next
        case low: False
        have "\<not> mmu_user (tab vm) root wr (of_nat V)"
          unfolding mmu using low unat_of_nat64 [OF bound(1)] by (simp add: user_va_def)
        then show ?thesis using False by (intro exI [of _ V]) simp
      qed
      ultimately show ?thesis unfolding V_def L_def by blast
    qed
  qed
qed

end
