(* ===== verification/Vmspace_Life.thy ===== *)
theory Vmspace_Life
  imports Vmspace_Access
begin

text \<open>
  The life of a space: creation, stores by its program, destruction. The last section follows all of them
  through arbitrary runs.
\<close>

section \<open>Creation\<close>

text \<open>Frames that were free may change hands; nothing that was in use is touched.\<close>

lemma vm_ok_fresh:
  assumes ok: "vm_ok bt roots vm" and u: "pmm_inv (vm_pmm vm')" "in_use (vm_pmm vm) \<subseteq> in_use (vm_pmm vm')"
    and t: "\<forall>x\<in>in_use (vm_pmm vm). tab vm' x = tab vm x"
  shows "vm_ok bt roots vm'" "\<And>r. r \<in> roots \<Longrightarrow> space_abs (tab vm') r = space_abs (tab vm) r \<and> owned (tab vm') r = owned (tab vm) r"
proof -
  note v = vm_okD [OF ok]
  have keep: "\<forall>x\<in>tables (tab vm) r. tab vm' x = tab vm x" if "r \<in> roots" for r
    using t v(6) [OF that] tables_owned [of "tab vm" r] by blast
  note fr = space_frame_ok [OF keep]
  show each: "space_abs (tab vm') r = space_abs (tab vm) r \<and> owned (tab vm') r = owned (tab vm) r" if "r \<in> roots" for r
    using fr(1,3) [OF that] by blast
  have "tab vm' (boot_pd bt) = tab vm (boot_pd bt)" using t v(2) by (simp add: boot_frames_def)
  moreover have "\<forall>r\<in>roots. space_ok bt (tab vm') r \<and> owned (tab vm') r \<subseteq> in_use (vm_pmm vm') \<and> owned (tab vm') r \<inter> boot_frames bt = {}"
    using each fr(4) v(5,6,7) u(2) by blast
  moreover have "\<forall>r\<in>roots. \<forall>r'\<in>roots. r \<noteq> r' \<longrightarrow> owned (tab vm') r \<inter> owned (tab vm') r' = {}" using each v(8) by simp
  moreover have "boot_frames bt \<subseteq> in_use (vm_pmm vm')" using v(2) u(2) by blast
  ultimately show "vm_ok bt roots vm'" using v(3,4) u(1) unfolding vm_ok_def by simp
qed

lemma not_user_masked: "\<not> pg_has PG_USER (e AND NOT PG_USER)"
  by (simp add: pg_has_def and.assoc)

lemma share_windows_at:
  "tab (share_windows src lo hi t vm) = (tab vm)(t := (\<lambda>i. if lo \<le> i \<and> i < hi \<and> pg_has PG_PRESENT (tab vm src i)
     then tab vm src i AND NOT PG_USER else tab vm t i))"
  "vm_pmm (share_windows src lo hi t vm) = vm_pmm vm"
  by (simp_all add: share_windows_def)

text \<open>A root whose user half is empty.\<close>

lemma new_space:
  assumes d: "frame_ok root" "frame_ok dir" "root \<noteq> dir" and e: "tb root 0 = table_ref dir" "tb dir 0 = table_ref (boot_pd bt)" "tb dir 1 = 0"
    and w: "\<forall>i\<ge>2. \<not> pg_has PG_USER (tb dir i)" "\<forall>i\<ge>1. \<not> pg_has PG_USER (tb root i)"
  shows "space_ok bt tb root" "owned tb root = {root, dir}" "space_abs tb root = Map.empty"
proof -
  have a: "tb root 0 AND PG_ADDR = dir" using d(2) e(1) by (simp add: frame_ok_def)
  have pd: "pd_entry tb root = 0" by (simp add: pd_entry_def a e(3) [simplified])
  have pr: "present_at tb root pos \<longleftrightarrow> pos = Root \<or> pos = Pdpt" for pos by (cases pos) (simp_all add: pd)
  show o: "owned tb root = {root, dir}" by (simp add: owned_def pr a Collect_disj_eq insert_commute)
  have "inj_on (frame_at tb root) {pos. present_at tb root pos}" using d(3) by (auto simp: inj_on_def pr a)
  then show "space_ok bt tb root"
    unfolding space_ok_def o a using d w e(1,2) by (auto simp: pd)
  show "space_abs tb root = Map.empty" by (auto simp: space_abs_def pd)
qed

lemma create_effect:
  assumes ok: "vm_ok bt roots vm" and e: "vmspace_create bt vm = (sp, vm')"
  shows "if as_pml4 sp = 0 then vm_ok bt roots vm'
    else as_pml4 sp \<notin> roots \<and> as_cr3 sp = as_pml4 sp \<and> vm_ok bt (insert (as_pml4 sp) roots) vm' \<and> space_abs (tab vm') (as_pml4 sp) = Map.empty
      \<and> in_use (vm_pmm vm') = in_use (vm_pmm vm) \<union> owned (tab vm') (as_pml4 sp) \<and> owned (tab vm') (as_pml4 sp) \<inter> in_use (vm_pmm vm) = {}"
    and "\<And>r. r \<in> roots \<Longrightarrow> space_abs (tab vm') r = space_abs (tab vm) r"
    and "in_use (vm_pmm vm) \<subseteq> in_use (vm_pmm vm')"
    and "\<And>r. r \<in> roots \<Longrightarrow> owned (tab vm') r = owned (tab vm) r"
proof -
  note v = vm_okD [OF ok]
  obtain f1 vm1 where a1: "alloc_table vm = (f1, vm1)" by (cases "alloc_table vm")
  have main: "(if as_pml4 sp = 0 then vm_ok bt roots vm'
    else as_pml4 sp \<notin> roots \<and> as_cr3 sp = as_pml4 sp \<and> vm_ok bt (insert (as_pml4 sp) roots) vm' \<and> space_abs (tab vm') (as_pml4 sp) = Map.empty
      \<and> in_use (vm_pmm vm') = in_use (vm_pmm vm) \<union> owned (tab vm') (as_pml4 sp) \<and> owned (tab vm') (as_pml4 sp) \<inter> in_use (vm_pmm vm) = {})
    \<and> (\<forall>r\<in>roots. space_abs (tab vm') r = space_abs (tab vm) r \<and> owned (tab vm') r = owned (tab vm) r) \<and> in_use (vm_pmm vm) \<subseteq> in_use (vm_pmm vm')"
    using v(1) a1
  proof (cases rule: alloc_table_cases)
    case null
    then have "as_pml4 sp = 0" "vm' = vm" using e a1 by (auto simp: vmspace_create_def)
    then show ?thesis using ok by simp
  next
    case A: frame
    have f1: "f1 \<noteq> 0" using A(1) by (simp add: frame_ok_def)
    have t1: "\<forall>x\<in>in_use (vm_pmm vm). tab vm1 x = tab vm x" using A(2,5) by auto
    have s1: "in_use (vm_pmm vm) \<subseteq> in_use (vm_pmm vm1)" using A(4) by blast
    note F1 = vm_ok_fresh [OF ok A(3) s1 t1]
    obtain f2 vm2 where a2: "alloc_table vm1 = (f2, vm2)" by (cases "alloc_table vm1")
    show ?thesis using A(3) a2
    proof (cases rule: alloc_table_cases)
      case null
      then have "as_pml4 sp = 0" "vm' = vm1" using e a1 a2 f1 by (auto simp: vmspace_create_def)
      then show ?thesis using F1 s1 by simp
    next
      case B: frame
      have f2: "f2 \<noteq> 0" using B(1) by (simp add: frame_ok_def)
      have ne: "f1 \<noteq> f2" using A(4) B(2) by blast
      have bf: "boot_pml4 bt \<noteq> f1" "boot_pml4 bt \<noteq> f2" "boot_pdpt bt \<noteq> f1" "boot_pdpt bt \<noteq> f2"
        using v(2) A(2,4) B(2) by (auto simp: boot_frames_def)
      define vm3 where "vm3 = set_tab_entry f2 0 (table_ref (boot_pd bt)) (set_tab_entry f1 0 (table_ref f2) vm2)"
      define vm4 where "vm4 = share_windows (boot_pml4 bt) 1 256 f1 (share_windows (boot_pdpt bt) 2 512 f2 vm3)"
      have sp: "as_pml4 sp = f1" "as_cr3 sp = f1" "vm' = vm4\<lparr>created_count := created_count vm4 + 1\<rparr>"
        using e a1 a2 f1 f2 unfolding vmspace_create_def vm4_def vm3_def by (auto simp: Let_def)
      have pm: "vm_pmm vm' = vm_pmm vm2" unfolding sp(3) vm4_def vm3_def by (simp add: share_windows_at)
      have t3: "tab vm3 = put_tab (put_tab ((tab vm1)(f2 := (\<lambda>_. 0))) f1 0 (table_ref f2)) f2 0 (table_ref (boot_pd bt))"
        unfolding vm3_def by (simp add: B(5))
      have t4: "tab vm' = tab vm4" unfolding sp(3) by simp
      have tf: "tab vm' f1 i = (if 1 \<le> i \<and> i < 256 \<and> pg_has PG_PRESENT (tab vm3 (boot_pml4 bt) i)
            then tab vm3 (boot_pml4 bt) i AND NOT PG_USER else tab vm3 f1 i)"
          "tab vm' f2 i = (if 2 \<le> i \<and> i < 512 \<and> pg_has PG_PRESENT (tab vm3 (boot_pdpt bt) i)
            then tab vm3 (boot_pdpt bt) i AND NOT PG_USER else tab vm3 f2 i)"
          "x \<noteq> f1 \<Longrightarrow> x \<noteq> f2 \<Longrightarrow> tab vm' x = tab vm x" for i x
        using ne bf by (simp_all add: t4 vm4_def share_windows_at) (simp add: t3 put_tab_def A(5))
      have z: "tab vm3 f1 i = (if i = 0 then table_ref f2 else 0)" "tab vm3 f2 i = (if i = 0 then table_ref (boot_pd bt) else 0)" for i
        using ne by (simp_all add: t3 put_tab_def A(5))
      have n: "space_ok bt (tab vm') f1" "owned (tab vm') f1 = {f1, f2}" "space_abs (tab vm') f1 = Map.empty"
        by (rule new_space [OF A(1) B(1) ne]; simp add: tf z not_user_masked [simplified])+
      have iu: "in_use (vm_pmm vm') = insert f2 (insert f1 (in_use (vm_pmm vm)))" unfolding pm B(4) A(4) by simp
      have inv: "pmm_inv (vm_pmm vm')" unfolding pm by (rule B(3))
      have s2: "in_use (vm_pmm vm) \<subseteq> in_use (vm_pmm vm')" using iu by blast
      have t2: "\<forall>x\<in>in_use (vm_pmm vm). tab vm' x = tab vm x"
      proof
        fix x assume x: "x \<in> in_use (vm_pmm vm)"
        show "tab vm' x = tab vm x"
        proof (rule tf(3))
          show "x \<noteq> f1" "x \<noteq> f2" using x A(2,4) B(2) by auto
        qed
      qed
      note F2 = vm_ok_fresh [OF ok inv s2 t2]
      have fr: "f1 \<notin> in_use (vm_pmm vm)" "f2 \<notin> in_use (vm_pmm vm)" using A(2,4) B(2) by auto
      have nin: "f1 \<notin> roots" using v(6) [of f1] present_owned [of "tab vm" f1 Root] fr(1) by auto
      have apart: "owned (tab vm') r \<inter> {f1, f2} = {}" if "r \<in> roots" for r using F2(2) [OF that] v(6) [OF that] fr by blast
      have "vm_ok bt (insert f1 roots) vm'"
        using F2(1) n iu v(2) fr apart unfolding vm_ok_def by auto
      moreover have "{f1, f2} \<inter> in_use (vm_pmm vm) = {}" using fr by blast
      moreover have "in_use (vm_pmm vm') = in_use (vm_pmm vm) \<union> {f1, f2}" using iu by blast
      ultimately show ?thesis using F2(2) nin n s2 f1 unfolding sp(1,2) by simp
    qed
  qed
  then show "if as_pml4 sp = 0 then vm_ok bt roots vm'
    else as_pml4 sp \<notin> roots \<and> as_cr3 sp = as_pml4 sp \<and> vm_ok bt (insert (as_pml4 sp) roots) vm' \<and> space_abs (tab vm') (as_pml4 sp) = Map.empty
      \<and> in_use (vm_pmm vm') = in_use (vm_pmm vm) \<union> owned (tab vm') (as_pml4 sp) \<and> owned (tab vm') (as_pml4 sp) \<inter> in_use (vm_pmm vm) = {}"
    "\<And>r. r \<in> roots \<Longrightarrow> space_abs (tab vm') r = space_abs (tab vm) r" "in_use (vm_pmm vm) \<subseteq> in_use (vm_pmm vm')"
    "\<And>r. r \<in> roots \<Longrightarrow> owned (tab vm') r = owned (tab vm) r"
    by blast+
qed

section \<open>Destruction\<close>

text \<open>The positions in the order of the walk.\<close>

definition walk_table :: "(u64 \<Rightarrow> nat \<Rightarrow> u64) \<Rightarrow> u64 \<Rightarrow> nat \<Rightarrow> position list" where
  "walk_table tb root di = (if \<not> present_at tb root (Pt di) then []
     else map (\<lambda>ti. Leaf (di * 512 + ti)) (filter (\<lambda>ti. present_at tb root (Leaf (di * 512 + ti))) [0..<512]) @ [Pt di])"

definition walk_positions :: "(u64 \<Rightarrow> nat \<Rightarrow> u64) \<Rightarrow> u64 \<Rightarrow> position list" where
  "walk_positions tb root =
     (if present_at tb root Pd then concat (map (walk_table tb root) [0..<512]) @ [Pd] else []) @ [Pdpt, Root]"

declare upt_rec_numeral [simp del]

lemma leaf_in_walk: "Leaf n \<in> set (walk_table tb root di) \<longleftrightarrow> present_at tb root (Pt di) \<and> di = n div 512 \<and> present_at tb root (Leaf n)"
proof -
  have "(\<exists>ti<512. n = di * 512 + ti \<and> present_at tb root (Leaf n)) \<longleftrightarrow> di = n div 512 \<and> present_at tb root (Leaf n)"
  proof
    assume "di = n div 512 \<and> present_at tb root (Leaf n)"
    then show "\<exists>ti<512. n = di * 512 + ti \<and> present_at tb root (Leaf n)" by (intro exI [of _ "n mod 512"]) (simp del: present_at.simps)
  qed (auto simp del: present_at.simps)
  then show ?thesis unfolding walk_table_def by (auto simp del: present_at.simps)
qed

lemma distinct_concat_map:
  "distinct xs \<Longrightarrow> (\<And>x. x \<in> set xs \<Longrightarrow> distinct (g x)) \<Longrightarrow> (\<And>x y. x \<in> set xs \<Longrightarrow> y \<in> set xs \<Longrightarrow> x \<noteq> y \<Longrightarrow> set (g x) \<inter> set (g y) = {})
   \<Longrightarrow> distinct (concat (map g xs))"
proof (induction xs)
  case (Cons x xs)
  have "set (g x) \<inter> set (g y) = {}" if "y \<in> set xs" for y using Cons.prems(1) Cons.prems(3) [of x y] that by auto
  moreover have "distinct (concat (map g xs))" using Cons by simp
  ultimately show ?case using Cons.prems(2) [of x] by auto
qed simp

lemma walk_positions_set: "set (walk_positions tb root) = {pos. present_at tb root pos}"
proof (rule set_eqI)
  fix pos
  show "pos \<in> set (walk_positions tb root) \<longleftrightarrow> pos \<in> {pos. present_at tb root pos}"
  proof (cases pos)
    case (Leaf n)
    have "n < 262144 \<Longrightarrow> n div 512 < 512" by simp
    then show ?thesis unfolding Leaf walk_positions_def by (auto simp: leaf_in_walk)
  qed (auto simp: walk_positions_def walk_table_def)
qed

lemma walk_positions_distinct: "distinct (walk_positions tb root)"
proof -
  have "distinct (concat (map (walk_table tb root) [0..<512]))"
    by (rule distinct_concat_map) (auto simp: walk_table_def distinct_map inj_on_def simp del: present_at.simps)
  moreover have "Pd \<notin> set (walk_table tb root di)" "Pdpt \<notin> set (walk_table tb root di)" "Root \<notin> set (walk_table tb root di)" for di
    by (auto simp: walk_table_def)
  ultimately show ?thesis by (auto simp: walk_positions_def simp del: present_at.simps)
qed

text \<open>The walk of \<open>vmspace_destroy\<close> visits exactly them.\<close>

lemma table_frames_walk:
  assumes "present_at tb root (Pt di)"
  shows "table_frames tb (pt_entry tb root di AND PG_ADDR) @ [pt_entry tb root di AND PG_ADDR] = map (frame_at tb root) (walk_table tb root di)"
proof -
  have e: "tb (pt_entry tb root di AND PG_ADDR) ti = pte tb root (di * 512 + ti)" if "ti < 512" for ti
    using that by (simp add: pte_def)
  have p: "present_at tb root (Leaf (di * 512 + ti)) \<longleftrightarrow> pg_has PG_PRESENT (pte tb root (di * 512 + ti))" if "ti < 512" for ti
    using that assms by simp
  have "filter (\<lambda>ti. pg_has PG_PRESENT (tb (pt_entry tb root di AND PG_ADDR) ti)) [0..<512]
      = filter (\<lambda>ti. present_at tb root (Leaf (di * 512 + ti))) [0..<512]"
    by (rule filter_cong) (simp_all add: e p del: present_at.simps)
  then show ?thesis using assms unfolding table_frames_def walk_table_def by (simp add: e del: present_at.simps)
qed

lemma directory_frames_walk:
  assumes "pg_has PG_PRESENT (pd_entry tb root)"
  shows "directory_frames tb (pd_entry tb root AND PG_ADDR) = map (frame_at tb root) (concat (map (walk_table tb root) [0..<512]))"
proof -
  have e: "tb (pd_entry tb root AND PG_ADDR) di = pt_entry tb root di" for di by (simp add: pt_entry_def)
  have "(if \<not> pg_has PG_PRESENT (pt_entry tb root di) then [] else table_frames tb (pt_entry tb root di AND PG_ADDR) @ [pt_entry tb root di AND PG_ADDR])
      = map (frame_at tb root) (walk_table tb root di)" if "di < 512" for di
    using table_frames_walk [of tb root di] that assms by (auto simp: walk_table_def)
  then show ?thesis unfolding directory_frames_def map_concat map_map e by (intro arg_cong [of _ _ concat] map_cong refl) (simp del: map_append)
qed

lemma destroy_walk:
  assumes ok: "space_ok bt tb root"
  shows "destroy_frames tb root = map (frame_at tb root) (walk_positions tb root)"
proof -
  note s = space_okD [OF ok]
  let ?D = "tb root 0 AND PG_ADDR"
  define step where "step pi = (if \<not> pg_has PG_PRESENT (tb ?D pi) then [] else if \<not> pg_has PG_USER (tb ?D pi) then []
          else directory_frames tb (tb ?D pi AND PG_ADDR) @ [tb ?D pi AND PG_ADDR])" for pi
  have d0: "?D \<noteq> 0" using s(2) [OF present_owned [of tb root Pdpt]] by simp
  have "[1..<512] = 1 # [Suc 1..<512]" by (rule upt_conv_Cons) simp
  then have up: "[1..<512] = 1 # [2..<512]" by (simp only: Suc_1)
  have "\<forall>xs\<in>set (map step [2..<512]). xs = []" using s(6) by (auto simp: step_def)
  then have rest: "concat (map step [2..<512]) = []" unfolding concat_eq_Nil_conv by blast
  have e: "tb ?D 1 = pd_entry tb root" by (simp add: pd_entry_def)
  have one: "step 1 = (if present_at tb root Pd then map (frame_at tb root) (concat (map (walk_table tb root) [0..<512]) @ [Pd]) else [])"
  proof (cases "pg_has PG_PRESENT (pd_entry tb root)")
    case True
    then have "pg_has PG_USER (pd_entry tb root)" using space_entries(2) [OF ok] by (simp add: entry_user_def)
    then have "step 1 = directory_frames tb (pd_entry tb root AND PG_ADDR) @ [pd_entry tb root AND PG_ADDR]" using True by (simp only: step_def e) simp
    also have "\<dots> = map (frame_at tb root) (concat (map (walk_table tb root) [0..<512]) @ [Pd])"
      unfolding directory_frames_walk [OF True] map_append by (simp only: list.map frame_at.simps)
    finally show ?thesis using True by (simp only: present_at.simps if_True)
  next
    case False
    then show ?thesis by (simp only: step_def e present_at.simps) simp
  qed
  have "destroy_frames tb root = concat (map step [1..<512]) @ [?D] @ [root]"
    using d0 unfolding destroy_frames_def Let_def step_def by simp
  then show ?thesis unfolding up walk_positions_def using rest one by simp
qed

lemma destroy_owned:
  assumes "space_ok bt tb root"
  shows "set (destroy_frames tb root) = owned tb root" "distinct (destroy_frames tb root)"
  using assms unfolding destroy_walk [OF assms] space_ok_def
  by (simp_all add: walk_positions_set owned_def distinct_map walk_positions_distinct)

lemma destroy_effect:
  assumes ok: "vm_ok bt roots vm" and r: "root \<in> roots"
  shows "in_use (vm_pmm (vmspace_destroy root vm)) = in_use (vm_pmm vm) - owned (tab vm) root"
    "vm_ok bt (roots - {root}) (vmspace_destroy root vm)" "tab (vmspace_destroy root vm) = tab vm"
proof -
  note v = vm_okD [OF ok]
  let ?vm = "vmspace_destroy root vm" and ?fs = "destroy_frames (tab vm) root"
  have r0: "root \<noteq> 0" using space_okD(2) [OF v(5) [OF r] present_owned [of _ _ Root]] by simp
  note d = destroy_owned [OF v(5) [OF r]]
  have z: "0 \<notin> set ?fs" using space_okD(2) [OF v(5) [OF r]] unfolding d(1) by blast
  have pm: "vm_pmm ?vm = fold (\<lambda>f p. snd (pmm_free_frame f p)) ?fs (vm_pmm vm)" using r0 by (simp add: vmspace_destroy_def)
  have rel: "in_use (vm_pmm ?vm) = in_use (vm_pmm vm) - set ?fs" "pmm_inv (vm_pmm ?vm)"
    using pool.release_all [OF v(1) d(2) _ z] v(6) [OF r] unfolding pm d(1) by blast+
  show "in_use (vm_pmm ?vm) = in_use (vm_pmm vm) - owned (tab vm) root" using rel(1) d(1) by simp
  show t: "tab ?vm = tab vm" by (simp add: vmspace_destroy_def)
  have each: "space_ok bt (tab vm) q \<and> owned (tab vm) q \<subseteq> in_use (vm_pmm ?vm) \<and> owned (tab vm) q \<inter> boot_frames bt = {}"
    if "q \<in> roots - {root}" for q
  proof -
    have q: "q \<in> roots" "q \<noteq> root" using that by simp_all
    have "owned (tab vm) q \<subseteq> in_use (vm_pmm ?vm)" using v(6) [OF q(1)] v(8) [OF q(1) r q(2)] unfolding rel(1) d(1) by blast
    then show ?thesis using v(5,7) [OF q(1)] by blast
  qed
  have "boot_frames bt \<subseteq> in_use (vm_pmm ?vm)" using v(2) v(7) [OF r] unfolding rel(1) d(1) by blast
  then show "vm_ok bt (roots - {root}) ?vm" using v(3,4,8) each rel(2) unfolding vm_ok_def t by simp
qed

section \<open>Pages of their own\<close>

text \<open>A frame that no space owns can be given back.\<close>

lemma vm_ok_release:
  assumes ok: "vm_ok bt roots vm" and f: "f \<in> in_use (vm_pmm vm)" "f \<noteq> 0" "f \<notin> boot_frames bt" "\<forall>r\<in>roots. f \<notin> owned (tab vm) r"
  defines "vm' \<equiv> vm\<lparr>vm_pmm := snd (pmm_free_frame f (vm_pmm vm))\<rparr>"
  shows "vm_ok bt roots vm'" "in_use (vm_pmm vm') = in_use (vm_pmm vm) - {f}" "tab vm' = tab vm"
proof -
  note v = vm_okD [OF ok]
  have r: "in_use (vm_pmm vm') = in_use (vm_pmm vm) - {f}" "pmm_inv (vm_pmm vm')"
    using pool.release_used [OF v(1) f(1,2)] by (simp_all add: vm'_def)
  show "in_use (vm_pmm vm') = in_use (vm_pmm vm) - {f}" by (rule r(1))
  show t: "tab vm' = tab vm" by (simp add: vm'_def)
  have each: "space_ok bt (tab vm) q \<and> owned (tab vm) q \<subseteq> in_use (vm_pmm vm') \<and> owned (tab vm) q \<inter> boot_frames bt = {}" if "q \<in> roots" for q
    using v(5,6,7) [OF that] f(4) that unfolding r(1) by blast
  have "boot_frames bt \<subseteq> in_use (vm_pmm vm')" using v(2) f(3) unfolding r(1) by blast
  then show "vm_ok bt roots vm'" using v(3,4,8) each r(2) unfolding vm_ok_def t by simp
qed

lemma map_fresh_effect:
  assumes ok: "vm_ok bt roots vm" and r: "root \<in> roots" and va: "user_va va" and e: "map_fresh_page root va w vm = (f, vm')"
  shows "vm_ok bt roots vm'"
    "space_abs (tab vm') root = (if f = 0 then space_abs (tab vm) root else (space_abs (tab vm) root)(page_no va \<mapsto> (f, w)))"
    "\<And>q. q \<in> roots \<Longrightarrow> q \<noteq> root \<Longrightarrow> space_abs (tab vm') q = space_abs (tab vm) q"
    "f \<notin> in_use (vm_pmm vm) \<or> f = 0" "in_use (vm_pmm vm) \<subseteq> in_use (vm_pmm vm')"
    "f = 0 \<Longrightarrow> fst (pmm_alloc_frame (vm_pmm vm)) = 0 \<or> (\<exists>p. fst (pmm_alloc_frame p) = 0 \<and> in_use p = insert (fst (pmm_alloc_frame (vm_pmm vm))) (in_use (vm_pmm vm')))"
    "f = 0 \<or> space_abs (tab vm) root (page_no va) = None \<Longrightarrow> adds root vm vm'"
    "owned (tab vm') root \<inter> in_use (vm_pmm vm) \<subseteq> owned (tab vm) root"
proof -
  note v = vm_okD [OF ok]
  obtain a vm1 where a: "alloc_table vm = (a, vm1)" by (cases "alloc_table vm")
  have main: "vm_ok bt roots vm' \<and> space_abs (tab vm') root = (if f = 0 then space_abs (tab vm) root else (space_abs (tab vm) root)(page_no va \<mapsto> (f, w)))
    \<and> (\<forall>q\<in>roots. q \<noteq> root \<longrightarrow> space_abs (tab vm') q = space_abs (tab vm) q) \<and> (f \<notin> in_use (vm_pmm vm) \<or> f = 0)
    \<and> in_use (vm_pmm vm) \<subseteq> in_use (vm_pmm vm')
    \<and> (f = 0 \<longrightarrow> fst (pmm_alloc_frame (vm_pmm vm)) = 0 \<or> (\<exists>p. fst (pmm_alloc_frame p) = 0 \<and> in_use p = insert (fst (pmm_alloc_frame (vm_pmm vm))) (in_use (vm_pmm vm'))))
    \<and> (f = 0 \<or> space_abs (tab vm) root (page_no va) = None \<longrightarrow> adds root vm vm') \<and> owned (tab vm') root \<inter> in_use (vm_pmm vm) \<subseteq> owned (tab vm) root"
    using v(1) a
  proof (cases rule: alloc_table_cases)
    case null
    then have "f = 0" "vm' = vm" using e a by (auto simp: map_fresh_page_def)
    then show ?thesis using ok null by (simp add: adds_def)
  next
    case frame
    have a0: "a \<noteq> 0" using frame(1) by (simp add: frame_ok_def)
    have t1: "\<forall>x\<in>in_use (vm_pmm vm). tab vm1 x = tab vm x" using frame(2,5) by auto
    have s1: "in_use (vm_pmm vm) \<subseteq> in_use (vm_pmm vm1)" using frame(4) by blast
    note F = vm_ok_fresh [OF ok frame(3) s1 t1]
    obtain b vm2 where m: "vmspace_map_page root va a w vm1 = (b, vm2)" by (metis surj_pair)
    have an: "a \<in> in_use (vm_pmm vm1)" "a \<notin> boot_frames bt" "\<forall>q\<in>roots. a \<notin> owned (tab vm1) q"
      using frame(2,4) v(2,6) F(2) by auto
    note M = map_page_effect [OF F(1) r va an(1) a0 an(2,3) m]
    have own: "owned (tab vm2) root \<inter> in_use (vm_pmm vm) \<subseteq> owned (tab vm) root"
      using M F(2) [OF r] s1 frame(2) by blast
    show ?thesis
    proof (cases b)
      case True
      then have "f = a" "vm' = vm2" using e a a0 m by (auto simp: map_fresh_page_def)
      moreover have "adds root vm vm2" if "space_abs (tab vm) root (page_no va) = None"
      proof -
        have "adds root vm1 vm2" "a \<in> owned (tab vm2) root" using M True that F(2) [OF r] by simp_all
        then show ?thesis using F(2) r unfolding adds_def frame(4) by auto
      qed
      ultimately show ?thesis using M True F(2) r frame(2) s1 a0 own by auto
    next
      case False
      then have f: "f = 0" "vm' = vm2\<lparr>vm_pmm := snd (pmm_free_frame a (vm_pmm vm2))\<rparr>" using e a a0 m by (auto simp: map_fresh_page_def)
      have M2: "vm_ok bt roots vm2" "a \<in> in_use (vm_pmm vm2)" "\<forall>q\<in>roots. a \<notin> owned (tab vm2) q" "in_use (vm_pmm vm1) \<subseteq> in_use (vm_pmm vm2)"
        "fst (pmm_alloc_frame (vm_pmm vm2)) = 0" "\<forall>q\<in>roots. space_abs (tab vm2) q = space_abs (tab vm1) q"
        using M False an(1) by auto
      note R = vm_ok_release [OF M2(1,2) a0 an(2) M2(3), folded f(2)]
      have fa: "fst (pmm_alloc_frame (vm_pmm vm)) = a" using a a0 by (auto simp: alloc_table_def split: prod.splits if_splits)
      have sp: "\<forall>q\<in>roots. space_abs (tab vm') q = space_abs (tab vm) q" using M2(6) F(2) unfolding R(3) by simp
      have "in_use (vm_pmm vm) \<subseteq> in_use (vm_pmm vm')" using M2(4) frame(2,4) unfolding R(2) by blast
      moreover have "in_use (vm_pmm vm2) = insert (fst (pmm_alloc_frame (vm_pmm vm))) (in_use (vm_pmm vm'))" using R(2) M2(2) fa by auto
      moreover have "adds root vm vm'"
      proof -
        have "adds root vm1 vm2" using M False by simp
        then have "owned (tab vm) root \<subseteq> owned (tab vm') root" "in_use (vm_pmm vm2) \<subseteq> insert a (in_use (vm_pmm vm) \<union> owned (tab vm') root)"
          using F(2) [OF r] unfolding adds_def frame(4) R(3) by simp_all
        then show ?thesis unfolding adds_def R(2) by blast
      qed
      ultimately show ?thesis using R(1) sp f(1) M2(5) r own [folded R(3)] by auto
    qed
  qed
  show "vm_ok bt roots vm'" using main by blast
  show "space_abs (tab vm') root = (if f = 0 then space_abs (tab vm) root else (space_abs (tab vm) root)(page_no va \<mapsto> (f, w)))" using main by blast
  show "\<And>q. q \<in> roots \<Longrightarrow> q \<noteq> root \<Longrightarrow> space_abs (tab vm') q = space_abs (tab vm) q" using main by blast
  show "f \<notin> in_use (vm_pmm vm) \<or> f = 0" using main by blast
  show "in_use (vm_pmm vm) \<subseteq> in_use (vm_pmm vm')" using main by blast
  show "f = 0 \<Longrightarrow> fst (pmm_alloc_frame (vm_pmm vm)) = 0 \<or> (\<exists>p. fst (pmm_alloc_frame p) = 0 \<and> in_use p = insert (fst (pmm_alloc_frame (vm_pmm vm))) (in_use (vm_pmm vm')))"
    using main by blast
  show "f = 0 \<or> space_abs (tab vm) root (page_no va) = None \<Longrightarrow> adds root vm vm'" using main by blast
  show "owned (tab vm') root \<inter> in_use (vm_pmm vm) \<subseteq> owned (tab vm) root" using main by blast
qed

end
