(* ===== verification/Vmspace_Claims.thy ===== *)
theory Vmspace_Claims
  imports Vmspace_Life
begin

text \<open>
  The properties of the address spaces: isolation over arbitrary runs, the meaning of a mapping, the
  agreement of the kernel's span check with the hardware walk, and the frame balance of a space's life.
\<close>

section \<open>Runs\<close>

text \<open>Creation, fresh mappings, stores by user programs through their own writable pages, frames taken by
  the kernel for other uses, and destruction, in any order. A store goes wherever the processor's walk
  permits it.\<close>

inductive vm_run :: "boot_t \<Rightarrow> vm_t \<Rightarrow> u64 set \<Rightarrow> vm_t \<Rightarrow> bool" for bt vm0 where
  vm_start: "vm_run bt vm0 {} vm0"
| vm_create: "vm_run bt vm0 roots vm \<Longrightarrow> vmspace_create bt vm = (sp, vm') \<Longrightarrow> as_pml4 sp \<noteq> 0 \<Longrightarrow> vm_run bt vm0 (insert (as_pml4 sp) roots) vm'"
| vm_create_null: "vm_run bt vm0 roots vm \<Longrightarrow> vmspace_create bt vm = (sp, vm') \<Longrightarrow> as_pml4 sp = 0 \<Longrightarrow> vm_run bt vm0 roots vm'"
| vm_map: "vm_run bt vm0 roots vm \<Longrightarrow> root \<in> roots \<Longrightarrow> user_va va \<Longrightarrow> map_fresh_page root va w vm = (f, vm') \<Longrightarrow> vm_run bt vm0 roots vm'"
| vm_store: "vm_run bt vm0 roots vm \<Longrightarrow> root \<in> roots \<Longrightarrow> mmu_user (tab vm) root True va \<Longrightarrow>
    vm_run bt vm0 roots (vm\<lparr>tab := put_tab (tab vm) (pte (tab vm) root (page_no va) AND PG_ADDR) k v\<rparr>)"
| vm_kernel: "vm_run bt vm0 roots vm \<Longrightarrow> pmm_alloc_frame (vm_pmm vm) = (a, p) \<Longrightarrow> a \<noteq> 0 \<Longrightarrow>
    vm_run bt vm0 roots (vm\<lparr>vm_pmm := p, tab := (tab vm)(a := contents)\<rparr>)"
| vm_destroy: "vm_run bt vm0 roots vm \<Longrightarrow> root \<in> roots \<Longrightarrow> vm_run bt vm0 (roots - {root}) (vmspace_destroy root vm)"

text \<open>A store by a program leaves every space as it is.\<close>

lemma store_effect:
  fixes k :: nat and v :: u64
  assumes ok: "vm_ok bt roots vm" and r: "root \<in> roots" and m: "mmu_user (tab vm) root True va"
  defines "vm' \<equiv> vm\<lparr>tab := put_tab (tab vm) (pte (tab vm) root (page_no va) AND PG_ADDR) k v\<rparr>"
  shows "vm_ok bt roots vm'" "\<And>q. q \<in> roots \<Longrightarrow> space_abs (tab vm') q = space_abs (tab vm) q"
proof -
  note o = vm_okD [OF ok]
  let ?f = "pte (tab vm) root (page_no va) AND PG_ADDR"
  have p: "present_at (tab vm) root (Leaf (page_no va))"
    using m unfolding mmu_user_iff [OF o(5) [OF r] o(3,4)] space_abs_def by (auto split: if_splits simp del: present_at.simps)
  have fo: "?f \<in> owned (tab vm) root" using present_owned [OF p] by simp
  have nt: "?f \<notin> tables (tab vm) root"
  proof
    assume "?f \<in> tables (tab vm) root"
    then obtain pos where q: "present_at (tab vm) root pos" "\<not> is_Leaf pos" "?f = frame_at (tab vm) root pos" unfolding tables_def by blast
    then show False using space_okD(1) [OF o(5) [OF r] p, of pos] by auto
  qed
  have keep: "\<forall>x\<in>tables (tab vm) q. tab vm' x = tab vm x" if "q \<in> roots" for q
  proof
    fix x assume x: "x \<in> tables (tab vm) q"
    have "x \<noteq> ?f"
    proof (cases "q = root")
      case False
      then show ?thesis using o(8) [OF that r] fo x tables_owned [of "tab vm" q] by blast
    qed (use nt x in auto)
    then show "tab vm' x = tab vm x" by (simp add: vm'_def put_tab_def)
  qed
  note fr = space_frame_ok [OF keep]
  show "\<And>q. q \<in> roots \<Longrightarrow> space_abs (tab vm') q = space_abs (tab vm) q" by (rule fr(3))
  have pm: "vm_pmm vm' = vm_pmm vm" by (simp add: vm'_def)
  have "?f \<noteq> boot_pd bt" using o(7) [OF r] fo by (auto simp: boot_frames_def)
  then have bd: "tab vm' (boot_pd bt) = tab vm (boot_pd bt)" by (simp add: vm'_def put_tab_def)
  have each: "space_ok bt (tab vm') q \<and> owned (tab vm') q = owned (tab vm) q" if "q \<in> roots" for q
    using fr(1,4) [OF that] o(5) [OF that] by blast
  then show "vm_ok bt roots vm'" using o(1,2,3,4,6,7,8) bd unfolding vm_ok_def pm by simp
qed

lemma vm_run_ok: "vm_run bt vm0 roots vm \<Longrightarrow> vm_ok bt {} vm0 \<Longrightarrow> vm_ok bt roots vm"
proof (induction rule: vm_run.induct)
  case (vm_create roots vm sp vm')
  then show ?case using create_effect(1) [of bt roots vm sp vm'] by simp
next
  case (vm_create_null roots vm sp vm')
  then show ?case using create_effect(1) [of bt roots vm sp vm'] by simp
next
  case (vm_map roots vm root va w f vm')
  then show ?case using map_fresh_effect(1) by blast
next
  case (vm_store roots vm root va k v)
  then show ?case using store_effect(1) by blast
next
  case (vm_kernel roots vm a p contents)
  then have ok: "vm_ok bt roots vm" by simp
  note n = pool.alloc_fresh [OF vm_okD(1) [OF ok] vm_kernel(2,3)]
  show ?case by (rule vm_ok_fresh(1) [OF ok]) (use n in auto)
next
  case (vm_destroy roots vm root)
  then show ?case using destroy_effect(2) by blast
qed

text \<open>C23. Isolation. After any run of creations, mappings, user stores, kernel allocations and destructions,
  no two user pages of live spaces share a physical frame, no user page lies on a page table of any
  space or on a boot table, and every address a program can reach in user mode is a page mapped in its
  own private half.\<close>

theorem spaces_isolated:
  assumes "vm_run bt vm0 roots vm" and "vm_ok bt {} vm0" and "r \<in> roots" "q \<in> roots"
    and "space_abs (tab vm) r n = Some (f, w)"
  shows "(space_abs (tab vm) q m = Some (f, w') \<longrightarrow> q = r \<and> m = n) \<and> f \<notin> tables (tab vm) q \<and> f \<notin> boot_frames bt
    \<and> f \<in> in_use (vm_pmm vm) \<and> (mmu_user (tab vm) q wr va \<longrightarrow> user_va va \<and> space_abs (tab vm) q (page_no va) \<noteq> None)"
proof -
  have ok: "vm_ok bt roots vm" using vm_run_ok assms(1,2) by blast
  note v = vm_okD [OF ok]
  have at: "present_at (tab vm) r (Leaf n)" "f = frame_at (tab vm) r (Leaf n)"
    using assms(5) by (simp_all add: space_abs_def split: if_splits)
  have fo: "f \<in> owned (tab vm) r" using present_owned [OF at(1)] at(2) by simp
  have one: "q = r" if "f \<in> owned (tab vm) q" using v(8) [OF assms(4,3)] fo that by blast
  have "q = r \<and> m = n" if "space_abs (tab vm) q m = Some (f, w')"
  proof -
    have q: "present_at (tab vm) q (Leaf m)" "f = frame_at (tab vm) q (Leaf m)" using that by (simp_all add: space_abs_def split: if_splits)
    then have "q = r" using one present_owned [OF q(1)] by simp
    then show ?thesis using space_okD(1) [OF v(5) [OF assms(3)] at(1), of "Leaf m"] q at(2) by simp
  qed
  moreover have "f \<notin> tables (tab vm) q"
  proof
    assume a: "f \<in> tables (tab vm) q"
    then have "q = r" using one tables_owned by blast
    then obtain pos where "present_at (tab vm) r pos" "\<not> is_Leaf pos" "f = frame_at (tab vm) r pos" using a unfolding tables_def by blast
    then show False using space_okD(1) [OF v(5) [OF assms(3)] at(1), of pos] at(2) by auto
  qed
  moreover have "mmu_user (tab vm) q wr va \<longrightarrow> user_va va \<and> space_abs (tab vm) q (page_no va) \<noteq> None"
    unfolding mmu_user_iff [OF v(5) [OF assms(4)] v(3,4)] by auto
  ultimately show ?thesis using v(6,7) [OF assms(3)] fo by blast
qed

section \<open>A concrete machine\<close>

text \<open>Eight frames; frame 0 and frame 1, the boot tables, are reserved.\<close>

definition demo_boot :: boot_t where
  "demo_boot = \<lparr>boot_pml4 = 0x1000, boot_pdpt = 0x1000, boot_pd = 0x1000\<rparr>"

definition demo_vm :: vm_t where
  "demo_vm = \<lparr>vm_pmm = \<lparr>total_frames = 8, free_frames = 6, used_frames = 2, frame_bitmap = (\<lambda>_. 0)(0 := 3), highest_frame = 7, pmm_alloc_hint = 0\<rparr>,
     tab = (\<lambda>_ _. 0), created_count = 0\<rparr>"

lemma demo_vm_ok: "vm_ok demo_boot {} demo_vm"
proof -
  let ?p = "vm_pmm demo_vm"
  have "list_all (\<lambda>i. frame_bit (frame_bitmap ?p) i \<longleftrightarrow> i = 0 \<or> i = 1) [0..<8]" by code_simp
  then have b: "frame_bit (frame_bitmap ?p) i \<longleftrightarrow> i = 0 \<or> i = 1" if "i < 8" for i
    using that by (simp add: list_all_iff)
  have f: "frames_of ?p = {0, 1}" using b by (auto simp: frames_of_def demo_vm_def)
  have inv: "pmm_inv ?p" unfolding pmm_inv_def f using b [of 0] by (simp add: demo_vm_def)
  have "in_use ?p = {0, 0x1000}" unfolding in_use_def f by simp
  then show ?thesis using inv by (simp add: vm_ok_def demo_boot_def boot_frames_def frame_ok_def demo_vm_def)
qed

lemma demo_space: "as_pml4 (fst (vmspace_create demo_boot demo_vm)) = 0x2000" "fst (pmm_alloc_frame (vm_pmm demo_vm)) = 0x2000"
  by (code_simp, code_simp)

definition demo_vm1 :: vm_t where
  "demo_vm1 = snd (vmspace_create demo_boot demo_vm)"

definition demo_vm2 :: vm_t where
  "demo_vm2 = snd (map_fresh_page 0x2000 0x40000000 True demo_vm1)"

lemma demo_page: "fst (map_fresh_page 0x2000 0x40000000 True demo_vm1) = 0x4000"
  by code_simp

lemma demo_create: "\<exists>sp. vmspace_create demo_boot demo_vm = (sp, demo_vm1) \<and> as_pml4 sp = 0x2000"
  using demo_space(1) unfolding demo_vm1_def by (metis prod.collapse)

lemma demo_ok1: "vm_ok demo_boot {0x2000} demo_vm1" "space_abs (tab demo_vm1) 0x2000 = Map.empty"
  using demo_create create_effect(1) [OF demo_vm_ok] by (auto split: if_splits)

lemma demo_map: "map_fresh_page 0x2000 0x40000000 True demo_vm1 = (0x4000, demo_vm2)"
  using demo_page unfolding demo_vm2_def by (metis prod.collapse)

lemma demo_va: "user_va 0x40000000" "page_no 0x40000000 = 0"
  by (simp_all add: user_va_def page_no_def)

lemma demo_ok2: "vm_ok demo_boot {0x2000} demo_vm2" "space_abs (tab demo_vm2) 0x2000 = [0 \<mapsto> (0x4000, True)]"
  using map_fresh_effect(1,2) [OF demo_ok1(1) _ demo_va(1) demo_map] by (simp_all add: demo_ok1(2) demo_va(2))

theorem spaces_isolated_witness:
  "\<exists>vm. vm_run demo_boot demo_vm {0x2000} vm \<and> space_abs (tab vm) 0x2000 0 = Some (0x4000, True) \<and> 0x4000 \<notin> tables (tab vm) 0x2000"
proof -
  obtain sp where "vmspace_create demo_boot demo_vm = (sp, demo_vm1)" "as_pml4 sp = 0x2000" using demo_create by blast
  then have "vm_run demo_boot demo_vm {0x2000} demo_vm1" using vm_create [OF vm_start, of demo_boot demo_vm sp demo_vm1] by simp
  then have run: "vm_run demo_boot demo_vm {0x2000} demo_vm2" by (rule vm_map [OF _ _ demo_va(1) demo_map]) simp
  have s: "space_abs (tab demo_vm2) 0x2000 0 = Some (0x4000, True)" by (simp add: demo_ok2(2))
  show ?thesis using spaces_isolated [OF run demo_vm_ok _ _ s, of "0x2000"] run s by blast
qed

section \<open>The span check\<close>

text \<open>C24. The check that guards every buffer a system call touches is exact: in any reachable space it accepts a
  span if and only if every byte of it, taken without wrap-around, can be read (or written, when asked) by
  the process itself in user mode.\<close>

theorem user_ok_exact:
  assumes "vm_ok bt roots vm" and "root \<in> roots"
  shows "vmspace_user_ok (tab vm) root va len wr \<longleftrightarrow>
    (\<forall>b. unat va \<le> b \<and> b < unat va + unat len \<longrightarrow> b < 2 ^ 64 \<and> mmu_user (tab vm) root wr (of_nat b))"
  by (rule user_ok_correct [OF assms])

theorem user_ok_exact_witness:
  "vmspace_user_ok (tab demo_vm2) 0x2000 0x40000FF0 16 True \<and> \<not> vmspace_user_ok (tab demo_vm2) 0x2000 0x40000FF0 17 True"
proof -
  note ok = demo_ok2(1)
  have m: "mmu_user (tab demo_vm2) 0x2000 True va \<longleftrightarrow> user_va va \<and> page_no va = 0" for va
    unfolding mmu_user_iff [OF vm_okD(5) [OF ok singletonI] vm_okD(3,4) [OF ok], simplified] demo_ok2(2) by auto
  have a: "user_va (of_nat b) \<and> page_no (of_nat b) = 0 \<longleftrightarrow> 0x40000000 \<le> b \<and> b < 0x40001000" if "b < 2 ^ 32" for b
  proof -
    have u: "unat (of_nat b :: u64) = b" using that by (intro unat_of_nat64) simp
    have "(b - 0x40000000) div 4096 = 0 \<longleftrightarrow> b - 0x40000000 < 4096" by (simp add: div_eq_0_iff)
    then show ?thesis unfolding user_va_def page_no_def u by auto
  qed
  have u: "unat (0x40000FF0 :: u64) = 0x40000FF0" "unat (16 :: u64) = 16" "unat (17 :: u64) = 17" by simp_all
  have "vmspace_user_ok (tab demo_vm2) 0x2000 0x40000FF0 16 True"
    unfolding user_ok_exact [OF ok singletonI] u m
  proof (intro allI impI conjI)
    fix b :: nat assume b: "0x40000FF0 \<le> b \<and> b < 0x40000FF0 + 16"
    then have "user_va (of_nat b) \<and> page_no (of_nat b) = 0" using a [of b] by simp
    then show "user_va (of_nat b)" "page_no (of_nat b) = 0" by simp_all
    show "b < 2 ^ 64" using b by simp
  qed
  moreover have "\<not> vmspace_user_ok (tab demo_vm2) 0x2000 0x40000FF0 17 True"
    unfolding user_ok_exact [OF ok singletonI] u m using a [of "0x40001000"] by (auto intro!: exI [of _ "0x40001000"])
  ultimately show ?thesis by blast
qed

section \<open>Mapping\<close>

text \<open>C25. A mapping refines the update of one abstract page map: on success the space maps the page to the frame with
  the given permission and nothing else changes in any space; on failure no page of any space changes, and the frame
  allocator has nothing left.\<close>

theorem map_page_refines:
  assumes "vm_ok bt roots vm" and "root \<in> roots" and "user_va va"
    and "pa \<in> in_use (vm_pmm vm)" "pa \<noteq> 0" "pa \<notin> boot_frames bt" "\<forall>r\<in>roots. pa \<notin> owned (tab vm) r"
    and "vmspace_map_page root va pa w vm = (b, vm')"
  shows "vm_ok bt roots vm' \<and> (\<not> b \<longrightarrow> fst (pmm_alloc_frame (vm_pmm vm')) = 0)
    \<and> (\<forall>r\<in>roots. space_abs (tab vm') r = (if b \<and> r = root then (space_abs (tab vm) r)(page_no va \<mapsto> (pa, w)) else space_abs (tab vm) r))"
  using map_page_effect [OF assms] by auto

text \<open>A second page for the concrete space, in a frame taken by hand.\<close>

theorem map_page_refines_witness:
  "\<exists>a vm vm'. a \<noteq> 0 \<and> vmspace_map_page 0x2000 0x40005000 a False vm = (True, vm')
     \<and> space_abs (tab vm') 0x2000 = [0 \<mapsto> (0x4000, True), 5 \<mapsto> (a, False)]"
proof -
  define vm where "vm = snd (alloc_table demo_vm2)"
  have "fst (alloc_table demo_vm2) = 0x7000" unfolding demo_vm2_def demo_vm1_def by code_simp
  then have a: "alloc_table demo_vm2 = (0x7000, vm)" unfolding vm_def by (metis prod.collapse)
  have b: "fst (vmspace_map_page 0x2000 0x40005000 0x7000 False vm)" unfolding vm_def demo_vm2_def demo_vm1_def by code_simp
  then obtain vm' where m: "vmspace_map_page 0x2000 0x40005000 0x7000 False vm = (True, vm')" by (metis prod.collapse)
  note v = vm_okD [OF demo_ok2(1)]
  show ?thesis using v(1) a
  proof (cases rule: alloc_table_cases)
    case frame
    have s: "in_use (vm_pmm demo_vm2) \<subseteq> in_use (vm_pmm vm)" "\<forall>x\<in>in_use (vm_pmm demo_vm2). tab vm x = tab demo_vm2 x"
      using frame(2,4,5) by auto
    note F = vm_ok_fresh [OF demo_ok2(1) frame(3) s]
    have pa: "0x7000 \<in> in_use (vm_pmm vm)" "0x7000 \<notin> boot_frames demo_boot" "\<forall>r\<in>{0x2000}. 0x7000 \<notin> owned (tab vm) r"
      using frame(2,4) v(2,6) F(2) by auto
    have u: "user_va 0x40005000" "page_no 0x40005000 = 5" by (simp_all add: user_va_def page_no_def)
    show ?thesis using map_page_refines [OF F(1) singletonI u(1) pa(1) _ pa(2,3) m] m F(2) [of "0x2000"] demo_ok2(2)
      by (intro exI [of _ "0x7000"] exI [of _ vm] exI [of _ vm']) (simp add: u(2))
  qed simp
qed

section \<open>The life of a space\<close>

text \<open>Pages mapped one after the other; a page that fails is skipped.\<close>

definition populate :: "u64 \<Rightarrow> (u64 \<times> bool) list \<Rightarrow> vm_t \<Rightarrow> vm_t" where
  "populate root ps vm = fold (\<lambda>(va, w) vm. snd (map_fresh_page root va w vm)) ps vm"

lemma populate_balance:
  "vm_ok bt roots vm \<Longrightarrow> root \<in> roots \<Longrightarrow> list_all (\<lambda>(va, w). user_va va) ps \<Longrightarrow> distinct (map (page_no \<circ> fst) ps) \<Longrightarrow>
   (\<forall>(va, w)\<in>set ps. space_abs (tab vm) root (page_no va) = None) \<Longrightarrow> in_use (vm_pmm vm) = base \<union> owned (tab vm) root \<Longrightarrow> owned (tab vm) root \<inter> base = {} \<Longrightarrow>
   vm_ok bt roots (populate root ps vm) \<and> in_use (vm_pmm (populate root ps vm)) = base \<union> owned (tab (populate root ps vm)) root
   \<and> owned (tab (populate root ps vm)) root \<inter> base = {} \<and> (\<forall>q\<in>roots. q \<noteq> root \<longrightarrow> space_abs (tab (populate root ps vm)) q = space_abs (tab vm) q)"
proof (induction ps arbitrary: vm)
  case (Cons x ps)
  obtain va w where x: "x = (va, w)" by (cases x)
  obtain f vm1 where m: "map_fresh_page root va w vm = (f, vm1)" by (metis surj_pair)
  have va: "user_va va" and un: "space_abs (tab vm) root (page_no va) = None" using Cons.prems(3,5) by (simp_all add: x)
  note E = map_fresh_effect [OF Cons.prems(1,2) va m]
  have ad: "owned (tab vm) root \<subseteq> owned (tab vm1) root" "in_use (vm_pmm vm1) \<subseteq> in_use (vm_pmm vm) \<union> owned (tab vm1) root"
    using E(7) [OF disjI2 [OF un]] by (simp_all add: adds_def)
  have u: "in_use (vm_pmm vm1) = base \<union> owned (tab vm1) root"
    using ad E(5) vm_okD(6) [OF E(1) Cons.prems(2)] unfolding Cons.prems(6) by (intro equalityI) auto
  have u': "owned (tab vm1) root \<inter> base = {}" using E(8) Cons.prems(7) unfolding Cons.prems(6) by blast
  have "\<forall>(va, w)\<in>set ps. space_abs (tab vm1) root (page_no va) = None"
  proof (clarify)
    fix va' w' assume s: "(va', w') \<in> set ps"
    have "page_no va' \<noteq> page_no va" using Cons.prems(4) s by (force simp: x)
    moreover have "space_abs (tab vm) root (page_no va') = None" using bspec [OF Cons.prems(5), of "(va', w')"] s by simp
    ultimately show "space_abs (tab vm1) root (page_no va') = None" using E(2) by simp
  qed
  then have "vm_ok bt roots (populate root ps vm1) \<and> in_use (vm_pmm (populate root ps vm1)) = base \<union> owned (tab (populate root ps vm1)) root
   \<and> owned (tab (populate root ps vm1)) root \<inter> base = {} \<and> (\<forall>q\<in>roots. q \<noteq> root \<longrightarrow> space_abs (tab (populate root ps vm1)) q = space_abs (tab vm1) q)"
    using Cons.prems(3,4) by (intro Cons.IH [OF E(1) Cons.prems(2) _ _ _ u u']) (simp_all add: x)
  then show ?case using E(3) by (simp add: populate_def x m)
qed (simp add: populate_def)



lemma map_present:
  assumes ok: "space_ok bt (tab vm) root" and va: "user_va va" and p: "present_at (tab vm) root (Pt (page_no va div 512))"
  shows "vmspace_map_page root va pa w vm =
    (True, set_tab_entry (pt_entry (tab vm) root (page_no va div 512) AND PG_ADDR) (page_no va mod 512) (page_entry pa w) vm)"
proof -
  have r0: "root \<noteq> 0" using space_okD(2) [OF ok present_owned [of _ _ Root]] by simp
  have pd: "tab vm (tab vm root 0 AND PG_ADDR) 1 = pd_entry (tab vm) root" by (simp add: pd_entry_def)
  have pt: "tab vm (pd_entry (tab vm) root AND PG_ADDR) (page_no va div 512) = pt_entry (tab vm) root (page_no va div 512)" by (simp add: pt_entry_def)
  show ?thesis using r0 p unfolding vmspace_map_page_def user_index [OF va] ensure_table_def Let_def pd pt
    by (simp add: pd [simplified] pt page_entry_def)
qed

text \<open>C27. A page mapped twice loses its first frame: \<open>vmspace_map_page\<close> overwrites a present entry, after which the
  frame is in use but belongs to no space, and destroying the space does not give it back.\<close>

theorem remap_leaks:
  assumes "vm_ok bt roots vm" and "root \<in> roots" and "user_va va" and "space_abs (tab vm) root (page_no va) = Some (f, w)"
    and "map_fresh_page root va w' vm = (g, vm')" "g \<noteq> 0"
  shows "f \<in> in_use (vm_pmm (vmspace_destroy root vm')) \<and> (\<forall>r\<in>roots. f \<notin> owned (tab vm') r)"
proof -
  note v = vm_okD [OF assms(1)]
  have L: "present_at (tab vm) root (Leaf (page_no va))" "frame_at (tab vm) root (Leaf (page_no va)) = f"
    using assms(4) by (simp_all add: space_abs_def split: if_splits)
  have fo: "f \<in> owned (tab vm) root" using present_owned [OF L(1)] L(2) by simp
  then have fu: "f \<in> in_use (vm_pmm vm)" using v(6) [OF assms(2)] by blast
  obtain vm1 where a: "alloc_table vm = (g, vm1)" and m: "vmspace_map_page root va g w' vm1 = (True, vm')"
    using assms(5,6) unfolding map_fresh_page_def by (auto split: prod.splits if_splits)
  show ?thesis using v(1) a
  proof (cases rule: alloc_table_cases)
    case frame
    have s: "in_use (vm_pmm vm) \<subseteq> in_use (vm_pmm vm1)" "\<forall>x\<in>in_use (vm_pmm vm). tab vm1 x = tab vm x" using frame(2,4,5) by auto
    note F = vm_ok_fresh [OF assms(1) frame(3) s]
    have keep: "\<forall>x\<in>tables (tab vm) root. tab vm1 x = tab vm x" using s(2) v(6) [OF assms(2)] tables_owned by blast
    note fr = space_frame [OF keep]
    have "present_at (tab vm) root (Pt (page_no va div 512))" using L(1) user_index(5) [OF assms(3)] by simp
    then have P: "present_at (tab vm1) root (Pt (page_no va div 512))" by (simp only: fr(1))
    note sp = vm_okD(5) [OF F(1) assms(2)]
    have vm': "vm' = set_tab_entry (pt_entry (tab vm1) root (page_no va div 512) AND PG_ADDR) (page_no va mod 512) (page_entry g w') vm1"
      using m map_present [OF sp assms(3) P] by simp
    have gn: "g \<notin> owned (tab vm1) r" if "r \<in> roots" for r using F(2) [OF that] v(6) [OF that] frame(2) by blast
    note nl = new_leaf [OF sp P _ gn [OF assms(2)] frame(1), of w', folded set_tab_entry_simps(1), folded vm']
    have ex: "extends (tab vm1) (tab vm') root (Leaf (page_no va)) g" by (rule nl(1)) (use L(1) in simp)
    have nf: "f \<notin> owned (tab vm') root"
    proof
      assume "f \<in> owned (tab vm') root"
      then obtain pos where p: "present_at (tab vm') root pos" "f = frame_at (tab vm') root pos" unfolding owned_iff by blast
      have "f \<noteq> g" using fu frame(2) by metis
      then have "pos \<noteq> Leaf (page_no va)" "present_at (tab vm1) root pos" "f = frame_at (tab vm1) root pos"
        using p ex unfolding extends_def by metis+
      then show False using fr(1,2) space_okD(1) [OF v(5) [OF assms(2)] L(1), of pos] L(2) by metis
    qed
    have other: "f \<notin> owned (tab vm') r" if "r \<in> roots" "r \<noteq> root" for r
    proof -
      have T: "pt_entry (tab vm1) root (page_no va div 512) AND PG_ADDR \<in> owned (tab vm1) root" using present_owned [OF P] by simp
      have "\<forall>x\<in>tables (tab vm1) r. tab vm' x = tab vm1 x"
        using vm_okD(8) [OF F(1) that(1) assms(2) that(2)] T tables_owned [of "tab vm1" r] by (auto simp: vm' put_tab_def)
      then have "owned (tab vm') r = owned (tab vm) r" using space_frame_ok(1) F(2) [OF that(1)] by simp
      then show ?thesis using v(8) [OF that(1) assms(2) that(2)] fo by blast
    qed
    have ok': "vm_ok bt roots vm'" by (rule map_fresh_effect(1) [OF assms(1,2,3,5)])
    have "f \<in> in_use (vm_pmm vm')" using map_fresh_effect(5) [OF assms(1,2,3,5)] fu by blast
    then have "f \<in> in_use (vm_pmm (vmspace_destroy root vm'))" unfolding destroy_effect(1) [OF ok' assms(2)] using nf by blast
    then show ?thesis using nf other by blast
  qed (use assms(6) in simp)
qed

theorem remap_leaks_witness:
  "0x4000 \<in> in_use (vm_pmm (vmspace_destroy 0x2000 (snd (map_fresh_page 0x2000 0x40000000 False demo_vm2)))) \<and> 0x4000 \<notin> in_use (vm_pmm demo_vm)"
proof -
  have "fst (map_fresh_page 0x2000 0x40000000 False demo_vm2) = 0x7000" unfolding demo_vm2_def demo_vm1_def by code_simp
  then have m: "map_fresh_page 0x2000 0x40000000 False demo_vm2 = (0x7000, snd (map_fresh_page 0x2000 0x40000000 False demo_vm2))"
    by (metis prod.collapse)
  have s: "space_abs (tab demo_vm2) 0x2000 (page_no 0x40000000) = Some (0x4000, True)" by (simp add: demo_ok2(2) demo_va(2))
  have "0x4000 \<notin> in_use (vm_pmm demo_vm1)" using map_fresh_effect(4) [OF demo_ok1(1) singletonI demo_va(1) demo_map] by simp
  moreover obtain sp where "vmspace_create demo_boot demo_vm = (sp, demo_vm1)" using demo_create by blast
  ultimately have "0x4000 \<notin> in_use (vm_pmm demo_vm)" using create_effect(3) [OF demo_vm_ok] by blast
  then show ?thesis using remap_leaks [OF demo_ok2(1) singletonI demo_va(1) s m] by simp
qed

end
