(* ===== verification/Proc.thy ===== *)
theory Proc
  imports Authority
begin

text \<open>
  The process table of \<open>kernel/src/process.c\<close> (\<open>kernel/include/kernel/process.h\<close>): the process control
  blocks, the ready queues linked through them, families and statistics. A pointer to a PCB is the index
  of its slot, NULL is \<open>None\<close>. The child array with its count is a list; the fields that are written once and never read (creation time, port count,
  qubit allocation and runtime) are left out.
\<close>

section \<open>State\<close>

abbreviation (input) PRIORITY_IDLE :: nat where "PRIORITY_IDLE \<equiv> 0"
abbreviation (input) PRIORITY_NORMAL :: nat where "PRIORITY_NORMAL \<equiv> 2"
abbreviation (input) PRIORITY_KERNEL :: nat where "PRIORITY_KERNEL \<equiv> 5"
abbreviation (input) PROCESS_MAX_FDS :: nat where "PROCESS_MAX_FDS \<equiv> 8"
abbreviation (input) PROC_SLOTS :: nat where "PROC_SLOTS \<equiv> 256"
abbreviation (input) IDLE_PROCESS_ID :: nat where "IDLE_PROCESS_ID \<equiv> 1"

datatype status_t = STATUS_SUCCESS | STATUS_ERROR | STATUS_INVALID_ARG | STATUS_NO_MEMORY | STATUS_NOT_FOUND
  | PROCESS_ERROR_INVALID_PID | PROCESS_ERROR_NOT_FOUND | PROCESS_ERROR_INVALID_STATE | PROCESS_ERROR_NO_MEMORY
  | PROCESS_ERROR_TOO_MANY_PROCESSES | PROCESS_ERROR_INVALID_PARENT

text \<open>The saved registers; \<open>ctx_regs\<close> holds the general ones that only the processor reads.\<close>

record cpu_state_t =
  ctx_regs :: "u64 list"
  ctx_rip :: u64
  ctx_cs :: u64
  ctx_eflags :: u64
  ctx_rsp :: u64
  ctx_ss :: u64

record fd_t =
  fd_data :: u64
  fd_size :: u32
  fd_offset :: u32
  fd_used :: bool
  fd_writable :: bool
  fd_ram_idx :: int

record proc_t =
  p_pid :: u32
  p_parent :: u32
  p_name :: string
  p_type :: process_type_t
  p_state :: process_state_t
  p_priority :: nat
  p_rip :: u64
  p_rsp :: u64
  p_rbp :: u64
  p_cr3 :: u64
  p_context :: cpu_state_t
  p_context_valid :: bool
  p_vas :: u64
  p_memory_size :: u64
  p_stack_top :: u64
  p_stack_bottom :: u64
  p_owns_stack :: bool
  p_runtime_total :: u64
  p_runtime_last :: u64
  p_last_scheduled :: u64
  p_sched_picks :: u64
  p_io_boost :: bool
  p_capability_root :: u32
  p_capability_count :: u32
  p_children :: "u32 list"
  p_exit_code :: int
  p_has_exited :: bool
  p_generation :: u32
  p_quantum_aware :: bool
  p_quantum_cap :: u32
  p_fds :: "nat \<Rightarrow> fd_t"
  p_magic_ok :: bool
  p_next :: "nat option"
  p_prev :: "nat option"

record process_create_params_t =
  pp_name :: "string option"
  pp_type :: process_type_t
  pp_priority :: nat
  pp_parent :: u32
  pp_entry :: u64
  pp_stack_address :: u64
  pp_stack_size :: u64
  pp_quantum_aware :: bool

record process_stats_t =
  total_processes :: u32
  active_processes :: u32
  zombie_processes :: u32
  context_switches :: u64

record proc_state =
  ptable :: "nat \<Rightarrow> proc_t"
  ptable_init :: bool
  pgen_next :: u32
  pgen :: "nat \<Rightarrow> u32"
  cur_proc :: "nat option"
  ready_queue :: "nat \<Rightarrow> nat option"
  pstats :: process_stats_t
  fail_next_create :: bool

definition zero_ctx :: cpu_state_t where
  "zero_ctx = \<lparr>ctx_regs = [], ctx_rip = 0, ctx_cs = 0, ctx_eflags = 0, ctx_rsp = 0, ctx_ss = 0\<rparr>"

definition zero_fd :: fd_t where
  "zero_fd = \<lparr>fd_data = 0, fd_size = 0, fd_offset = 0, fd_used = False, fd_writable = False, fd_ram_idx = 0\<rparr>"

text \<open>A PCB as \<open>memset\<close> leaves it.\<close>

definition zero_pcb :: proc_t where
  "zero_pcb = \<lparr>p_pid = 0, p_parent = 0, p_name = [], p_type = PROCESS_TYPE_KERNEL, p_state = PROCESS_STATE_UNUSED, p_priority = 0,
     p_rip = 0, p_rsp = 0, p_rbp = 0, p_cr3 = 0, p_context = zero_ctx, p_context_valid = False, p_vas = 0, p_memory_size = 0,
     p_stack_top = 0, p_stack_bottom = 0, p_owns_stack = False, p_runtime_total = 0, p_runtime_last = 0, p_last_scheduled = 0,
     p_sched_picks = 0, p_io_boost = False, p_capability_root = 0, p_capability_count = 0, p_children = [], p_exit_code = 0,
     p_has_exited = False, p_generation = 0, p_quantum_aware = False, p_quantum_cap = 0, p_fds = (\<lambda>_. zero_fd), p_magic_ok = False,
     p_next = None, p_prev = None\<rparr>"

definition upd :: "nat \<Rightarrow> (proc_t \<Rightarrow> proc_t) \<Rightarrow> proc_state \<Rightarrow> proc_state" where
  "upd i f ps = ps\<lparr>ptable := (ptable ps)(i := f (ptable ps i))\<rparr>"

section \<open>Lookup\<close>

text \<open>The validity test on this table.\<close>

definition slot_valid :: "u32 \<Rightarrow> proc_state \<Rightarrow> bool" where
  "slot_valid pid ps \<longleftrightarrow> \<not> pid \<ge> MAX_PROCESSES \<and> p_magic_ok (ptable ps (unat pid)) \<and> p_state (ptable ps (unat pid)) \<noteq> PROCESS_STATE_UNUSED"

definition slot_get :: "u32 \<Rightarrow> proc_state \<Rightarrow> nat option" where
  "slot_get pid ps = (if slot_valid pid ps then Some (unat pid) else None)"

definition slot_generation :: "u32 \<Rightarrow> proc_state \<Rightarrow> u32" where
  "slot_generation pid ps = (if pid \<ge> MAX_PROCESSES then 0 else pgen ps (unat pid))"

definition find_free_pid :: "proc_state \<Rightarrow> nat" where
  "find_free_pid ps = (case first_idx (\<lambda>i. p_state (ptable ps i) = PROCESS_STATE_UNUSED) 0 PROC_SLOTS of Some i \<Rightarrow> i | None \<Rightarrow> PROC_SLOTS)"

definition process_get_state :: "u32 \<Rightarrow> proc_state \<Rightarrow> process_state_t" where
  "process_get_state pid ps = (if slot_valid pid ps then p_state (ptable ps (unat pid)) else PROCESS_STATE_UNUSED)"

definition process_is_ready :: "u32 \<Rightarrow> proc_state \<Rightarrow> bool" where
  "process_is_ready pid ps \<longleftrightarrow> slot_valid pid ps \<and> p_state (ptable ps (unat pid)) = PROCESS_STATE_READY"

definition process_is_running :: "u32 \<Rightarrow> proc_state \<Rightarrow> bool" where
  "process_is_running pid ps \<longleftrightarrow> slot_valid pid ps \<and> p_state (ptable ps (unat pid)) = PROCESS_STATE_RUNNING"

definition process_is_terminated :: "u32 \<Rightarrow> proc_state \<Rightarrow> bool" where
  "process_is_terminated pid ps \<longleftrightarrow> slot_valid pid ps
     \<and> (p_state (ptable ps (unat pid)) = PROCESS_STATE_TERMINATED \<or> p_state (ptable ps (unat pid)) = PROCESS_STATE_ZOMBIE)"

definition process_alive :: "proc_t \<Rightarrow> bool" where
  "process_alive p \<longleftrightarrow> p_state p \<noteq> PROCESS_STATE_UNUSED \<and> p_state p \<noteq> PROCESS_STATE_TERMINATED \<and> p_state p \<noteq> PROCESS_STATE_ZOMBIE"

definition process_any_fd_references :: "u64 \<Rightarrow> proc_state \<Rightarrow> bool" where
  "process_any_fd_references d ps \<longleftrightarrow> d \<noteq> 0 \<and> (\<exists>i\<in>set [0..<PROC_SLOTS]. p_magic_ok (ptable ps i) \<and> process_alive (ptable ps i)
     \<and> (\<exists>fd\<in>set [0..<PROCESS_MAX_FDS]. fd_used (p_fds (ptable ps i) fd) \<and> fd_data (p_fds (ptable ps i) fd) = d))"

section \<open>Ready queues\<close>

definition add_to_ready_queue :: "nat \<Rightarrow> proc_state \<Rightarrow> proc_state" where
  "add_to_ready_queue i ps =
     (let prio = p_priority (ptable ps i) in
      if prio > PRIORITY_KERNEL then ps
      else let h = ready_queue ps prio;
               ps = upd i (\<lambda>p. p\<lparr>p_next := h, p_prev := None\<rparr>) ps;
               ps = (case h of Some j \<Rightarrow> upd j (\<lambda>p. p\<lparr>p_prev := Some i\<rparr>) ps | None \<Rightarrow> ps)
           in ps\<lparr>ready_queue := (ready_queue ps)(prio := Some i)\<rparr>)"

definition remove_from_ready_queue :: "nat \<Rightarrow> proc_state \<Rightarrow> proc_state" where
  "remove_from_ready_queue i ps =
     (let nx = p_next (ptable ps i); pv = p_prev (ptable ps i);
          ps = (case pv of Some j \<Rightarrow> upd j (\<lambda>p. p\<lparr>p_next := nx\<rparr>) ps
                | None \<Rightarrow> (case first_idx (\<lambda>q. ready_queue ps q = Some i) 0 (Suc PRIORITY_KERNEL) of
                     Some q \<Rightarrow> ps\<lparr>ready_queue := (ready_queue ps)(q := nx)\<rparr> | None \<Rightarrow> ps));
          ps = (case nx of Some j \<Rightarrow> upd j (\<lambda>p. p\<lparr>p_prev := pv\<rparr>) ps | None \<Rightarrow> ps)
      in upd i (\<lambda>p. p\<lparr>p_next := None, p_prev := None\<rparr>) ps)"

definition process_set_state :: "u32 \<Rightarrow> process_state_t \<Rightarrow> proc_state \<Rightarrow> status_t \<times> proc_state" where
  "process_set_state pid new_state ps =
     (if \<not> slot_valid pid ps then (PROCESS_ERROR_INVALID_PID, ps)
      else let i = unat pid;
               ps = (if p_state (ptable ps i) = PROCESS_STATE_READY then remove_from_ready_queue i ps else ps);
               ps = upd i (\<lambda>p. p\<lparr>p_state := new_state\<rparr>) ps;
               ps = (if new_state = PROCESS_STATE_READY then add_to_ready_queue i ps else ps)
           in (STATUS_SUCCESS, ps))"

text \<open>The queue scan from the top; without a ready process it answers the idle slot.\<close>

definition process_get_next_ready :: "proc_state \<Rightarrow> nat" where
  "process_get_next_ready ps = (case find (\<lambda>q. ready_queue ps q \<noteq> None) (rev [0..<Suc PRIORITY_KERNEL]) of
     Some q \<Rightarrow> the (ready_queue ps q) | None \<Rightarrow> IDLE_PROCESS_ID)"

definition process_exit :: "u32 \<Rightarrow> int \<Rightarrow> proc_state \<Rightarrow> status_t \<times> proc_state" where
  "process_exit pid code ps =
     (if \<not> ptable_init ps then (STATUS_ERROR, ps)
      else if \<not> slot_valid pid ps then (PROCESS_ERROR_INVALID_PID, ps)
      else let i = unat pid;
               ps = upd i (\<lambda>p. p\<lparr>p_exit_code := code, p_has_exited := True\<rparr>) ps;
               ps = snd (process_set_state pid PROCESS_STATE_ZOMBIE ps);
               ps = remove_from_ready_queue i ps
           in (STATUS_SUCCESS, ps\<lparr>pstats := (pstats ps)\<lparr>active_processes := active_processes (pstats ps) - 1,
                zombie_processes := zombie_processes (pstats ps) + 1\<rparr>\<rparr>))"

section \<open>Switching\<close>

definition process_switch_to :: "u64 \<Rightarrow> nat \<Rightarrow> proc_state \<Rightarrow> status_t \<times> proc_state" where
  "process_switch_to now i ps =
     (if \<not> slot_valid (p_pid (ptable ps i)) ps then (PROCESS_ERROR_INVALID_PID, ps)
      else let old = cur_proc ps;
               ps = ps\<lparr>cur_proc := Some i, pstats := (pstats ps)\<lparr>context_switches := context_switches (pstats ps) + 1\<rparr>\<rparr>;
               ps = (case old of Some j \<Rightarrow> upd j (\<lambda>p. p\<lparr>p_runtime_last := now - p_last_scheduled p,
                        p_runtime_total := p_runtime_total p + (now - p_last_scheduled p)\<rparr>) ps | None \<Rightarrow> ps)
           in (STATUS_SUCCESS, upd i (\<lambda>p. p\<lparr>p_last_scheduled := now, p_sched_picks := p_sched_picks p + 1\<rparr>) ps))"

definition process_schedule_next :: "u64 \<Rightarrow> proc_state \<Rightarrow> status_t \<times> proc_state" where
  "process_schedule_next now ps =
     (if \<not> ptable_init ps then (STATUS_ERROR, ps)
      else let nx = process_get_next_ready ps in
        if cur_proc ps = Some nx then (STATUS_SUCCESS, ps) else process_switch_to now nx ps)"

section \<open>Families\<close>

definition process_add_child :: "u32 \<Rightarrow> u32 \<Rightarrow> proc_state \<Rightarrow> status_t \<times> proc_state" where
  "process_add_child parent child ps =
     (if \<not> slot_valid parent ps \<or> \<not> slot_valid child ps then (PROCESS_ERROR_INVALID_PID, ps)
      else if length (p_children (ptable ps (unat parent))) \<ge> PROC_SLOTS then (STATUS_ERROR, ps)
      else (STATUS_SUCCESS, upd (unat parent) (\<lambda>p. p\<lparr>p_children := p_children p @ [child]\<rparr>) ps))"

definition process_remove_child :: "u32 \<Rightarrow> u32 \<Rightarrow> proc_state \<Rightarrow> status_t \<times> proc_state" where
  "process_remove_child parent child ps =
     (if \<not> slot_valid parent ps \<or> \<not> slot_valid child ps then (PROCESS_ERROR_INVALID_PID, ps)
      else if child \<in> set (p_children (ptable ps (unat parent)))
      then (STATUS_SUCCESS, upd (unat parent) (\<lambda>p. p\<lparr>p_children := remove1 child (p_children p)\<rparr>) ps)
      else (PROCESS_ERROR_NOT_FOUND, ps))"

section \<open>Creation, the part inside the table\<close>

definition validate_process_params :: "process_create_params_t \<Rightarrow> proc_state \<Rightarrow> status_t" where
  "validate_process_params pa ps =
     (case pp_name pa of None \<Rightarrow> STATUS_INVALID_ARG
      | Some nm \<Rightarrow> if length nm = 0 \<or> length nm \<ge> 64 then STATUS_INVALID_ARG
          else if pp_priority pa > PRIORITY_KERNEL then STATUS_INVALID_ARG
          else if pp_stack_size pa = 0 then STATUS_INVALID_ARG
          else if pp_parent pa \<noteq> KERNEL_PROCESS_ID \<and> \<not> slot_valid (pp_parent pa) ps then PROCESS_ERROR_INVALID_PARENT
          else STATUS_SUCCESS)"

definition init_process_pcb :: "u64 \<Rightarrow> nat \<Rightarrow> process_create_params_t \<Rightarrow> proc_state \<Rightarrow> proc_state" where
  "init_process_pcb now i pa ps =
     (let rsp = pp_stack_address pa + pp_stack_size pa - 8 in
      (upd i (\<lambda>_. zero_pcb\<lparr>p_pid := of_nat i, p_parent := pp_parent pa, p_name := take 63 (case pp_name pa of Some nm \<Rightarrow> nm | None \<Rightarrow> []),
         p_type := pp_type pa, p_state := PROCESS_STATE_CREATED, p_priority := pp_priority pa,
         p_rip := pp_entry pa, p_rsp := rsp, p_rbp := rsp, p_memory_size := pp_stack_size pa,
         p_stack_top := pp_stack_address pa, p_stack_bottom := pp_stack_address pa, p_last_scheduled := now,
         p_quantum_aware := pp_quantum_aware pa, p_generation := pgen_next ps, p_magic_ok := True\<rparr>) ps)
        \<lparr>pgen_next := pgen_next ps + 1\<rparr>)"

text \<open>The first register state.\<close>

definition entry_context :: "bool \<Rightarrow> u64 \<Rightarrow> u64 \<Rightarrow> cpu_state_t" where
  "entry_context is_user entry stack_top = zero_ctx\<lparr>ctx_rip := entry, ctx_cs := (if is_user then 0x23 else 0x08),
     ctx_ss := (if is_user then 0x1B else 0x10), ctx_eflags := 0x202, ctx_rsp := (stack_top AND NOT 0xF) - 8\<rparr>"

definition setup_stack :: "nat \<Rightarrow> process_create_params_t \<Rightarrow> u64 \<Rightarrow> bool \<Rightarrow> proc_state \<Rightarrow> proc_state" where
  "setup_stack i pa stack heap_stack ps =
     (let ps = upd i (\<lambda>p. p\<lparr>p_stack_bottom := stack, p_stack_top := stack + pp_stack_size pa, p_owns_stack := heap_stack\<rparr>) ps in
      if pp_entry pa \<noteq> 0 \<and> i \<noteq> 0 \<and> (pp_type pa = PROCESS_TYPE_KERNEL \<or> pp_type pa = PROCESS_TYPE_USER)
      then let ctx = entry_context (pp_type pa = PROCESS_TYPE_USER) (pp_entry pa) (stack + pp_stack_size pa) in
        upd i (\<lambda>p. p\<lparr>p_context := ctx, p_rsp := ctx_rsp ctx, p_context_valid := True\<rparr>) ps
      else ps)"

end
