(* ===== verification/Sched.thy ===== *)
theory Sched
  imports Proc
begin

text \<open>
  The preemptive scheduler of \<open>kernel/src/scheduler.c\<close> in its default build (\<open>SCHED_IO_BOOST\<close> set, the
  lottery and resonant experiments off). It runs in interrupt context, so every entry point is one step.
  The interrupt frame \<open>cpu_state_t *state\<close> is passed in and out; what the UART, the console and the vsock
  driver report is the argument of the entry points that ask. The operations are stated for every extension
  of the record.
\<close>

abbreviation (input) SCHED_QUANTUM_TICKS :: u32 where "SCHED_QUANTUM_TICKS \<equiv> 5"
abbreviation (input) SCHED_BOOST_MAX_CONSEC :: u32 where "SCHED_BOOST_MAX_CONSEC \<equiv> 2"
abbreviation (input) DEVICE_ID_CONSOLE :: u32 where "DEVICE_ID_CONSOLE \<equiv> 0x3F8"
abbreviation (input) DEVICE_ID_COM2 :: u32 where "DEVICE_ID_COM2 \<equiv> 0x2F8"

record sched_state =
  switch_count :: u64
  quantum_counter :: u32
  preempt_count :: u64
  boost_count :: u64
  consec_boost :: u32
  pick_was_boost :: bool
  com2_holder_pid :: u32
  com2_holder_gen :: u32
  cons_reader_pid :: u32
  cons_reader_gen :: u32
  cons_reader_waiting :: bool
  net_thread_pid :: u32
  rr_cursor :: u32
  loaded_cr3 :: u64

record sys =
  s_proc :: proc_state
  s_auth :: kernel_state
  s_sched :: sched_state

text \<open>The processes a pick may return.\<close>

definition runnable :: "proc_state \<Rightarrow> nat \<Rightarrow> bool" where
  "runnable ps i \<longleftrightarrow> slot_valid (of_nat i) ps \<and> p_state (ptable ps i) = PROCESS_STATE_READY \<and> p_context_valid (ptable ps i)"

section \<open>Picking\<close>

text \<open>Slot \<open>off\<close> places behind \<open>from\<close>, cyclically.\<close>

definition rot :: "u32 \<Rightarrow> nat \<Rightarrow> nat" where
  "rot from off = unat ((from + of_nat off) mod 256)"

definition boost_scan :: "u32 \<Rightarrow> proc_state \<Rightarrow> nat option" where
  "boost_scan from ps = map_option (rot from) (first_idx (\<lambda>off. let i = rot from off in
     runnable ps i \<and> p_io_boost (ptable ps i) \<and> i \<noteq> IDLE_PROCESS_ID) 1 257)"

definition plain_scan :: "u32 \<Rightarrow> proc_state \<Rightarrow> nat option" where
  "plain_scan cursor ps = (case first_idx (\<lambda>off. runnable ps (rot cursor off) \<and> rot cursor off \<noteq> IDLE_PROCESS_ID) 1 257 of
     Some off \<Rightarrow> Some (rot cursor off)
   | None \<Rightarrow> if runnable ps IDLE_PROCESS_ID then Some IDLE_PROCESS_ID else None)"

definition pick_next :: "u32 \<Rightarrow> 'a sys_scheme \<Rightarrow> nat option \<times> 'a sys_scheme" where
  "pick_next from_pid s =
     (let s = s\<lparr>s_sched := (s_sched s)\<lparr>pick_was_boost := False\<rparr>\<rparr> in
      case (if consec_boost (s_sched s) < SCHED_BOOST_MAX_CONSEC then boost_scan from_pid (s_proc s) else None) of
        Some i \<Rightarrow> (Some i, s\<lparr>s_sched := (s_sched s)\<lparr>pick_was_boost := True\<rparr>\<rparr>)
      | None \<Rightarrow> (plain_scan (rr_cursor (s_sched s)) (s_proc s), s))"

definition pick_commit :: "nat \<Rightarrow> 'a sys_scheme \<Rightarrow> 'a sys_scheme" where
  "pick_commit i s =
     (let s = s\<lparr>s_proc := upd i (\<lambda>p. p\<lparr>p_io_boost := False\<rparr>) (s_proc s)\<rparr>; sc = s_sched s in
      if pick_was_boost sc
      then s\<lparr>s_sched := sc\<lparr>boost_count := boost_count sc + 1, consec_boost := consec_boost sc + 1\<rparr>\<rparr>
      else s\<lparr>s_sched := sc\<lparr>consec_boost := 0, rr_cursor := p_pid (ptable (s_proc s) i)\<rparr>\<rparr>)"

section \<open>Switching\<close>

text \<open>Loading an address space; 0 stands for the kernel's own.\<close>

definition vmspace_switch :: "u64 \<Rightarrow> sched_state \<Rightarrow> sched_state" where
  "vmspace_switch cr3 sc = (if cr3 \<noteq> 0 \<and> cr3 \<noteq> loaded_cr3 sc then sc\<lparr>loaded_cr3 := cr3\<rparr> else sc)"

definition dispatch :: "u64 \<Rightarrow> u64 \<Rightarrow> nat \<Rightarrow> 'a sys_scheme \<Rightarrow> cpu_state_t \<times> 'a sys_scheme" where
  "dispatch now kernel_cr3 i s =
     (let ps = snd (process_switch_to now i (s_proc s));
          ps = snd (process_set_state (p_pid (ptable ps i)) PROCESS_STATE_RUNNING ps);
          s = pick_commit i (s\<lparr>s_proc := ps\<rparr>); p = ptable (s_proc s) i;
          sc = vmspace_switch (if p_cr3 p \<noteq> 0 then p_cr3 p else kernel_cr3) (s_sched s)
      in (p_context p, s\<lparr>s_sched := sc\<lparr>switch_count := switch_count sc + 1\<rparr>\<rparr>))"

definition save_context :: "nat \<Rightarrow> cpu_state_t \<Rightarrow> proc_state \<Rightarrow> proc_state" where
  "save_context i frame ps =
     (let ps = upd i (\<lambda>p. p\<lparr>p_context := frame, p_context_valid := True, p_rip := ctx_rip frame, p_rsp := ctx_rsp frame\<rparr>) ps in
      if p_state (ptable ps i) = PROCESS_STATE_RUNNING then snd (process_set_state (p_pid (ptable ps i)) PROCESS_STATE_READY ps) else ps)"

definition scheduler_reschedule :: "u64 \<Rightarrow> u64 \<Rightarrow> cpu_state_t \<Rightarrow> 'a sys_scheme \<Rightarrow> cpu_state_t \<times> 'a sys_scheme" where
  "scheduler_reschedule now kernel_cr3 frame s =
     (let s = s\<lparr>s_sched := (s_sched s)\<lparr>quantum_counter := 0\<rparr>\<rparr> in
      case cur_proc (s_proc s) of None \<Rightarrow> (frame, s)
      | Some c \<Rightarrow> (case pick_next (p_pid (ptable (s_proc s) c)) s of (next, s) \<Rightarrow>
          (case next of None \<Rightarrow> (frame, s)
           | Some i \<Rightarrow> if i = c then (frame, s)
               else dispatch now kernel_cr3 i (s\<lparr>s_proc := save_context c frame (s_proc s)\<rparr>))))"

text \<open>\<open>None\<close> is the boot panic when nothing can run.\<close>

definition scheduler_kill_current :: "u64 \<Rightarrow> u64 \<Rightarrow> 'a sys_scheme \<Rightarrow> (cpu_state_t \<times> 'a sys_scheme) option" where
  "scheduler_kill_current now kernel_cr3 s =
     (case pick_next (case cur_proc (s_proc s) of Some c \<Rightarrow> p_pid (ptable (s_proc s) c) | None \<Rightarrow> 0) s of (next, s) \<Rightarrow>
        (case next of None \<Rightarrow> None
         | Some i \<Rightarrow> Some (dispatch now kernel_cr3 i (s\<lparr>s_sched := (s_sched s)\<lparr>quantum_counter := 0\<rparr>\<rparr>))))"

section \<open>Input-output boost\<close>

definition scheduler_boost_if_ready :: "u32 \<Rightarrow> 'a sys_scheme \<Rightarrow> 'a sys_scheme" where
  "scheduler_boost_if_ready pid s = (case slot_get pid (s_proc s) of None \<Rightarrow> s
     | Some i \<Rightarrow> if p_state (ptable (s_proc s) i) = PROCESS_STATE_READY
         then s\<lparr>s_proc := upd i (\<lambda>p. p\<lparr>p_io_boost := True\<rparr>) (s_proc s)\<rparr> else s)"

definition scheduler_com2_holder_set :: "u32 \<Rightarrow> u32 \<Rightarrow> sched_state \<Rightarrow> sched_state" where
  "scheduler_com2_holder_set pid g sc = sc\<lparr>com2_holder_pid := pid, com2_holder_gen := g\<rparr>"

definition scheduler_com2_holder_clear :: "u32 \<Rightarrow> sched_state \<Rightarrow> sched_state" where
  "scheduler_com2_holder_clear pid sc = (if com2_holder_pid sc = pid then sc\<lparr>com2_holder_pid := 0, com2_holder_gen := 0\<rparr> else sc)"

definition scheduler_console_reader_note :: "u32 \<Rightarrow> u32 \<Rightarrow> u32 \<Rightarrow> sched_state \<Rightarrow> sched_state" where
  "scheduler_console_reader_note pid g got sc = sc\<lparr>cons_reader_pid := pid, cons_reader_gen := g, cons_reader_waiting := (got = 0)\<rparr>"

definition scheduler_console_reader_clear :: "u32 \<Rightarrow> sched_state \<Rightarrow> sched_state" where
  "scheduler_console_reader_clear pid sc =
     (if cons_reader_pid sc = pid then sc\<lparr>cons_reader_pid := 0, cons_reader_gen := 0, cons_reader_waiting := False\<rparr> else sc)"

definition scheduler_net_thread_set :: "u32 \<Rightarrow> sched_state \<Rightarrow> sched_state" where
  "scheduler_net_thread_set pid sc = sc\<lparr>net_thread_pid := pid\<rparr>"

definition scheduler_net_kick :: "'a sys_scheme \<Rightarrow> 'a sys_scheme" where
  "scheduler_net_kick s = (if net_thread_pid (s_sched s) \<noteq> 0 then scheduler_boost_if_ready (net_thread_pid (s_sched s)) s else s)"

text \<open>The test both handovers share: a valid process that can be dispatched now.\<close>

definition handover_target :: "u32 \<Rightarrow> proc_state \<Rightarrow> nat option" where
  "handover_target pid ps = (case slot_get pid ps of None \<Rightarrow> None
     | Some i \<Rightarrow> if cur_proc ps = Some i \<or> p_state (ptable ps i) \<noteq> PROCESS_STATE_READY \<or> \<not> p_context_valid (ptable ps i) then None else Some i)"

definition scheduler_console_rx :: "u64 \<Rightarrow> u64 \<Rightarrow> bool \<Rightarrow> cpu_state_t \<Rightarrow> 'a sys_scheme \<Rightarrow> cpu_state_t \<times> 'a sys_scheme" where
  "scheduler_console_rx now kernel_cr3 rx_pending frame s =
     (let sc = s_sched s in
      if cons_reader_pid sc = 0 \<or> \<not> cons_reader_waiting sc \<or> \<not> rx_pending then (frame, s)
      else if slot_generation (cons_reader_pid sc) (s_proc s) \<noteq> cons_reader_gen sc then (frame, s)
      else if cap_find_resource now (cons_reader_pid sc) CAP_RESOURCE_DEVICE CAP_READ DEVICE_ID_CONSOLE (k_caps (s_auth s)) \<noteq> Inr ()
      then (frame, s)
      else case handover_target (cons_reader_pid sc) (s_proc s) of None \<Rightarrow> (frame, s)
        | Some i \<Rightarrow> scheduler_reschedule now kernel_cr3 frame
            (s\<lparr>s_proc := upd i (\<lambda>p. p\<lparr>p_io_boost := True\<rparr>) (s_proc s), s_sched := sc\<lparr>cons_reader_waiting := False\<rparr>\<rparr>))"

definition scheduler_net_rx :: "u64 \<Rightarrow> u64 \<Rightarrow> cpu_state_t \<Rightarrow> 'a sys_scheme \<Rightarrow> cpu_state_t \<times> 'a sys_scheme" where
  "scheduler_net_rx now kernel_cr3 frame s =
     (if net_thread_pid (s_sched s) = 0 then (frame, s)
      else case handover_target (net_thread_pid (s_sched s)) (s_proc s) of None \<Rightarrow> (frame, s)
        | Some i \<Rightarrow> scheduler_reschedule now kernel_cr3 frame (s\<lparr>s_proc := upd i (\<lambda>p. p\<lparr>p_io_boost := True\<rparr>) (s_proc s)\<rparr>))"

definition boost_pending :: "proc_state \<Rightarrow> bool" where
  "boost_pending ps \<longleftrightarrow> (\<exists>i\<in>set [0..<PROC_SLOTS]. p_io_boost (ptable ps i) \<and> runnable ps i \<and> i \<noteq> IDLE_PROCESS_ID)"

definition com2_rx_boost_check :: "u64 \<Rightarrow> bool \<Rightarrow> 'a sys_scheme \<Rightarrow> 'a sys_scheme" where
  "com2_rx_boost_check now rx_pending s =
     (let sc = s_sched s in
      if com2_holder_pid sc = 0 \<or> \<not> rx_pending then s
      else if slot_generation (com2_holder_pid sc) (s_proc s) \<noteq> com2_holder_gen sc then s
      else if cap_find_resource now (com2_holder_pid sc) CAP_RESOURCE_DEVICE CAP_READ DEVICE_ID_COM2 (k_caps (s_auth s)) \<noteq> Inr () then s
      else case slot_get (com2_holder_pid sc) (s_proc s) of None \<Rightarrow> s
        | Some i \<Rightarrow> if p_state (ptable (s_proc s) i) = PROCESS_STATE_READY \<or> p_state (ptable (s_proc s) i) = PROCESS_STATE_RUNNING
            then s\<lparr>s_proc := upd i (\<lambda>p. p\<lparr>p_io_boost := True\<rparr>) (s_proc s)\<rparr> else s)"

section \<open>The tick\<close>

text \<open>The termination of a process over its declared budget.\<close>

definition cpu_kill :: "u64 \<Rightarrow> u64 \<Rightarrow> u32 \<Rightarrow> 'a sys_scheme \<Rightarrow> (cpu_state_t \<times> 'a sys_scheme) option" where
  "cpu_kill now kernel_cr3 pid s =
     (let k = s_auth s; k = set_ledger (audit_record now AUDIT_CPUKILL pid AUDIT_V_EPERM CAP_RESOURCE_PROCESS pid 0 (k_ledger k)) k;
          k = k\<lparr>k_man := manifest_clear pid (k_man k)\<rparr>
      in scheduler_kill_current now kernel_cr3
           (s\<lparr>s_auth := k, s_proc := snd (process_set_state pid PROCESS_STATE_TERMINATED (s_proc s))\<rparr>))"

definition quantum_step :: "u64 \<Rightarrow> u64 \<Rightarrow> cpu_state_t \<Rightarrow> 'a sys_scheme \<Rightarrow> cpu_state_t \<times> 'a sys_scheme" where
  "quantum_step now kernel_cr3 frame s =
     (let s = s\<lparr>s_sched := (s_sched s)\<lparr>quantum_counter := quantum_counter (s_sched s) + 1\<rparr>\<rparr> in
      if quantum_counter (s_sched s) < SCHED_QUANTUM_TICKS
      then if boost_pending (s_proc s) then scheduler_reschedule now kernel_cr3 frame s else (frame, s)
      else scheduler_reschedule now kernel_cr3 frame (s\<lparr>s_sched := (s_sched s)\<lparr>preempt_count := preempt_count (s_sched s) + 1\<rparr>\<rparr>))"

text \<open>The accounting half: charge the current process, end it if it was interrupted in ring 3 over its budget.\<close>

definition tick_charge :: "u64 \<Rightarrow> u64 \<Rightarrow> cpu_state_t \<Rightarrow> 'a sys_scheme \<Rightarrow> (cpu_state_t \<times> 'a sys_scheme) option" where
  "tick_charge now kernel_cr3 frame s =
     (case cur_proc (s_proc s) of None \<Rightarrow> Some (quantum_step now kernel_cr3 frame s)
      | Some c \<Rightarrow> let pid = p_pid (ptable (s_proc s) c);
            s = s\<lparr>s_auth := (s_auth s)\<lparr>k_man := manifest_tick pid (k_man (s_auth s))\<rparr>\<rparr> in
          if ctx_cs frame AND 3 \<noteq> 0 \<and> manifest_over_budget pid (k_man (s_auth s))
          then (case pick_next pid s of (next, s) \<Rightarrow> if next \<noteq> None then cpu_kill now kernel_cr3 pid s
                  else Some (quantum_step now kernel_cr3 frame s))
          else Some (quantum_step now kernel_cr3 frame s))"

text \<open>What the devices report at a tick.\<close>

record tick_input =
  ti_com2_rx :: bool
  ti_vsock :: bool
  ti_console_rx :: bool

definition scheduler_tick :: "u64 \<Rightarrow> u64 \<Rightarrow> tick_input \<Rightarrow> cpu_state_t \<Rightarrow> 'a sys_scheme \<Rightarrow> (cpu_state_t \<times> 'a sys_scheme) option" where
  "scheduler_tick now kernel_cr3 ti frame s =
     (let s = com2_rx_boost_check now (ti_com2_rx ti) s in
      case (if ti_vsock ti then scheduler_console_rx now kernel_cr3 (ti_console_rx ti) frame s else (frame, s)) of
        (frame, s) \<Rightarrow> tick_charge now kernel_cr3 frame s)"

text \<open>The fairness snapshot: worst gap and its process, pick spread, number of processes.\<close>

definition fairness_step :: "u64 \<Rightarrow> proc_state \<Rightarrow> nat \<Rightarrow> u64 \<times> nat \<times> u64 \<times> u64 \<times> u32 \<Rightarrow> u64 \<times> nat \<times> u64 \<times> u64 \<times> u32" where
  "fairness_step now ps i acc = (case acc of (gap, gpid, mn, mx, n) \<Rightarrow>
     if \<not> slot_valid (of_nat i) ps \<or> (p_state (ptable ps i) \<noteq> PROCESS_STATE_READY \<and> p_state (ptable ps i) \<noteq> PROCESS_STATE_RUNNING)
        \<or> i = IDLE_PROCESS_ID \<or> i = 0 then acc
     else let p = ptable ps i; g = now - p_last_scheduled p in
       (if g > gap then g else gap, if g > gap then i else gpid,
        if p_sched_picks p < mn then p_sched_picks p else mn, if p_sched_picks p > mx then p_sched_picks p else mx, n + 1))"

definition scheduler_get_fairness :: "u64 \<Rightarrow> proc_state \<Rightarrow> u64 \<times> u64 \<times> u32 \<times> nat" where
  "scheduler_get_fairness now ps =
     (case fold (fairness_step now ps) [0..<PROC_SLOTS] (0, 0, - 1, 0, 0) of (gap, gpid, mn, mx, n) \<Rightarrow>
        (gap, if n > 0 then mx - mn else 0, n, gpid))"

end
