(* ===== verification/Proc_Props.thy ===== *)
theory Proc_Props
  imports Proc
begin

text \<open>
  The ready queues of the process table: doubly linked lists through the control blocks, one per
  priority, which hold exactly the processes in state READY.
\<close>

section \<open>Linked lists of slots\<close>

fun dll :: "(nat \<Rightarrow> nat option) \<Rightarrow> (nat \<Rightarrow> nat option) \<Rightarrow> nat option \<Rightarrow> nat option \<Rightarrow> nat list \<Rightarrow> bool" where
  "dll nx pv b h [] \<longleftrightarrow> h = None"
| "dll nx pv b h (i # xs) \<longleftrightarrow> h = Some i \<and> pv i = b \<and> dll nx pv (Some i) (nx i) xs"

lemma dll_frame:
  "(\<And>i. i \<in> set xs \<Longrightarrow> nx' i = nx i \<and> pv' i = pv i) \<Longrightarrow> dll nx' pv' b h xs = dll nx pv b h xs"
  by (induction xs arbitrary: b h) simp_all

lemma dll_head: "dll nx pv b h xs \<Longrightarrow> h = (case xs of [] \<Rightarrow> None | x # _ \<Rightarrow> Some x)"
  by (cases xs) simp_all

lemma dll_prev: "dll nx pv b h (as @ i # bs) \<Longrightarrow> pv i = (if as = [] then b else Some (last as))"
  by (induction as arbitrary: b h) auto

lemma dll_next: "dll nx pv b h (as @ i # bs) \<Longrightarrow> nx i = (case bs of [] \<Rightarrow> None | j # _ \<Rightarrow> Some j)"
proof (induction as arbitrary: b h)
  case Nil
  then show ?case using dll_head [of nx pv "Some i" "nx i" bs] by simp
qed simp

text \<open>Removing a member relinks its neighbours.\<close>

lemma dll_remove:
  assumes "dll nx pv b h (as @ i # bs)" and "distinct (as @ i # bs)"
  shows "dll (if as = [] then nx else nx(last as := nx i)) (case nx i of Some j \<Rightarrow> pv(j := if as = [] then b else Some (last as)) | None \<Rightarrow> pv)
    b (if as = [] then nx i else h) (as @ bs)"
  using assms
proof (induction as arbitrary: b h)
  case Nil
  then have d: "dll nx pv (Some i) (nx i) bs" by simp
  show ?case
  proof (cases bs)
    case (Cons j cs)
    then have n: "nx i = Some j" "dll nx pv (Some j) (nx j) cs" using d by simp_all
    have "dll nx (pv(j := b)) (Some j) (nx j) cs"
      using n(2) Nil.prems(2) Cons by (subst dll_frame [where nx = nx and pv = pv]) auto
    then show ?thesis using n(1) Cons by (simp add: fun_upd_def)
  qed (use d in simp)
next
  case (Cons a as)
  then have p: "h = Some a" "pv a = b" "dll nx pv (Some a) (nx a) (as @ i # bs)" "distinct (as @ i # bs)" "a \<notin> set (as @ i # bs)" by simp_all
  let ?pv = "case nx i of Some j \<Rightarrow> pv(j := if as = [] then Some a else Some (last as)) | None \<Rightarrow> pv"
  note IH = Cons.IH [OF p(3,4)]
  have ni: "nx i = None \<or> (\<exists>j. nx i = Some j \<and> j \<in> set bs)" using dll_next [OF p(3)] by (cases bs) auto
  have pa: "?pv a = b" using ni p(2,5) by auto
  show ?case
  proof (cases "as = []")
    case True
    have "dll (nx(a := nx i)) ?pv (Some a) (nx i) bs" using IH True p(5) by (subst dll_frame [where nx = nx and pv = ?pv]) auto
    moreover have "(case nx i of Some j \<Rightarrow> pv(j := if a # as = [] then b else Some (last (a # as))) | None \<Rightarrow> pv) = ?pv"
      using True by (simp split: option.split)
    ultimately show ?thesis using True p(1) pa by (simp add: fun_upd_def)
  next
    case False
    have "last as \<noteq> a" using False p(5) by (metis UnCI last_in_set set_append)
    then show ?thesis using False IH p(1) pa by (cases "nx i") simp_all
  qed
qed

text \<open>A push in front.\<close>

lemma dll_push:
  assumes "dll nx pv None h xs" and "i \<notin> set xs" and "distinct xs"
  shows "dll (nx(i := h)) (case h of Some j \<Rightarrow> (pv(i := None))(j := Some i) | None \<Rightarrow> pv(i := None)) None (Some i) (i # xs)"
proof (cases xs)
  case (Cons j ys)
  then have p: "h = Some j" "dll nx pv (Some j) (nx j) ys" "j \<noteq> i" using assms by auto
  have "dll (nx(i := h)) ((pv(i := None))(j := Some i)) (Some j) (nx j) ys"
    using p(2) assms(2,3) Cons by (subst dll_frame [where nx = nx and pv = pv]) auto
  then show ?thesis using p Cons by simp
qed (use assms(1) in simp)

section \<open>The queues\<close>

definition nxt :: "proc_state \<Rightarrow> nat \<Rightarrow> nat option" where
  "nxt ps i = p_next (ptable ps i)"

definition prv :: "proc_state \<Rightarrow> nat \<Rightarrow> nat option" where
  "prv ps i = p_prev (ptable ps i)"

text \<open>The linked queues hold the lists \<open>qs\<close>; whoever is on none has no links.\<close>

definition queues :: "proc_state \<Rightarrow> (nat \<Rightarrow> nat list) \<Rightarrow> bool" where
  "queues ps qs \<longleftrightarrow> (\<forall>q\<le>5. dll (nxt ps) (prv ps) None (ready_queue ps q) (qs q) \<and> distinct (qs q)
       \<and> (\<forall>i\<in>set (qs q). i < 256 \<and> p_priority (ptable ps i) = q))
     \<and> (\<forall>i. (\<forall>q\<le>5. i \<notin> set (qs q)) \<longrightarrow> nxt ps i = None \<and> prv ps i = None)"

lemma queuesD:
  assumes "queues ps qs"
  shows "q \<le> 5 \<Longrightarrow> dll (nxt ps) (prv ps) None (ready_queue ps q) (qs q)" "q \<le> 5 \<Longrightarrow> distinct (qs q)"
    "q \<le> 5 \<Longrightarrow> i \<in> set (qs q) \<Longrightarrow> i < 256 \<and> p_priority (ptable ps i) = q"
    "(\<And>q. q \<le> 5 \<Longrightarrow> i \<notin> set (qs q)) \<Longrightarrow> nxt ps i = None \<and> prv ps i = None"
  using assms unfolding queues_def by blast+

lemma queues_apart: "queues ps qs \<Longrightarrow> q \<le> 5 \<Longrightarrow> r \<le> 5 \<Longrightarrow> i \<in> set (qs q) \<Longrightarrow> i \<in> set (qs r) \<Longrightarrow> q = r"
  using queuesD(3) by metis

text \<open>Everything but the links and the queue heads.\<close>

definition unlinked :: "proc_t \<Rightarrow> proc_t" where
  "unlinked p = p\<lparr>p_next := None, p_prev := None\<rparr>"

definition same_procs :: "proc_state \<Rightarrow> proc_state \<Rightarrow> bool" where
  "same_procs ps ps' \<longleftrightarrow> (\<forall>i. unlinked (ptable ps' i) = unlinked (ptable ps i)) \<and> ps'\<lparr>ptable := ptable ps, ready_queue := ready_queue ps\<rparr> = ps"

lemma unlinked_fields:
  assumes "unlinked p = unlinked r"
  shows "p_pid p = p_pid r" "p_parent p = p_parent r" "p_state p = p_state r" "p_priority p = p_priority r" "p_magic_ok p = p_magic_ok r"
    "p_context_valid p = p_context_valid r" "p_io_boost p = p_io_boost r" "p_children p = p_children r" "p_cr3 p = p_cr3 r" "p_context p = p_context r"
    "p_last_scheduled p = p_last_scheduled r" "p_sched_picks p = p_sched_picks r"
  using assms by (cases p; cases r; simp add: unlinked_def)+

lemma same_procs_refl [simp]: "same_procs ps ps"
  by (simp add: same_procs_def)

lemma same_procs_trans: "same_procs ps ps1 \<Longrightarrow> same_procs ps1 ps2 \<Longrightarrow> same_procs ps ps2"
  by (cases ps; cases ps1; cases ps2) (simp add: same_procs_def)

lemma link_sels [simp]:
  "nxt (upd j (\<lambda>p. p\<lparr>p_next := a\<rparr>) ps) = (nxt ps)(j := a)" "prv (upd j (\<lambda>p. p\<lparr>p_next := a\<rparr>) ps) = prv ps"
  "nxt (upd j (\<lambda>p. p\<lparr>p_prev := b\<rparr>) ps) = nxt ps" "prv (upd j (\<lambda>p. p\<lparr>p_prev := b\<rparr>) ps) = (prv ps)(j := b)"
  "nxt (upd j (\<lambda>p. p\<lparr>p_next := a, p_prev := b\<rparr>) ps) = (nxt ps)(j := a)" "prv (upd j (\<lambda>p. p\<lparr>p_next := a, p_prev := b\<rparr>) ps) = (prv ps)(j := b)"
  "nxt (ps\<lparr>ready_queue := h\<rparr>) = nxt ps" "prv (ps\<lparr>ready_queue := h\<rparr>) = prv ps"
  by (auto simp: nxt_def prv_def upd_def fun_eq_iff)

lemma upd_sel [simp]: "ptable (upd j f ps) = (ptable ps)(j := f (ptable ps j))" "ready_queue (upd j f ps) = ready_queue ps"
  "pgen (upd j f ps) = pgen ps" "cur_proc (upd j f ps) = cur_proc ps" "pstats (upd j f ps) = pstats ps" "ptable_init (upd j f ps) = ptable_init ps"
  "pgen_next (upd j f ps) = pgen_next ps" "fail_next_create (upd j f ps) = fail_next_create ps"
  by (simp_all add: upd_def)

lemma same_procs_upd: "(\<And>p. unlinked (f p) = unlinked p) \<Longrightarrow> same_procs ps (upd j f ps)"
  by (simp add: same_procs_def upd_def)

lemma same_procs_links [simp]:
  "same_procs ps (upd j (\<lambda>p. p\<lparr>p_next := a\<rparr>) ps)" "same_procs ps (upd j (\<lambda>p. p\<lparr>p_prev := b\<rparr>) ps)"
  "same_procs ps (upd j (\<lambda>p. p\<lparr>p_next := a, p_prev := b\<rparr>) ps)" "same_procs ps (ps\<lparr>ready_queue := h\<rparr>)"
  by (rule same_procs_upd; simp add: unlinked_def)+ (simp add: same_procs_def)

lemma same_procs_remove: "same_procs ps (remove_from_ready_queue i ps)"
  unfolding remove_from_ready_queue_def Let_def
  by (intro same_procs_trans [OF _ same_procs_links(3)]) (auto split: option.splits intro: same_procs_trans [OF _ same_procs_links(2)])

lemma same_procs_add: "same_procs ps (add_to_ready_queue i ps)"
  unfolding add_to_ready_queue_def Let_def
  by (auto split: option.splits intro: same_procs_trans [OF _ same_procs_links(4)] same_procs_trans [OF same_procs_links(3) same_procs_links(2)] same_procs_trans [OF same_procs_trans [OF same_procs_links(3) same_procs_links(2)] same_procs_links(4)])

text \<open>What the removal of a member computes.\<close>

lemma remove_links:
  assumes "queues ps qs" "q \<le> 5" "qs q = as @ i # bs"
  defines "ps' \<equiv> remove_from_ready_queue i ps"
  shows "nxt ps' = (if as = [] then nxt ps else (nxt ps)(last as := nxt ps i))(i := None)"
    and "prv ps' = (case nxt ps i of Some j \<Rightarrow> (prv ps)(j := if as = [] then None else Some (last as)) | None \<Rightarrow> prv ps)(i := None)"
    and "ready_queue ps' = (if as = [] then (ready_queue ps)(q := nxt ps i) else ready_queue ps)"
proof -
  note d = queuesD [OF assms(1)]
  have D: "dll (nxt ps) (prv ps) None (ready_queue ps q) (as @ i # bs)" "distinct (as @ i # bs)" using d(1,2) [OF assms(2)] assms(3) by auto
  have pv: "p_prev (ptable ps i) = (if as = [] then None else Some (last as))" using dll_prev [OF D(1)] by (simp add: prv_def)
  have nx: "p_next (ptable ps i) = nxt ps i" by (simp add: nxt_def)
  have nx': "nxt ps i = (case bs of [] \<Rightarrow> None | j # _ \<Rightarrow> Some j)" by (rule dll_next [OF D(1)])
  have ni: "nxt ps i \<noteq> Some i" using nx' D(2) by (cases bs) auto
  have la: "as \<noteq> [] \<Longrightarrow> last as \<noteq> i \<and> nxt ps i \<noteq> Some (last as)"
  proof -
    assume a: "as \<noteq> []"
    then have "last as \<in> set as" by simp
    then show "last as \<noteq> i \<and> nxt ps i \<noteq> Some (last as)" using D(2) nx' by (cases bs) auto
  qed
  have srch: "first_idx (\<lambda>r. ready_queue ps r = Some i) 0 (Suc 5) = Some q" if "as = []"
  proof -
    have h: "ready_queue ps q = Some i" using D(1) that by simp
    have "r = q" if "ready_queue ps r = Some i" "r \<le> 5" for r
    proof -
      have "i \<in> set (qs r)" using dll_head [OF d(1) [OF that(2)]] that(1) by (cases "qs r") auto
      then show ?thesis using assms(3) by (intro queues_apart [OF assms(1) that(2) assms(2)]) auto
    qed
    then have "\<forall>r. 0 \<le> r \<and> r < q \<longrightarrow> ready_queue ps r \<noteq> Some i" using assms(2) by fastforce
    moreover have "q < Suc 5" using assms(2) by simp
    ultimately show ?thesis using h unfolding first_idx_Some by blast
  qed
  have e: "ps' = upd i (\<lambda>p. p\<lparr>p_next := None, p_prev := None\<rparr>)
      (case nxt ps i of Some j \<Rightarrow> upd j (\<lambda>p. p\<lparr>p_prev := if as = [] then None else Some (last as)\<rparr>) ps1 | None \<Rightarrow> ps1)"
    if "ps1 = (if as = [] then ps\<lparr>ready_queue := (ready_queue ps)(q := nxt ps i)\<rparr> else upd (last as) (\<lambda>p. p\<lparr>p_next := nxt ps i\<rparr>) ps)" for ps1
  proof (cases "as = []")
    case True
    show ?thesis unfolding ps'_def remove_from_ready_queue_def Let_def pv nx that srch [OF True] True if_P [OF refl] option.case ..
  next
    case False
    show ?thesis unfolding ps'_def remove_from_ready_queue_def Let_def pv nx that if_not_P [OF False] option.case ..
  qed
  show "nxt ps' = (if as = [] then nxt ps else (nxt ps)(last as := nxt ps i))(i := None)"
    unfolding e [OF refl] by (cases "nxt ps i"; cases "as = []") simp_all
  show "prv ps' = (case nxt ps i of Some j \<Rightarrow> (prv ps)(j := if as = [] then None else Some (last as)) | None \<Rightarrow> prv ps)(i := None)"
    unfolding e [OF refl] by (cases "nxt ps i"; cases "as = []") simp_all
  show "ready_queue ps' = (if as = [] then (ready_queue ps)(q := nxt ps i) else ready_queue ps)"
    unfolding e [OF refl] by (cases "nxt ps i"; cases "as = []") simp_all
qed

lemma remove_member:
  assumes "queues ps qs" "q \<le> 5" "i \<in> set (qs q)"
  shows "queues (remove_from_ready_queue i ps) (qs(q := remove1 i (qs q)))"
proof -
  note d = queuesD [OF assms(1)]
  obtain as bs where s: "qs q = as @ i # bs" by (meson assms(3) split_list)
  let ?ps = "remove_from_ready_queue i ps"
  note L = remove_links [OF assms(1,2) s]
  note sp = same_procs_remove [of ps i]
  have D: "dll (nxt ps) (prv ps) None (ready_queue ps q) (as @ i # bs)" "distinct (as @ i # bs)" using d(1,2) [OF assms(2)] s by auto
  have r1: "remove1 i (qs q) = as @ bs" using s D(2) by (simp add: remove1_append)
  have prio: "p_priority (ptable ?ps k) = p_priority (ptable ps k)" for k
    using sp unlinked_fields(4) unfolding same_procs_def by metis
  have inq: "last as \<in> set (qs q)" if "as \<noteq> []" using that s by simp
  have nq: "j \<in> set (qs q)" if "nxt ps i = Some j" for j using dll_next [OF D(1)] that s by (cases bs) auto
  have other: "dll (nxt ?ps) (prv ?ps) None (ready_queue ?ps r) (qs r)" if "r \<le> 5" "r \<noteq> q" for r
  proof -
    have out: "k \<notin> set (qs q)" if "k \<in> set (qs r)" for k using queues_apart [OF assms(1) \<open>r \<le> 5\<close> assms(2) that] \<open>r \<noteq> q\<close> by blast
    have "nxt ?ps k = nxt ps k \<and> prv ?ps k = prv ps k" if "k \<in> set (qs r)" for k
      using out [OF that] inq nq assms(3) unfolding L(1,2) by (auto split: option.splits)
    then have "dll (nxt ?ps) (prv ?ps) None (ready_queue ps r) (qs r) = dll (nxt ps) (prv ps) None (ready_queue ps r) (qs r)"
      by (intro dll_frame) simp
    moreover have "ready_queue ?ps r = ready_queue ps r" using that(2) unfolding L(3) by simp
    ultimately show ?thesis using d(1) [OF that(1)] by simp
  qed
  have mine: "dll (nxt ?ps) (prv ?ps) None (ready_queue ?ps q) (as @ bs)"
  proof -
    have h: "ready_queue ?ps q = (if as = [] then nxt ps i else ready_queue ps q)" unfolding L(3) by simp
    have "i \<notin> set (as @ bs)" using D(2) by simp
    then show ?thesis using dll_remove [OF D] unfolding L(1,2) h by (subst dll_frame) auto
  qed
  have "nxt ?ps k = None \<and> prv ?ps k = None" if "\<And>r. r \<le> 5 \<Longrightarrow> k \<notin> set ((qs(q := as @ bs)) r)" for k
  proof (cases "k = i")
    case False
    have "k \<notin> set (qs r)" if "r \<le> 5" for r using \<open>\<And>r. r \<le> 5 \<Longrightarrow> k \<notin> set ((qs(q := as @ bs)) r)\<close> [OF that] False s by (cases "r = q") auto
    then have "nxt ps k = None \<and> prv ps k = None" "k \<notin> set (qs q)" using d(4) [of k] assms(2) by blast+
    then show ?thesis using inq nq unfolding L(1,2) by (auto split: option.splits)
  qed (simp add: L(1,2))
  note links = this
  have "dll (nxt ?ps) (prv ?ps) None (ready_queue ?ps r) ((qs(q := as @ bs)) r) \<and> distinct ((qs(q := as @ bs)) r)
    \<and> (\<forall>x\<in>set ((qs(q := as @ bs)) r). x < 256 \<and> p_priority (ptable ?ps x) = r)" if "r \<le> 5" for r
  proof (cases "r = q")
    case True
    have "\<forall>x\<in>set (as @ bs). x < 256 \<and> p_priority (ptable ps x) = q" using d(3) [OF assms(2)] s by simp
    then show ?thesis using mine D(2) True unfolding prio fun_upd_same by simp
  next
    case False
    then show ?thesis using other [OF that] d(2,3) [OF that] unfolding prio by simp
  qed
  then show "queues ?ps (qs(q := remove1 i (qs q)))" using links unfolding queues_def r1 by blast
qed

lemma remove_absent:
  assumes "queues ps qs" "\<forall>q\<le>5. i \<notin> set (qs q)"
  shows "remove_from_ready_queue i ps = ps"
proof -
  note d = queuesD [OF assms(1)]
  have n: "p_next (ptable ps i) = None" "p_prev (ptable ps i) = None" using d(4) [of i] assms(2) by (auto simp: nxt_def prv_def)
  have "ready_queue ps q \<noteq> Some i" if "q \<le> 5" for q using dll_head [OF d(1) [OF that]] assms(2) that by (cases "qs q") auto
  then have "first_idx (\<lambda>q. ready_queue ps q = Some i) 0 (Suc 5) = None" by (auto simp: first_idx_None less_Suc_eq_le)
  moreover have "(ptable ps i)\<lparr>p_next := None, p_prev := None\<rparr> = ptable ps i" by (rule proc_t.equality) (simp_all add: n)
  then have "upd i (\<lambda>p. p\<lparr>p_next := None, p_prev := None\<rparr>) ps = ps" unfolding upd_def by simp
  ultimately show ?thesis using n by (simp add: remove_from_ready_queue_def Let_def)
qed

lemma add_member:
  assumes "queues ps qs" "\<forall>q\<le>5. i \<notin> set (qs q)" "i < 256"
  defines "q \<equiv> p_priority (ptable ps i)"
  assumes q: "q \<le> 5"
  shows "queues (add_to_ready_queue i ps) (qs(q := i # qs q))"
proof -
  note d = queuesD [OF assms(1)]
  let ?ps = "add_to_ready_queue i ps" and ?h = "ready_queue ps q"
  have e: "?ps = (case ?h of Some j \<Rightarrow> upd j (\<lambda>p. p\<lparr>p_prev := Some i\<rparr>) (upd i (\<lambda>p. p\<lparr>p_next := ?h, p_prev := None\<rparr>) ps)
      | None \<Rightarrow> upd i (\<lambda>p. p\<lparr>p_next := ?h, p_prev := None\<rparr>) ps)\<lparr>ready_queue := (ready_queue ps)(q := Some i)\<rparr>"
    using q unfolding add_to_ready_queue_def q_def [symmetric] Let_def by (cases ?h) simp_all
  have hq: "j \<in> set (qs q)" if "?h = Some j" for j using dll_head [OF d(1) [OF q]] that by (cases "qs q") auto
  have n: "nxt ?ps = (nxt ps)(i := ?h)" unfolding e by (cases ?h) simp_all
  have p: "prv ?ps = (case ?h of Some j \<Rightarrow> ((prv ps)(i := None))(j := Some i) | None \<Rightarrow> (prv ps)(i := None))"
    unfolding e by (cases ?h) simp_all
  have r: "ready_queue ?ps = (ready_queue ps)(q := Some i)" unfolding e by (cases ?h) simp_all
  note sp = same_procs_add [of ps i]
  have prio: "p_priority (ptable ?ps k) = p_priority (ptable ps k)" for k
    using sp unlinked_fields(4) unfolding same_procs_def by metis
  have mine: "dll (nxt ?ps) (prv ?ps) None (ready_queue ?ps q) (i # qs q)"
    unfolding n p r fun_upd_same using dll_push [OF d(1) [OF q]] assms(2) q d(2) [OF q] by simp
  have other: "dll (nxt ?ps) (prv ?ps) None (ready_queue ?ps k) (qs k)" if "k \<le> 5" "k \<noteq> q" for k
  proof -
    have "nxt ?ps x = nxt ps x \<and> prv ?ps x = prv ps x" if "x \<in> set (qs k)" for x
    proof -
      have "x \<noteq> i" using assms(2) \<open>k \<le> 5\<close> that by metis
      moreover have "?h \<noteq> Some x" using hq queues_apart [OF assms(1) \<open>k \<le> 5\<close> q that] \<open>k \<noteq> q\<close> by blast
      ultimately show ?thesis unfolding n p by (auto split: option.splits)
    qed
    then have "dll (nxt ?ps) (prv ?ps) None (ready_queue ps k) (qs k) = dll (nxt ps) (prv ps) None (ready_queue ps k) (qs k)"
      by (intro dll_frame) simp
    then show ?thesis using d(1) [OF that(1)] that(2) unfolding r by simp
  qed
  have "nxt ?ps k = None \<and> prv ?ps k = None" if a: "\<And>r. r \<le> 5 \<Longrightarrow> k \<notin> set ((qs(q := i # qs q)) r)" for k
  proof -
    have "k \<noteq> i" "k \<notin> set (qs q)" using a [OF q] by simp_all
    moreover have "k \<notin> set (qs r)" if "r \<le> 5" for r using a [OF that] calculation by (cases "r = q") auto
    ultimately show ?thesis using d(4) [of k] hq unfolding n p by (auto split: option.splits)
  qed
  note links = this
  have "dll (nxt ?ps) (prv ?ps) None (ready_queue ?ps r) ((qs(q := i # qs q)) r) \<and> distinct ((qs(q := i # qs q)) r)
    \<and> (\<forall>x\<in>set ((qs(q := i # qs q)) r). x < 256 \<and> p_priority (ptable ?ps x) = r)" if "r \<le> 5" for r
  proof (cases "r = q")
    case True
    have "i \<notin> set (qs q)" using assms(2) q by blast
    moreover have "\<forall>x\<in>set (qs q). x < 256 \<and> p_priority (ptable ps x) = q" using d(3) [OF q] by blast
    ultimately show ?thesis using mine d(2) [OF q] assms(3) True unfolding prio fun_upd_same q_def [symmetric] by (simp add: q_def)
  next
    case False
    then show ?thesis using other [OF that] d(2,3) [OF that] unfolding prio by simp
  qed
  then show "queues ?ps (qs(q := i # qs q))" using links unfolding queues_def by blast
qed

section \<open>The table invariant\<close>

text \<open>A slot is on a queue exactly when its process is READY, and then on the queue of its priority.\<close>

definition ready_exact :: "proc_state \<Rightarrow> bool" where
  "ready_exact ps \<longleftrightarrow> (\<exists>qs. queues ps qs \<and> (\<forall>i<256. p_state (ptable ps i) = PROCESS_STATE_READY \<longleftrightarrow> (\<exists>q\<le>5. i \<in> set (qs q))))"

text \<open>The slots name themselves; the current process is the only one in state RUNNING, and is not READY.\<close>

definition table_core :: "proc_state \<Rightarrow> bool" where
  "table_core ps \<longleftrightarrow> ready_exact ps \<and> (\<forall>i<256. p_priority (ptable ps i) \<le> 5)
     \<and> (\<forall>i<256. p_state (ptable ps i) \<noteq> PROCESS_STATE_UNUSED \<longrightarrow> p_magic_ok (ptable ps i) \<and> p_pid (ptable ps i) = of_nat i)"

definition table_ok :: "proc_state \<Rightarrow> bool" where
  "table_ok ps \<longleftrightarrow> table_core ps
     \<and> (\<forall>i<256. p_state (ptable ps i) = PROCESS_STATE_RUNNING \<longrightarrow> cur_proc ps = Some i)
     \<and> (\<forall>c. cur_proc ps = Some c \<longrightarrow> c < 256 \<and> p_state (ptable ps c) \<noteq> PROCESS_STATE_READY \<and> p_state (ptable ps c) \<noteq> PROCESS_STATE_UNUSED)"

lemma table_coreD:
  assumes "table_core ps"
  shows "ready_exact ps" "i < 256 \<Longrightarrow> p_priority (ptable ps i) \<le> 5"
    "i < 256 \<Longrightarrow> p_state (ptable ps i) \<noteq> PROCESS_STATE_UNUSED \<Longrightarrow> p_magic_ok (ptable ps i) \<and> p_pid (ptable ps i) = of_nat i"
  using assms unfolding table_core_def by blast+

lemma table_okD:
  assumes "table_ok ps"
  shows "table_core ps"
    "i < 256 \<Longrightarrow> p_state (ptable ps i) = PROCESS_STATE_RUNNING \<Longrightarrow> cur_proc ps = Some i"
    "cur_proc ps = Some c \<Longrightarrow> c < 256 \<and> p_state (ptable ps c) \<noteq> PROCESS_STATE_READY \<and> p_state (ptable ps c) \<noteq> PROCESS_STATE_UNUSED"
  using assms unfolding table_ok_def by blast+

lemma queues_cong:
  assumes "\<forall>i. p_next (ptable ps' i) = p_next (ptable ps i) \<and> p_prev (ptable ps' i) = p_prev (ptable ps i)"
    "\<forall>i<256. p_priority (ptable ps' i) = p_priority (ptable ps i)" "ready_queue ps' = ready_queue ps" "queues ps qs"
  shows "queues ps' qs"
proof -
  have "nxt ps' = nxt ps" "prv ps' = prv ps" using assms(1) by (auto simp: nxt_def prv_def)
  then show ?thesis using assms(2-4) unfolding queues_def by simp
qed

text \<open>A change of the control blocks outside the links, priorities and READY states keeps the queues exact.\<close>

lemma ready_exact_cong:
  assumes "\<forall>i. p_next (ptable ps' i) = p_next (ptable ps i) \<and> p_prev (ptable ps' i) = p_prev (ptable ps i)"
    "\<forall>i<256. p_priority (ptable ps' i) = p_priority (ptable ps i)" "ready_queue ps' = ready_queue ps"
    "\<forall>i<256. p_state (ptable ps' i) = PROCESS_STATE_READY \<longleftrightarrow> p_state (ptable ps i) = PROCESS_STATE_READY" "ready_exact ps"
  shows "ready_exact ps'"
proof -
  obtain qs where q: "queues ps qs" "\<forall>i<256. p_state (ptable ps i) = PROCESS_STATE_READY \<longleftrightarrow> (\<exists>q\<le>5. i \<in> set (qs q))"
    using assms(5) unfolding ready_exact_def by blast
  have "queues ps' qs" by (rule queues_cong [OF assms(1-3) q(1)])
  then show ?thesis using q(2) assms(4) unfolding ready_exact_def by blast
qed

text \<open>Taking a process off its queue and giving it a state that is not READY.\<close>

definition retire :: "nat \<Rightarrow> process_state_t \<Rightarrow> proc_state \<Rightarrow> proc_state" where
  "retire i st ps = upd i (\<lambda>p. p\<lparr>p_state := st\<rparr>) (remove_from_ready_queue i ps)"

lemma same_procs_sel:
  assumes "same_procs ps ps'"
  shows "p_pid (ptable ps' i) = p_pid (ptable ps i)" "p_state (ptable ps' i) = p_state (ptable ps i)" "p_priority (ptable ps' i) = p_priority (ptable ps i)"
    "p_magic_ok (ptable ps' i) = p_magic_ok (ptable ps i)" "p_context_valid (ptable ps' i) = p_context_valid (ptable ps i)"
    "p_io_boost (ptable ps' i) = p_io_boost (ptable ps i)" "p_cr3 (ptable ps' i) = p_cr3 (ptable ps i)" "p_context (ptable ps' i) = p_context (ptable ps i)"
    "cur_proc ps' = cur_proc ps" "pgen ps' = pgen ps" "pgen_next ps' = pgen_next ps" "ptable_init ps' = ptable_init ps" "pstats ps' = pstats ps"
    "fail_next_create ps' = fail_next_create ps"
proof -
  have u: "unlinked (ptable ps' i) = unlinked (ptable ps i)" and e: "ps'\<lparr>ptable := ptable ps, ready_queue := ready_queue ps\<rparr> = ps"
    using assms unfolding same_procs_def by blast+
  show "p_pid (ptable ps' i) = p_pid (ptable ps i)" "p_state (ptable ps' i) = p_state (ptable ps i)" "p_priority (ptable ps' i) = p_priority (ptable ps i)"
    "p_magic_ok (ptable ps' i) = p_magic_ok (ptable ps i)" "p_context_valid (ptable ps' i) = p_context_valid (ptable ps i)"
    "p_io_boost (ptable ps' i) = p_io_boost (ptable ps i)" "p_cr3 (ptable ps' i) = p_cr3 (ptable ps i)" "p_context (ptable ps' i) = p_context (ptable ps i)"
    using unlinked_fields [OF u] by simp_all
  show "cur_proc ps' = cur_proc ps" using arg_cong [OF e, of cur_proc] by simp
  show "pgen ps' = pgen ps" using arg_cong [OF e, of pgen] by simp
  show "pgen_next ps' = pgen_next ps" using arg_cong [OF e, of pgen_next] by simp
  show "ptable_init ps' = ptable_init ps" using arg_cong [OF e, of ptable_init] by simp
  show "pstats ps' = pstats ps" using arg_cong [OF e, of pstats] by simp
  show "fail_next_create ps' = fail_next_create ps" using arg_cong [OF e, of fail_next_create] by simp
qed

lemmas remove_sel [simp] = same_procs_sel [OF same_procs_remove]
lemmas add_sel [simp] = same_procs_sel [OF same_procs_add]

lemma queues_retag:
  assumes "queues ps qs"
  shows "queues (upd i (\<lambda>p. p\<lparr>p_state := st\<rparr>) ps) qs"
  by (rule queues_cong [OF _ _ _ assms]) simp_all

lemma retire_ready_exact:
  assumes "ready_exact ps" "i < 256" "st \<noteq> PROCESS_STATE_READY"
  shows "ready_exact (retire i st ps)"
proof -
  obtain qs where q: "queues ps qs" "\<forall>i<256. p_state (ptable ps i) = PROCESS_STATE_READY \<longleftrightarrow> (\<exists>q\<le>5. i \<in> set (qs q))"
    using assms(1) unfolding ready_exact_def by blast
  show ?thesis
  proof (cases "\<exists>q\<le>5. i \<in> set (qs q)")
    case True
    then obtain q' where q': "q' \<le> 5" "i \<in> set (qs q')" by blast
    let ?qs = "qs(q' := remove1 i (qs q'))"
    have "queues (retire i st ps) ?qs" unfolding retire_def by (rule queues_retag [OF remove_member [OF q(1) q']])
    moreover have "p_state (ptable (retire i st ps) k) = PROCESS_STATE_READY \<longleftrightarrow> (\<exists>r\<le>5. k \<in> set (?qs r))" if "k < 256" for k
    proof (cases "k = i")
      case True
      have "i \<notin> set (?qs r)" if "r \<le> 5" for r
        using queuesD(2) [OF q(1) q'(1)] queues_apart [OF q(1) that q'(1) _ q'(2)] by auto
      then show ?thesis using True assms(3) by (auto simp: retire_def simp del: fun_upd_apply) (simp add: fun_upd_def)
    next
      case False
      then have "(\<exists>r\<le>5. k \<in> set (?qs r)) = (\<exists>r\<le>5. k \<in> set (qs r))" by (metis fun_upd_apply in_set_remove1)
      moreover have "p_state (ptable (retire i st ps) k) = p_state (ptable ps k)" using False by (simp add: retire_def)
      ultimately show ?thesis using q(2) that by simp
    qed
    ultimately show ?thesis unfolding ready_exact_def by blast
  next
    case False
    then have "remove_from_ready_queue i ps = ps" by (intro remove_absent [OF q(1)]) blast
    then have e: "retire i st ps = upd i (\<lambda>p. p\<lparr>p_state := st\<rparr>) ps" unfolding retire_def by simp
    have "queues (retire i st ps) qs" unfolding e by (rule queues_retag [OF q(1)])
    then show ?thesis unfolding ready_exact_def e using q(2) False assms(3) by (intro exI [of _ qs]) auto
  qed
qed

lemma ready_absent:
  assumes "ready_exact ps" "i < 256" "p_state (ptable ps i) \<noteq> PROCESS_STATE_READY"
  shows "remove_from_ready_queue i ps = ps"
proof -
  obtain qs where q: "queues ps qs" "\<forall>i<256. p_state (ptable ps i) = PROCESS_STATE_READY \<longleftrightarrow> (\<exists>q\<le>5. i \<in> set (qs q))"
    using assms(1) unfolding ready_exact_def by blast
  then show ?thesis using assms(2,3) by (intro remove_absent [OF q(1)]) blast
qed

text \<open>Entering the queue from a state that is not READY.\<close>

definition enlist :: "nat \<Rightarrow> proc_state \<Rightarrow> proc_state" where
  "enlist i ps = add_to_ready_queue i (upd i (\<lambda>p. p\<lparr>p_state := PROCESS_STATE_READY\<rparr>) ps)"

lemma enlist_ready_exact:
  assumes "ready_exact ps" "i < 256" "p_state (ptable ps i) \<noteq> PROCESS_STATE_READY" "p_priority (ptable ps i) \<le> 5"
  shows "ready_exact (enlist i ps)"
proof -
  obtain qs where q: "queues ps qs" "\<forall>i<256. p_state (ptable ps i) = PROCESS_STATE_READY \<longleftrightarrow> (\<exists>q\<le>5. i \<in> set (qs q))"
    using assms(1) unfolding ready_exact_def by blast
  let ?p = "p_priority (ptable ps i)"
  let ?qs = "qs(?p := i # qs ?p)"
  have out: "\<forall>q\<le>5. i \<notin> set (qs q)" using q(2) assms(2,3) by blast
  have "queues (enlist i ps) ?qs"
    using add_member [OF queues_retag [OF q(1)] out assms(2), of i PROCESS_STATE_READY] assms(4) unfolding enlist_def by simp
  moreover have "(\<exists>r\<le>5. k \<in> set (?qs r)) \<longleftrightarrow> k = i \<or> (\<exists>r\<le>5. k \<in> set (qs r))" for k
    using assms(4) by (metis fun_upd_apply insert_iff list.simps(15))
  ultimately show ?thesis unfolding ready_exact_def
    by (intro exI [of _ ?qs]) (use q(2) in \<open>auto simp: enlist_def\<close>)
qed

text \<open>Both cover the state change of a valid process.\<close>

lemma set_state_cases:
  assumes "ready_exact ps"
  shows "snd (process_set_state pid st ps) =
    (if \<not> slot_valid pid ps then ps
     else if st = PROCESS_STATE_READY then enlist (unat pid) (retire (unat pid) PROCESS_STATE_CREATED ps)
     else retire (unat pid) st ps)"
proof (cases "slot_valid pid ps")
  case True
  then have i: "unat pid < 256" by (simp add: slot_valid_def not_le word_less_nat_alt)
  have r: "(if p_state (ptable ps (unat pid)) = PROCESS_STATE_READY then remove_from_ready_queue (unat pid) ps else ps)
      = remove_from_ready_queue (unat pid) ps"
    using ready_absent [OF assms i] by simp
  have u: "upd j (\<lambda>p. p\<lparr>p_state := a\<rparr>) (upd j (\<lambda>p. p\<lparr>p_state := b\<rparr>) s) = upd j (\<lambda>p. p\<lparr>p_state := a\<rparr>) s" for j a b s
    by (simp add: upd_def)
  show ?thesis unfolding process_set_state_def enlist_def retire_def Let_def r u using True by simp
qed (simp add: process_set_state_def)

lemma retire_sel [simp]:
  "ptable (retire i st ps) = (ptable (remove_from_ready_queue i ps))(i := (ptable (remove_from_ready_queue i ps) i)\<lparr>p_state := st\<rparr>)"
  "cur_proc (retire i st ps) = cur_proc ps" "pgen (retire i st ps) = pgen ps" "pstats (retire i st ps) = pstats ps"
  by (simp_all add: retire_def)

lemma enlist_st [simp]:
  "p_state (ptable (enlist i ps) k) = (if k = i then PROCESS_STATE_READY else p_state (ptable ps k))"
  "p_priority (ptable (enlist i ps) k) = p_priority (ptable ps k)" "p_magic_ok (ptable (enlist i ps) k) = p_magic_ok (ptable ps k)"
  "p_pid (ptable (enlist i ps) k) = p_pid (ptable ps k)" "p_context_valid (ptable (enlist i ps) k) = p_context_valid (ptable ps k)"
  "p_io_boost (ptable (enlist i ps) k) = p_io_boost (ptable ps k)" "p_cr3 (ptable (enlist i ps) k) = p_cr3 (ptable ps k)"
  "p_context (ptable (enlist i ps) k) = p_context (ptable ps k)"
  "cur_proc (enlist i ps) = cur_proc ps" "pgen (enlist i ps) = pgen ps" "pstats (enlist i ps) = pstats ps"
  by (simp_all add: enlist_def)

section \<open>Operations and the table invariant\<close>

text \<open>A write to a control block outside what the invariant reads.\<close>

definition inert :: "(proc_t \<Rightarrow> proc_t) \<Rightarrow> bool" where
  "inert f \<longleftrightarrow> (\<forall>p. p_next (f p) = p_next p \<and> p_prev (f p) = p_prev p \<and> p_priority (f p) = p_priority p
     \<and> p_state (f p) = p_state p \<and> p_magic_ok (f p) = p_magic_ok p \<and> p_pid (f p) = p_pid p)"

lemma upd_core: "inert f \<Longrightarrow> table_core ps \<Longrightarrow> table_core (upd i f ps)"
proof -
  assume f: "inert f" and c: "table_core ps"
  have k: "p_next (ptable (upd i f ps) k) = p_next (ptable ps k) \<and> p_prev (ptable (upd i f ps) k) = p_prev (ptable ps k)"
    "p_priority (ptable (upd i f ps) k) = p_priority (ptable ps k)" "p_state (ptable (upd i f ps) k) = p_state (ptable ps k)"
    "p_magic_ok (ptable (upd i f ps) k) = p_magic_ok (ptable ps k)" "p_pid (ptable (upd i f ps) k) = p_pid (ptable ps k)" for k
    using f by (simp_all add: inert_def)
  have "ready_exact (upd i f ps)" by (rule ready_exact_cong [OF _ _ _ _ table_coreD(1) [OF c]]) (simp_all only: k upd_sel(2) simp_thms)
  then show ?thesis using c unfolding table_core_def k by blast
qed

lemma upd_ok: "inert f \<Longrightarrow> table_ok ps \<Longrightarrow> table_ok (upd i f ps)"
proof -
  assume f: "inert f" and t: "table_ok ps"
  have "p_state (ptable (upd i f ps) k) = p_state (ptable ps k)" for k using f by (simp add: inert_def)
  then show ?thesis using upd_core [OF f table_okD(1) [OF t]] table_okD(2,3) [OF t] unfolding table_ok_def upd_sel(4) by metis
qed

lemma core_frame: "ptable ps' = ptable ps \<Longrightarrow> ready_queue ps' = ready_queue ps \<Longrightarrow> table_core ps \<Longrightarrow> table_core ps'"
  unfolding table_core_def using ready_exact_cong [of ps' ps] by simp

lemma pid_unat: "i < 256 \<Longrightarrow> unat (of_nat i :: u32) = i"
  by (simp add: unat_of_nat)

lemma slot_valid_lt: "slot_valid pid ps \<Longrightarrow> unat pid < 256"
  by (simp add: slot_valid_def not_le word_less_nat_alt)

lemma slot_valid_nat: "i < 256 \<Longrightarrow> slot_valid (of_nat i) ps \<longleftrightarrow> p_magic_ok (ptable ps i) \<and> p_state (ptable ps i) \<noteq> PROCESS_STATE_UNUSED"
  by (auto simp: slot_valid_def pid_unat word_le_nat_alt)

lemma core_valid: "table_core ps \<Longrightarrow> i < 256 \<Longrightarrow> slot_valid (of_nat i) ps \<longleftrightarrow> p_state (ptable ps i) \<noteq> PROCESS_STATE_UNUSED"
  using table_coreD(3) [of ps i] by (auto simp: slot_valid_nat)

lemma set_state_st:
  assumes "ready_exact ps" "slot_valid pid ps"
  shows "p_state (ptable (snd (process_set_state pid st ps)) k) = (if k = unat pid then st else p_state (ptable ps k))"
  unfolding set_state_cases [OF assms(1)] using assms(2) by simp

lemma set_state_sel:
  assumes "ready_exact ps"
  shows "p_priority (ptable (snd (process_set_state pid st ps)) k) = p_priority (ptable ps k)"
    "p_magic_ok (ptable (snd (process_set_state pid st ps)) k) = p_magic_ok (ptable ps k)"
    "p_pid (ptable (snd (process_set_state pid st ps)) k) = p_pid (ptable ps k)"
    "p_context_valid (ptable (snd (process_set_state pid st ps)) k) = p_context_valid (ptable ps k)"
    "p_io_boost (ptable (snd (process_set_state pid st ps)) k) = p_io_boost (ptable ps k)"
    "p_cr3 (ptable (snd (process_set_state pid st ps)) k) = p_cr3 (ptable ps k)"
    "p_context (ptable (snd (process_set_state pid st ps)) k) = p_context (ptable ps k)"
    "cur_proc (snd (process_set_state pid st ps)) = cur_proc ps"
    "pgen (snd (process_set_state pid st ps)) = pgen ps"
  unfolding set_state_cases [OF assms] by simp_all

lemma set_state_core:
  assumes "table_core ps" "st \<noteq> PROCESS_STATE_UNUSED"
  shows "table_core (snd (process_set_state pid st ps))"
proof (cases "slot_valid pid ps")
  case True
  note d = table_coreD [OF assms(1)] and i = slot_valid_lt [OF True]
  have "ready_exact (retire (unat pid) st ps)" if "st \<noteq> PROCESS_STATE_READY" by (rule retire_ready_exact [OF d(1) i that])
  moreover have "ready_exact (enlist (unat pid) (retire (unat pid) PROCESS_STATE_CREATED ps))"
    by (rule enlist_ready_exact [OF retire_ready_exact [OF d(1) i] i]) (use d(2) [OF i] in simp_all)
  ultimately have "ready_exact (snd (process_set_state pid st ps))" unfolding set_state_cases [OF d(1)] using True by simp
  then show ?thesis
    using d(2,3) True unfolding table_core_def set_state_st [OF d(1) True] set_state_sel [OF d(1)] slot_valid_def by (auto split: if_splits)
qed (use assms(1) in \<open>simp add: process_set_state_def\<close>)

text \<open>The states the callers give: none but the scheduler says RUNNING or READY.\<close>

lemma set_state_ok:
  assumes "table_ok ps" "st \<notin> {PROCESS_STATE_UNUSED, PROCESS_STATE_RUNNING, PROCESS_STATE_READY}"
  shows "table_ok (snd (process_set_state pid st ps))"
proof (cases "slot_valid pid ps")
  case True
  note re = table_coreD(1) [OF table_okD(1) [OF assms(1)]]
  show ?thesis using set_state_core [OF table_okD(1) [OF assms(1)], of st pid] assms
    table_okD(2,3) [OF assms(1)]
    unfolding table_ok_def set_state_st [OF re True] set_state_sel [OF re] by (metis insertCI)
qed (use assms(1) in \<open>simp add: process_set_state_def\<close>)

lemma switch_core:
  assumes "table_core ps"
  shows "table_core (snd (process_switch_to now i ps))"
proof -
  let ?ps = "ps\<lparr>cur_proc := Some i, pstats := (pstats ps)\<lparr>context_switches := context_switches (pstats ps) + 1\<rparr>\<rparr>"
  have c: "table_core ?ps" by (rule core_frame [OF _ _ assms]) simp_all
  show ?thesis unfolding process_switch_to_def Let_def
    by (auto simp: assms inert_def split: option.split intro!: upd_core c)
qed

lemma switch_sel:
  assumes "slot_valid (p_pid (ptable ps i)) ps"
  shows "p_state (ptable (snd (process_switch_to now i ps)) k) = p_state (ptable ps k)"
    "p_pid (ptable (snd (process_switch_to now i ps)) k) = p_pid (ptable ps k)"
    "p_magic_ok (ptable (snd (process_switch_to now i ps)) k) = p_magic_ok (ptable ps k)"
    "p_context_valid (ptable (snd (process_switch_to now i ps)) k) = p_context_valid (ptable ps k)"
    "p_io_boost (ptable (snd (process_switch_to now i ps)) k) = p_io_boost (ptable ps k)"
    "p_context (ptable (snd (process_switch_to now i ps)) k) = p_context (ptable ps k)"
    "p_cr3 (ptable (snd (process_switch_to now i ps)) k) = p_cr3 (ptable ps k)"
    "cur_proc (snd (process_switch_to now i ps)) = Some i"
  using assms unfolding process_switch_to_def Let_def by (auto split: option.split)

text \<open>Handing the processor to a READY process when none is RUNNING.\<close>

lemma run_ok:
  fixes now :: u64
  assumes c: "table_core ps" and n: "\<forall>k<256. p_state (ptable ps k) \<noteq> PROCESS_STATE_RUNNING"
    and i: "i < 256" "p_state (ptable ps i) = PROCESS_STATE_READY"
  defines "ps1 \<equiv> snd (process_switch_to now i ps)"
  defines "ps2 \<equiv> snd (process_set_state (p_pid (ptable ps1 i)) PROCESS_STATE_RUNNING ps1)"
  shows "table_ok ps2" "cur_proc ps2 = Some i"
    "p_state (ptable ps2 k) = (if k = i then PROCESS_STATE_RUNNING else p_state (ptable ps k))"
    "p_pid (ptable ps2 k) = p_pid (ptable ps k)" "p_context_valid (ptable ps2 k) = p_context_valid (ptable ps k)"
    "p_io_boost (ptable ps2 k) = p_io_boost (ptable ps k)" "p_magic_ok (ptable ps2 k) = p_magic_ok (ptable ps k)"
    "p_context (ptable ps2 k) = p_context (ptable ps k)" "p_cr3 (ptable ps2 k) = p_cr3 (ptable ps k)"
proof -
  have pid: "p_pid (ptable ps i) = of_nat i" "p_magic_ok (ptable ps i)" using table_coreD(3) [OF c i(1)] i(2) by simp_all
  have v: "slot_valid (p_pid (ptable ps i)) ps" using pid i(2) slot_valid_nat [OF i(1)] by simp
  note sw = switch_sel [OF v, of now] and c1 = switch_core [OF c, of now i]
  have v1: "slot_valid (p_pid (ptable ps1 i)) ps1" using pid i(2) sw unfolding ps1_def by (simp add: slot_valid_nat i)
  have u: "unat (p_pid (ptable ps1 i)) = i" using pid i(1) sw unfolding ps1_def by (simp add: pid_unat)
  note re1 = table_coreD(1) [OF c1, folded ps1_def]
  note st = set_state_st [OF re1 v1] and sel = set_state_sel [OF re1]
  show cur: "cur_proc ps2 = Some i" unfolding ps2_def sel unfolding ps1_def by (rule sw(8))
  show S: "p_state (ptable ps2 k) = (if k = i then PROCESS_STATE_RUNNING else p_state (ptable ps k))" for k
    unfolding ps2_def st u unfolding ps1_def sw ..
  show "p_pid (ptable ps2 k) = p_pid (ptable ps k)" "p_context_valid (ptable ps2 k) = p_context_valid (ptable ps k)"
    "p_io_boost (ptable ps2 k) = p_io_boost (ptable ps k)" "p_magic_ok (ptable ps2 k) = p_magic_ok (ptable ps k)"
    "p_context (ptable ps2 k) = p_context (ptable ps k)" "p_cr3 (ptable ps2 k) = p_cr3 (ptable ps k)"
    unfolding ps2_def sel unfolding ps1_def sw by (rule refl)+
  have "table_core ps2" unfolding ps2_def by (rule set_state_core) (use c1 in \<open>simp_all add: ps1_def\<close>)
  then show "table_ok ps2" using n i(1) unfolding table_ok_def cur S by auto
qed

end
