(* ===== verification/Sched_Props.thy ===== *)
theory Sched_Props
  imports Sched Proc_Props
begin

text \<open>
  What the scheduler guarantees: the table invariant, the exact rule of a pick, and a bound on the ticks
  a process that is ready to run can wait, whatever the boosts, interrupts and system calls in between.
\<close>

section \<open>Positions in the rotation\<close>

lemma mod256: "(x::nat) < 512 \<Longrightarrow> x mod 256 = (if x < 256 then x else x - 256)"
  by (simp add: mod_if)

lemma rot_mod: "rot from off = (unat from + off) mod 256"
proof -
  have "unat (from + of_nat off) mod 256 = (unat from + off) mod 256"
    by (simp add: unat_word_ariths unat_of_nat mod_mod_cancel mod_add_right_eq)
  then show ?thesis unfolding rot_def by (simp add: unat_mod)
qed

lemma rot_lt [simp]: "rot from off < 256"
  by (simp add: rot_mod)

text \<open>How many slots lie between the cursor and \<open>P\<close>, in scan order.\<close>

definition dist :: "u32 \<Rightarrow> nat \<Rightarrow> nat" where
  "dist c P = (P + 255 - unat c mod 256) mod 256"

lemma dist_lt: "dist c P < 256"
  by (simp add: dist_def)

lemma rot_dist: "P < 256 \<Longrightarrow> rot c (Suc (dist c P)) = P"
proof -
  assume P: "P < 256"
  let ?a = "unat c mod 256"
  have a: "?a < 256" by simp
  have d: "dist c P = (if P + 255 - ?a < 256 then P + 255 - ?a else P + 255 - ?a - 256)"
    unfolding dist_def by (rule mod256) (use P in simp)
  have "rot c (Suc (dist c P)) = (?a + Suc (dist c P)) mod 256" unfolding rot_mod by (rule mod_add_left_eq [symmetric])
  also have "\<dots> = (if ?a + Suc (dist c P) < 256 then ?a + Suc (dist c P) else ?a + Suc (dist c P) - 256)"
    by (rule mod256) (use a dist_lt [of c P] in simp)
  also have "\<dots> = P" unfolding d using a P by (cases "P + 255 - ?a < 256") auto
  finally show ?thesis .
qed

lemma dist_rot:
  assumes "P < 256" "1 \<le> off" "off \<le> dist c P"
  shows "dist (of_nat (rot c off)) P = dist c P - off"
proof -
  let ?a = "unat c mod 256"
  have a: "?a < 256" by simp
  have d: "dist c P = (if P + 255 - ?a < 256 then P + 255 - ?a else P + 255 - ?a - 256)"
    unfolding dist_def by (rule mod256) (use assms(1) in simp)
  have "rot c off = (?a + off) mod 256" unfolding rot_mod by (rule mod_add_left_eq [symmetric])
  also have "\<dots> = (if ?a + off < 256 then ?a + off else ?a + off - 256)"
    by (rule mod256) (use a assms(3) dist_lt [of c P] in simp)
  finally have r: "rot c off = (if ?a + off < 256 then ?a + off else ?a + off - 256)" .
  have "unat (of_nat (rot c off) :: u32) mod 256 = rot c off" by (simp add: pid_unat)
  then have "dist (of_nat (rot c off)) P = (P + 255 - rot c off) mod 256" unfolding dist_def by simp
  also have "\<dots> = (if P + 255 - rot c off < 256 then P + 255 - rot c off else P + 255 - rot c off - 256)"
    by (rule mod256) (use assms(1) in simp)
  also have "\<dots> = dist c P - off" using a assms unfolding d r by (auto split: if_splits simp: add.commute [of 255])
  finally show ?thesis .
qed

section \<open>Picks\<close>

lemma boost_scan_Some:
  assumes "boost_scan from ps = Some i"
  shows "i < 256" "runnable ps i" "p_io_boost (ptable ps i)" "i \<noteq> IDLE_PROCESS_ID"
  using assms unfolding boost_scan_def by (auto simp: first_idx_Some Let_def)

lemma plain_scan_Some:
  assumes "plain_scan c ps = Some i"
  shows "i < 256" "runnable ps i"
  using assms unfolding plain_scan_def by (auto simp: first_idx_Some split: option.splits if_splits)

text \<open>A process that is waiting for the processor and is not the idle one.\<close>

definition waiting :: "nat \<Rightarrow> proc_state \<Rightarrow> bool" where
  "waiting P ps \<longleftrightarrow> P < 256 \<and> P \<noteq> IDLE_PROCESS_ID \<and> runnable ps P"

text \<open>With a process waiting the plain scan finds it or one strictly before it.\<close>

lemma plain_scan_progress:
  assumes "waiting P ps"
  obtains i where "plain_scan c ps = Some i" "i < 256" "runnable ps i" "i \<noteq> P \<Longrightarrow> dist (of_nat i) P < dist c P"
proof -
  note w = assms [unfolded waiting_def]
  let ?p = "\<lambda>off. runnable ps (rot c off) \<and> rot c off \<noteq> IDLE_PROCESS_ID"
  have at: "?p (Suc (dist c P))" "Suc (dist c P) < 257" using w rot_dist [of P c] dist_lt [of c P] by simp_all
  have "first_idx ?p 1 257 \<noteq> None"
  proof
    assume "first_idx ?p 1 257 = None"
    then have "\<forall>j. 1 \<le> j \<and> j < 257 \<longrightarrow> \<not> ?p j" unfolding first_idx_None .
    then show False using at by (metis One_nat_def Suc_le_mono le0)
  qed
  then obtain off where o: "first_idx ?p 1 257 = Some off" by blast
  then have o': "1 \<le> off" "off < 257" "?p off" "\<forall>j. 1 \<le> j \<and> j < off \<longrightarrow> \<not> ?p j" by (simp_all add: first_idx_Some)
  have le: "off \<le> Suc (dist c P)" using o'(4) at(1) by (metis One_nat_def Suc_le_mono le0 not_le)
  show thesis
  proof (rule that [of "rot c off"])
    show "plain_scan c ps = Some (rot c off)" unfolding plain_scan_def o by simp
    show "rot c off < 256" "runnable ps (rot c off)" using o'(3) by simp_all
    assume "rot c off \<noteq> P"
    then have "off \<noteq> Suc (dist c P)" using rot_dist w by blast
    then have "off \<le> dist c P" using le by simp
    then show "dist (of_nat (rot c off)) P < dist c P" using dist_rot [of P off c] w o'(1) by simp
  qed
qed

lemma pick_next_state: "snd (pick_next from s) = s\<lparr>s_sched := (s_sched s)\<lparr>pick_was_boost := pick_was_boost (s_sched (snd (pick_next from s)))\<rparr>\<rparr>"
  unfolding pick_next_def Let_def by (simp split: option.split)

lemma pick_next_runnable: "fst (pick_next from s) = Some i \<Longrightarrow> i < 256 \<and> runnable (s_proc s) i"
  unfolding pick_next_def Let_def
  by (auto split: option.splits if_splits dest: boost_scan_Some plain_scan_Some)

lemma pick_waiting:
  assumes "waiting P (s_proc s)"
  obtains i b where "pick_next from s = (Some i, s\<lparr>s_sched := (s_sched s)\<lparr>pick_was_boost := b\<rparr>\<rparr>)"
    "i < 256" "runnable (s_proc s) i" "b \<Longrightarrow> consec_boost (s_sched s) < 2" "\<not> b \<Longrightarrow> i \<noteq> P \<Longrightarrow> dist (of_nat i) P < dist (rr_cursor (s_sched s)) P"
proof (cases "if consec_boost (s_sched s) < 2 then boost_scan from (s_proc s) else None")
  case None
  obtain i where i: "plain_scan (rr_cursor (s_sched s)) (s_proc s) = Some i" "i < 256" "runnable (s_proc s) i"
    "i \<noteq> P \<Longrightarrow> dist (of_nat i) P < dist (rr_cursor (s_sched s)) P" by (rule plain_scan_progress [OF assms]) blast
  show thesis by (rule that [of i False]) (use None i in \<open>auto simp: pick_next_def Let_def split: if_splits\<close>)
next
  case (Some i)
  then have b: "consec_boost (s_sched s) < 2" "boost_scan from (s_proc s) = Some i" by (simp_all split: if_splits)
  show thesis by (rule that [of i True]) (use b boost_scan_Some [OF b(2)] in \<open>simp_all add: pick_next_def Let_def\<close>)
qed

section \<open>The dispatch\<close>

definition none_running :: "proc_state \<Rightarrow> bool" where
  "none_running ps \<longleftrightarrow> (\<forall>k<256. p_state (ptable ps k) \<noteq> PROCESS_STATE_RUNNING)"

lemma runnable_nat: "i < 256 \<Longrightarrow> runnable ps i \<longleftrightarrow> p_magic_ok (ptable ps i) \<and> p_state (ptable ps i) = PROCESS_STATE_READY \<and> p_context_valid (ptable ps i)"
  by (auto simp: runnable_def slot_valid_nat)

lemma vmspace_switch_sel [simp]:
  "rr_cursor (vmspace_switch c sc) = rr_cursor sc" "consec_boost (vmspace_switch c sc) = consec_boost sc"
  "quantum_counter (vmspace_switch c sc) = quantum_counter sc" "pick_was_boost (vmspace_switch c sc) = pick_was_boost sc"
  "cons_reader_pid (vmspace_switch c sc) = cons_reader_pid sc" "preempt_count (vmspace_switch c sc) = preempt_count sc"
  by (simp_all add: vmspace_switch_def)

lemma dispatch_effect:
  fixes now kcr :: u64 and i P :: nat and s :: "'a sys_scheme"
  assumes c: "table_core (s_proc s)" "none_running (s_proc s)" and i: "i < 256" "p_state (ptable (s_proc s) i) = PROCESS_STATE_READY"
    and s'_def: "s' = snd (dispatch now kcr i s)"
  shows "table_ok (s_proc s')" "cur_proc (s_proc s') = Some i"
    "P < 256 \<Longrightarrow> runnable (s_proc s') P \<longleftrightarrow> P \<noteq> i \<and> runnable (s_proc s) P"
    "rr_cursor (s_sched s') = (if pick_was_boost (s_sched s) then rr_cursor (s_sched s) else of_nat i)"
    "consec_boost (s_sched s') = (if pick_was_boost (s_sched s) then consec_boost (s_sched s) + 1 else 0)"
    "quantum_counter (s_sched s') = quantum_counter (s_sched s)" "s_auth s' = s_auth s"
    "fst (dispatch now kcr i s) = p_context (ptable (s_proc s) i)"
    "k \<noteq> i \<Longrightarrow> p_io_boost (ptable (s_proc s') k) = p_io_boost (ptable (s_proc s) k)"
    "p_context (ptable (s_proc s') k) = p_context (ptable (s_proc s) k)"
    "p_state (ptable (s_proc s') k) = (if k = i then PROCESS_STATE_RUNNING else p_state (ptable (s_proc s) k))"
proof -
  let ?ps1 = "snd (process_switch_to now i (s_proc s))"
  let ?ps2 = "snd (process_set_state (p_pid (ptable ?ps1 i)) PROCESS_STATE_RUNNING ?ps1)"
  note R = run_ok [OF c(1) c(2) [unfolded none_running_def] i, where now = now]
  have pid: "p_pid (ptable (s_proc s) i) = of_nat i" using table_coreD(3) [OF c(1) i(1)] i(2) by simp
  have e: "s_proc s' = upd i (\<lambda>p. p\<lparr>p_io_boost := False\<rparr>) ?ps2"
    unfolding s'_def dispatch_def pick_commit_def Let_def by (simp add: case_prod_beta)
  show "table_ok (s_proc s')" unfolding e by (rule upd_ok [OF _ R(1)]) (simp add: inert_def)
  show "cur_proc (s_proc s') = Some i" unfolding e by (simp add: R(2))
  show "runnable (s_proc s') P \<longleftrightarrow> P \<noteq> i \<and> runnable (s_proc s) P" if "P < 256"
    unfolding runnable_nat [OF that] e by (simp add: R(3,5,7))
  show "rr_cursor (s_sched s') = (if pick_was_boost (s_sched s) then rr_cursor (s_sched s) else of_nat i)"
    "consec_boost (s_sched s') = (if pick_was_boost (s_sched s) then consec_boost (s_sched s) + 1 else 0)"
    "quantum_counter (s_sched s') = quantum_counter (s_sched s)" "s_auth s' = s_auth s"
    "fst (dispatch now kcr i s) = p_context (ptable (s_proc s) i)"
    unfolding s'_def dispatch_def pick_commit_def Let_def by (simp_all add: R(4,8) pid)
  show "k \<noteq> i \<Longrightarrow> p_io_boost (ptable (s_proc s') k) = p_io_boost (ptable (s_proc s) k)"
    "p_context (ptable (s_proc s') k) = p_context (ptable (s_proc s) k)"
    "p_state (ptable (s_proc s') k) = (if k = i then PROCESS_STATE_RUNNING else p_state (ptable (s_proc s) k))"
    unfolding e by (simp_all add: R(3,6,8))
qed

section \<open>The wait measure\<close>

text \<open>Three times the places left in the rotation, plus the boosts that may still come before the next plain pick.\<close>

definition turns :: "nat \<Rightarrow> sched_state \<Rightarrow> nat" where
  "turns P sc = 3 * dist (rr_cursor sc) P + (2 - unat (consec_boost sc))"

definition sys_ok :: "'a sys_scheme \<Rightarrow> bool" where
  "sys_ok s \<longleftrightarrow> table_ok (s_proc s) \<and> cur_proc (s_proc s) \<noteq> None \<and> consec_boost (s_sched s) \<le> 2 \<and> quantum_counter (s_sched s) < 5"

lemma turns_lt: "turns P sc < 768"
  using dist_lt [of "rr_cursor sc" P] by (simp add: turns_def)

text \<open>A pick followed by the dispatch of its choice, on a table where nobody is RUNNING, serves \<open>P\<close> or brings it closer.\<close>

lemma commit_progress:
  fixes now kcr :: u64 and s s1 :: "'a sys_scheme"
  assumes w: "waiting P (s_proc s)" and p: "pick_next from s = (Some i, s\<lparr>s_sched := (s_sched s)\<lparr>pick_was_boost := b\<rparr>\<rparr>)"
    and pb: "b \<longrightarrow> consec_boost (s_sched s) < 2" and pd: "\<not> b \<longrightarrow> i \<noteq> P \<longrightarrow> dist (of_nat i) P < dist (rr_cursor (s_sched s)) P"
    and k: "consec_boost (s_sched s) \<le> 2"
    and s1: "s_sched s1 = (s_sched s)\<lparr>pick_was_boost := b, quantum_counter := 0\<rparr>" "waiting P (s_proc s1)"
    and c: "table_core (s_proc s1)" "none_running (s_proc s1)" and i: "i < 256" "p_state (ptable (s_proc s1) i) = PROCESS_STATE_READY"
  defines "s' \<equiv> snd (dispatch now kcr i s1)"
  shows "sys_ok s' \<and> quantum_counter (s_sched s') = 0
    \<and> (cur_proc (s_proc s') = Some P \<or> waiting P (s_proc s') \<and> turns P (s_sched s') < turns P (s_sched s))"
proof -
  note D = dispatch_effect [OF c i meta_eq_to_obj_eq [OF s'_def]]
  have q: "quantum_counter (s_sched s') = 0" using D(6) s1(1) by simp
  have k': "unat (consec_boost (s_sched s) + 1) = Suc (unat (consec_boost (s_sched s)))" if b
  proof -
    have "unat (consec_boost (s_sched s)) < 2" using pb that by (simp add: word_less_nat_alt)
    then show ?thesis by (simp add: unat_word_ariths)
  qed
  have "consec_boost (s_sched s') \<le> 2"
  proof (cases b)
    case True
    then have "unat (consec_boost (s_sched s)) < 2" using pb by (simp add: word_less_nat_alt)
    then show ?thesis using D(5) s1(1) True k' by (simp add: word_le_nat_alt)
  qed (use D(5) s1(1) in simp)
  moreover have "cur_proc (s_proc s') = Some P \<or> waiting P (s_proc s') \<and> turns P (s_sched s') < turns P (s_sched s)"
  proof (cases "i = P")
    case False
    have "waiting P (s_proc s')" using s1(2) D(3) [of P] False unfolding waiting_def by blast
    moreover have "turns P (s_sched s') < turns P (s_sched s)"
    proof (cases b)
      case True
      then have "unat (consec_boost (s_sched s)) < 2" using pb by (simp add: word_less_nat_alt)
      then show ?thesis using D(4,5) s1(1) k' True by (simp add: turns_def)
    next
      case False': False
      then have "dist (of_nat i) P < dist (rr_cursor (s_sched s)) P" using pd False by blast
      then show ?thesis using D(4,5) s1(1) False' by (simp add: turns_def)
    qed
    ultimately show ?thesis by blast
  qed (use D(2) in simp)
  ultimately show ?thesis using D(1,2) q by (simp add: sys_ok_def)
qed

section \<open>Rescheduling\<close>

lemma pick_Some:
  assumes "fst (pick_next from s) = Some i"
  obtains b where "pick_next from s = (Some i, s\<lparr>s_sched := (s_sched s)\<lparr>pick_was_boost := b\<rparr>\<rparr>)" "i < 256" "runnable (s_proc s) i"
    "b \<longrightarrow> consec_boost (s_sched s) < 2"
proof (cases "if consec_boost (s_sched s) < 2 then boost_scan from (s_proc s) else None")
  case None
  show thesis by (rule that [of False]) (use None assms plain_scan_Some [of "rr_cursor (s_sched s)" "s_proc s" i] in
    \<open>auto simp: pick_next_def Let_def split: if_splits\<close>)
next
  case (Some k)
  then have b: "consec_boost (s_sched s) < 2" "boost_scan from (s_proc s) = Some k" by (simp_all split: if_splits)
  then have "k = i" using assms by (simp add: pick_next_def Let_def)
  then show thesis by (intro that [of True]) (use b boost_scan_Some [OF b(2)] in \<open>simp_all add: pick_next_def Let_def\<close>)
qed

text \<open>Saving the interrupted context leaves nobody RUNNING.\<close>

lemma save_effect:
  assumes t: "table_ok ps" and c: "cur_proc ps = Some c"
  shows "table_core (save_context c frame ps)" "none_running (save_context c frame ps)"
    "k \<noteq> c \<Longrightarrow> p_state (ptable (save_context c frame ps) k) = p_state (ptable ps k)"
    "k \<noteq> c \<Longrightarrow> k < 256 \<Longrightarrow> runnable (save_context c frame ps) k = runnable ps k"
    "k \<noteq> c \<Longrightarrow> p_context (ptable (save_context c frame ps) k) = p_context (ptable ps k)"
    "p_context (ptable (save_context c frame ps) c) = frame"
    "p_io_boost (ptable (save_context c frame ps) k) = p_io_boost (ptable ps k)"
    "p_state (ptable ps c) = PROCESS_STATE_RUNNING \<Longrightarrow> p_state (ptable (save_context c frame ps) c) = PROCESS_STATE_READY"
proof -
  let ?f = "\<lambda>p. p\<lparr>p_context := frame, p_context_valid := True, p_rip := ctx_rip frame, p_rsp := ctx_rsp frame\<rparr>"
  let ?ps = "upd c ?f ps"
  note cc = table_okD(3) [OF t c]
  have core: "table_core ?ps" by (rule upd_core [OF _ table_okD(1) [OF t]]) (simp add: inert_def)
  note re = table_coreD(1) [OF core]
  have pid: "p_pid (ptable ps c) = of_nat c" "p_magic_ok (ptable ps c)" using table_coreD(3) [OF table_okD(1) [OF t]] cc by blast+
  have v: "slot_valid (p_pid (ptable ?ps c)) ?ps" using cc pid slot_valid_nat [of c ?ps] by simp
  have u: "unat (p_pid (ptable ?ps c)) = c" using pid cc pid_unat by simp
  define pz where "pz = snd (process_set_state (p_pid (ptable ?ps c)) PROCESS_STATE_READY ?ps)"
  have st: "p_state (ptable pz k) = (if k = c then PROCESS_STATE_READY else p_state (ptable ps k))" for k
    unfolding pz_def set_state_st [OF re v] u by simp
  have sel: "p_magic_ok (ptable pz k) = p_magic_ok (ptable ps k)" "k \<noteq> c \<Longrightarrow> p_context_valid (ptable pz k) = p_context_valid (ptable ps k)"
    "k \<noteq> c \<Longrightarrow> p_context (ptable pz k) = p_context (ptable ps k)"
    "p_context (ptable pz c) = frame" "p_io_boost (ptable pz k) = p_io_boost (ptable ps k)" for k
    unfolding pz_def set_state_sel [OF re] by simp_all
  have e: "save_context c frame ps = (if p_state (ptable ps c) = PROCESS_STATE_RUNNING then pz else ?ps)"
    unfolding save_context_def Let_def pz_def by simp
  have core': "table_core pz" unfolding pz_def by (rule set_state_core [OF core]) simp
  show "table_core (save_context c frame ps)" unfolding e using core core' by simp
  have S: "p_state (ptable (save_context c frame ps) k) = (if k = c \<and> p_state (ptable ps c) = PROCESS_STATE_RUNNING then PROCESS_STATE_READY else p_state (ptable ps k))" for k
    unfolding e by (simp add: st)
  show "none_running (save_context c frame ps)" using table_okD(2) [OF t] c unfolding none_running_def S by auto
  show "p_state (ptable (save_context c frame ps) k) = p_state (ptable ps k)" if "k \<noteq> c" unfolding S using that by simp
  show "runnable (save_context c frame ps) k = runnable ps k" if "k \<noteq> c" "k < 256"
    unfolding runnable_nat [OF that(2)] S unfolding e using that(1) by (simp add: sel)
  show "p_context (ptable (save_context c frame ps) k) = p_context (ptable ps k)" if "k \<noteq> c" unfolding e using that by (simp add: sel)
  show "p_context (ptable (save_context c frame ps) c) = frame" "p_io_boost (ptable (save_context c frame ps) k) = p_io_boost (ptable ps k)"
    unfolding e by (simp_all add: sel)
  show "p_state (ptable ps c) = PROCESS_STATE_RUNNING \<Longrightarrow> p_state (ptable (save_context c frame ps) c) = PROCESS_STATE_READY" unfolding S by simp
qed

text \<open>A reschedule keeps the invariant.\<close>

lemma sys_okD:
  assumes "sys_ok s"
  shows "table_ok (s_proc s)" "\<exists>c. cur_proc (s_proc s) = Some c" "consec_boost (s_sched s) \<le> 2" "quantum_counter (s_sched s) < 5"
  using assms unfolding sys_ok_def by auto

lemma consec_step:
  fixes k :: u32
  assumes "k < 2"
  shows "k + 1 \<le> 2"
proof -
  have "unat k < 2" using assms by (simp add: word_less_nat_alt)
  then have "unat (k + 1) = Suc (unat k)" by (simp add: unat_word_ariths)
  then show ?thesis using \<open>unat k < 2\<close> by (simp add: word_le_nat_alt)
qed

lemma reschedule_cases:
  assumes "sys_ok s" and c: "cur_proc (s_proc s) = Some c"
  obtains (stay) "snd (scheduler_reschedule now kcr frame s) = s\<lparr>s_sched := (s_sched s)\<lparr>quantum_counter := 0, pick_was_boost := False\<rparr>\<rparr>"
      "fst (scheduler_reschedule now kcr frame s) = frame" "\<not> waiting P (s_proc s)"
      "fst (pick_next (p_pid (ptable (s_proc s) c)) (s\<lparr>s_sched := (s_sched s)\<lparr>quantum_counter := 0\<rparr>\<rparr>)) = None"
  | (switch) i b where "pick_next (p_pid (ptable (s_proc s) c)) (s\<lparr>s_sched := (s_sched s)\<lparr>quantum_counter := 0\<rparr>\<rparr>)
        = (Some i, s\<lparr>s_sched := (s_sched s)\<lparr>quantum_counter := 0, pick_was_boost := b\<rparr>\<rparr>)"
      "i < 256" "runnable (s_proc s) i" "i \<noteq> c" "b \<longrightarrow> consec_boost (s_sched s) < 2"
      "scheduler_reschedule now kcr frame s = dispatch now kcr i
         (s\<lparr>s_sched := (s_sched s)\<lparr>quantum_counter := 0, pick_was_boost := b\<rparr>, s_proc := save_context c frame (s_proc s)\<rparr>)"
proof -
  let ?s = "s\<lparr>s_sched := (s_sched s)\<lparr>quantum_counter := 0\<rparr>\<rparr>" and ?pid = "p_pid (ptable (s_proc s) c)"
  have cR: "p_state (ptable (s_proc s) c) \<noteq> PROCESS_STATE_READY" "c < 256" using table_okD(3) [OF sys_okD(1) [OF assms(1)] c] by blast+
  show thesis
  proof (cases "fst (pick_next ?pid ?s)")
    case None
    have n: "\<not> waiting P (s_proc s)"
    proof
      assume "waiting P (s_proc s)"
      then have "waiting P (s_proc ?s)" by simp
      then show False using None by (metis fst_conv option.distinct(1) pick_waiting)
    qed
    have "plain_scan (rr_cursor (s_sched s)) (s_proc s) = None" "\<not> (consec_boost (s_sched s) < 2 \<and> boost_scan ?pid (s_proc s) \<noteq> None)"
      using None by (auto simp: pick_next_def Let_def split: if_splits option.splits)
    then have "pick_next ?pid ?s = (None, ?s\<lparr>s_sched := (s_sched ?s)\<lparr>pick_was_boost := False\<rparr>\<rparr>)"
      by (auto simp: pick_next_def Let_def)
    then have "scheduler_reschedule now kcr frame s = (frame, s\<lparr>s_sched := (s_sched s)\<lparr>quantum_counter := 0, pick_was_boost := False\<rparr>\<rparr>)"
      unfolding scheduler_reschedule_def Let_def using c by simp
    then show thesis using n None by (intro stay) simp_all
  next
    case (Some i)
    obtain b where b: "pick_next ?pid ?s = (Some i, ?s\<lparr>s_sched := (s_sched ?s)\<lparr>pick_was_boost := b\<rparr>\<rparr>)" "i < 256" "runnable (s_proc ?s) i"
      "b \<longrightarrow> consec_boost (s_sched ?s) < 2" by (rule pick_Some [OF Some]) blast
    have ic: "i \<noteq> c" using b(3) cR by (auto simp: runnable_nat)
    show thesis
      by (rule switch [of i b]) (use b ic c in \<open>simp_all add: scheduler_reschedule_def Let_def\<close>)
  qed
qed

lemma dispatch_sys_ok:
  fixes now kcr :: u64 and s :: "'a sys_scheme"
  assumes c: "table_core (s_proc s)" "none_running (s_proc s)" and i: "i < 256" "p_state (ptable (s_proc s) i) = PROCESS_STATE_READY"
    and k: "consec_boost (s_sched s) \<le> 2" "pick_was_boost (s_sched s) \<longrightarrow> consec_boost (s_sched s) < 2" "quantum_counter (s_sched s) = 0"
  shows "sys_ok (snd (dispatch now kcr i s))"
proof -
  define s' where "s' = snd (dispatch now kcr i s)"
  show ?thesis using dispatch_effect [OF c i s'_def] consec_step [of "consec_boost (s_sched s)"] k unfolding s'_def [symmetric] by (simp add: sys_ok_def)
qed

lemma reschedule_ok:
  assumes "sys_ok s"
  shows "sys_ok (snd (scheduler_reschedule now kcr frame s))"
proof -
  note d = sys_okD [OF assms]
  obtain c where c: "cur_proc (s_proc s) = Some c" using d(2) by blast
  note sv = save_effect [OF d(1) c, where frame = frame]
  show ?thesis using assms c
  proof (cases rule: reschedule_cases [where now = now and kcr = kcr and frame = frame and P = 0])
    case stay
    then show ?thesis using assms by (simp add: sys_ok_def)
  next
    case (switch i b)
    show ?thesis unfolding switch(6)
      by (rule dispatch_sys_ok) (use sv switch(2-5) d(3) in \<open>simp_all add: runnable_nat\<close>)
  qed
qed

text \<open>With \<open>P\<close> waiting a reschedule always switches, and either serves \<open>P\<close> or shortens its wait.\<close>

lemma reschedule_progress:
  fixes now kcr :: u64 and frame :: cpu_state_t and s :: "'a sys_scheme"
  assumes "sys_ok s" and w: "waiting P (s_proc s)"
  defines "s' \<equiv> snd (scheduler_reschedule now kcr frame s)"
  shows "sys_ok s' \<and> quantum_counter (s_sched s') = 0
    \<and> (cur_proc (s_proc s') = Some P \<or> waiting P (s_proc s') \<and> turns P (s_sched s') < turns P (s_sched s))"
proof -
  note d = sys_okD [OF assms(1)]
  obtain c where c: "cur_proc (s_proc s) = Some c" using d(2) by blast
  note sv = save_effect [OF d(1) c, where frame = frame]
  have cR: "p_state (ptable (s_proc s) c) \<noteq> PROCESS_STATE_READY" "c < 256" using table_okD(3) [OF d(1) c] by blast+
  have cP: "P \<noteq> c" using w cR by (auto simp: waiting_def runnable_nat)
  let ?s = "s\<lparr>s_sched := (s_sched s)\<lparr>quantum_counter := 0\<rparr>\<rparr>"
  obtain i b where p: "pick_next (p_pid (ptable (s_proc s) c)) ?s = (Some i, ?s\<lparr>s_sched := (s_sched ?s)\<lparr>pick_was_boost := b\<rparr>\<rparr>)"
    "i < 256" "runnable (s_proc ?s) i" "b \<Longrightarrow> consec_boost (s_sched ?s) < 2" "\<not> b \<Longrightarrow> i \<noteq> P \<Longrightarrow> dist (of_nat i) P < dist (rr_cursor (s_sched ?s)) P"
    by (rule pick_waiting [of P ?s]) (use w in simp, blast)
  have ic: "i \<noteq> c" using p(3) cR by (auto simp: runnable_nat)
  let ?s1 = "s\<lparr>s_sched := (s_sched s)\<lparr>quantum_counter := 0, pick_was_boost := b\<rparr>, s_proc := save_context c frame (s_proc s)\<rparr>"
  have e: "s' = snd (dispatch now kcr i ?s1)"
    unfolding s'_def scheduler_reschedule_def Let_def using c p(1) ic by simp
  have "sys_ok s' \<and> quantum_counter (s_sched s') = 0
    \<and> (cur_proc (s_proc s') = Some P \<or> waiting P (s_proc s') \<and> turns P (s_sched s') < turns P (s_sched ?s))" unfolding e
  proof (rule commit_progress [OF _ p(1)])
    show "waiting P (s_proc ?s1)" using w sv(4) [of P] cP by (simp add: waiting_def)
    show "p_state (ptable (s_proc ?s1) i) = PROCESS_STATE_READY" using sv(3) [OF ic] p(2,3) by (simp add: runnable_nat)
  qed (use w p(2-5) d(3) sv(1,2) in simp_all)
  then show ?thesis by (simp add: turns_def)
qed

text \<open>The same for the path that drops a dead current process.\<close>

lemma kill_progress:
  fixes now kcr :: u64 and s :: "'a sys_scheme"
  assumes c: "table_core (s_proc s)" "none_running (s_proc s)" and k: "consec_boost (s_sched s) \<le> 2" and w: "waiting P (s_proc s)"
  obtains f s' where "scheduler_kill_current now kcr s = Some (f, s')" "sys_ok s'" "quantum_counter (s_sched s') = 0"
    "cur_proc (s_proc s') = Some P \<or> waiting P (s_proc s') \<and> turns P (s_sched s') < turns P (s_sched s)"
proof -
  let ?pid = "case cur_proc (s_proc s) of Some c \<Rightarrow> p_pid (ptable (s_proc s) c) | None \<Rightarrow> 0"
  obtain i b where p: "pick_next ?pid s = (Some i, s\<lparr>s_sched := (s_sched s)\<lparr>pick_was_boost := b\<rparr>\<rparr>)"
    "i < 256" "runnable (s_proc s) i" "b \<Longrightarrow> consec_boost (s_sched s) < 2" "\<not> b \<Longrightarrow> i \<noteq> P \<Longrightarrow> dist (of_nat i) P < dist (rr_cursor (s_sched s)) P"
    by (rule pick_waiting [OF w]) blast
  let ?s1 = "s\<lparr>s_sched := (s_sched s)\<lparr>pick_was_boost := b, quantum_counter := 0\<rparr>\<rparr>"
  have e: "scheduler_kill_current now kcr s = Some (dispatch now kcr i ?s1)"
    unfolding scheduler_kill_current_def p(1) by simp
  have "sys_ok (snd (dispatch now kcr i ?s1)) \<and> quantum_counter (s_sched (snd (dispatch now kcr i ?s1))) = 0
    \<and> (cur_proc (s_proc (snd (dispatch now kcr i ?s1))) = Some P \<or> waiting P (s_proc (snd (dispatch now kcr i ?s1)))
       \<and> turns P (s_sched (snd (dispatch now kcr i ?s1))) < turns P (s_sched s))"
    by (rule commit_progress [OF w p(1)]) (use w p(2-5) k c in \<open>simp_all add: runnable_nat\<close>)
  then show thesis using e by (intro that [of "fst (dispatch now kcr i ?s1)" "snd (dispatch now kcr i ?s1)"]) simp_all
qed

section \<open>Every path that can switch\<close>

text \<open>The number of ticks \<open>P\<close> can still wait.\<close>

definition ticks_left :: "nat \<Rightarrow> sched_state \<Rightarrow> nat" where
  "ticks_left P sc = 5 * turns P sc + (5 - unat (quantum_counter sc))"

definition closer :: "nat \<Rightarrow> nat \<Rightarrow> 'a sys_scheme \<Rightarrow> 'a sys_scheme \<Rightarrow> bool" where
  "closer P n s s' \<longleftrightarrow> sys_ok s' \<and> (cur_proc (s_proc s') = Some P
     \<or> waiting P (s_proc s') \<and> ticks_left P (s_sched s') + n \<le> ticks_left P (s_sched s))"

lemma ticks_left_pos: "sys_ok s \<Longrightarrow> 1 \<le> ticks_left P (s_sched s)"
  using sys_okD(4) [of s] by (simp add: ticks_left_def word_less_nat_alt)

lemma ticks_left_lt: "ticks_left P sc \<le> 3840"
  using turns_lt [of P sc] by (simp add: ticks_left_def)

text \<open>A flag, an account or a note changes nothing the scheduler waits for.\<close>

definition sched_same :: "'a sys_scheme \<Rightarrow> 'a sys_scheme \<Rightarrow> bool" where
  "sched_same s s' \<longleftrightarrow> (sys_ok s \<longrightarrow> sys_ok s') \<and> (\<forall>P. waiting P (s_proc s) \<longrightarrow> waiting P (s_proc s'))
     \<and> cur_proc (s_proc s') = cur_proc (s_proc s) \<and> rr_cursor (s_sched s') = rr_cursor (s_sched s)
     \<and> consec_boost (s_sched s') = consec_boost (s_sched s) \<and> quantum_counter (s_sched s') = quantum_counter (s_sched s)"

lemma sched_same_refl [simp]: "sched_same s s"
  by (simp add: sched_same_def)

lemma sched_sameD:
  assumes "sched_same s s'"
  shows "sys_ok s \<Longrightarrow> sys_ok s'" "waiting P (s_proc s) \<Longrightarrow> waiting P (s_proc s')" "cur_proc (s_proc s') = cur_proc (s_proc s)"
    "turns P (s_sched s') = turns P (s_sched s)" "ticks_left P (s_sched s') = ticks_left P (s_sched s)"
    "closer P n s' t \<Longrightarrow> closer P n s t"
  using assms by (simp_all add: sched_same_def turns_def ticks_left_def closer_def)

lemma boost_same: "sched_same s (s\<lparr>s_proc := upd i (\<lambda>p. p\<lparr>p_io_boost := b\<rparr>) (s_proc s)\<rparr>)"
proof -
  have "table_ok (s_proc s) \<Longrightarrow> table_ok (upd i (\<lambda>p. p\<lparr>p_io_boost := b\<rparr>) (s_proc s))" by (rule upd_ok) (simp add: inert_def)
  moreover have "runnable (upd i (\<lambda>p. p\<lparr>p_io_boost := b\<rparr>) (s_proc s)) P = runnable (s_proc s) P" if "P < 256" for P
    by (simp add: runnable_nat that)
  ultimately show ?thesis by (simp add: sched_same_def sys_ok_def waiting_def)
qed

lemma boost_note_same: "sched_same s (s\<lparr>s_proc := upd i (\<lambda>p. p\<lparr>p_io_boost := b\<rparr>) (s_proc s), s_sched := (s_sched s)\<lparr>cons_reader_waiting := w\<rparr>\<rparr>)"
  using boost_same [of s i b] by (simp add: sched_same_def sys_ok_def)

lemma com2_same: "sched_same s (com2_rx_boost_check now rx s)"
  unfolding com2_rx_boost_check_def Let_def by (simp add: boost_same split: option.split)

lemma boost_if_ready_same: "sched_same s (scheduler_boost_if_ready pid s)"
  unfolding scheduler_boost_if_ready_def by (simp add: boost_same split: option.split)

lemma auth_same: "sched_same s (s\<lparr>s_auth := a\<rparr>)"
  by (simp add: sched_same_def sys_ok_def)

lemma reschedule_closer:
  assumes "sys_ok s" "waiting P (s_proc s)"
  shows "closer P 1 s (snd (scheduler_reschedule now kcr frame s))"
proof -
  have "1 \<le> 5 - unat (quantum_counter (s_sched s))" using sys_okD(4) [OF assms(1)] by (simp add: word_less_nat_alt)
  then show ?thesis using reschedule_progress [OF assms, of now kcr frame]
    unfolding closer_def ticks_left_def by auto
qed

lemma closer_weak: "closer P n s t \<Longrightarrow> m \<le> n \<Longrightarrow> closer P m s t"
  unfolding closer_def by auto

text \<open>The handovers of the interrupt handlers are a flag and a reschedule, or nothing.\<close>

lemma handover_cases:
  fixes t :: "'a sys_scheme"
  assumes "r = (if c then (frame, s) else case h of None \<Rightarrow> (frame, s) | Some i \<Rightarrow> scheduler_reschedule now kcr frame (g i))"
    "\<forall>i. sched_same s (g i)"
  shows "r = (frame, s) \<or> (\<not> c \<and> (\<exists>s1. sched_same s s1 \<and> r = scheduler_reschedule now kcr frame s1))"
  using assms by (cases c; cases h) auto

lemma if_merge: "(if a then x else if b then x else y) = (if a \<or> b then x else y)"
  by simp

lemma console_rx_cases:
  obtains (idle) "scheduler_console_rx now kcr rx frame s = (frame, s)"
  | (hand) s1 where "sched_same s s1" "scheduler_console_rx now kcr rx frame s = scheduler_reschedule now kcr frame s1" "rx"
proof -
  let ?sc = "s_sched s"
  let ?c = "cons_reader_pid ?sc = 0 \<or> \<not> cons_reader_waiting ?sc \<or> \<not> rx \<or> slot_generation (cons_reader_pid ?sc) (s_proc s) \<noteq> cons_reader_gen ?sc
     \<or> cap_find_resource now (cons_reader_pid ?sc) CAP_RESOURCE_DEVICE CAP_READ DEVICE_ID_CONSOLE (k_caps (s_auth s)) \<noteq> Inr ()"
  let ?g = "\<lambda>i. s\<lparr>s_proc := upd i (\<lambda>p. p\<lparr>p_io_boost := True\<rparr>) (s_proc s), s_sched := ?sc\<lparr>cons_reader_waiting := False\<rparr>\<rparr>"
  have e: "scheduler_console_rx now kcr rx frame s = (if ?c then (frame, s)
      else case handover_target (cons_reader_pid ?sc) (s_proc s) of None \<Rightarrow> (frame, s) | Some i \<Rightarrow> scheduler_reschedule now kcr frame (?g i))"
    unfolding scheduler_console_rx_def Let_def if_merge disj_assoc by (rule refl)
  have g: "\<forall>i. sched_same s (?g i)" using boost_note_same by blast
  show thesis using handover_cases [OF e g] idle hand by metis
qed

lemma net_rx_cases:
  obtains (idle) "scheduler_net_rx now kcr frame s = (frame, s)"
  | (hand) s1 where "sched_same s s1" "scheduler_net_rx now kcr frame s = scheduler_reschedule now kcr frame s1"
proof -
  have g: "\<forall>i. sched_same s (s\<lparr>s_proc := upd i (\<lambda>p. p\<lparr>p_io_boost := True\<rparr>) (s_proc s)\<rparr>)" using boost_same by blast
  show thesis using handover_cases [OF scheduler_net_rx_def g] idle hand by metis
qed

lemma closer_refl: "sys_ok s \<Longrightarrow> waiting P (s_proc s) \<Longrightarrow> closer P 0 s s"
  by (simp add: closer_def)

lemma console_rx_ok: "sys_ok s \<Longrightarrow> sys_ok (snd (scheduler_console_rx now kcr rx frame s))"
  by (cases rule: console_rx_cases [of now kcr rx frame s]) (simp_all add: reschedule_ok sched_sameD(1))

lemma net_rx_ok: "sys_ok s \<Longrightarrow> sys_ok (snd (scheduler_net_rx now kcr frame s))"
  by (cases rule: net_rx_cases [of now kcr frame s]) (simp_all add: reschedule_ok sched_sameD(1))

lemma console_rx_closer: "sys_ok s \<Longrightarrow> waiting P (s_proc s) \<Longrightarrow> closer P 0 s (snd (scheduler_console_rx now kcr rx frame s))"
  by (cases rule: console_rx_cases [of now kcr rx frame s])
    (auto intro: closer_refl sched_sameD(6) closer_weak [OF reschedule_closer] dest: sched_sameD(1,2))

lemma net_rx_closer: "sys_ok s \<Longrightarrow> waiting P (s_proc s) \<Longrightarrow> closer P 0 s (snd (scheduler_net_rx now kcr frame s))"
  by (cases rule: net_rx_cases [of now kcr frame s])
    (auto intro: closer_refl sched_sameD(6) closer_weak [OF reschedule_closer] dest: sched_sameD(1,2))

section \<open>The tick\<close>

lemma reschedule_quantum:
  assumes "sc\<lparr>quantum_counter := 0\<rparr> = sc'\<lparr>quantum_counter := 0\<rparr>"
  shows "scheduler_reschedule now kcr frame (s\<lparr>s_sched := sc\<rparr>) = scheduler_reschedule now kcr frame (s\<lparr>s_sched := sc'\<rparr>)"
  unfolding scheduler_reschedule_def Let_def by (cases "cur_proc (s_proc s)") (simp_all add: assms)

lemma quantum_cases:
  fixes s :: "'a sys_scheme"
  assumes "sys_ok s"
  defines "s1 \<equiv> s\<lparr>s_sched := (s_sched s)\<lparr>quantum_counter := quantum_counter (s_sched s) + 1\<rparr>\<rparr>"
  obtains (slice) "quantum_step now kcr frame s = (frame, s1)" "sys_ok s1" "ticks_left P (s_sched s1) + 1 = ticks_left P (s_sched s)"
      "waiting P (s_proc s1) = waiting P (s_proc s)"
  | (switch) s2 where "quantum_step now kcr frame s = scheduler_reschedule now kcr frame s2" "sys_ok s2"
      "s_proc s2 = s_proc s" "ticks_left P (s_sched s2) \<le> ticks_left P (s_sched s)"
proof -
  note d = sys_okD [OF assms(1)]
  have q: "unat (quantum_counter (s_sched s)) < 5" using d(4) by (simp add: word_less_nat_alt)
  have q1: "unat (quantum_counter (s_sched s) + 1) = Suc (unat (quantum_counter (s_sched s)))" using q by (simp add: unat_word_ariths)
  show thesis
  proof (cases "quantum_counter (s_sched s1) < 5")
    case True
    then have "unat (quantum_counter (s_sched s)) < 4" using q1 by (simp add: s1_def word_less_nat_alt)
    then have l: "ticks_left P (s_sched s1) + 1 = ticks_left P (s_sched s)" using q1 by (simp add: s1_def ticks_left_def turns_def)
    have o: "sys_ok s1" using d True by (simp add: sys_ok_def s1_def)
    show thesis
    proof (cases "boost_pending (s_proc s1)")
      case b: True
      show thesis by (rule switch [of s1]) (use True b o l in \<open>simp_all add: quantum_step_def Let_def s1_def\<close>)
    next
      case False
      show thesis by (rule slice) (use True False o l in \<open>simp_all add: quantum_step_def Let_def s1_def\<close>)
    qed
  next
    case False
    let ?s2 = "s\<lparr>s_sched := (s_sched s)\<lparr>preempt_count := preempt_count (s_sched s) + 1\<rparr>\<rparr>"
    have "quantum_step now kcr frame s = scheduler_reschedule now kcr frame (s\<lparr>s_sched := (s_sched s1)\<lparr>preempt_count := preempt_count (s_sched s1) + 1\<rparr>\<rparr>)"
      using False by (simp add: quantum_step_def Let_def s1_def)
    also have "\<dots> = scheduler_reschedule now kcr frame ?s2"
      by (rule reschedule_quantum) (rule sched_state.equality; simp add: s1_def)
    finally have e: "quantum_step now kcr frame s = scheduler_reschedule now kcr frame ?s2" .
    show thesis by (rule switch [of ?s2]) (use e d in \<open>simp_all add: sys_ok_def ticks_left_def turns_def\<close>)
  qed
qed

lemma quantum_ok: "sys_ok s \<Longrightarrow> sys_ok (snd (quantum_step now kcr frame s))"
  by (cases rule: quantum_cases [of s now kcr frame 0]) (simp_all add: reschedule_ok)

lemma quantum_closer:
  assumes "sys_ok s" "waiting P (s_proc s)"
  shows "closer P 1 s (snd (quantum_step now kcr frame s))"
  using assms(1)
proof (cases rule: quantum_cases [where now = now and kcr = kcr and frame = frame and P = P])
  case slice
  then show ?thesis using assms(2) by (simp add: closer_def)
next
  case (switch s2)
  then show ?thesis using reschedule_closer [OF switch(2), of P now kcr frame] assms(2) by (auto simp: closer_def)
qed

text \<open>The end of the current process: it leaves the RUNNING state and is never saved.\<close>

definition drop_current :: "nat \<Rightarrow> 'a sys_scheme \<Rightarrow> 'a sys_scheme" where
  "drop_current c s = s\<lparr>s_proc := snd (process_set_state (p_pid (ptable (s_proc s) c)) PROCESS_STATE_TERMINATED (s_proc s))\<rparr>"

lemma drop_effect:
  assumes "sys_ok s" "cur_proc (s_proc s) = Some c"
  shows "table_core (s_proc (drop_current c s))" "none_running (s_proc (drop_current c s))"
    "waiting P (s_proc s) \<Longrightarrow> waiting P (s_proc (drop_current c s))" "s_sched (drop_current c s) = s_sched s"
    "p_state (ptable (s_proc (drop_current c s)) c) = PROCESS_STATE_TERMINATED"
    "k \<noteq> c \<Longrightarrow> p_state (ptable (s_proc (drop_current c s)) k) = p_state (ptable (s_proc s) k)"
proof -
  note t = sys_okD(1) [OF assms(1)]
  note core = table_okD(1) [OF t] and cc = table_okD(3) [OF t assms(2)]
  note re = table_coreD(1) [OF core]
  have pid: "p_pid (ptable (s_proc s) c) = of_nat c" using table_coreD(3) [OF core] cc by blast
  have v: "slot_valid (p_pid (ptable (s_proc s) c)) (s_proc s)" using cc core_valid [OF core] pid by simp
  have u: "unat (p_pid (ptable (s_proc s) c)) = c" using pid cc pid_unat by simp
  note st = set_state_st [OF re v, of PROCESS_STATE_TERMINATED, unfolded u] and sel = set_state_sel [OF re]
  show "table_core (s_proc (drop_current c s))" unfolding drop_current_def using set_state_core [OF core] by simp
  show "none_running (s_proc (drop_current c s))"
    unfolding none_running_def drop_current_def using table_okD(2) [OF t] assms(2) st by auto
  show "s_sched (drop_current c s) = s_sched s" by (simp add: drop_current_def)
  show "p_state (ptable (s_proc (drop_current c s)) c) = PROCESS_STATE_TERMINATED"
    "k \<noteq> c \<Longrightarrow> p_state (ptable (s_proc (drop_current c s)) k) = p_state (ptable (s_proc s) k)"
    by (simp_all add: drop_current_def st)
  show "waiting P (s_proc (drop_current c s))" if "waiting P (s_proc s)"
    using that cc unfolding waiting_def drop_current_def by (auto simp: runnable_nat st sel)
qed

lemma kill_ok:
  assumes "table_core (s_proc s)" "none_running (s_proc s)" "consec_boost (s_sched s) \<le> 2" "scheduler_kill_current now kcr s = Some (f, s')"
  shows "sys_ok s'"
proof -
  let ?pid = "case cur_proc (s_proc s) of Some c \<Rightarrow> p_pid (ptable (s_proc s) c) | None \<Rightarrow> 0"
  obtain i where i: "fst (pick_next ?pid s) = Some i"
    using assms(4) unfolding scheduler_kill_current_def by (cases "fst (pick_next ?pid s)") (auto simp: case_prod_beta)
  obtain b where b: "pick_next ?pid s = (Some i, s\<lparr>s_sched := (s_sched s)\<lparr>pick_was_boost := b\<rparr>\<rparr>)" "i < 256" "runnable (s_proc s) i"
    "b \<longrightarrow> consec_boost (s_sched s) < 2" by (rule pick_Some [OF i]) blast
  let ?s1 = "s\<lparr>s_sched := (s_sched s)\<lparr>pick_was_boost := b, quantum_counter := 0\<rparr>\<rparr>"
  have e: "s' = snd (dispatch now kcr i ?s1)" using assms(4) unfolding scheduler_kill_current_def b(1) by simp
  show ?thesis unfolding e by (rule dispatch_sys_ok) (use assms(1-3) b(2-4) in \<open>simp_all add: runnable_nat\<close>)
qed

text \<open>The accounting half is the quantum, or the end of the current process.\<close>

lemma charge_cases:
  fixes s :: "'a sys_scheme"
  assumes "sys_ok s" and c: "cur_proc (s_proc s) = Some c"
  obtains (quantum) s1 where "tick_charge now kcr frame s = Some (quantum_step now kcr frame s1)" "sched_same s s1"
      "s1 = s\<lparr>s_auth := s_auth s1, s_sched := s_sched s1\<rparr>"
      "\<not> (ctx_cs frame AND 3 \<noteq> 0 \<and> manifest_over_budget (p_pid (ptable (s_proc s) c)) (manifest_tick (p_pid (ptable (s_proc s) c)) (k_man (s_auth s)))
        \<and> fst (pick_next (p_pid (ptable (s_proc s) c)) s) \<noteq> None)"
  | (killed) a b where "tick_charge now kcr frame s = scheduler_kill_current now kcr
        (drop_current c (s\<lparr>s_sched := (s_sched s)\<lparr>pick_was_boost := b\<rparr>, s_auth := a\<rparr>))"
      "ctx_cs frame AND 3 \<noteq> 0" "manifest_over_budget (p_pid (ptable (s_proc s) c)) (manifest_tick (p_pid (ptable (s_proc s) c)) (k_man (s_auth s)))"
      "fst (pick_next (p_pid (ptable (s_proc s) c)) s) \<noteq> None"
      "k_man a = manifest_clear (p_pid (ptable (s_proc s) c)) (manifest_tick (p_pid (ptable (s_proc s) c)) (k_man (s_auth s)))"
proof -
  let ?pid = "p_pid (ptable (s_proc s) c)"
  let ?s = "s\<lparr>s_auth := (s_auth s)\<lparr>k_man := manifest_tick ?pid (k_man (s_auth s))\<rparr>\<rparr>"
  let ?over = "ctx_cs frame AND 3 \<noteq> 0 \<and> manifest_over_budget ?pid (k_man (s_auth ?s))"
  define b where "b = pick_was_boost (s_sched (snd (pick_next ?pid ?s)))"
  let ?t = "?s\<lparr>s_sched := (s_sched ?s)\<lparr>pick_was_boost := b\<rparr>\<rparr>"
  have pn: "pick_next ?pid ?s = (fst (pick_next ?pid ?s), ?t)" unfolding b_def by (metis pick_next_state prod.collapse)
  have e: "tick_charge now kcr frame s = (if ?over then (if fst (pick_next ?pid ?s) \<noteq> None then cpu_kill now kcr ?pid ?t
      else Some (quantum_step now kcr frame ?t)) else Some (quantum_step now kcr frame ?s))"
    unfolding tick_charge_def Let_def c option.case by (subst pn) (simp only: prod.case)
  have pa: "fst (pick_next ?pid ?s) = fst (pick_next ?pid s)" unfolding pick_next_def Let_def by (simp split: option.split)
  have st: "sched_same s ?t" "sched_same s ?s" by (simp_all add: sched_same_def sys_ok_def)
  show thesis
  proof (cases "?over \<and> fst (pick_next ?pid ?s) \<noteq> None")
    case True
    let ?k = "set_ledger (audit_record now AUDIT_CPUKILL ?pid AUDIT_V_EPERM CAP_RESOURCE_PROCESS ?pid 0 (k_ledger (s_auth ?s))) (s_auth ?s)"
    have "cpu_kill now kcr ?pid ?t = scheduler_kill_current now kcr
      (drop_current c (s\<lparr>s_sched := (s_sched s)\<lparr>pick_was_boost := b\<rparr>, s_auth := ?k\<lparr>k_man := manifest_clear ?pid (k_man ?k)\<rparr>\<rparr>))"
      unfolding cpu_kill_def drop_current_def Let_def
      by (rule arg_cong [of _ _ "scheduler_kill_current now kcr"]) (rule sys.equality; simp)
    then show thesis using e True pa by (intro killed [where b = b and a = "?k\<lparr>k_man := manifest_clear ?pid (k_man ?k)\<rparr>"]) (simp_all add: set_ledger_def)
  next
    case False
    show thesis
    proof (cases ?over)
      case True
      then have n: "\<not> fst (pick_next ?pid ?s) \<noteq> None" using False by blast
      have "tick_charge now kcr frame s = Some (quantum_step now kcr frame ?t)" unfolding e if_P [OF True] if_not_P [OF n] ..
      then show thesis by (rule quantum [OF _ st(1)]) (use n pa in simp_all)
    next
      case False
      have "tick_charge now kcr frame s = Some (quantum_step now kcr frame ?s)" unfolding e if_not_P [OF False] ..
      then show thesis by (rule quantum [OF _ st(2)]) (use False in auto)
    qed
  qed
qed

lemma drop_wrapped:
  fixes s :: "'a sys_scheme"
  assumes "sys_ok s" "cur_proc (s_proc s) = Some c"
    and t_def: "t = drop_current c (s\<lparr>s_sched := (s_sched s)\<lparr>pick_was_boost := b\<rparr>, s_auth := a\<rparr>)"
  shows "table_core (s_proc t)" "none_running (s_proc t)" "waiting P (s_proc s) \<Longrightarrow> waiting P (s_proc t)"
    "consec_boost (s_sched t) \<le> 2" "turns P (s_sched t) = turns P (s_sched s)"
proof -
  note D = drop_effect [OF assms(1,2)]
  have p: "s_proc t = s_proc (drop_current c s)" "s_sched t = (s_sched s)\<lparr>pick_was_boost := b\<rparr>" unfolding t_def drop_current_def by simp_all
  show "table_core (s_proc t)" "none_running (s_proc t)" "waiting P (s_proc s) \<Longrightarrow> waiting P (s_proc t)"
    "consec_boost (s_sched t) \<le> 2" "turns P (s_sched t) = turns P (s_sched s)"
    unfolding p using D(1-3) sys_okD(3) [OF assms(1)] by (simp_all add: turns_def)
qed

lemma charge_ok:
  assumes "sys_ok s" "tick_charge now kcr frame s = Some (f, s')"
  shows "sys_ok s'"
proof -
  obtain c where c: "cur_proc (s_proc s) = Some c" using sys_okD(2) [OF assms(1)] by blast
  show ?thesis using assms(1) c
  proof (cases rule: charge_cases [where now = now and kcr = kcr and frame = frame])
    case (quantum s1)
    then have "s' = snd (quantum_step now kcr frame s1)" using assms(2) by (metis option.sel snd_conv)
    then show ?thesis using quantum_ok sched_sameD(1) [OF quantum(2) assms(1)] by blast
  next
    case (killed a b)
    note D = drop_wrapped [OF assms(1) c refl, where b = b and a = a]
    show ?thesis by (rule kill_ok [OF D(1,2,4) trans [OF sym [OF killed(1)] assms(2)]])
  qed
qed

lemma charge_closer:
  assumes "sys_ok s" "waiting P (s_proc s)"
  obtains f s' where "tick_charge now kcr frame s = Some (f, s')" "closer P 1 s s'"
proof -
  obtain c where c: "cur_proc (s_proc s) = Some c" using sys_okD(2) [OF assms(1)] by blast
  show thesis using assms(1) c
  proof (cases rule: charge_cases [where now = now and kcr = kcr and frame = frame])
    case (quantum s1)
    have "closer P 1 s1 (snd (quantum_step now kcr frame s1))"
      using quantum_closer sched_sameD(1,2) [OF quantum(2)] assms by blast
    then have "closer P 1 s (snd (quantum_step now kcr frame s1))" by (rule sched_sameD(6) [OF quantum(2)])
    then show thesis using quantum(1) by (intro that [of "fst (quantum_step now kcr frame s1)"]) simp_all
  next
    case (killed a b)
    note D = drop_wrapped [OF assms(1) c refl, where b = b and a = a]
    obtain f s' where k: "tick_charge now kcr frame s = Some (f, s')" "sys_ok s'" "quantum_counter (s_sched s') = 0"
      "cur_proc (s_proc s') = Some P \<or> waiting P (s_proc s') \<and> turns P (s_sched s') < turns P (s_sched s)"
      using kill_progress [OF D(1,2,4) D(3) [OF assms(2)]] killed(1) D(5) by metis
    have "1 \<le> 5 - unat (quantum_counter (s_sched s))" using sys_okD(4) [OF assms(1)] by (simp add: word_less_nat_alt)
    then have "closer P 1 s s'" using k(2-4) unfolding closer_def ticks_left_def by auto
    then show thesis using k(1) that by blast
  qed
qed

end
