(* ===== verification/Sched_Run.thy ===== *)
theory Sched_Run
  imports Sched_Props
begin

text \<open>
  Runs of the scheduler: the timer tick, the yield, the handovers of the interrupt handlers and the end of
  the current process, interleaved with any kernel work that leaves the processor where it is. On every run
  one process at most is RUNNING, the ready queues are exact, and a process that stays ready to run gets
  the processor within 3840 ticks.
\<close>

section \<open>Steps\<close>

text \<open>The label of a tick says whether its poll of the vsock channel could hand the processor over.\<close>

datatype sched_event = Tick bool | Other

inductive sched_step :: "sched_event \<Rightarrow> 'a sys_scheme \<Rightarrow> 'a sys_scheme \<Rightarrow> bool" where
  tick: "scheduler_tick now kcr ti frame s = Some (f, s') \<Longrightarrow> sched_step (Tick (ti_vsock ti \<and> ti_console_rx ti)) s s'"
| yield: "sched_step Other s (snd (scheduler_reschedule now kcr frame s))"
| console: "sched_step Other s (snd (scheduler_console_rx now kcr rx frame s))"
| net: "sched_step Other s (snd (scheduler_net_rx now kcr frame s))"
| boost: "sched_step Other s (scheduler_boost_if_ready pid s)"
| exit_current: "cur_proc (s_proc s) = Some c \<Longrightarrow> scheduler_kill_current now kcr (drop_current c s) = Some (f, s')
    \<Longrightarrow> sched_step Other s s'"
| work: "table_ok (s_proc s') \<Longrightarrow> cur_proc (s_proc s') = cur_proc (s_proc s) \<Longrightarrow> rr_cursor (s_sched s') = rr_cursor (s_sched s)
    \<Longrightarrow> consec_boost (s_sched s') = consec_boost (s_sched s) \<Longrightarrow> quantum_counter (s_sched s') = quantum_counter (s_sched s)
    \<Longrightarrow> sched_step Other s s'"

inductive sched_reach :: "'a sys_scheme \<Rightarrow> 'a sys_scheme \<Rightarrow> bool" for s where
  start: "sched_reach s s"
| more: "sched_reach s t \<Longrightarrow> sched_step e t u \<Longrightarrow> sched_reach s u"

text \<open>A run of \<open>n\<close> ticks on which \<open>P\<close> waits all the time; its ticks do not hand over to a vsock reader.\<close>

inductive kept_waiting :: "nat \<Rightarrow> 'a sys_scheme \<Rightarrow> nat \<Rightarrow> 'a sys_scheme \<Rightarrow> bool" for P s where
  start: "waiting P (s_proc s) \<Longrightarrow> kept_waiting P s 0 s"
| tick: "kept_waiting P s n t \<Longrightarrow> sched_step (Tick False) t u \<Longrightarrow> waiting P (s_proc u) \<Longrightarrow> kept_waiting P s (Suc n) u"
| other: "kept_waiting P s n t \<Longrightarrow> sched_step Other t u \<Longrightarrow> waiting P (s_proc u) \<Longrightarrow> kept_waiting P s n u"

inductive_cases tick_stepE: "sched_step (Tick h) s s'"

section \<open>Invariant\<close>

lemma tick_ok:
  assumes "sys_ok s" "scheduler_tick now kcr ti frame s = Some (f, s')"
  shows "sys_ok s'"
proof -
  let ?s = "com2_rx_boost_check now (ti_com2_rx ti) s"
  have o: "sys_ok ?s" by (rule sched_sameD(1) [OF com2_same assms(1)])
  show ?thesis
  proof (cases "ti_vsock ti")
    case True
    have "tick_charge now kcr (fst (scheduler_console_rx now kcr (ti_console_rx ti) frame ?s)) (snd (scheduler_console_rx now kcr (ti_console_rx ti) frame ?s))
      = Some (f, s')" using assms(2) True unfolding scheduler_tick_def Let_def by (simp add: case_prod_beta)
    then show ?thesis by (rule charge_ok [OF console_rx_ok [OF o]])
  next
    case False
    then have "tick_charge now kcr frame ?s = Some (f, s')" using assms(2) unfolding scheduler_tick_def Let_def by simp
    then show ?thesis by (rule charge_ok [OF o])
  qed
qed

lemma step_ok:
  assumes "sched_step e s s'" "sys_ok s"
  shows "sys_ok s'"
  using assms
proof (induction rule: sched_step.induct)
  case (tick now kcr ti frame s f s')
  then show ?case using tick_ok by blast
next
  case (exit_current s c now kcr f s')
  note D = drop_effect [OF exit_current.prems exit_current.hyps(1)]
  show ?case by (rule kill_ok [OF D(1,2) _ exit_current.hyps(2)]) (simp add: D(4) sys_okD(3) [OF exit_current.prems])
next
  case (work s' s)
  then show ?case by (simp add: sys_ok_def)
qed (simp_all add: reschedule_ok console_rx_ok net_rx_ok sched_sameD(1) [OF boost_if_ready_same])

lemma reach_ok: "sched_reach s t \<Longrightarrow> sys_ok s \<Longrightarrow> sys_ok t"
  by (induction rule: sched_reach.induct) (simp_all add: step_ok)

section \<open>Waiting times\<close>

lemma vsock_idle: "\<not> (ti_vsock ti \<and> ti_console_rx ti) \<Longrightarrow>
  scheduler_tick now kcr ti frame s = tick_charge now kcr frame (com2_rx_boost_check now (ti_com2_rx ti) s)"
  unfolding scheduler_tick_def Let_def by (auto simp: scheduler_console_rx_def Let_def)

lemma tick_closer:
  assumes "sys_ok s" "waiting P (s_proc s)" "\<not> (ti_vsock ti \<and> ti_console_rx ti)"
  obtains f s' where "scheduler_tick now kcr ti frame s = Some (f, s')" "closer P 1 s s'"
proof -
  let ?s = "com2_rx_boost_check now (ti_com2_rx ti) s"
  have o: "sys_ok ?s" "waiting P (s_proc ?s)" using sched_sameD(1,2) [OF com2_same] assms(1,2) by blast+
  obtain f s' where "tick_charge now kcr frame ?s = Some (f, s')" "closer P 1 ?s s'" using charge_closer [OF o] by blast
  then show thesis using that sched_sameD(6) [OF com2_same] vsock_idle [OF assms(3)] by metis
qed

lemma step_closer:
  assumes "sched_step e s s'" "sys_ok s" "waiting P (s_proc s)" "e \<noteq> Tick True" "waiting P (s_proc s')"
  shows "closer P (if e = Tick False then 1 else 0) s s'"
  using assms
proof (induction rule: sched_step.induct)
  case (tick now kcr ti frame s f s')
  then have v: "\<not> (ti_vsock ti \<and> ti_console_rx ti)" by simp
  have "closer P 1 s s'" using tick_closer [OF tick.prems(1,2) v, of now kcr frame] tick.hyps by (metis option.inject prod.inject)
  then show ?case using v by simp
next
  case (yield s now kcr frame)
  show ?case using closer_weak [OF reschedule_closer [OF yield.prems(1,2)], of 0] by simp
next
  case (boost s pid)
  then show ?case using boost_if_ready_same [of s pid] sched_sameD [OF boost_if_ready_same [of s pid]] by (simp add: closer_def)
next
  case (exit_current s c now kcr f s')
  note o = exit_current.prems(1) and D = drop_effect [OF exit_current.prems(1) exit_current.hyps(1)]
  have k: "consec_boost (s_sched (drop_current c s)) \<le> 2" by (simp add: D(4) sys_okD(3) [OF o])
  have "sys_ok s'" "quantum_counter (s_sched s') = 0" "cur_proc (s_proc s') = Some P
      \<or> waiting P (s_proc s') \<and> turns P (s_sched s') < turns P (s_sched s)"
    using kill_progress [OF D(1,2) k D(3) [OF exit_current.prems(2)]] exit_current.hyps(2) unfolding D(4)
    by (metis option.inject prod.inject)+
  then show ?case unfolding closer_def ticks_left_def by auto
next
  case (work s' s)
  then show ?case by (simp add: closer_def sys_ok_def ticks_left_def turns_def)
qed (simp_all add: console_rx_closer net_rx_closer)

lemma waiting_not_current: "sys_ok s \<Longrightarrow> waiting P (s_proc s) \<Longrightarrow> cur_proc (s_proc s) \<noteq> Some P"
  using table_okD(3) [OF sys_okD(1), of s P] by (auto simp: waiting_def runnable_nat)

lemma kept_bound:
  assumes "kept_waiting P s n t" "sys_ok s"
  shows "sys_ok t \<and> waiting P (s_proc t) \<and> n + ticks_left P (s_sched t) \<le> ticks_left P (s_sched s)"
  using assms
proof (induction rule: kept_waiting.induct)
  case (tick n t u)
  then have t: "sys_ok t" "waiting P (s_proc t)" "n + ticks_left P (s_sched t) \<le> ticks_left P (s_sched s)" by auto
  have "closer P 1 t u" using step_closer [OF tick.hyps(2) t(1,2)] tick.hyps(3) by simp
  then show ?case using waiting_not_current [of u P] tick.hyps(3) t(3) unfolding closer_def by auto
next
  case (other n t u)
  then have t: "sys_ok t" "waiting P (s_proc t)" "n + ticks_left P (s_sched t) \<le> ticks_left P (s_sched s)" by auto
  have "closer P 0 t u" using step_closer [OF other.hyps(2) t(1,2)] other.hyps(3) by simp
  then show ?case using waiting_not_current [of u P] other.hyps(3) t(3) unfolding closer_def by auto
qed simp

end
