(* ===== verification/Sched_Claims.thy ===== *)
theory Sched_Claims
  imports Sched_Run Authority_Steps
begin

text \<open>
  The scheduler's promises, with a run of the operations on a table of five processes as their witness,
  and one promise it does not keep.
\<close>

section \<open>The example table\<close>

definition demo_slot :: "nat \<Rightarrow> proc_t" where
  "demo_slot i = zero_pcb\<lparr>p_pid := of_nat i, p_state := (if i = 2 then PROCESS_STATE_RUNNING else PROCESS_STATE_READY), p_priority := 2,
     p_magic_ok := True, p_context := zero_ctx\<lparr>ctx_rip := of_nat i, ctx_cs := 8\<rparr>, p_context_valid := True,
     p_next := (if i = 4 then Some 3 else if i = 3 then Some 1 else if i = 1 then Some 0 else None),
     p_prev := (if i = 3 then Some 4 else if i = 1 then Some 3 else if i = 0 then Some 1 else None)\<rparr>"

definition demo_procs :: proc_state where
  "demo_procs = \<lparr>ptable = (\<lambda>i. if i < 5 then demo_slot i else zero_pcb), ptable_init = True, pgen_next = 6, pgen = (\<lambda>_. 1),
     cur_proc = Some 2, ready_queue = (\<lambda>q. if q = 2 then Some 4 else None),
     pstats = \<lparr>total_processes = 5, active_processes = 5, zombie_processes = 0, context_switches = 0\<rparr>, fail_next_create = False\<rparr>"

definition demo_sched :: sched_state where
  "demo_sched = \<lparr>switch_count = 0, quantum_counter = 0, preempt_count = 0, boost_count = 0, consec_boost = 2, pick_was_boost = False,
     com2_holder_pid = 0, com2_holder_gen = 0, cons_reader_pid = 4, cons_reader_gen = 1, cons_reader_waiting = True,
     net_thread_pid = 0, rr_cursor = 2, loaded_cr3 = 0\<rparr>"

definition demo_sys :: sys where
  "demo_sys = \<lparr>s_proc = demo_procs,
     s_auth = demo_kernel\<lparr>k_caps := snd (cap_create 10 4 CAP_RESOURCE_DEVICE DEVICE_ID_CONSOLE CAP_READ 0 (cap_init cap_boot))\<rparr>,
     s_sched = demo_sched\<rparr>"

lemma demo_pcb [simp]:
  "p_state (ptable demo_procs k) = (if k = 2 then PROCESS_STATE_RUNNING else if k < 5 then PROCESS_STATE_READY else PROCESS_STATE_UNUSED)"
  "p_priority (ptable demo_procs k) = (if k < 5 then 2 else 0)" "p_magic_ok (ptable demo_procs k) = (k < 5)"
  "k < 5 \<Longrightarrow> p_pid (ptable demo_procs k) = of_nat k" "p_context_valid (ptable demo_procs k) = (k < 5)"
  "p_io_boost (ptable demo_procs k) = False" "cur_proc demo_procs = Some 2"
  by (simp_all add: demo_procs_def demo_slot_def zero_pcb_def)

lemma demo_queues: "queues demo_procs (\<lambda>q. if q = 2 then [4, 3, 1, 0] else [])"
  unfolding queues_def by (auto simp: nxt_def prv_def demo_procs_def demo_slot_def zero_pcb_def dest: spec [of _ 2])

lemma demo_procs_ok: "table_ok demo_procs"
proof -
  have "p_state (ptable demo_procs i) = PROCESS_STATE_READY \<longleftrightarrow> (\<exists>q\<le>(5::nat). i \<in> set (if q = 2 then [4, 3, 1, 0] else []))" for i
    by (cases "i < 5") (auto simp: less_Suc_eq numeral_eq_Suc)
  then have "ready_exact demo_procs" unfolding ready_exact_def using demo_queues by blast
  then show ?thesis unfolding table_ok_def table_core_def by (auto split: if_splits)
qed

lemma demo_sys_ok: "sys_ok demo_sys"
  using demo_procs_ok by (simp add: sys_ok_def demo_sys_def demo_sched_def)

lemma demo_cur: "cur_proc (s_proc demo_sys) = Some 2"
  by (simp add: demo_sys_def)

lemma demo_pick: "fst (pick_next (p_pid (ptable (s_proc demo_sys) 2)) demo_sys) = Some 3"
  by code_simp

text \<open>A reschedule hands over to the pick.\<close>

lemma reschedule_to:
  assumes "sys_ok s" and c: "cur_proc (s_proc s) = Some c" and p: "fst (pick_next (p_pid (ptable (s_proc s) c)) s) = Some i"
  shows "cur_proc (s_proc (snd (scheduler_reschedule now kcr frame s))) = Some i"
proof -
  have q: "fst (pick_next pid (s\<lparr>s_sched := (s_sched s)\<lparr>quantum_counter := 0\<rparr>\<rparr>)) = fst (pick_next pid s)" for pid
    unfolding pick_next_def Let_def by (simp split: option.split)
  note d = sys_okD [OF assms(1)]
  note sv = save_effect [OF d(1) c, where frame = frame]
  show ?thesis using assms(1) c
  proof (cases rule: reschedule_cases [where now = now and kcr = kcr and frame = frame and P = 0])
    case stay
    then show ?thesis using p q by simp
  next
    case (switch k b)
    have k: "k = i" using switch(1) p q by (metis fst_conv option.inject)
    define s' where "s' = snd (scheduler_reschedule now kcr frame s)"
    note D = dispatch_effect [OF _ _ _ _ s'_def [unfolded switch(6)]]
    show ?thesis using D(2) sv switch(2-4) unfolding s'_def k by (simp add: runnable_nat)
  qed
qed

lemma demo_cap: "cap_find_resource 50 4 CAP_RESOURCE_DEVICE CAP_READ DEVICE_ID_CONSOLE (k_caps (s_auth demo_sys)) = Inr ()"
  by code_simp

text \<open>What happens to a process that is taken off the processor alive, and to one that was dropped.\<close>

lemma quantum_keeps:
  assumes "sys_ok s" "cur_proc (s_proc s) = Some c" "p_state (ptable (s_proc s) c) = PROCESS_STATE_RUNNING"
  shows "p_state (ptable (s_proc (snd (quantum_step now kcr frame s))) c) \<in> {PROCESS_STATE_RUNNING, PROCESS_STATE_READY}"
  using assms(1)
proof (cases rule: quantum_cases [where now = now and kcr = kcr and frame = frame and P = 0])
  case slice
  then show ?thesis using assms(3) by simp
next
  case (switch s2)
  have c: "cur_proc (s_proc s2) = Some c" using switch(3) assms(2) by simp
  note d = sys_okD [OF switch(2)]
  note sv = save_effect [OF d(1) c, where frame = frame]
  show ?thesis using switch(2) c
  proof (cases rule: reschedule_cases [where now = now and kcr = kcr and frame = frame and P = 0])
    case stay
    then show ?thesis using switch(1,3) assms(3) by simp
  next
    case sw: (switch i b)
    define s' where "s' = snd (scheduler_reschedule now kcr frame s2)"
    note D = dispatch_effect [OF _ _ _ _ s'_def [unfolded sw(6)]]
    have "p_state (ptable (s_proc s') c) = PROCESS_STATE_READY"
      using D(11) [of c] sv sw(2-4) switch(3) assms(3) by (simp add: runnable_nat)
    then show ?thesis unfolding switch(1) s'_def by simp
  qed
qed

lemma kill_keeps:
  assumes "table_core (s_proc s)" "none_running (s_proc s)" "scheduler_kill_current now kcr s = Some (f, s')"
    "p_state (ptable (s_proc s) c) = PROCESS_STATE_TERMINATED"
  shows "cur_proc (s_proc s') \<noteq> Some c \<and> p_state (ptable (s_proc s') c) = PROCESS_STATE_TERMINATED \<and> s_auth s' = s_auth s"
proof -
  let ?pid = "case cur_proc (s_proc s) of Some c \<Rightarrow> p_pid (ptable (s_proc s) c) | None \<Rightarrow> 0"
  obtain i where i: "fst (pick_next ?pid s) = Some i"
    using assms(3) unfolding scheduler_kill_current_def by (cases "fst (pick_next ?pid s)") (auto simp: case_prod_beta)
  obtain b where b: "pick_next ?pid s = (Some i, s\<lparr>s_sched := (s_sched s)\<lparr>pick_was_boost := b\<rparr>\<rparr>)" "i < 256" "runnable (s_proc s) i"
    by (rule pick_Some [OF i]) blast
  let ?s1 = "s\<lparr>s_sched := (s_sched s)\<lparr>pick_was_boost := b, quantum_counter := 0\<rparr>\<rparr>"
  have e: "s' = snd (dispatch now kcr i ?s1)" using assms(3) unfolding scheduler_kill_current_def b(1) by simp
  have "i \<noteq> c" using b(2,3) assms(4) by (auto simp: runnable_nat)
  then show ?thesis using dispatch_effect [OF _ _ _ _ e] assms(1,2,4) b(2,3) by (simp add: runnable_nat)
qed

section \<open>Invariant and progress\<close>




definition demo_tick :: tick_input where
  "demo_tick = \<lparr>ti_com2_rx = False, ti_vsock = False, ti_console_rx = False\<rparr>"

lemma demo_waiting: "waiting 4 (s_proc demo_sys)"
  by (simp add: waiting_def runnable_nat demo_sys_def)




section \<open>A turn that is lost\<close>

lemma boost_scan_finds:
  assumes "r < 256" "runnable ps r" "p_io_boost (ptable ps r)" "r \<noteq> IDLE_PROCESS_ID"
  shows "boost_scan from ps \<noteq> None"
proof
  assume "boost_scan from ps = None"
  then have n: "\<forall>off. 1 \<le> off \<and> off < 257 \<longrightarrow> \<not> (runnable ps (rot from off) \<and> p_io_boost (ptable ps (rot from off)) \<and> rot from off \<noteq> IDLE_PROCESS_ID)"
    by (simp add: boost_scan_def Let_def first_idx_None)
  have "1 \<le> Suc (dist from r) \<and> Suc (dist from r) < 257" using dist_lt [of "from" r] by simp
  then show False using n assms rot_dist [OF assms(1), of "from"] by metis
qed

lemma plain_scan_cong: "(\<forall>i<256. runnable ps' i = runnable ps i) \<Longrightarrow> plain_scan c ps' = plain_scan c ps"
  by (simp add: plain_scan_def)

text \<open>C22. The starvation guard has a hole (the poll of a tick may reschedule, and the same tick may reschedule
  again): when the boost budget is spent and a vsock key arrives, the forced plain pick hands the processor
  to the next process of the rotation, the tick charges it, and the still flagged reader takes the processor
  away before it ran one instruction; the rotation has moved past it.\<close>

theorem forced_turn_lost:
  assumes "sys_ok s" and "cur_proc (s_proc s) = Some c" and "consec_boost (s_sched s) = 2" and "com2_holder_pid (s_sched s) = 0"
    and "cons_reader_pid (s_sched s) = of_nat r" "r < 256" "2 \<le> r" "cons_reader_waiting (s_sched s)" "runnable (s_proc s) r"
    and "pgen (s_proc s) r = cons_reader_gen (s_sched s)"
    and "cap_find_resource now (of_nat r) CAP_RESOURCE_DEVICE CAP_READ DEVICE_ID_CONSOLE (k_caps (s_auth s)) = Inr ()"
    and "plain_scan (rr_cursor (s_sched s)) (s_proc s) = Some P" "P \<noteq> r" "ctx_cs (p_context (ptable (s_proc s) P)) AND 3 = 0"
    and "ti_vsock ti" "ti_console_rx ti"
  shows "\<exists>f s' j. scheduler_tick now kcr ti frame s = Some (f, s') \<and> cur_proc (s_proc s') = Some j \<and> j \<noteq> P
    \<and> rr_cursor (s_sched s') = of_nat P \<and> p_context (ptable (s_proc s') P) = p_context (ptable (s_proc s) P)
    \<and> p_state (ptable (s_proc s') P) = PROCESS_STATE_READY \<and> cpu_ticks (k_man (s_auth s') P) = cpu_ticks (k_man (s_auth s) P) + 1"
proof -
  note t = sys_okD(1) [OF assms(1)]
  note core = table_okD(1) [OF t] and cc = table_okD(3) [OF t assms(2)]
  have P: "P < 256" "runnable (s_proc s) P" using plain_scan_Some [OF assms(12)] by auto
  have rc: "r \<noteq> c" "P \<noteq> c" using assms(6,9) P cc by (auto simp: runnable_nat)
  have r0: "(of_nat r :: u32) \<noteq> 0" "unat (of_nat r :: u32) = r" "\<not> (of_nat r :: u32) \<ge> MAX_PROCESSES"
    using assms(6,7) pid_unat [OF assms(6)] by (auto simp: word_le_nat_alt unat_eq_zero [symmetric])
  let ?s1 = "s\<lparr>s_proc := upd r (\<lambda>p. p\<lparr>p_io_boost := True\<rparr>) (s_proc s), s_sched := (s_sched s)\<lparr>cons_reader_waiting := False\<rparr>\<rparr>"
  have hand: "handover_target (of_nat r) (s_proc s) = Some r"
    using assms(2,6,9) rc r0 by (simp add: handover_target_def slot_get_def runnable_def)
  have rx: "scheduler_console_rx now kcr (ti_console_rx ti) frame s = scheduler_reschedule now kcr frame ?s1"
    unfolding scheduler_console_rx_def Let_def using assms(5,8,10,11,16) r0 hand by (simp add: slot_generation_def)
  have com2: "com2_rx_boost_check now b s = s" for b by (simp add: com2_rx_boost_check_def Let_def assms(4))
  have o1: "sys_ok ?s1" by (rule sched_sameD(1) [OF boost_note_same assms(1)])
  have c1: "cur_proc (s_proc ?s1) = Some c" using assms(2) by simp
  let ?pid = "p_pid (ptable (s_proc ?s1) c)" and ?s2 = "?s1\<lparr>s_sched := (s_sched ?s1)\<lparr>quantum_counter := 0, pick_was_boost := False\<rparr>\<rparr>"
  have rn: "runnable (s_proc ?s1) k = runnable (s_proc s) k" if "k < 256" for k using that by (simp add: runnable_nat)
  have ps: "plain_scan (rr_cursor (s_sched s)) (s_proc ?s1) = Some P" using plain_scan_cong [of "s_proc ?s1" "s_proc s"] rn assms(12) by simp
  have pn: "pick_next ?pid (?s1\<lparr>s_sched := (s_sched ?s1)\<lparr>quantum_counter := 0\<rparr>\<rparr>) = (Some P, ?s2)"
    using assms(3) ps by (simp add: pick_next_def Let_def)
  define d where "d = dispatch now kcr P (?s2\<lparr>s_proc := save_context c frame (s_proc ?s1)\<rparr>)"
  have e2: "scheduler_reschedule now kcr frame ?s1 = d"
    unfolding scheduler_reschedule_def Let_def d_def using c1 pn rc(2) by simp
  define s2 where "s2 = snd d"
  note sv = save_effect [OF sys_okD(1) [OF o1] c1, where frame = frame]
  have "table_core (s_proc (?s2\<lparr>s_proc := save_context c frame (s_proc ?s1)\<rparr>))" "none_running (s_proc (?s2\<lparr>s_proc := save_context c frame (s_proc ?s1)\<rparr>))"
    "p_state (ptable (s_proc (?s2\<lparr>s_proc := save_context c frame (s_proc ?s1)\<rparr>)) P) = PROCESS_STATE_READY"
    using sv(1,2) sv(3) [OF rc(2)] P rc assms(13) by (simp_all add: runnable_nat)
  note D = dispatch_effect [OF this(1,2) P(1) this(3) s2_def [unfolded d_def]]
  have fr: "fst d = p_context (ptable (s_proc s) P)" using D(8) sv(5) [OF rc(2)] assms(13) by (simp add: d_def)
  have S2: "table_ok (s_proc s2)" "cur_proc (s_proc s2) = Some P" "rr_cursor (s_sched s2) = of_nat P" "consec_boost (s_sched s2) = 0"
    "quantum_counter (s_sched s2) = 0" "s_auth s2 = s_auth s" "p_context (ptable (s_proc s2) P) = p_context (ptable (s_proc s) P)"
    "p_state (ptable (s_proc s2) P) = PROCESS_STATE_RUNNING" "runnable (s_proc s2) r" "p_io_boost (ptable (s_proc s2) r)"
    using D(1-7) D(9) [of r] D(10,11) [of P] D(3) [OF assms(6)] sv(4) [OF rc(1) assms(6)] sv(5) [OF rc(2)] sv(7) [of r] rn [OF assms(6)] assms(6,9,13) rc by simp_all
  have ppid: "p_pid (ptable (s_proc s2) P) = of_nat P" using table_coreD(3) [OF table_okD(1) [OF S2(1)] P(1)] S2(8) by simp
  let ?s3 = "s2\<lparr>s_auth := (s_auth s2)\<lparr>k_man := manifest_tick (of_nat P) (k_man (s_auth s2))\<rparr>\<rparr>"
  let ?s4 = "?s3\<lparr>s_sched := (s_sched ?s3)\<lparr>quantum_counter := quantum_counter (s_sched ?s3) + 1\<rparr>\<rparr>"
  have pend: "boost_pending (s_proc s2)" unfolding boost_pending_def using S2(9,10) assms(6,7) by (intro bexI [of _ r]) auto
  have e4: "scheduler_tick now kcr ti frame s = Some (scheduler_reschedule now kcr (fst d) ?s4)"
  proof -
    have "scheduler_tick now kcr ti frame s = tick_charge now kcr (fst d) s2"
      unfolding scheduler_tick_def Let_def com2 using assms(15) rx e2 by (simp add: s2_def case_prod_beta)
    also have "\<dots> = Some (quantum_step now kcr (fst d) ?s3)"
      unfolding tick_charge_def Let_def using S2(2) ppid fr assms(14) by simp
    also have "quantum_step now kcr (fst d) ?s3 = scheduler_reschedule now kcr (fst d) ?s4"
      unfolding quantum_step_def Let_def using S2(5) pend by simp
    finally show ?thesis .
  qed
  have o4: "sys_ok ?s4" "cur_proc (s_proc ?s4) = Some P" using S2(1,2,4,5) by (simp_all add: sys_ok_def)
  obtain j where j: "boost_scan (of_nat P) (s_proc s2) = Some j" using boost_scan_finds [OF assms(6) S2(9,10)] assms(7) by fastforce
  have jP: "j < 256" "runnable (s_proc s2) j" "j \<noteq> P" using boost_scan_Some [OF j] S2(8) by (auto simp: runnable_nat)
  let ?s5 = "?s4\<lparr>s_sched := (s_sched ?s4)\<lparr>quantum_counter := 0, pick_was_boost := True\<rparr>\<rparr>"
  have pn4: "pick_next (p_pid (ptable (s_proc ?s4) P)) (?s4\<lparr>s_sched := (s_sched ?s4)\<lparr>quantum_counter := 0\<rparr>\<rparr>) = (Some j, ?s5)"
    using S2(4) j ppid by (simp add: pick_next_def Let_def)
  define e where "e = dispatch now kcr j (?s5\<lparr>s_proc := save_context P (fst d) (s_proc ?s4)\<rparr>)"
  have e5: "scheduler_reschedule now kcr (fst d) ?s4 = e"
    unfolding scheduler_reschedule_def Let_def e_def using o4(2) pn4 jP(3) by simp
  note sw = save_effect [OF sys_okD(1) [OF o4(1)] o4(2), where frame = "fst d"]
  define s6 where "s6 = snd e"
  have "table_core (s_proc (?s5\<lparr>s_proc := save_context P (fst d) (s_proc ?s4)\<rparr>))" "none_running (s_proc (?s5\<lparr>s_proc := save_context P (fst d) (s_proc ?s4)\<rparr>))"
    "p_state (ptable (s_proc (?s5\<lparr>s_proc := save_context P (fst d) (s_proc ?s4)\<rparr>)) j) = PROCESS_STATE_READY"
    using sw(1,2) sw(3) [OF jP(3)] jP by (simp_all add: runnable_nat)
  note E = dispatch_effect [OF this(1,2) jP(1) this(3) s6_def [unfolded e_def]]
  have "cpu_ticks (k_man (s_auth s6) P) = cpu_ticks (k_man (s_auth s) P) + 1"
    using E(7) S2(6) P(1) by (simp add: manifest_tick_def pid_unat word_less_nat_alt)
  moreover have "p_state (ptable (s_proc s6) P) = PROCESS_STATE_READY" "p_context (ptable (s_proc s6) P) = p_context (ptable (s_proc s) P)"
    using E(10,11) [of P] sw(6,8) jP(3) S2(8) fr by simp_all
  moreover have "rr_cursor (s_sched s6) = of_nat P" "cur_proc (s_proc s6) = Some j" using E(2,4) S2(3) by simp_all
  moreover have "scheduler_tick now kcr ti frame s = Some (fst e, s6)" using e4 e5 by (simp add: s6_def)
  ultimately show ?thesis using jP(3) by blast
qed

definition vsock_tick :: tick_input where
  "vsock_tick = \<lparr>ti_com2_rx = False, ti_vsock = True, ti_console_rx = True\<rparr>"

theorem forced_turn_lost_witness:
  "\<exists>f s' j. scheduler_tick 50 0 vsock_tick zero_ctx demo_sys = Some (f, s') \<and> cur_proc (s_proc s') = Some j \<and> j \<noteq> 3
     \<and> rr_cursor (s_sched s') = 3"
proof -
  have s: "consec_boost (s_sched demo_sys) = 2" "com2_holder_pid (s_sched demo_sys) = 0" "cons_reader_pid (s_sched demo_sys) = of_nat 4"
    "cons_reader_waiting (s_sched demo_sys)" "runnable (s_proc demo_sys) 4" "pgen (s_proc demo_sys) 4 = cons_reader_gen (s_sched demo_sys)"
    "ti_vsock vsock_tick" "ti_console_rx vsock_tick"
    by (simp_all add: demo_sys_def demo_sched_def vsock_tick_def runnable_nat) (simp add: demo_procs_def)
  have p: "plain_scan (rr_cursor (s_sched demo_sys)) (s_proc demo_sys) = Some 3" "ctx_cs (p_context (ptable (s_proc demo_sys) 3)) AND 3 = 0"
    by code_simp+
  show ?thesis
    using forced_turn_lost [OF demo_sys_ok demo_cur s(1-3) _ _ s(4-6) _ p(1) _ p(2) s(7,8), of 50 0 zero_ctx] demo_cap by auto
qed

end
